(* ===== verification/Prelude.thy ===== *)
theory Prelude
  imports Main "HOL-Library.Word" "HOL-Library.Sublist"
begin

text \<open>
  Shared vocabulary of the development: machine integers, the crate's error values, the
  calling convention for Rust methods, and the list and string operations of the Rust standard
  library that several components use.

  \<^item> \<^bold>\<open>Integers.\<close> \<open>u8\<close>, \<open>u32\<close> and \<open>u64\<close> are words of that width. \<open>usize\<close> is a \<open>nat\<close>;
    every \<open>checked_\<close> and \<open>saturating_\<close> operation compares with \<open>usize_max\<close>, the bound of the
    64-bit targets the project builds for.
  \<^item> \<^bold>\<open>Errors.\<close> \<open>eider_format::Error\<close> and \<open>eider_cuda::Error\<close> carry a static label and free text
    for a human. The model keeps the constructor and the label, which name the check that failed,
    and drops the text.
  \<^item> \<^bold>\<open>Methods.\<close> A function that returns \<open>Result<T>\<close> is a function into \<open>'a result\<close>. A method on
    \<open>&mut self\<close> that returns \<open>Result<T>\<close> returns the pair of its result and the new \<open>self\<close>,
    because Rust keeps the mutations made before an early \<open>Err\<close> return.
  \<^item> \<^bold>\<open>Strings.\<close> A \<open>String\<close> is its UTF-8 byte list; \<open>char\<close> is a byte.
\<close>

section \<open>Proof collections\<close>

named_theorems usize_simps \<open>unfolding of the checked and saturating usize operations\<close>
named_theorems result_simps \<open>unfolding of the result combinators\<close>

section \<open>Errors and results\<close>

datatype error = Shape string | Format string | Cuda string

type_synonym 'a result = "error + 'a"

abbreviation Ok :: "'a \<Rightarrow> 'a result" where "Ok \<equiv> Inr"
abbreviation Err :: "error \<Rightarrow> 'a result" where "Err \<equiv> Inl"

text \<open>The \<open>?\<close> operator on a pure result, and \<open>Option::ok_or_else\<close>.\<close>

definition bind_result :: "'a result \<Rightarrow> ('a \<Rightarrow> 'b result) \<Rightarrow> 'b result" where
  "bind_result r f = (case r of Inl e \<Rightarrow> Inl e | Inr x \<Rightarrow> f x)"

definition ok_or :: "'a option \<Rightarrow> error \<Rightarrow> 'a result" where
  "ok_or x e = (case x of None \<Rightarrow> Err e | Some v \<Rightarrow> Ok v)"

definition is_ok :: "'a result \<Rightarrow> bool" where
  "is_ok r = (case r of Inl _ \<Rightarrow> False | Inr _ \<Rightarrow> True)"

lemma bind_result_simps [simp]:
  "bind_result (Err e) f = Err e"
  "bind_result (Ok x) f = f x"
  by (simp_all add: bind_result_def)

lemma bind_result_eq_Ok [result_simps]:
  "bind_result r f = Ok y \<longleftrightarrow> (\<exists>x. r = Ok x \<and> f x = Ok y)"
  by (cases r) simp_all

lemma bind_result_cong [fundef_cong]:
  "r = r' \<Longrightarrow> (\<And>x. r' = Ok x \<Longrightarrow> f x = g x) \<Longrightarrow> bind_result r f = bind_result r' g"
  by (cases r') simp_all

lemma ok_or_eq [simp]:
  "ok_or x e = Ok v \<longleftrightarrow> x = Some v"
  "ok_or x e = Err e' \<longleftrightarrow> x = None \<and> e' = e"
  "ok_or (Some v) e = Ok v"
  "ok_or None e = Err e"
  by (auto simp: ok_or_def split: option.splits)

lemma is_ok_simps [simp]: "is_ok (Ok x)" "\<not> is_ok (Err e)"
  by (simp_all add: is_ok_def)

lemma is_ok_iff [result_simps]: "is_ok r \<longleftrightarrow> (\<exists>x. r = Ok x)"
  by (cases r) simp_all

text \<open>\<open>Iterator::collect::<Result<Vec<_>>>\<close>: the first error stops the traversal.\<close>

fun map_result :: "('a \<Rightarrow> 'b result) \<Rightarrow> 'a list \<Rightarrow> 'b list result" where
  "map_result f [] = Ok []"
| "map_result f (x # xs) = bind_result (f x) (\<lambda>y. bind_result (map_result f xs) (\<lambda>ys. Ok (y # ys)))"

lemma map_result_eq_Ok:
  "map_result f xs = Ok ys \<longleftrightarrow> list_all2 (\<lambda>x y. f x = Ok y) xs ys"
  by (induction xs arbitrary: ys) (auto simp: result_simps list_all2_Cons1)

text \<open>The \<open>?\<close> operator in a method on \<open>&mut self\<close>: an error returns with the state reached.\<close>

definition try_result :: "'a result \<Rightarrow> 's \<Rightarrow> ('a \<Rightarrow> 'b result \<times> 's) \<Rightarrow> 'b result \<times> 's" where
  "try_result r s k = (case r of Inl e \<Rightarrow> (Err e, s) | Inr x \<Rightarrow> k x)"

lemma try_result_simps [simp]:
  "try_result (Err e) s k = (Err e, s)"
  "try_result (Ok x) s k = k x"
  by (simp_all add: try_result_def)

lemma try_result_eq_Ok [result_simps]:
  "try_result r s k = (Ok y, t) \<longleftrightarrow> (\<exists>x. r = Ok x \<and> k x = (Ok y, t))"
  by (cases r) simp_all

text \<open>
  The CUDA runtime is not part of the repository. A model of code that calls it takes the status
  the call returns as an argument: \<open>Ok ()\<close>, or the \<open>Cuda\<close> error the wrapper raises.
\<close>

type_synonym cuda_status = "unit result"

section \<open>Machine integers\<close>

type_synonym u8 = "8 word"
type_synonym u32 = "32 word"
type_synonym u64 = "64 word"

definition u32_max :: nat where "u32_max = 2 ^ 32 - 1"
definition usize_max :: nat where "usize_max = 2 ^ 64 - 1"

definition checked_add :: "nat \<Rightarrow> nat \<Rightarrow> nat option" where
  "checked_add a b = (if a + b \<le> usize_max then Some (a + b) else None)"

definition checked_mul :: "nat \<Rightarrow> nat \<Rightarrow> nat option" where
  "checked_mul a b = (if a * b \<le> usize_max then Some (a * b) else None)"

definition checked_sub :: "nat \<Rightarrow> nat \<Rightarrow> nat option" where
  "checked_sub a b = (if b \<le> a then Some (a - b) else None)"

definition saturating_add :: "nat \<Rightarrow> nat \<Rightarrow> nat" where
  "saturating_add a b = min (a + b) usize_max"

definition saturating_mul :: "nat \<Rightarrow> nat \<Rightarrow> nat" where
  "saturating_mul a b = min (a * b) usize_max"

definition div_ceil :: "nat \<Rightarrow> nat \<Rightarrow> nat" where
  "div_ceil a b = (if a mod b = 0 then a div b else a div b + 1)"

definition checked_mul_u64 :: "u64 \<Rightarrow> u64 \<Rightarrow> u64 option" where
  "checked_mul_u64 a b = (if unat a * unat b < 2 ^ 64 then Some (a * b) else None)"

lemma checked_eq_Some [usize_simps]:
  "checked_add a b = Some c \<longleftrightarrow> c = a + b \<and> a + b \<le> usize_max"
  "checked_mul a b = Some c \<longleftrightarrow> c = a * b \<and> a * b \<le> usize_max"
  "checked_sub a b = Some c \<longleftrightarrow> c = a - b \<and> b \<le> a"
  by (auto simp: checked_add_def checked_mul_def checked_sub_def)

lemma checked_eq_None [usize_simps]:
  "checked_add a b = None \<longleftrightarrow> usize_max < a + b"
  "checked_mul a b = None \<longleftrightarrow> usize_max < a * b"
  "checked_sub a b = None \<longleftrightarrow> a < b"
  by (auto simp: checked_add_def checked_mul_def checked_sub_def)

lemma div_ceil_bounds:
  assumes "0 < b"
  shows "a \<le> div_ceil a b * b" and "div_ceil a b * b < a + b"
proof -
  have eq: "a = a div b * b + a mod b" by simp
  moreover have "a mod b < b" using assms by simp
  ultimately show "a \<le> div_ceil a b * b" "div_ceil a b * b < a + b"
    unfolding div_ceil_def by (simp_all add: add_mult_distrib del: div_mult_mod_eq) (use eq in linarith)+
qed

lemma mod_add_mult_mod: "((h + t * (a mod m)) mod m + x) mod m = (h + t * a + x) mod (m :: nat)"
proof -
  have "((h + t * (a mod m)) mod m + x) mod m = ((h + x) + t * (a mod m)) mod m"
    unfolding mod_add_left_eq by (simp add: ac_simps)
  also have "\<dots> = ((h + x) + t * a) mod m"
    by (metis mod_add_right_eq mod_mult_right_eq)
  finally show ?thesis by (simp add: ac_simps)
qed

lemma unat_u32_le: "unat (w :: u32) \<le> u32_max"
  using unsigned_less [of w, where 'a = nat] by (simp add: u32_max_def)

lemma u32_max_le_usize_max: "u32_max \<le> usize_max"
  by (simp add: u32_max_def usize_max_def)

lemma unat_of_nat_u32: "n \<le> u32_max \<Longrightarrow> unat (of_nat n :: u32) = n"
  by (simp add: unsigned_of_nat take_bit_nat_eq_self u32_max_def)

lemma unat_of_nat_u64: "n \<le> usize_max \<Longrightarrow> unat (of_nat n :: u64) = n"
  by (simp add: unsigned_of_nat take_bit_nat_eq_self usize_max_def)

lemma unat_u64_le: "unat (w :: u64) \<le> usize_max"
proof -
  have "unat w < 2 ^ 64" using unsigned_less [of w] by simp
  then show ?thesis by (simp add: usize_max_def)
qed

lemma unat_ucast_u32_u64: "unat (ucast (w :: u32) :: u64) = unat w"
  using unsigned_less [of w, where 'a = nat]
  by (simp add: unsigned_ucast_eq take_bit_nat_eq_self)

lemma unat_ucast_u64_u32: "unat w < 2 ^ 32 \<Longrightarrow> unat (ucast (w :: u64) :: u32) = unat w"
  by (simp add: unsigned_ucast_eq take_bit_nat_eq_self)

lemma unat_mult_u64: "unat a * unat b < 2 ^ 64 \<Longrightarrow> unat (a * b :: u64) = unat a * unat b"
  by (simp add: unat_word_ariths)

lemma unat_add_u64: "unat a + unat b < 2 ^ 64 \<Longrightarrow> unat (a + b :: u64) = unat a + unat b"
  by (simp add: unat_word_ariths)

lemma unat_add_u32: "unat a + unat b < 2 ^ 32 \<Longrightarrow> unat (a + b :: u32) = unat a + unat b"
  by (simp add: unat_word_ariths)

lemma unat_mult_u32_widened: "unat (ucast (a :: u32) * ucast (b :: u32) :: u64) = unat a * unat b"
proof -
  have "unat a * unat b < 2 ^ 32 * 2 ^ 32"
    using unsigned_less [of a, where 'a = nat] unsigned_less [of b, where 'a = nat]
    by (intro mult_strict_mono) simp_all
  then show ?thesis by (subst unat_mult_u64) (simp_all add: unat_ucast_u32_u64)
qed

section \<open>Lists\<close>

text \<open>\<open>Iterator::position\<close>.\<close>

fun position :: "('a \<Rightarrow> bool) \<Rightarrow> 'a list \<Rightarrow> nat option" where
  "position p [] = None"
| "position p (x # xs) = (if p x then Some 0 else map_option Suc (position p xs))"

lemma position_None: "position p xs = None \<longleftrightarrow> (\<forall>x \<in> set xs. \<not> p x)"
  by (induction xs) auto

lemma position_Some:
  "position p xs = Some i \<Longrightarrow> i < length xs \<and> p (xs ! i) \<and> (\<forall>j < i. \<not> p (xs ! j))"
  by (induction xs arbitrary: i) (auto split: if_splits simp: less_Suc_eq_0_disj)

text \<open>
  \<open>Iterator::min_by\<close> (and \<open>min_by_key\<close>) with the strict order \<open>lt\<close> of the comparison: of several
  minimal elements the first is returned.
\<close>

fun min_by :: "('a \<Rightarrow> 'a \<Rightarrow> bool) \<Rightarrow> 'a list \<Rightarrow> 'a option" where
  "min_by lt [] = None"
| "min_by lt (x # xs) =
     (case min_by lt xs of None \<Rightarrow> Some x | Some m \<Rightarrow> Some (if lt m x then m else x))"

lemma min_by_Some:
  assumes "min_by lt xs = Some m"
    and asym: "\<And>a b. lt a b \<Longrightarrow> \<not> lt b a" and trans: "\<And>a b c. lt c a \<Longrightarrow> lt c b \<or> lt b a"
  shows "m \<in> set xs \<and> (\<forall>y \<in> set xs. \<not> lt y m)"
  using assms(1)
proof (induction xs arbitrary: m)
  case (Cons x xs)
  show ?case
  proof (cases "min_by lt xs")
    case None
    then have "xs = []" by (cases xs) (auto split: option.splits)
    with Cons.prems show ?thesis by (auto dest: asym)
  next
    case (Some k)
    with Cons have "k \<in> set xs" "\<forall>y \<in> set xs. \<not> lt y k" by auto
    with Some Cons.prems show ?thesis
      by (auto split: if_splits dest: trans asym)
  qed
qed simp

lemma min_by_None [simp]: "min_by lt xs = None \<longleftrightarrow> xs = []"
  by (cases xs) (simp_all split: option.split)

text \<open>\<open>slice::get\<close> and \<open>slice::get_mut\<close>: \<open>None\<close> out of range.\<close>

definition get :: "'a list \<Rightarrow> nat \<Rightarrow> 'a option" where
  "get xs i = (if i < length xs then Some (xs ! i) else None)"

lemma get_eq_Some [simp]: "get xs i = Some x \<longleftrightarrow> i < length xs \<and> xs ! i = x"
  by (auto simp: get_def)

lemma get_eq_None [simp]: "get xs i = None \<longleftrightarrow> length xs \<le> i"
  by (auto simp: get_def)

text \<open>\<open>slice::get\<close> with a range: \<open>None\<close> when the range is inverted or leaves the slice.\<close>

definition get_range :: "'a list \<Rightarrow> nat \<Rightarrow> nat \<Rightarrow> 'a list option" where
  "get_range xs a b = (if a \<le> b \<and> b \<le> length xs then Some (take (b - a) (drop a xs)) else None)"

lemma nth_list_update_lt: "j < length xs \<Longrightarrow> xs[i := x] ! j = (if i = j then x else xs ! j)"
  by (cases "i = j") simp_all

text \<open>Overwriting the range that starts at \<open>at\<close>: \<open>copy_from_slice\<close> and device row copies.\<close>

definition write_at :: "'a list \<Rightarrow> nat \<Rightarrow> 'a list \<Rightarrow> 'a list" where
  "write_at xs at ys = take at xs @ ys @ drop (at + length ys) xs"

lemma length_write_at [simp]: "at + length ys \<le> length xs \<Longrightarrow> length (write_at xs at ys) = length xs"
  by (simp add: write_at_def)

lemma take_write_at: "n \<le> at \<Longrightarrow> at \<le> length xs \<Longrightarrow> take n (write_at xs at ys) = take n xs"
  by (simp add: write_at_def min_def)

lemma nth_write_at:
  "at + length ys \<le> length xs \<Longrightarrow> i < length xs \<Longrightarrow>
   write_at xs at ys ! i = (if at \<le> i \<and> i < at + length ys then ys ! (i - at) else xs ! i)"
  by (auto simp: write_at_def nth_append min_def)

lemma drop_write_at:
  "at + length ys \<le> n \<Longrightarrow> n \<le> length xs \<Longrightarrow> drop n (write_at xs at ys) = drop n xs"
  by (rule nth_equalityI) (auto simp: nth_write_at)

lemma write_at_read:
  "at + length ys \<le> length xs \<Longrightarrow> take (length ys) (drop at (write_at xs at ys)) = ys"
  by (simp add: write_at_def)

lemma write_at_commute:
  assumes "i + length ys \<le> length xs" "j + length zs \<le> length xs"
    "i + length ys \<le> j \<or> j + length zs \<le> i"
  shows "write_at (write_at xs i ys) j zs = write_at (write_at xs j zs) i ys"
  using assms by (intro nth_equalityI) (auto simp: nth_write_at)

lemma take_write_at_end:
  "at \<le> length xs \<Longrightarrow> take (at + length ys) (write_at xs at ys) = take at xs @ ys"
  by (simp add: write_at_def min_def)

section \<open>Byte strings\<close>

text \<open>\<open>str::find\<close> with a string pattern: the least byte index at which the pattern occurs.\<close>

fun find_sub :: "'a list \<Rightarrow> 'a list \<Rightarrow> nat option" where
  "find_sub pat [] = (if pat = [] then Some 0 else None)"
| "find_sub pat (x # xs) =
     (if prefix pat (x # xs) then Some 0 else map_option Suc (find_sub pat xs))"

text \<open>\<open>occurs_at pat s i\<close>: the pattern stands at index \<open>i\<close> of \<open>s\<close>.\<close>

definition occurs_at :: "'a list \<Rightarrow> 'a list \<Rightarrow> nat \<Rightarrow> bool" where
  "occurs_at pat s i \<longleftrightarrow> i \<le> length s \<and> prefix pat (drop i s)"

lemma occurs_at_0 [simp]: "occurs_at pat s 0 \<longleftrightarrow> prefix pat s"
  by (simp add: occurs_at_def)

lemma occurs_at_Suc [simp]: "occurs_at pat (x # xs) (Suc i) \<longleftrightarrow> occurs_at pat xs i"
  by (simp add: occurs_at_def)

lemma occurs_at_length: "occurs_at pat s i \<Longrightarrow> i + length pat \<le> length s"
  unfolding occurs_at_def using prefix_length_le by fastforce

lemma occurs_at_take: "occurs_at pat s i \<longleftrightarrow> i \<le> length s \<and> take (length pat) (drop i s) = pat"
  by (auto simp: occurs_at_def prefix_def) (metis append_take_drop_id)

lemma occurs_at_append: "occurs_at pat s i \<Longrightarrow> occurs_at pat (s @ t) i"
  by (auto simp: occurs_at_def prefix_def)

lemma occurs_at_appendD:
  "occurs_at pat (s @ t) i \<Longrightarrow> i + length pat \<le> length s \<Longrightarrow> occurs_at pat s i"
  by (simp add: occurs_at_take)

lemma occurs_at_shift: "occurs_at pat (s @ t) (length s + i) \<longleftrightarrow> occurs_at pat t i"
  by (simp add: occurs_at_def)

lemma find_sub_Some:
  "find_sub pat s = Some i \<Longrightarrow> occurs_at pat s i \<and> (\<forall>j < i. \<not> occurs_at pat s j)"
proof (induction s arbitrary: i)
  case Nil
  then show ?case by (simp split: if_splits)
next
  case (Cons x xs)
  then show ?case by (auto split: if_splits simp: less_Suc_eq_0_disj)
qed

lemma find_sub_None: "find_sub pat s = None \<longleftrightarrow> (\<forall>i. \<not> occurs_at pat s i)"
proof (induction s)
  case Nil
  then show ?case by (auto simp: occurs_at_def)
next
  case (Cons x xs)
  have "(\<forall>i. \<not> occurs_at pat (x # xs) i) \<longleftrightarrow>
      \<not> prefix pat (x # xs) \<and> (\<forall>i. \<not> occurs_at pat xs i)"
    by (metis not0_implies_Suc occurs_at_0 occurs_at_Suc)
  with Cons show ?case by auto
qed

lemma find_sub_eq_Some:
  "find_sub pat s = Some i \<longleftrightarrow> occurs_at pat s i \<and> (\<forall>j < i. \<not> occurs_at pat s j)"
proof
  assume r: "occurs_at pat s i \<and> (\<forall>j < i. \<not> occurs_at pat s j)"
  then obtain k where "find_sub pat s = Some k"
    using find_sub_None [of pat s] by auto
  with r find_sub_Some [of pat s k] show "find_sub pat s = Some i"
    by (metis linorder_neqE_nat)
qed (rule find_sub_Some)

text \<open>
  A continuation byte of UTF-8 is \<open>10xxxxxx\<close>; \<open>str::is_char_boundary\<close> holds at the end of the
  string and before every other byte.
\<close>

definition is_continuation :: "char \<Rightarrow> bool" where
  "is_continuation c \<longleftrightarrow> 128 \<le> (of_char c :: nat) \<and> (of_char c :: nat) < 192"

definition char_boundary :: "string \<Rightarrow> nat \<Rightarrow> bool" where
  "char_boundary s i \<longleftrightarrow> i = length s \<or> i < length s \<and> \<not> is_continuation (s ! i)"

text \<open>What the type \<open>str\<close> guarantees of the first byte.\<close>

definition utf8_start :: "string \<Rightarrow> bool" where
  "utf8_start s \<longleftrightarrow> (case s of [] \<Rightarrow> True | c # _ \<Rightarrow> \<not> is_continuation c)"

lemma find_sub_append: "find_sub m s = Some i \<Longrightarrow> m \<noteq> [] \<Longrightarrow> find_sub m (s @ t) = Some i"
proof -
  assume i: "find_sub m s = Some i" and ne: "m \<noteq> []"
  note occ = find_sub_Some [OF i]
  have "\<not> occurs_at m (s @ t) j" if "j < i" for j
  proof
    assume "occurs_at m (s @ t) j"
    moreover have "j + length m \<le> length s" using that occurs_at_length [of m s i] occ by simp
    ultimately show False using occ that occurs_at_appendD by blast
  qed
  with occ show ?thesis by (auto simp: find_sub_eq_Some intro: occurs_at_append)
qed

section \<open>Searching for tags\<close>

text \<open>A tag starts with the only \<open><\<close> and ends with the only \<open>>\<close> it contains.\<close>

definition tag :: "string \<Rightarrow> bool" where
  "tag m \<longleftrightarrow> m \<noteq> [] \<and> hd m = CHR ''<'' \<and> CHR ''<'' \<notin> set (tl m) \<and>
     last m = CHR ''>'' \<and> CHR ''>'' \<notin> set (butlast m)"

lemma tag_nonempty [simp]: "tag m \<Longrightarrow> m \<noteq> []"
  by (simp add: tag_def)

lemma tag_inner_open:
  assumes "tag m" "i < length m" "m ! i = CHR ''<''"
  shows "i = 0"
proof (rule ccontr)
  assume "i \<noteq> 0"
  then have "m ! i = tl m ! (i - 1)" "i - 1 < length (tl m)"
    using assms(2) by (auto simp: nth_tl)
  then have "m ! i \<in> set (tl m)" by (metis nth_mem)
  with assms show False by (auto simp: tag_def)
qed

lemma tag_inner_close:
  assumes "tag m" "i < length m" "m ! i = CHR ''>''"
  shows "i = length m - 1"
proof (rule ccontr)
  assume "i \<noteq> length m - 1"
  then have "m ! i = butlast m ! i" "i < length (butlast m)"
    using assms(2) by (auto simp: nth_butlast)
  then have "m ! i \<in> set (butlast m)" by (metis nth_mem)
  with assms show False by (auto simp: tag_def)
qed

lemma tag_prefix_eq:
  assumes "tag m" "tag m'" "prefix m m'"
  shows "m = m'"
proof -
  have len: "length m \<le> length m'" using assms(3) by (rule prefix_length_le)
  have "m ! (length m - 1) = CHR ''>''"
    using assms(1) by (metis last_conv_nth tag_def)
  then have "m' ! (length m - 1) = CHR ''>''"
    using assms(1,3) by (auto simp: prefix_def nth_append tag_def)
  then have "length m - 1 = length m' - 1"
    using len tag_nonempty [OF assms(1)] assms(2) by (intro tag_inner_close) (cases m; simp)+
  moreover have "0 < length m" "0 < length m'" using assms(1,2) by simp_all
  ultimately have "length m = length m'" by linarith
  with assms(3) show ?thesis by (auto simp: prefix_def)
qed

lemma occurs_at_nth: "occurs_at m s i \<Longrightarrow> k < length m \<Longrightarrow> s ! (i + k) = m ! k"
  by (auto simp: occurs_at_take) (metis nth_drop nth_take)

lemma tags_same_place:
  "tag m \<Longrightarrow> tag m' \<Longrightarrow> occurs_at m s i \<Longrightarrow> occurs_at m' s i \<Longrightarrow> m = m'"
  by (metis occurs_at_def prefix_same_cases tag_prefix_eq)

lemma tags_disjoint:
  assumes "tag m" "tag m'" "occurs_at m s i" "occurs_at m' s j" "j < i"
  shows "j + length m' \<le> i"
proof (rule ccontr)
  assume "\<not> j + length m' \<le> i"
  then have k: "i - j < length m'" using assms(5) by arith
  have "s ! i = CHR ''<''"
    using occurs_at_nth [OF assms(3), of 0] assms(1) by (cases m) (auto simp: tag_def)
  then have "m' ! (i - j) = CHR ''<''"
    using occurs_at_nth [OF assms(4) k] assms(5) by simp
  from tag_inner_open [OF assms(2) k this] assms(5) show False by simp
qed

end
