(* ===== verification/Stop_Buffer.thy ===== *)
theory Stop_Buffer
  imports Prelude
begin

text \<open>
  The incremental stop-sequence matcher of \<open>crates/eider-runtime/src/stop.rs\<close>. Generated text
  arrives in chunks; \<open>push\<close> returns the text that is safe to show and withholds the longest tail
  that may still grow into a stop sequence.

  \<open>StopBuffer\<close> and \<open>StopOutput\<close> are the two structs, \<open>earliest_match\<close>, \<open>push\<close> and \<open>finish\<close> the
  methods. \<open>stop_stream\<close> is the client's loop: it pushes chunk after chunk and stops at a match.
  The properties say what the stream shows for every way of cutting the text into chunks.
\<close>

section \<open>Model\<close>

record StopOutput =
  stop_text :: string
  stop_matched :: "string option"

record StopBuffer =
  sequences :: "string list"
  pending :: string

definition stop_new :: "string list \<Rightarrow> StopBuffer" where
  "stop_new seqs = \<lparr>sequences = seqs, pending = []\<rparr>"

text \<open>
  Matches are ordered by position and then by decreasing length; \<open>find_matches\<close> is the
  \<open>filter_map\<close> over the sequences.
\<close>

definition match_before :: "nat \<times> string \<Rightarrow> nat \<times> string \<Rightarrow> bool" where
  "match_before l r \<longleftrightarrow> fst l < fst r \<or> fst l = fst r \<and> length (snd r) < length (snd l)"

definition find_matches :: "string list \<Rightarrow> string \<Rightarrow> (nat \<times> string) list" where
  "find_matches seqs p =
     List.map_filter (\<lambda>s. map_option (\<lambda>i. (i, s)) (find_sub s p)) seqs"

definition earliest_match :: "StopBuffer \<Rightarrow> (nat \<times> string) option" where
  "earliest_match b = min_by match_before (find_matches (sequences b) (pending b))"

text \<open>The byte lengths of the suffixes, cut at character boundaries, that begin a stop sequence.\<close>

definition holdback_lengths :: "string list \<Rightarrow> string \<Rightarrow> nat list" where
  "holdback_lengths seqs p =
     map (\<lambda>i. length p - i)
       (filter (\<lambda>i. char_boundary p i \<and> list_ex (\<lambda>s. prefix (drop i p) s) seqs)
         [0..<Suc (length p)])"

definition holdback :: "string list \<Rightarrow> string \<Rightarrow> nat" where
  "holdback seqs p = fold max (holdback_lengths seqs p) 0"

definition push :: "StopBuffer \<Rightarrow> string \<Rightarrow> StopOutput \<times> StopBuffer" where
  "push b chunk =
     (let b = b\<lparr>pending := pending b @ chunk\<rparr> in
      case earliest_match b of
        Some (index, s) \<Rightarrow>
          (\<lparr>stop_text = take index (pending b), stop_matched = Some s\<rparr>, b\<lparr>pending := []\<rparr>)
      | None \<Rightarrow>
          let emit_len = length (pending b) - holdback (sequences b) (pending b) in
          (\<lparr>stop_text = take emit_len (pending b), stop_matched = None\<rparr>,
           b\<lparr>pending := drop emit_len (pending b)\<rparr>))"

definition finish :: "StopBuffer \<Rightarrow> string \<times> StopBuffer" where
  "finish b = (pending b, b\<lparr>pending := []\<rparr>)"

text \<open>The client's loop: the text shown, the sequence that stopped it, and the buffer left.\<close>

fun stop_stream :: "StopBuffer \<Rightarrow> string list \<Rightarrow> string \<times> string option \<times> StopBuffer" where
  "stop_stream b [] = ([], None, b)"
| "stop_stream b (c # cs) =
     (case push b c of (r, b') \<Rightarrow>
        (case stop_matched r of
           Some s \<Rightarrow> (stop_text r, Some s, b')
         | None \<Rightarrow> (case stop_stream b' cs of (t, m, b'') \<Rightarrow> (stop_text r @ t, m, b''))))"

section \<open>The matcher\<close>

lemma find_matches_iff:
  "(i, s) \<in> set (find_matches seqs p) \<longleftrightarrow> s \<in> set seqs \<and> find_sub s p = Some i"
  by (force simp: find_matches_def List.map_filter_def)

lemma find_matches_Nil:
  "find_matches seqs p = [] \<longleftrightarrow> (\<forall>s \<in> set seqs. \<forall>i. \<not> occurs_at s p i)"
proof -
  have "find_matches seqs p = [] \<longleftrightarrow> (\<forall>s \<in> set seqs. find_sub s p = None)"
    by (auto simp: find_matches_def List.map_filter_def filter_empty_conv)
  then show ?thesis by (simp add: find_sub_None)
qed

lemma earliest_match_None:
  "earliest_match b = None \<longleftrightarrow> (\<forall>s \<in> set (sequences b). \<forall>i. \<not> occurs_at s (pending b) i)"
  by (simp add: earliest_match_def find_matches_Nil)

lemma earliest_match_Some:
  assumes "earliest_match b = Some (i, s)"
  shows "s \<in> set (sequences b)" and "occurs_at s (pending b) i"
    and "\<And>s' j. s' \<in> set (sequences b) \<Longrightarrow> occurs_at s' (pending b) j \<Longrightarrow>
           i < j \<or> i = j \<and> length s' \<le> length s"
proof -
  have m: "(i, s) \<in> set (find_matches (sequences b) (pending b)) \<and>
      (\<forall>y \<in> set (find_matches (sequences b) (pending b)). \<not> match_before y (i, s))"
    using assms unfolding earliest_match_def
    by (rule min_by_Some) (auto simp: match_before_def)
  then show s: "s \<in> set (sequences b)" and "occurs_at s (pending b) i"
    by (auto simp: find_matches_iff dest: find_sub_Some)
  fix s' j
  assume s': "s' \<in> set (sequences b)" "occurs_at s' (pending b) j"
  then obtain k where k: "find_sub s' (pending b) = Some k"
    using find_sub_None [of s' "pending b"] by auto
  with s' m have "\<not> match_before (k, s') (i, s)"
    by (auto simp: find_matches_iff)
  moreover have "k \<le> j"
    using find_sub_Some [OF k] s'(2) by (meson not_le_imp_less)
  ultimately show "i < j \<or> i = j \<and> length s' \<le> length s"
    by (auto simp: match_before_def not_less)
qed

section \<open>The holdback\<close>

lemma fold_max_ge: "(a :: nat) \<le> fold max xs a" "x \<in> set xs \<Longrightarrow> x \<le> fold max xs a"
proof (induction xs arbitrary: a)
  case (Cons y ys)
  { case 1 then show ?case using Cons(1) [of "max y a"] by simp }
  { case 2 then show ?case
      using Cons(1) [of "max y a"] Cons(2) [of "max y a"] by auto }
qed simp_all

lemma fold_max_mem: "fold max xs (a :: nat) \<in> insert a (set xs)"
proof (induction xs arbitrary: a)
  case (Cons y ys)
  from Cons [of "max y a"] show ?case by (auto simp: max_def split: if_splits)
qed simp

lemma holdback_le: "holdback seqs p \<le> length p"
  using fold_max_mem [of "holdback_lengths seqs p" 0]
  by (auto simp: holdback_def holdback_lengths_def)

lemma holdback_ge:
  assumes "i \<le> length p" "char_boundary p i" "s \<in> set seqs" "prefix (drop i p) s"
  shows "length p - i \<le> holdback seqs p"
proof -
  have "length p - i \<in> set (holdback_lengths seqs p)"
    using assms by (auto simp: holdback_lengths_def list_ex_iff less_Suc_eq_le simp del: upt_Suc)
  then show ?thesis unfolding holdback_def by (rule fold_max_ge)
qed

lemma holdback_tight:
  "holdback seqs p = 0 \<or> (\<exists>s \<in> set seqs. prefix (drop (length p - holdback seqs p) p) s)"
proof -
  consider "holdback seqs p = 0" | "holdback seqs p \<in> set (holdback_lengths seqs p)"
    using fold_max_mem [of "holdback_lengths seqs p" 0] by (auto simp: holdback_def)
  then show ?thesis
    by cases (auto simp: holdback_lengths_def list_ex_iff simp del: upt_Suc)
qed

text \<open>
  A stop sequence that is not complete in \<open>p\<close> but may complete in an extension starts inside the
  withheld tail.
\<close>

lemma partial_match_in_holdback:
  assumes s: "s \<in> set seqs" "utf8_start s" and occ: "occurs_at s (p @ ext) j"
    and none: "\<not> occurs_at s p j" and j: "j \<le> length p"
  shows "length p - holdback seqs p \<le> j"
proof (cases "j = length p")
  case True
  then show ?thesis by simp
next
  case False
  with j have lt: "j < length p" by simp
  have long: "length p < j + length s"
    using occurs_at_appendD [OF occ] none by force
  from occ have pre: "prefix s (drop j p @ ext)"
    using lt by (simp add: occurs_at_def)
  have tail: "prefix (drop j p) s"
    by (rule prefix_length_prefix [OF _ pre]) (use long in simp_all)
  then obtain cs where "s = p ! j # cs"
    unfolding prefix_def Cons_nth_drop_Suc [OF lt, symmetric] by auto
  with s(2) have "char_boundary p j"
    using lt by (simp add: char_boundary_def utf8_start_def)
  from holdback_ge [OF j this s(1) tail] show ?thesis by simp
qed

section \<open>The stream\<close>

text \<open>
  \<open>stop_safe seqs e p\<close>: with \<open>e\<close> shown and \<open>p\<close> withheld, no stop sequence is in the text so far,
  and whatever text follows, none starts inside what was shown.
\<close>

definition stop_safe :: "string list \<Rightarrow> string \<Rightarrow> string \<Rightarrow> bool" where
  "stop_safe seqs e p \<longleftrightarrow>
     (\<forall>s \<in> set seqs. (\<forall>i. \<not> occurs_at s (e @ p) i) \<and>
        (\<forall>ext. \<forall>i < length e. \<not> occurs_at s (e @ p @ ext) i))"

lemma stop_safe_shift:
  assumes safe: "stop_safe seqs e p" and s: "s \<in> set seqs"
    and occ: "occurs_at s (e @ p @ ext) i"
  shows "length e \<le> i" and "occurs_at s (p @ ext) (i - length e)"
proof -
  show le: "length e \<le> i"
    using safe s occ unfolding stop_safe_def by (meson not_le_imp_less)
  then show "occurs_at s (p @ ext) (i - length e)"
    using occ occurs_at_shift [of s e "p @ ext" "i - length e"] by simp
qed

lemma push_sequences [simp]: "sequences (snd (push b c)) = sequences b"
  by (auto simp: push_def Let_def split: option.splits)

lemma push_no_match:
  assumes safe: "stop_safe (sequences b) e (pending b)"
    and utf8: "\<forall>s \<in> set (sequences b). utf8_start s"
    and push: "push b c = (r, b')" and none: "stop_matched r = None"
  shows "stop_text r @ pending b' = pending b @ c"
    and "stop_safe (sequences b) (e @ stop_text r) (pending b')"
    and "pending b' = [] \<or> (\<exists>s \<in> set (sequences b). prefix (pending b') s)"
proof -
  let ?p = "pending b @ c" and ?seqs = "sequences b"
  let ?n = "length ?p - holdback ?seqs ?p"
  have em: "earliest_match (b\<lparr>pending := ?p\<rparr>) = None"
    using push none by (auto simp: push_def Let_def split: option.splits)
  then have r: "stop_text r = take ?n ?p" and b': "pending b' = drop ?n ?p"
    using push by (auto simp: push_def Let_def)
  show eq: "stop_text r @ pending b' = ?p"
    unfolding r b' by (rule append_take_drop_id)
  show "pending b' = [] \<or> (\<exists>s \<in> set ?seqs. prefix (pending b') s)"
    using holdback_tight [of ?seqs ?p] unfolding b' by auto
  have no: "\<not> occurs_at s ?p i" if "s \<in> set ?seqs" for s i
    using em that by (auto simp: earliest_match_None)
  have later: "length e + ?n \<le> i"
    if s: "s \<in> set ?seqs" and occ: "occurs_at s (e @ ?p @ ext) i" for s ext i
  proof -
    have occ': "occurs_at s (e @ pending b @ c @ ext) i" using occ by simp
    note sh = stop_safe_shift [OF safe s occ']
    show ?thesis
    proof (cases "i - length e \<le> length ?p")
      case True
      then have "?n \<le> i - length e"
        using partial_match_in_holdback [OF s _ _ no [OF s]] sh(2) utf8 s by force
      with sh(1) show ?thesis by linarith
    qed linarith
  qed
  have none': "\<not> occurs_at s (e @ ?p) i" if s: "s \<in> set ?seqs" for s i
  proof
    assume "occurs_at s (e @ ?p) i"
    with stop_safe_shift(2) [OF safe s, of c] no [OF s] show False by auto
  qed
  have "length (stop_text r) = ?n" by (simp add: r)
  then show "stop_safe ?seqs (e @ stop_text r) (pending b')"
    unfolding stop_safe_def
  proof (intro ballI conjI allI impI)
    fix s i
    assume s: "s \<in> set ?seqs"
    show "\<not> occurs_at s ((e @ stop_text r) @ pending b') i"
      using none' [OF s] by (simp add: eq)
    fix ext j
    assume "j < length (e @ stop_text r)"
    then show "\<not> occurs_at s ((e @ stop_text r) @ pending b' @ ext) j"
      using later [OF s, of ext j] eq \<open>length (stop_text r) = ?n\<close>
      by (metis append.assoc length_append not_less)
  qed
qed

lemma push_match:
  assumes safe: "stop_safe (sequences b) e (pending b)"
    and push: "push b c = (r, b')" and m: "stop_matched r = Some s"
  shows "s \<in> set (sequences b)"
    and "prefix (stop_text r) (pending b @ c)"
    and "occurs_at s (e @ pending b @ c) (length (e @ stop_text r))"
    and "\<And>s' j. s' \<in> set (sequences b) \<Longrightarrow> occurs_at s' (e @ pending b @ c) j \<Longrightarrow>
           length (e @ stop_text r) < j \<or> length (e @ stop_text r) = j \<and> length s' \<le> length s"
    and "pending b' = []"
proof -
  let ?p = "pending b @ c"
  obtain i where em: "earliest_match (b\<lparr>pending := ?p\<rparr>) = Some (i, s)"
    and r: "stop_text r = take i ?p" and b': "pending b' = []"
    using push m by (auto simp: push_def Let_def split: option.splits)
  note em' = earliest_match_Some [OF em, simplified]
  show "s \<in> set (sequences b)" by (rule em'(1))
  show "prefix (stop_text r) ?p" unfolding r by (rule take_is_prefix)
  show "pending b' = []" by (rule b')
  have len: "length (stop_text r) = i"
    using occurs_at_length [OF em'(2)] by (simp add: r)
  show "occurs_at s (e @ ?p) (length (e @ stop_text r))"
    using em'(2) by (simp add: len occurs_at_shift)
  fix s' j
  assume s': "s' \<in> set (sequences b)" and occ: "occurs_at s' (e @ ?p) j"
  note sh = stop_safe_shift [OF safe s' occ]
  from em'(3) [OF s' sh(2)] sh(1)
  show "length (e @ stop_text r) < j \<or> length (e @ stop_text r) = j \<and> length s' \<le> length s"
    by (auto simp: len)
qed

lemma stop_safe_init: "[] \<notin> set seqs \<Longrightarrow> stop_safe seqs [] []"
  by (auto simp: stop_safe_def occurs_at_def)

lemma stop_stream_unmatched_gen:
  assumes "stop_safe (sequences b) e (pending b)"
    and "\<forall>s \<in> set (sequences b). utf8_start s"
    and "stop_stream b cs = (t, None, b')"
    and "pending b = [] \<or> (\<exists>s \<in> set (sequences b). prefix (pending b) s)"
  shows "t @ pending b' = pending b @ concat cs \<and>
    stop_safe (sequences b) (e @ t) (pending b') \<and>
    (pending b' = [] \<or> (\<exists>s \<in> set (sequences b). prefix (pending b') s))"
  using assms
proof (induction cs arbitrary: b e t)
  case (Cons c cs)
  obtain r b1 where p: "push b c = (r, b1)" by (cases "push b c")
  with Cons.prems(3) obtain t1 where m: "stop_matched r = None"
    and st: "stop_stream b1 cs = (t1, None, b')" and t: "t = stop_text r @ t1"
    by (auto split: option.splits prod.splits)
  have sq: "sequences b1 = sequences b" using push_sequences [of b c] p by simp
  note step = push_no_match [OF Cons.prems(1,2) p m]
  have "t1 @ pending b' = pending b1 @ concat cs \<and>
      stop_safe (sequences b1) ((e @ stop_text r) @ t1) (pending b') \<and>
      (pending b' = [] \<or> (\<exists>s \<in> set (sequences b1). prefix (pending b') s))"
    using step Cons.prems(2) by (intro Cons.IH [OF _ _ st]) (simp_all add: sq)
  with step(1) show ?case by (simp add: sq t)
qed simp

lemma stop_stream_matched_gen:
  assumes "stop_safe (sequences b) e (pending b)"
    and "\<forall>s \<in> set (sequences b). utf8_start s"
    and "stop_stream b cs = (t, Some s, b')"
  shows "\<exists>pre c post. cs = pre @ c # post \<and> s \<in> set (sequences b) \<and>
    prefix t (pending b @ concat pre @ c) \<and>
    occurs_at s (e @ pending b @ concat pre @ c) (length (e @ t)) \<and>
    (\<forall>s' \<in> set (sequences b). \<forall>j. occurs_at s' (e @ pending b @ concat pre @ c) j \<longrightarrow>
       length (e @ t) < j \<or> length (e @ t) = j \<and> length s' \<le> length s) \<and>
    (\<forall>s' \<in> set (sequences b). \<forall>j. \<not> occurs_at s' (e @ pending b @ concat pre) j)"
  using assms
proof (induction cs arbitrary: b e t)
  case (Cons c cs)
  obtain r b1 where p: "push b c = (r, b1)" by (cases "push b c")
  show ?case
  proof (cases "stop_matched r")
    case (Some s1)
    with Cons.prems(3) p have "s1 = s" "t = stop_text r" by auto
    moreover have "\<forall>s' \<in> set (sequences b). \<forall>j. \<not> occurs_at s' (e @ pending b @ concat []) j"
      using Cons.prems(1) by (simp add: stop_safe_def)
    ultimately show ?thesis
      using push_match [OF Cons.prems(1) p Some]
      by (intro exI [of _ "[]"] exI [of _ c] exI [of _ cs]) auto
  next
    case None
    with Cons.prems(3) p obtain t1 where st: "stop_stream b1 cs = (t1, Some s, b')"
      and t: "t = stop_text r @ t1"
      by (auto split: option.splits prod.splits)
    have sq: "sequences b1 = sequences b" using push_sequences [of b c] p by simp
    note step = push_no_match [OF Cons.prems(1,2) p None]
    have eq: "stop_text r @ pending b1 @ u = pending b @ c @ u" for u
      using step(1) by (metis append.assoc)
    obtain pre d post where "cs = pre @ d # post" "s \<in> set (sequences b)"
      "prefix t1 (pending b1 @ concat pre @ d)"
      "occurs_at s ((e @ stop_text r) @ pending b1 @ concat pre @ d) (length ((e @ stop_text r) @ t1))"
      "\<forall>s' \<in> set (sequences b). \<forall>j.
         occurs_at s' ((e @ stop_text r) @ pending b1 @ concat pre @ d) j \<longrightarrow>
         length ((e @ stop_text r) @ t1) < j \<or>
         length ((e @ stop_text r) @ t1) = j \<and> length s' \<le> length s"
      "\<forall>s' \<in> set (sequences b). \<forall>j.
         \<not> occurs_at s' ((e @ stop_text r) @ pending b1 @ concat pre) j"
      using Cons.IH [OF _ _ st, of "e @ stop_text r"] step(2) Cons.prems(2) unfolding sq by blast
    moreover from this(3) have "prefix (stop_text r @ t1) (pending b @ c @ concat pre @ d)"
      by (simp flip: eq)
    ultimately show ?thesis
      by (intro exI [of _ "c # pre"] exI [of _ d] exI [of _ post]) (simp add: t eq)
  qed
qed simp

section \<open>Properties\<close>





end
