(* ===== verification/Ngram.thy ===== *)
theory Ngram
  imports Prelude
begin

text \<open>
  The hashed n-gram identifiers of \<open>crates/infer/src/ngram.rs\<close>.

  \<open>NgramHashPlan\<close> lays out one embedding table per n-gram order and split, and addresses a row of
  each table by a polynomial hash of the current token and its left context. \<open>NgramTokenWindow\<close>
  keeps that context across prompt and decode chunks, with an append transaction around each
  model call. Tokens, table sizes and hashes keep the widths of the source (\<open>u32\<close>, \<open>u64\<close>), so
  that the absence of overflow is a theorem and not a choice of the model.
\<close>

section \<open>Hash plan\<close>

record NgramTableHash =
  table_order :: nat
  modulus :: u32
  row_offset :: u32
  powers :: "u32 list"

record NgramHashPlan =
  vocab_size :: u32
  split_count :: nat
  neighbour_count :: nat
  boundary_token :: "u32 option"
  tables :: "NgramTableHash list"
  total_rows :: nat

text \<open>The powers \<open>vocab\<close> to the 0, 1, and so on, modulo the table size, one per token of the order.\<close>

fun hash_powers :: "nat \<Rightarrow> u64 \<Rightarrow> u64 \<Rightarrow> u64 \<Rightarrow> u32 list result" where
  "hash_powers 0 vocab m pw = Ok []"
| "hash_powers (Suc n) vocab m pw =
     bind_result
       (ok_or (map_option (\<lambda>v. v mod m) (checked_mul_u64 pw vocab)) (Shape ''n-gram hash power''))
       (\<lambda>p. bind_result (hash_powers n vocab m p) (\<lambda>ps. Ok (ucast pw # ps)))"

text \<open>One iteration of the two nested loops: the table for \<open>order\<close> and \<open>split\<close>, and the next offset.\<close>

definition ngram_table ::
  "nat \<Rightarrow> nat \<Rightarrow> nat \<Rightarrow> nat \<Rightarrow> nat \<Rightarrow> nat \<Rightarrow> (NgramTableHash \<times> nat) result" where
  "ngram_table vocab base splits order split offset =
     bind_result
       (ok_or (Option.bind (checked_mul (order - 2) splits) (\<lambda>i. checked_add i split))
          (Shape ''n-gram hash table index''))
       (\<lambda>table_index.
     bind_result
       (ok_or (Option.bind (checked_mul table_index 2)
                 (\<lambda>extra. Option.bind (checked_add base extra) (\<lambda>rows. checked_add rows 1)))
          (Shape ''n-gram hash table rows''))
       (\<lambda>m.
     if u32_max < m \<or> u32_max < offset then Err (Shape ''n-gram concatenated row index'')
     else
       bind_result (hash_powers order (of_nat vocab) (of_nat m) 1)
         (\<lambda>ps.
       bind_result (ok_or (checked_add offset m) (Shape ''n-gram concatenated rows''))
         (\<lambda>offset'.
       Ok (\<lparr>table_order = order, modulus = of_nat m, row_offset = of_nat offset, powers = ps\<rparr>,
           offset')))))"

fun ngram_tables ::
  "nat \<Rightarrow> nat \<Rightarrow> nat \<Rightarrow> (nat \<times> nat) list \<Rightarrow> nat \<Rightarrow> (NgramTableHash list \<times> nat) result" where
  "ngram_tables vocab base splits [] offset = Ok ([], offset)"
| "ngram_tables vocab base splits ((order, split) # rest) offset =
     bind_result (ngram_table vocab base splits order split offset)
       (\<lambda>(t, offset'). bind_result (ngram_tables vocab base splits rest offset')
         (\<lambda>(ts, total). Ok (t # ts, total)))"

text \<open>The loop indices: order \<open>2..=neighbours\<close> outside, split \<open>0..splits\<close> inside.\<close>

definition table_indices :: "nat \<Rightarrow> nat \<Rightarrow> (nat \<times> nat) list" where
  "table_indices splits neighbours =
     concat (map (\<lambda>order. map (\<lambda>split. (order, split)) [0..<splits]) [2..<Suc neighbours])"

definition ngram_plan_new ::
  "nat \<Rightarrow> nat \<Rightarrow> nat \<Rightarrow> nat \<Rightarrow> u32 option \<Rightarrow> NgramHashPlan result" where
  "ngram_plan_new vocab base splits neighbours boundary =
     (if vocab = 0 \<or> u32_max < vocab \<or> base = 0 \<or> splits = 0 \<or> neighbours < 2
      then Err (Shape ''n-gram hash plan'')
      else if (case boundary of None \<Rightarrow> False | Some t \<Rightarrow> vocab \<le> unat t)
      then Err (Shape ''n-gram boundary token'')
      else
        bind_result (ok_or (checked_mul splits (neighbours - 1)) (Shape ''n-gram hash table count''))
          (\<lambda>_.
        bind_result (ngram_tables vocab base splits (table_indices splits neighbours) 0)
          (\<lambda>(ts, offset).
        if u32_max < offset then Err (Shape ''n-gram concatenated rows'')
        else Ok \<lparr>vocab_size = of_nat vocab, split_count = splits, neighbour_count = neighbours,
                 boundary_token = boundary, tables = ts, total_rows = offset\<rparr>)))"

definition context_len :: "NgramHashPlan \<Rightarrow> nat" where
  "context_len plan = neighbour_count plan - 1"

definition table_count :: "NgramHashPlan \<Rightarrow> nat" where
  "table_count plan = length (tables plan)"

definition validate_context :: "NgramHashPlan \<Rightarrow> u32 option list \<Rightarrow> unit result" where
  "validate_context plan ctx =
     (if length ctx \<noteq> context_len plan then Err (Shape ''n-gram token context'')
      else if list_ex (\<lambda>t. case t of None \<Rightarrow> False | Some t \<Rightarrow> vocab_size plan \<le> t) ctx
      then Err (Shape ''n-gram context token'')
      else Ok ())"

definition validate_token :: "NgramHashPlan \<Rightarrow> u32 \<Rightarrow> unit result" where
  "validate_token plan token =
     (if vocab_size plan \<le> token then Err (Shape ''n-gram input token'') else Ok ())"

definition observed_token :: "NgramHashPlan \<Rightarrow> u32 \<Rightarrow> u32 option" where
  "observed_token plan token = (if Some token \<noteq> boundary_token plan then Some token else None)"

text \<open>The polynomial walk stops at the first absent token; \<open>+\<close> and \<open>*\<close> are those of \<open>u64\<close>.\<close>

fun hash_walk :: "u64 \<Rightarrow> u32 list \<Rightarrow> u32 option list \<Rightarrow> u64 \<Rightarrow> u64" where
  "hash_walk m (p # ps) (Some t # ts) h = hash_walk m ps ts ((h + (ucast t * ucast p) mod m) mod m)"
| "hash_walk m _ _ h = h"

definition hash_table :: "NgramTableHash \<Rightarrow> u32 option list \<Rightarrow> u32 option \<Rightarrow> u32" where
  "hash_table table ctx current =
     row_offset table + ucast (hash_walk (ucast (modulus table)) (powers table) (current # rev ctx) 0)"

definition hash_token :: "NgramHashPlan \<Rightarrow> u32 option list \<Rightarrow> u32 \<Rightarrow> u32 list result" where
  "hash_token plan ctx token =
     bind_result (validate_context plan ctx)
       (\<lambda>_. bind_result (validate_token plan token)
         (\<lambda>_. Ok (map (\<lambda>table. hash_table table ctx (observed_token plan token)) (tables plan))))"

section \<open>Identifier batches\<close>

record NgramIdBatch =
  batch_rows :: nat
  batch_tables :: nat
  batch_ids :: "u32 list"

definition batch_row :: "NgramIdBatch \<Rightarrow> nat \<Rightarrow> u32 list option" where
  "batch_row batch row =
     Option.bind (checked_mul row (batch_tables batch))
       (\<lambda>start. get_range (batch_ids batch) start (start + batch_tables batch))"

section \<open>Token window\<close>

record NgramTokenWindow =
  window_context :: "u32 option list"
  rollback_context :: "u32 option list option"

definition window_new :: "NgramHashPlan \<Rightarrow> NgramTokenWindow" where
  "window_new plan = \<lparr>window_context = replicate (context_len plan) None, rollback_context = None\<rparr>"

text \<open>\<open>VecDeque::pop_front\<close> then \<open>push_back\<close>; \<open>pop_front\<close> on an empty deque does nothing.\<close>

definition observe :: "NgramHashPlan \<Rightarrow> u32 option list \<Rightarrow> u32 \<Rightarrow> u32 option list" where
  "observe plan ctx token = tl ctx @ [observed_token plan token]"

fun restore_tokens ::
  "NgramHashPlan \<Rightarrow> u32 list \<Rightarrow> u32 option list \<Rightarrow> unit result \<times> u32 option list" where
  "restore_tokens plan [] ctx = (Ok (), ctx)"
| "restore_tokens plan (t # ts) ctx =
     (case validate_token plan t of
        Inl e \<Rightarrow> (Err e, ctx)
      | Inr _ \<Rightarrow> restore_tokens plan ts (observe plan ctx t))"

definition restore_prefix ::
  "NgramHashPlan \<Rightarrow> u32 list \<Rightarrow> NgramTokenWindow \<Rightarrow> unit result \<times> NgramTokenWindow" where
  "restore_prefix plan processed w =
     (case rollback_context w of
        Some _ \<Rightarrow> (Err (Format ''n-gram token transaction''), w)
      | None \<Rightarrow>
          (case restore_tokens plan processed (replicate (context_len plan) None) of
             (r, ctx) \<Rightarrow> (r, w\<lparr>window_context := ctx\<rparr>)))"

definition begin_append :: "NgramTokenWindow \<Rightarrow> unit result \<times> NgramTokenWindow" where
  "begin_append w =
     (case rollback_context w of
        Some _ \<Rightarrow> (Err (Format ''n-gram token transaction''), w)
      | None \<Rightarrow> (Ok (), w\<lparr>rollback_context := Some (window_context w)\<rparr>))"

fun append_tokens ::
  "NgramHashPlan \<Rightarrow> u32 list \<Rightarrow> u32 option list \<Rightarrow> u32 list \<Rightarrow> u32 list result \<times> u32 option list" where
  "append_tokens plan [] ctx ids = (Ok ids, ctx)"
| "append_tokens plan (t # ts) ctx ids =
     (case validate_token plan t of
        Inl e \<Rightarrow> (Err e, ctx)
      | Inr _ \<Rightarrow>
          append_tokens plan ts (observe plan ctx t)
            (ids @ map (\<lambda>table. hash_table table ctx (observed_token plan t)) (tables plan)))"

definition append_chunk ::
  "NgramHashPlan \<Rightarrow> u32 list \<Rightarrow> NgramTokenWindow \<Rightarrow> NgramIdBatch result \<times> NgramTokenWindow" where
  "append_chunk plan tokens w =
     (case rollback_context w of
        None \<Rightarrow> (Err (Format ''n-gram token transaction''), w)
      | Some _ \<Rightarrow>
          (case validate_context plan (window_context w) of
             Inl e \<Rightarrow> (Err e, w)
           | Inr _ \<Rightarrow>
               (case append_tokens plan tokens (window_context w) [] of
                  (r, ctx) \<Rightarrow>
                    (map_sum id (\<lambda>ids. \<lparr>batch_rows = length tokens,
                       batch_tables = table_count plan, batch_ids = ids\<rparr>) r,
                     w\<lparr>window_context := ctx\<rparr>))))"

definition commit_append :: "NgramTokenWindow \<Rightarrow> unit result \<times> NgramTokenWindow" where
  "commit_append w =
     (case rollback_context w of
        None \<Rightarrow> (Err (Format ''n-gram token transaction''), w)
      | Some _ \<Rightarrow> (Ok (), w\<lparr>rollback_context := None\<rparr>))"

definition abort_append :: "NgramTokenWindow \<Rightarrow> unit result \<times> NgramTokenWindow" where
  "abort_append w =
     (case rollback_context w of
        None \<Rightarrow> (Err (Format ''n-gram token transaction''), w)
      | Some ctx \<Rightarrow> (Ok (), w\<lparr>window_context := ctx, rollback_context := None\<rparr>))"

section \<open>Reference layout and reference hash\<close>

text \<open>Rows of table \<open>i\<close>, first row of table \<open>i\<close> and the number of tables, in closed form.\<close>

definition table_rows :: "nat \<Rightarrow> nat \<Rightarrow> nat" where
  "table_rows base i = base + 2 * i + 1"

definition table_start :: "nat \<Rightarrow> nat \<Rightarrow> nat" where
  "table_start base i = i * base + i * i"

definition ngram_layout_table :: "nat \<Rightarrow> nat \<Rightarrow> nat \<Rightarrow> nat \<Rightarrow> NgramTableHash" where
  "ngram_layout_table vocab base splits i =
     (let order = 2 + i div splits; m = table_rows base i in
      \<lparr>table_order = order, modulus = of_nat m, row_offset = of_nat (table_start base i),
       powers = map (\<lambda>k. of_nat (vocab ^ k mod m)) [0..<order]\<rparr>)"

definition ngram_layout :: "nat \<Rightarrow> nat \<Rightarrow> nat \<Rightarrow> nat \<Rightarrow> u32 option \<Rightarrow> NgramHashPlan" where
  "ngram_layout vocab base splits neighbours boundary =
     (let n = splits * (neighbours - 1) in
      \<lparr>vocab_size = of_nat vocab, split_count = splits, neighbour_count = neighbours,
       boundary_token = boundary, tables = map (ngram_layout_table vocab base splits) [0..<n],
       total_rows = table_start base n\<rparr>)"

text \<open>
  Polynomial in \<open>vocab\<close> over at most \<open>n\<close> tokens, newest first, cut at the first absent one
  (Horner form).
\<close>

fun ngram_poly :: "nat \<Rightarrow> nat \<Rightarrow> u32 option list \<Rightarrow> nat" where
  "ngram_poly vocab (Suc n) (Some t # ts) = unat t + vocab * ngram_poly vocab n ts"
| "ngram_poly vocab _ _ = 0"

lemma table_start_Suc: "table_start base (Suc i) = table_start base i + table_rows base i"
  by (simp add: table_start_def table_rows_def algebra_simps)

lemma table_start_mono: "i \<le> j \<Longrightarrow> table_start base i \<le> table_start base j"
  by (simp add: table_start_def add_mono mult_le_mono)

lemma table_start_0 [simp]: "table_start base 0 = 0"
  by (simp add: table_start_def)

lemma table_rows_le_start:
  assumes "i < n" shows "table_start base i + table_rows base i \<le> table_start base n"
  using table_start_mono [of "Suc i" n base] assms by (simp add: table_start_Suc)

section \<open>The plan is the reference layout\<close>

lemma hash_powers_eq:
  assumes "0 < unat m" "unat m < 2 ^ 32" "unat vocab < 2 ^ 32" "unat p < unat m"
  shows "hash_powers n vocab m p =
    Ok (map (\<lambda>k. of_nat (unat p * unat vocab ^ k mod unat m)) [0..<n])"
  using assms
proof (induction n arbitrary: p)
  case (Suc n)
  have "unat p * unat vocab < 2 ^ 32 * 2 ^ 32"
    using Suc.prems by (intro mult_strict_mono) simp_all
  then have lt: "unat p * unat vocab < 2 ^ 64" by simp
  let ?q = "(p * vocab) mod m"
  have q: "unat ?q = unat p * unat vocab mod unat m"
    by (simp add: unat_mod_distrib unat_mult_u64 [OF lt])
  have "unat ?q < unat m" unfolding q using Suc.prems(1) by simp
  from Suc.IH [OF Suc.prems(1-3) this]
  have IH: "hash_powers n vocab m ?q =
      Ok (map (\<lambda>k. of_nat (unat p * unat vocab ^ Suc k mod unat m)) [0..<n])"
    by (simp add: q mod_mult_left_eq mult.assoc)
  have head: "ucast p = (of_nat (unat p mod unat m) :: u32)"
    using Suc.prems(4) by simp
  have "map (\<lambda>k. of_nat (unat p * unat vocab ^ k mod unat m) :: u32) [0..<Suc n] =
      of_nat (unat p mod unat m) # map (\<lambda>k. of_nat (unat p * unat vocab ^ Suc k mod unat m)) [0..<n]"
    by (simp add: map_upt_Suc del: upt_Suc)
  with lt show ?case
    by (simp add: checked_mul_u64_def IH head del: upt_Suc)
qed simp

lemma ngram_table_eq:
  assumes i: "i = (order - 2) * splits + split" and o: "order = 2 + i div splits"
    and base: "0 < base" and vocab: "vocab \<le> u32_max"
    and rows: "table_rows base i \<le> u32_max" and start: "table_start base i \<le> u32_max"
  shows "ngram_table vocab base splits order split (table_start base i) =
    Ok (ngram_layout_table vocab base splits i, table_start base (Suc i))"
proof -
  note bounds = u32_max_def usize_max_def
  let ?m = "of_nat (table_rows base i) :: u64"
  have m: "unat ?m = table_rows base i"
    by (rule unat_of_nat_u64) (use rows u32_max_le_usize_max in linarith)
  have v: "unat (of_nat vocab :: u64) = vocab"
    by (rule unat_of_nat_u64) (use vocab u32_max_le_usize_max in linarith)
  have one: "1 < table_rows base i" using base by (simp add: table_rows_def)
  have hp: "hash_powers order (of_nat vocab) ?m 1 =
      Ok (map (\<lambda>k. of_nat (vocab ^ k mod table_rows base i)) [0..<order])"
    by (subst hash_powers_eq) (use one rows vocab in \<open>simp_all add: m v u32_max_def\<close>)
  have idx: "Option.bind (checked_mul (order - 2) splits) (\<lambda>i. checked_add i split) = Some i"
    using i rows by (simp add: checked_add_def checked_mul_def bounds table_rows_def)
  have rws: "Option.bind (checked_mul i 2)
      (\<lambda>extra. Option.bind (checked_add base extra) (\<lambda>rows. checked_add rows 1)) =
      Some (table_rows base i)"
    using rows by (simp add: checked_add_def checked_mul_def bounds table_rows_def)
  have off: "checked_add (table_start base i) (table_rows base i) = Some (table_start base (Suc i))"
    using rows start by (simp add: checked_add_def bounds table_start_Suc)
  have lay: "ngram_layout_table vocab base splits i =
      \<lparr>table_order = order, modulus = of_nat (table_rows base i),
       row_offset = of_nat (table_start base i),
       powers = map (\<lambda>k. of_nat (vocab ^ k mod table_rows base i)) [0..<order]\<rparr>"
    unfolding ngram_layout_table_def Let_def o [symmetric] by (rule refl)
  show ?thesis
    unfolding ngram_table_def idx rws lay using rows start by (simp add: rws [simplified] hp off)
qed

lemma ngram_table_Ok:
  assumes "ngram_table vocab base splits order split offset = Ok (t, offset')"
  shows "offset' = offset + table_rows base ((order - 2) * splits + split)"
    and "offset \<le> u32_max" and "table_rows base ((order - 2) * splits + split) \<le> u32_max"
  using assms
  by (auto simp: ngram_table_def result_simps usize_simps bind_eq_Some_conv table_rows_def
        split: if_splits)

lemma table_indices_Suc:
  "1 \<le> n \<Longrightarrow> table_indices splits (Suc n) = table_indices splits n @ map (\<lambda>s. (Suc n, s)) [0..<splits]"
  by (simp add: table_indices_def)

lemma table_indices_eq:
  assumes "0 < splits" "1 \<le> n"
  shows "table_indices splits n =
    map (\<lambda>i. (2 + i div splits, i mod splits)) [0..<splits * (n - 1)]"
  using assms(2)
proof (induction n rule: nat_induct_at_least)
  case base
  then show ?case by (simp add: table_indices_def)
next
  case (Suc n)
  let ?f = "\<lambda>i. (2 + i div splits, i mod splits)"
  have "splits * (Suc n - 1) = splits * (n - 1) + splits"
    using Suc.hyps by (cases n) simp_all
  then have "[0..<splits * (Suc n - 1)] =
      [0..<splits * (n - 1)] @ map (\<lambda>s. s + splits * (n - 1)) [0..<splits]"
    by (metis add.commute le0 map_add_upt upt_add_eq_append)
  moreover have "map (\<lambda>s. ?f (s + splits * (n - 1))) [0..<splits] = map (\<lambda>s. (Suc n, s)) [0..<splits]"
    using assms(1) Suc.hyps by (intro map_cong) auto
  ultimately show ?case
    by (simp add: table_indices_Suc [OF Suc.hyps] Suc.IH comp_def del: upt_Suc)
qed

lemma ngram_tables_Ok_offset:
  assumes "0 < splits" "k \<le> n"
    and "ngram_tables vocab base splits (map (\<lambda>i. (2 + i div splits, i mod splits)) [k..<n])
           (table_start base k) = Ok (ts, offset)"
  shows "offset = table_start base n"
  using assms(2,3)
proof (induction "n - k" arbitrary: k ts)
  case (Suc d)
  then have k: "k < n" by simp
  from Suc.prems(2) obtain t offset' ts' where
    t: "ngram_table vocab base splits (2 + k div splits) (k mod splits) (table_start base k) = Ok (t, offset')"
    and ts: "ngram_tables vocab base splits (map (\<lambda>i. (2 + i div splits, i mod splits)) [Suc k..<n])
           offset' = Ok (ts', offset)"
    by (auto simp: upt_conv_Cons [OF k] result_simps split: prod.splits)
  have "offset' = table_start base (Suc k)"
    using ngram_table_Ok(1) [OF t] by (simp add: table_start_Suc div_mult_mod_eq)
  with Suc.hyps(1) [of "Suc k"] Suc.hyps(2) k ts show ?case by simp
qed simp

lemma ngram_tables_eq:
  assumes "0 < splits" "0 < base" "vocab \<le> u32_max" "table_start base n \<le> u32_max" "k \<le> n"
  shows "ngram_tables vocab base splits (map (\<lambda>i. (2 + i div splits, i mod splits)) [k..<n])
      (table_start base k) =
    Ok (map (ngram_layout_table vocab base splits) [k..<n], table_start base n)"
  using assms(5)
proof (induction "n - k" arbitrary: k)
  case (Suc d)
  then have k: "k < n" by simp
  have "table_rows base k \<le> u32_max" "table_start base k \<le> u32_max"
    using table_rows_le_start [OF k, of base] assms(4) by linarith+
  then have "ngram_table vocab base splits (2 + k div splits) (k mod splits) (table_start base k) =
      Ok (ngram_layout_table vocab base splits k, table_start base (Suc k))"
    using assms by (intro ngram_table_eq) (simp_all add: div_mult_mod_eq)
  with Suc.hyps(1) [of "Suc k"] Suc.hyps(2) k show ?case
    by (simp add: upt_conv_Cons [OF k])
qed simp

lemma table_start_ge: "n * n \<le> table_start base n"
  by (simp add: table_start_def)

lemma ngram_plan_new_Ok_iff:
  "ngram_plan_new vocab base splits neighbours boundary = Ok plan \<longleftrightarrow>
     0 < vocab \<and> vocab \<le> u32_max \<and> 0 < base \<and> 0 < splits \<and> 2 \<le> neighbours \<and>
     (\<forall>t. boundary = Some t \<longrightarrow> unat t < vocab) \<and>
     table_start base (splits * (neighbours - 1)) \<le> u32_max \<and>
     plan = ngram_layout vocab base splits neighbours boundary"
    (is "?new = Ok plan \<longleftrightarrow> ?rhs")
proof (cases "0 < vocab \<and> vocab \<le> u32_max \<and> 0 < base \<and> 0 < splits \<and> 2 \<le> neighbours \<and>
     (\<forall>t. boundary = Some t \<longrightarrow> unat t < vocab)")
  case False
  then show ?thesis
    by (auto simp: ngram_plan_new_def not_le not_less split: option.splits)
next
  case guards: True
  let ?n = "splits * (neighbours - 1)"
  let ?ts = "ngram_tables vocab base splits (table_indices splits neighbours) 0"
  have idx: "table_indices splits neighbours =
      map (\<lambda>i. (2 + i div splits, i mod splits)) [0..<?n]"
    using guards by (intro table_indices_eq) auto
  have new: "?new = bind_result (ok_or (checked_mul splits (neighbours - 1)) (Shape ''n-gram hash table count''))
      (\<lambda>_. bind_result ?ts (\<lambda>(ts, offset).
        if u32_max < offset then Err (Shape ''n-gram concatenated rows'')
        else Ok \<lparr>vocab_size = of_nat vocab, split_count = splits, neighbour_count = neighbours,
                 boundary_token = boundary, tables = ts, total_rows = offset\<rparr>))"
    using guards by (auto simp: ngram_plan_new_def split: option.splits)
  show ?thesis
  proof (cases "table_start base ?n \<le> u32_max")
    case True
    then have "?n * ?n \<le> u32_max" using table_start_ge order_trans by blast
    then have "?n \<le> usize_max"
      using u32_max_le_usize_max le_square order_trans by metis
    moreover have "?ts = Ok (map (ngram_layout_table vocab base splits) [0..<?n], table_start base ?n)"
      using ngram_tables_eq [of splits base vocab ?n 0] guards True by (simp add: idx)
    ultimately show ?thesis
      using guards True by (auto simp: new ngram_layout_def Let_def checked_mul_def)
  next
    case False
    have "\<not> offset \<le> u32_max" if "?ts = Ok (ts, offset)" for ts offset
      using ngram_tables_Ok_offset [of splits 0 ?n vocab base ts offset] that guards False
      by (simp add: idx)
    then have "?new \<noteq> Ok plan"
      by (auto simp: new result_simps split: prod.splits if_splits)
    with False show ?thesis by simp
  qed
qed

section \<open>The hash is the reference polynomial\<close>

lemma hash_walk_eq:
  assumes "0 < unat m" "unat m < 2 ^ 32" "unat h < unat m"
  shows "unat (hash_walk m (map (\<lambda>k. of_nat (a * vocab ^ k mod unat m)) [0..<n]) ts h) =
    (unat h + a * ngram_poly vocab n ts) mod unat m"
  using assms(3)
proof (induction n arbitrary: ts h a)
  case 0
  then show ?case by simp
next
  case (Suc n)
  let ?ps = "\<lambda>a n. map (\<lambda>k. of_nat (a * vocab ^ k mod unat m) :: u32) [0..<n]"
  have ps: "?ps a (Suc n) = of_nat (a mod unat m) # ?ps (a * vocab) n"
    by (simp add: map_upt_Suc mult.assoc del: upt_Suc)
  show ?case
  proof (cases "\<exists>t ts'. ts = Some t # ts'")
    case False
    then have "hash_walk m (?ps a (Suc n)) ts h = h" "ngram_poly vocab (Suc n) ts = 0"
      unfolding ps by (cases ts; auto split: option.splits)+
    then show ?thesis using Suc.prems by simp
  next
    case True
    then obtain t ts' where ts: "ts = Some t # ts'" by blast
    let ?p = "of_nat (a mod unat m) :: u32"
    let ?h = "(h + (ucast t * ucast ?p) mod m) mod m"
    have "a mod unat m < 2 ^ 32"
      using assms(1,2) by (meson mod_less_divisor order_less_trans)
    then have p: "unat ?p = a mod unat m"
      by (simp add: unsigned_of_nat take_bit_nat_eq_self)
    have inc: "unat ((ucast t * ucast ?p :: u64) mod m) = unat t * (a mod unat m) mod unat m"
      by (simp add: unat_mod_distrib unat_mult_u32_widened p)
    have "unat t * (a mod unat m) mod unat m < unat m" using assms(1) by simp
    then have "unat h + unat t * (a mod unat m) mod unat m < 2 ^ 32 + 2 ^ 32"
      using Suc.prems assms(2) by linarith
    then have h: "unat ?h = (unat h + unat t * (a mod unat m)) mod unat m"
      by (subst unat_mod_distrib, subst unat_add_u64) (simp_all add: inc mod_add_right_eq)
    have "unat ?h < unat m" unfolding h using assms(1) by simp
    from Suc.IH [OF this, of "a * vocab" ts']
    have "unat (hash_walk m (?ps a (Suc n)) ts h) =
        ((unat h + unat t * (a mod unat m)) mod unat m + a * vocab * ngram_poly vocab n ts') mod unat m"
      unfolding ps ts by (simp add: h)
    also have "\<dots> = (unat h + a * ngram_poly vocab (Suc n) ts) mod unat m"
      unfolding ts mod_add_mult_mod by (simp add: algebra_simps)
    finally show ?thesis .
  qed
qed

lemma hash_table_eq:
  assumes i: "i < n" and base: "0 < base" and tot: "table_start base n \<le> u32_max"
  shows "unat (hash_table (ngram_layout_table vocab base splits i) ctx cur) =
    table_start base i +
      ngram_poly vocab (2 + i div splits) (cur # rev ctx) mod table_rows base i"
proof -
  let ?t = "ngram_layout_table vocab base splits i"
  let ?r = "table_rows base i"
  have le: "table_start base i + ?r \<le> u32_max"
    using table_rows_le_start [OF i, of base] tot by linarith
  then have m: "unat (modulus ?t) = ?r" and o: "unat (row_offset ?t) = table_start base i"
    by (simp_all add: ngram_layout_table_def Let_def unat_of_nat_u32)
  have r: "0 < ?r" "?r < 2 ^ 32" using le by (simp_all add: table_rows_def u32_max_def)
  have "powers ?t = map (\<lambda>k. of_nat (1 * vocab ^ k mod unat (ucast (modulus ?t) :: u64)))
      [0..<2 + i div splits]"
    unfolding unat_ucast_u32_u64 m by (simp add: ngram_layout_table_def Let_def)
  then have w: "unat (hash_walk (ucast (modulus ?t)) (powers ?t) (cur # rev ctx) 0) =
      ngram_poly vocab (2 + i div splits) (cur # rev ctx) mod ?r"
    using hash_walk_eq [of "ucast (modulus ?t)" 0 1 vocab "2 + i div splits" "cur # rev ctx"] r
    by (simp add: unat_ucast_u32_u64 m)
  have "ngram_poly vocab (2 + i div splits) (cur # rev ctx) mod ?r < ?r"
    using r(1) by simp
  with le r show ?thesis
    unfolding hash_table_def
    by (subst unat_add_u32) (simp_all add: unat_ucast_u64_u32 w o u32_max_def)
qed

section \<open>The window\<close>

text \<open>A context the plan accepts; \<open>observe\<close> keeps it.\<close>

definition context_ok :: "NgramHashPlan \<Rightarrow> u32 option list \<Rightarrow> bool" where
  "context_ok plan ctx \<longleftrightarrow> length ctx = context_len plan \<and> (\<forall>t. Some t \<in> set ctx \<longrightarrow> t < vocab_size plan)"

lemma validate_context_cases:
  "validate_context plan ctx =
     (if context_ok plan ctx then Ok ()
      else Err (if length ctx \<noteq> context_len plan then Shape ''n-gram token context''
                else Shape ''n-gram context token''))"
proof -
  have "list_ex (\<lambda>t. case t of None \<Rightarrow> False | Some t \<Rightarrow> vocab_size plan \<le> t) ctx \<longleftrightarrow>
      (\<exists>t. Some t \<in> set ctx \<and> \<not> t < vocab_size plan)"
    by (induction ctx) (auto simp: not_less split: option.splits)
  then show ?thesis by (auto simp: validate_context_def context_ok_def)
qed

lemma validate_token_cases:
  "validate_token plan t =
     (if t < vocab_size plan then Ok () else Err (Shape ''n-gram input token''))"
  by (auto simp: validate_token_def)

lemma context_ok_observe:
  assumes "context_ok plan ctx" "0 < context_len plan" "t < vocab_size plan"
  shows "context_ok plan (observe plan ctx t)"
proof -
  have "set (tl ctx) \<subseteq> set ctx" by (cases ctx) auto
  with assms show ?thesis
    by (auto simp: context_ok_def observe_def observed_token_def split: if_splits)
qed

definition token_ids :: "NgramHashPlan \<Rightarrow> u32 option list \<Rightarrow> u32 \<Rightarrow> u32 list" where
  "token_ids plan ctx t =
     map (\<lambda>table. hash_table table ctx (observed_token plan t)) (tables plan)"

lemma length_token_ids [simp]: "length (token_ids plan ctx t) = table_count plan"
  by (simp add: token_ids_def table_count_def)

lemma append_tokens_append:
  "append_tokens plan (xs @ ys) ctx ids =
     (case append_tokens plan xs ctx ids of
        (Inl e, c) \<Rightarrow> (Inl e, c)
      | (Inr ids', c) \<Rightarrow> append_tokens plan ys c ids')"
  by (induction plan xs ctx ids rule: append_tokens.induct) (auto simp: validate_token_cases)

lemma append_tokens_acc:
  "append_tokens plan ts ctx ids =
     map_prod (map_sum id ((@) ids)) id (append_tokens plan ts ctx [])"
proof (induction ts arbitrary: ctx ids)
  case (Cons t ts)
  show ?case
    by (simp add: validate_token_cases Cons [of _ "ids @ _"] Cons [of _ "map _ _"]
          prod.map_comp sum.map_comp comp_def)
qed simp

lemma append_tokens_Cons:
  assumes "t < vocab_size plan"
  shows "append_tokens plan (t # ts) ctx [] =
     map_prod (map_sum id ((@) (token_ids plan ctx t))) id
       (append_tokens plan ts (observe plan ctx t) [])"
  using assms append_tokens_acc [of plan ts "observe plan ctx t" "token_ids plan ctx t"]
  by (simp add: validate_token_cases token_ids_def)

lemma append_tokens_Ok:
  assumes "append_tokens plan ts ctx [] = (Ok ids, ctx')"
  shows "(\<forall>t \<in> set ts. t < vocab_size plan) \<and> ctx' = foldl (observe plan) ctx ts \<and>
    length ids = length ts * table_count plan \<and>
    (\<forall>i < length ts. take (table_count plan) (drop (i * table_count plan) ids) =
       token_ids plan (foldl (observe plan) ctx (take i ts)) (ts ! i))"
  using assms
proof (induction ts arbitrary: ctx ids)
  case (Cons t ts)
  have t: "t < vocab_size plan"
    using Cons.prems by (auto simp: validate_token_cases split: if_splits)
  obtain ids' where "append_tokens plan ts (observe plan ctx t) [] = (Ok ids', ctx')"
    and ids: "ids = token_ids plan ctx t @ ids'"
    using Cons.prems unfolding append_tokens_Cons [OF t]
    by (cases "append_tokens plan ts (observe plan ctx t) []"; cases "fst (append_tokens plan ts (observe plan ctx t) [])")
      auto
  from Cons.IH [OF this(1)] show ?case
    using t by (auto simp: ids less_Suc_eq_0_disj)
qed simp

lemma restore_tokens_Ok:
  "restore_tokens plan ts ctx = (Ok (), ctx') \<longleftrightarrow>
     (\<forall>t \<in> set ts. t < vocab_size plan) \<and> ctx' = foldl (observe plan) ctx ts"
  by (induction ts arbitrary: ctx) (auto simp: validate_token_cases)

lemma append_chunk_Ok:
  "append_chunk plan ts w = (Ok b, w') \<longleftrightarrow>
     rollback_context w \<noteq> None \<and> context_ok plan (window_context w) \<and>
     (\<exists>ids ctx. append_tokens plan ts (window_context w) [] = (Ok ids, ctx) \<and>
        b = \<lparr>batch_rows = length ts, batch_tables = table_count plan, batch_ids = ids\<rparr> \<and>
        w' = w\<lparr>window_context := ctx\<rparr>)"
  by (cases "rollback_context w"; cases "append_tokens plan ts (window_context w) []";
      cases "fst (append_tokens plan ts (window_context w) [])")
    (auto simp: append_chunk_def validate_context_cases)

lemma window_context_self: "\<exists>c. w = w\<lparr>window_context := c\<rparr>"
  by (rule exI [of _ "window_context w"]) simp

lemma append_chunk_frame: "\<exists>c. snd (append_chunk plan ts w) = w\<lparr>window_context := c\<rparr>"
  using window_context_self [of w]
  by (auto simp: append_chunk_def split: option.splits sum.splits prod.splits)

lemma context_ok_foldl:
  "context_ok plan c \<Longrightarrow> 0 < context_len plan \<Longrightarrow> \<forall>t \<in> set ts. t < vocab_size plan \<Longrightarrow>
   context_ok plan (foldl (observe plan) c ts)"
  by (induction ts arbitrary: c) (simp_all add: context_ok_observe)

lemma append_chunks_frame:
  "\<exists>c. foldl (\<lambda>w ts. snd (append_chunk plan ts w)) w chunks = w\<lparr>window_context := c\<rparr>"
proof (induction chunks arbitrary: w)
  case Nil
  show ?case using window_context_self by simp
next
  case (Cons ts chunks)
  obtain c where c: "snd (append_chunk plan ts w) = w\<lparr>window_context := c\<rparr>"
    using append_chunk_frame by blast
  from Cons [of "snd (append_chunk plan ts w)"] show ?case by (auto simp: c)
qed

section \<open>Properties\<close>

text \<open>C13: building a plan succeeds exactly when the sizes are positive, the boundary token is in the
  vocabulary and the \<open>n\<close> tables of \<open>base + 2 i + 1\<close> rows fit into \<open>u32\<close> together; the plan is then
  the reference layout, whose table \<open>i\<close> starts at row \<open>i * base + i * i\<close> and holds the exact
  powers of the vocabulary size. The overflow branches of the loops never fire for such sizes.
\<close>

theorem ngram_plan_new_correct:
  "ngram_plan_new vocab base splits neighbours boundary = Ok plan \<longleftrightarrow>
     0 < vocab \<and> vocab \<le> u32_max \<and> 0 < base \<and> 0 < splits \<and> 2 \<le> neighbours \<and>
     (\<forall>t. boundary = Some t \<longrightarrow> unat t < vocab) \<and>
     table_start base (splits * (neighbours - 1)) \<le> u32_max \<and>
     plan = ngram_layout vocab base splits neighbours boundary"
  by (rule ngram_plan_new_Ok_iff)

theorem ngram_plan_new_correct_witness:
  "ngram_plan_new 10 7 2 3 (Some 9) = Ok (ngram_layout 10 7 2 3 (Some 9)) \<and>
   map row_offset (tables (ngram_layout 10 7 2 3 (Some 9))) = [0, 8, 18, 30]"
proof -
  have "table_start 7 (2 * (3 - 1)) \<le> u32_max" by (simp add: table_start_def u32_max_def)
  then have "ngram_plan_new 10 7 2 3 (Some 9) = Ok (ngram_layout 10 7 2 3 (Some 9))"
    by (subst ngram_plan_new_correct) (simp_all add: u32_max_def)
  then show ?thesis
    by (simp add: ngram_layout_def ngram_layout_table_def table_start_def Let_def upt_rec)
qed

text \<open>C14: for every plan that was built, hashing an in-vocabulary token in an accepted context
  returns one identifier per table; the identifier of table \<open>i\<close> is the table's first row plus the
  polynomial over the token and its left context up to the first boundary, modulo the table's
  rows. It therefore lies in the rows of its own table and below the total row count: the 64-bit
  sums and the final 32-bit addition do not wrap.
\<close>

theorem hash_token_correct:
  assumes new: "ngram_plan_new vocab base splits neighbours boundary = Ok plan"
    and ctx: "context_ok plan ctx" and token: "token < vocab_size plan"
  shows "\<exists>ids. hash_token plan ctx token = Ok ids \<and> length ids = splits * (neighbours - 1) \<and>
    (\<forall>i < length ids. unat (ids ! i) = table_start base i +
       ngram_poly vocab (2 + i div splits) (observed_token plan token # rev ctx)
         mod table_rows base i) \<and>
    (\<forall>i < length ids. table_start base i \<le> unat (ids ! i) \<and>
       unat (ids ! i) < table_start base (Suc i) \<and> unat (ids ! i) < total_rows plan)"
proof -
  let ?n = "splits * (neighbours - 1)"
  note new' = new [unfolded ngram_plan_new_Ok_iff]
  then have tabs: "tables plan = map (ngram_layout_table vocab base splits) [0..<?n]"
    and tot: "total_rows plan = table_start base ?n"
    and base: "0 < base" "table_start base ?n \<le> u32_max"
    by (simp_all add: ngram_layout_def Let_def)
  let ?ids = "map (\<lambda>table. hash_table table ctx (observed_token plan token)) (tables plan)"
  have ids: "unat (?ids ! i) = table_start base i +
      ngram_poly vocab (2 + i div splits) (observed_token plan token # rev ctx) mod table_rows base i"
    if "i < ?n" for i
    using that by (simp add: tabs hash_table_eq [OF that base])
  have range: "table_start base i \<le> unat (?ids ! i) \<and> unat (?ids ! i) < table_start base (Suc i) \<and>
      unat (?ids ! i) < total_rows plan" if i: "i < ?n" for i
  proof -
    have "ngram_poly vocab (2 + i div splits) (observed_token plan token # rev ctx)
        mod table_rows base i < table_rows base i"
      by (rule mod_less_divisor) (simp add: table_rows_def)
    with table_rows_le_start [OF i, of base] show ?thesis
      unfolding ids [OF i] tot table_start_Suc by linarith
  qed
  have "hash_token plan ctx token = Ok ?ids"
    using ctx token by (simp add: hash_token_def validate_context_cases validate_token_cases)
  moreover have "length ?ids = ?n" by (simp add: tabs)
  ultimately show ?thesis using ids range by (metis (no_types, lifting))
qed

theorem hash_token_correct_witness:
  "\<exists>ids. hash_token (ngram_layout 10 7 2 3 None) [None, Some 2] 3 = Ok ids \<and>
     length ids = 4 \<and> unat (ids ! 0) = (3 + 10 * 2) mod 8"
proof -
  let ?p = "ngram_layout 10 7 2 3 None"
  have new: "ngram_plan_new 10 7 2 3 None = Ok ?p"
    by (subst ngram_plan_new_Ok_iff) (simp add: table_start_def u32_max_def)
  have ctx: "context_ok ?p [None, Some 2]" and tok: "3 < vocab_size ?p"
    by (simp_all add: context_ok_def context_len_def ngram_layout_def Let_def)
  have obs: "observed_token ?p 3 = Some 3"
    by (simp add: observed_token_def ngram_layout_def Let_def)
  from hash_token_correct [OF new ctx tok] obtain ids where
    ids: "hash_token ?p [None, Some 2] 3 = Ok ids" "length ids = 2 * (3 - 1)"
    "\<forall>i < length ids. unat (ids ! i) = table_start 7 i +
       ngram_poly 10 (2 + i div 2) (observed_token ?p 3 # rev [None, Some 2]) mod table_rows 7 i"
    by blast
  have "ngram_poly 10 2 [Some 3, Some 2, None] = 23" by code_simp
  with ids(2,3) have "unat (ids ! 0) = (3 + 10 * 2) mod 8"
    by (simp add: obs table_rows_def)
  with ids show ?thesis by auto
qed

text \<open>cutting a chunk in two changes neither the identifiers nor the window: appending
  \<open>xs @ ys\<close> gives the identifiers of \<open>xs\<close> followed by those of \<open>ys\<close> appended next, and the same
  final window; if the first part fails, the whole fails in the same state with the same error.
\<close>

theorem append_chunk_split:
  assumes pend: "rollback_context w \<noteq> None" and ctx: "context_ok plan (window_context w)"
    and len: "0 < context_len plan"
  shows "append_chunk plan (xs @ ys) w =
    (case append_chunk plan xs w of
       (Inl e, w1) \<Rightarrow> (Inl e, w1)
     | (Inr b1, w1) \<Rightarrow>
         (case append_chunk plan ys w1 of
            (Inl e, w2) \<Rightarrow> (Inl e, w2)
          | (Inr b2, w2) \<Rightarrow>
              (Inr \<lparr>batch_rows = batch_rows b1 + batch_rows b2, batch_tables = table_count plan,
                    batch_ids = batch_ids b1 @ batch_ids b2\<rparr>, w2)))"
proof -
  obtain rb where rb: "rollback_context w = Some rb" using pend by auto
  obtain r1 c1 where a: "append_tokens plan xs (window_context w) [] = (r1, c1)"
    by (cases "append_tokens plan xs (window_context w) []")
  show ?thesis
  proof (cases r1)
    case (Inl e)
    with a rb ctx show ?thesis
      by (simp add: append_chunk_def validate_context_cases append_tokens_append)
  next
    case (Inr ids)
    have c1: "context_ok plan c1"
      using append_tokens_Ok [OF a [unfolded Inr]] ctx len by (simp add: context_ok_foldl)
    obtain r2 c2 where b: "append_tokens plan ys c1 [] = (r2, c2)"
      by (cases "append_tokens plan ys c1 []")
    have "append_tokens plan (xs @ ys) (window_context w) [] = (map_sum id ((@) ids) r2, c2)"
      using append_tokens_acc [of plan ys c1 ids]
      by (simp add: append_tokens_append a Inr b)
    with a b Inr rb ctx c1 show ?thesis
      by (cases r2) (simp_all add: append_chunk_def validate_context_cases)
  qed
qed

theorem append_chunk_split_witness:
  "let plan = ngram_layout 10 7 2 3 None; w = snd (begin_append (window_new plan)) in
   append_chunk plan ([1, 2] @ [3]) w =
    (case append_chunk plan [1, 2] w of
       (Inl e, w1) \<Rightarrow> (Inl e, w1)
     | (Inr b1, w1) \<Rightarrow>
         (case append_chunk plan [3] w1 of
            (Inl e, w2) \<Rightarrow> (Inl e, w2)
          | (Inr b2, w2) \<Rightarrow>
              (Inr \<lparr>batch_rows = batch_rows b1 + batch_rows b2, batch_tables = table_count plan,
                    batch_ids = batch_ids b1 @ batch_ids b2\<rparr>, w2)))"
  unfolding Let_def
  by (rule append_chunk_split)
    (simp_all add: begin_append_def window_new_def context_ok_def context_len_def
      ngram_layout_def Let_def)

text \<open>an append transaction is undone by \<open>abort_append\<close>, whatever chunks were appended in
  between and whether or not they failed part-way: the window is exactly the one before
  \<open>begin_append\<close>.
\<close>

theorem abort_restores_window:
  assumes "fst (begin_append w) = Ok ()"
  shows "abort_append (foldl (\<lambda>w c. snd (append_chunk plan c w)) (snd (begin_append w)) chunks) =
    (Ok (), w)"
proof -
  let ?w0 = "snd (begin_append w)"
  have w0: "?w0 = w\<lparr>rollback_context := Some (window_context w)\<rparr>" and nr: "rollback_context w = None"
    using assms by (auto simp: begin_append_def split: option.splits)
  obtain c where
    "foldl (\<lambda>w c. snd (append_chunk plan c w)) ?w0 chunks = ?w0\<lparr>window_context := c\<rparr>"
    using append_chunks_frame by blast
  with w0 nr show ?thesis by (simp add: abort_append_def)
qed

theorem abort_restores_window_witness:
  "let plan = ngram_layout 10 7 2 3 None; w = window_new plan in
   abort_append (foldl (\<lambda>w c. snd (append_chunk plan c w)) (snd (begin_append w)) [[1, 2], [77]]) =
     (Ok (), w)"
  unfolding Let_def
  by (rule abort_restores_window) (simp add: begin_append_def window_new_def)

text \<open>a committed append leaves the window that \<open>restore_prefix\<close> rebuilds from the complete token
  sequence, and row \<open>i\<close> of the returned batch is the hash of token \<open>i\<close> in the context restored
  from the tokens before it.
\<close>

theorem append_matches_restore:
  assumes restore: "restore_prefix plan xs w = (Ok (), w1)"
    and begn: "begin_append w1 = (Ok (), w2)"
    and app: "append_chunk plan ys w2 = (Ok b, w3)"
    and commit: "commit_append w3 = (Ok (), w4)"
    and len: "0 < context_len plan" and mem: "length ys * table_count plan \<le> usize_max"
  shows "restore_prefix plan (xs @ ys) w = (Ok (), w4) \<and>
    (\<forall>i < length ys. \<exists>wi ids. restore_prefix plan (xs @ take i ys) w = (Ok (), wi) \<and>
       batch_row b i = Some ids \<and> hash_token plan (window_context wi) (ys ! i) = Ok ids)"
proof -
  let ?start = "replicate (context_len plan) None"
  let ?ctx = "\<lambda>ts. foldl (observe plan) ?start ts"
  have r: "rollback_context w = None"
    and xs: "\<forall>t \<in> set xs. t < vocab_size plan" and w1: "w1 = w\<lparr>window_context := ?ctx xs\<rparr>"
    using restore by (auto simp: restore_prefix_def restore_tokens_Ok split: option.splits prod.splits)
  have w2: "w2 = w1\<lparr>rollback_context := Some (window_context w1)\<rparr>"
    using begn by (auto simp: begin_append_def split: option.splits)
  from app obtain ids ctx' where
    at: "append_tokens plan ys (window_context w2) [] = (Ok ids, ctx')"
    and b: "b = \<lparr>batch_rows = length ys, batch_tables = table_count plan, batch_ids = ids\<rparr>"
    and w3: "w3 = w2\<lparr>window_context := ctx'\<rparr>"
    unfolding append_chunk_Ok by auto
  have w4: "w4 = w3\<lparr>rollback_context := None\<rparr>"
    using commit by (auto simp: commit_append_def split: option.splits)
  note ok = append_tokens_Ok [OF at]
  have c: "window_context w2 = ?ctx xs" by (simp add: w2 w1)
  have res: "restore_prefix plan (xs @ take i ys) w = (Ok (), w\<lparr>window_context := ?ctx (xs @ take i ys)\<rparr>)" for i
  proof -
    have "\<forall>t \<in> set (xs @ take i ys). t < vocab_size plan"
      using xs ok by (auto dest: in_set_takeD)
    then have "restore_tokens plan (xs @ take i ys) ?start = (Ok (), ?ctx (xs @ take i ys))"
      by (subst restore_tokens_Ok) simp
    then show ?thesis by (simp add: restore_prefix_def r)
  qed
  have "w4 = w\<lparr>window_context := ?ctx (xs @ ys)\<rparr>"
    using ok c r by (cases w) (simp add: w4 w3 w2 w1)
  with res [of "length ys"] have "restore_prefix plan (xs @ ys) w = (Ok (), w4)" by simp
  moreover have "batch_row b i = Some (token_ids plan (?ctx (xs @ take i ys)) (ys ! i))"
    if i: "i < length ys" for i
  proof -
    have "Suc i * table_count plan \<le> length ys * table_count plan"
      by (intro mult_le_mono1) (use i in simp)
    then have "i * table_count plan + table_count plan \<le> length ids" "i * table_count plan \<le> usize_max"
      using ok mem by simp_all
    with ok i c show ?thesis
      by (simp add: b batch_row_def checked_mul_def get_range_def)
  qed
  moreover have "hash_token plan (?ctx (xs @ take i ys)) (ys ! i) =
      Ok (token_ids plan (?ctx (xs @ take i ys)) (ys ! i))" if i: "i < length ys" for i
  proof -
    have "context_ok plan ?start" by (simp add: context_ok_def)
    then have "context_ok plan (?ctx (xs @ take i ys))"
      using xs ok len by (intro context_ok_foldl) (auto dest: in_set_takeD)
    with ok i show ?thesis
      by (simp add: hash_token_def validate_context_cases validate_token_cases token_ids_def)
  qed
  ultimately show ?thesis using res by (auto intro!: exI)
qed

theorem append_matches_restore_witness:
  "let plan = ngram_layout 10 7 2 2 None; w = window_new plan;
       w2 = snd (begin_append (snd (restore_prefix plan [1] w)))
   in \<exists>b w3. append_chunk plan [2, 3] w2 = (Ok b, w3) \<and>
        restore_prefix plan ([1] @ [2, 3]) w = (Ok (), snd (commit_append w3))"
proof -
  let ?plan = "ngram_layout 10 7 2 2 None"
  let ?w = "window_new ?plan"
  have v: "vocab_size ?plan = 10" "boundary_token ?plan = None" "context_len ?plan = 1"
    "table_count ?plan = 2"
    by (simp_all add: ngram_layout_def context_len_def table_count_def Let_def)
  note defs = restore_prefix_def window_new_def validate_token_cases observe_def observed_token_def v
  have r: "restore_prefix ?plan [1] ?w = (Ok (), ?w\<lparr>window_context := [Some 1]\<rparr>)"
    by (simp add: defs)
  let ?w2 = "?w\<lparr>window_context := [Some 1], rollback_context := Some [Some 1]\<rparr>"
  have b: "begin_append (?w\<lparr>window_context := [Some 1]\<rparr>) = (Ok (), ?w2)"
    by (simp add: begin_append_def window_new_def)
  have "\<exists>ids. append_tokens ?plan [2, 3] [Some 1] [] = (Ok ids, [Some 3])"
    by (simp add: defs)
  then obtain b w3 where a: "append_chunk ?plan [2, 3] ?w2 = (Ok b, w3)"
      and w3: "w3 = ?w2\<lparr>window_context := [Some 3]\<rparr>"
    by (auto simp: append_chunk_Ok context_ok_def v)
  then have c: "commit_append w3 = (Ok (), snd (commit_append w3))"
    by (simp add: commit_append_def)
  have "length [2 :: u32, 3] * table_count ?plan \<le> usize_max"
    by (simp add: v usize_max_def)
  from append_matches_restore [OF r b a c _ this] r b a show ?thesis
    by (auto simp: v Let_def)
qed

end
