(* ===== verification/Expert_Cache.thy ===== *)
theory Expert_Cache
  imports Prelude "HOL-Library.Product_Lexorder"
begin

text \<open>
  Paged mixture-of-experts weights: \<open>crates/infer/src/execution/expert_cache.rs\<close> and
  \<open>expert_hotset.rs\<close>, with the two CUDA kernels they launch
  (\<open>crates/eider-cuda/native/non_gemm.cu\<close> through \<open>kernels/non_gemm.rs\<close>).

  \<open>ExpertSlotCache\<close> keeps a bounded number of experts resident in device slots with a
  least-recently-used policy. \<open>plan_experts\<close> resolves the experts of one route, choosing slots to
  evict; \<open>discard_misses\<close> takes back slots whose records could not be read;
  \<open>enqueue_mapping_upload\<close> and the remap operations publish the mapping to the device. The
  invariant \<open>cache_ok\<close> says that the two directions of the mapping are inverse to each other, so
  every index the code computes is in range. Array indexing in the model is under that invariant.
\<close>

section \<open>Resident slots\<close>

record ExpertSlotMiss =
  miss_expert :: nat
  miss_slot :: nat

record ExpertSlotPlan =
  plan_slots :: "u32 list"
  hits :: nat
  misses :: "ExpertSlotMiss list"
  evictions :: nat
  resident_slots :: nat

record ExpertSlotCache =
  expert_to_slot :: "nat option list"
  slot_to_expert :: "nat option list"
  last_used :: "u64 list"
  clock :: u64
  route_len :: nat
  device_map :: "u32 list"
  map_staging :: "u32 list"
  slot_indices :: "u32 list"

definition expert_cache_new :: "nat \<Rightarrow> nat \<Rightarrow> nat \<Rightarrow> cuda_status \<Rightarrow> ExpertSlotCache result" where
  "expert_cache_new experts capacity route st =
     (if experts = 0 \<or> route = 0 \<or> capacity < route \<or> experts < capacity
      then Err (Shape ''expert slot cache'')
      else bind_result st (\<lambda>_. Ok
        \<lparr>expert_to_slot = replicate experts None, slot_to_expert = replicate capacity None,
         last_used = replicate capacity 0, clock = 0, route_len = route,
         device_map = replicate experts (-1), map_staging = replicate experts 0,
         slot_indices = replicate route 0\<rparr>))"

text \<open>
  The slot for a miss: the first empty one, otherwise the least recently used one that the
  current route does not hold.
\<close>

definition choose_slot :: "ExpertSlotCache \<Rightarrow> bool list \<Rightarrow> nat option" where
  "choose_slot c protected =
     (case position (\<lambda>e. e = None) (slot_to_expert c) of
        Some slot \<Rightarrow> Some slot
      | None \<Rightarrow>
          map_option fst
            (min_by (\<lambda>a b. snd a < snd b)
              (filter (\<lambda>(slot, _). \<not> protected ! slot) (List.enumerate 0 (last_used c)))))"

text \<open>Installing \<open>expert\<close> in \<open>slot\<close>, evicting its occupant if there is one.\<close>

definition install :: "ExpertSlotCache \<Rightarrow> nat \<Rightarrow> nat \<Rightarrow> ExpertSlotCache" where
  "install c expert slot =
     (let e2s = (case slot_to_expert c ! slot of
                   None \<Rightarrow> expert_to_slot c
                 | Some evicted \<Rightarrow> (expert_to_slot c)[evicted := None])
      in c\<lparr>expert_to_slot := e2s[expert := Some slot],
           slot_to_expert := (slot_to_expert c)[slot := Some expert]\<rparr>)"

definition touch :: "ExpertSlotCache \<Rightarrow> nat \<Rightarrow> ExpertSlotCache" where
  "touch c slot = c\<lparr>clock := clock c + 1, last_used := (last_used c)[slot := clock c + 1]\<rparr>"

text \<open>The loop over the route, with the plan built so far; a failure keeps the cache reached.\<close>

fun plan_loop ::
  "nat list \<Rightarrow> bool list \<Rightarrow> ExpertSlotPlan \<Rightarrow> ExpertSlotCache \<Rightarrow> ExpertSlotPlan result \<times> ExpertSlotCache"
where
  "plan_loop [] protected p c =
     (Ok (p\<lparr>resident_slots := length (filter (\<lambda>e. e \<noteq> None) (slot_to_expert c))\<rparr>), c)"
| "plan_loop (expert # rest) protected p c =
     (case expert_to_slot c ! expert of
        Some slot \<Rightarrow>
          plan_loop rest (protected[slot := True])
            (p\<lparr>hits := hits p + 1, plan_slots := plan_slots p @ [of_nat slot]\<rparr>) (touch c slot)
      | None \<Rightarrow>
          (case choose_slot c protected of
             None \<Rightarrow> (Err (Format ''expert slot cache''), c)
           | Some slot \<Rightarrow>
               plan_loop rest (protected[slot := True])
                 (p\<lparr>evictions := evictions p + (if slot_to_expert c ! slot = None then 0 else 1),
                    misses := misses p @ [\<lparr>miss_expert = expert, miss_slot = slot\<rparr>],
                    plan_slots := plan_slots p @ [of_nat slot]\<rparr>)
                 (touch (install c expert slot) slot)))"

definition protected_slots :: "ExpertSlotCache \<Rightarrow> nat list \<Rightarrow> bool list" where
  "protected_slots c experts =
     foldl (\<lambda>p e. case expert_to_slot c ! e of None \<Rightarrow> p | Some slot \<Rightarrow> p[slot := True])
       (replicate (length (slot_to_expert c)) False) experts"

definition plan_experts ::
  "ExpertSlotCache \<Rightarrow> u32 list \<Rightarrow> ExpertSlotPlan result \<times> ExpertSlotCache" where
  "plan_experts c ids =
     (if ids = [] \<or> length (slot_to_expert c) < length ids
      then (Err (Shape ''expert slot working set''), c)
      else if list_ex (\<lambda>e. length (expert_to_slot c) \<le> unat e) ids
      then (Err (Shape ''expert slot route ID''), c)
      else plan_loop (map unat ids) (protected_slots c (map unat ids))
             \<lparr>plan_slots = [], hits = 0, misses = [], evictions = 0, resident_slots = 0\<rparr> c)"

definition plan_route ::
  "ExpertSlotCache \<Rightarrow> u32 list \<Rightarrow> ExpertSlotPlan result \<times> ExpertSlotCache" where
  "plan_route c ids =
     (if length ids \<noteq> route_len c then (Err (Shape ''expert slot route''), c)
      else plan_experts c ids)"

text \<open>
  \<open>discard_misses\<close> indexes both tables with numbers of its argument; \<open>None\<close> is the panic on a
  number out of range.
\<close>

definition discard_miss :: "ExpertSlotCache \<Rightarrow> ExpertSlotMiss \<Rightarrow> ExpertSlotCache option" where
  "discard_miss c m =
     (if length (expert_to_slot c) \<le> miss_expert m \<or> length (slot_to_expert c) \<le> miss_slot m
      then None
      else Some (c\<lparr>
        expert_to_slot :=
          (if expert_to_slot c ! miss_expert m = Some (miss_slot m)
           then (expert_to_slot c)[miss_expert m := None] else expert_to_slot c),
        slot_to_expert :=
          (if slot_to_expert c ! miss_slot m = Some (miss_expert m)
           then (slot_to_expert c)[miss_slot m := None] else slot_to_expert c)\<rparr>))"

fun discard_misses :: "ExpertSlotCache \<Rightarrow> ExpertSlotMiss list \<Rightarrow> ExpertSlotCache option" where
  "discard_misses c [] = Some c"
| "discard_misses c (m # ms) = Option.bind (discard_miss c m) (\<lambda>c'. discard_misses c' ms)"

text \<open>
  \<open>read_expert_misses\<close> reads the records of all misses in scoped threads and joins them in route
  order. The record source is a parameter: what reading expert \<open>e\<close> does, with a panic of the reader
  as an outcome. Joining stops at the first failure; the scope then joins the remaining threads
  itself and panics (\<open>None\<close>) when one of those panicked, as \<open>std::thread::scope\<close> does.
\<close>

datatype 'r read_outcome = ReaderPanicked | ReaderReturned "'r result"

record 'r LoadedExpertRecord =
  loaded_expert :: nat
  loaded_slot :: nat
  loaded_record :: 'r

fun join_readers :: "'r read_outcome list \<Rightarrow> 'r list result option" where
  "join_readers [] = Some (Ok [])"
| "join_readers (ReaderPanicked # rest) =
     (if ReaderPanicked \<in> set rest then None else Some (Err (Format ''expert record source'')))"
| "join_readers (ReaderReturned (Inl e) # rest) =
     (if ReaderPanicked \<in> set rest then None else Some (Err e))"
| "join_readers (ReaderReturned (Inr r) # rest) =
     map_option (\<lambda>rs. bind_result rs (\<lambda>rs. Ok (r # rs))) (join_readers rest)"

definition read_expert_misses ::
  "(nat \<Rightarrow> 'r read_outcome) \<Rightarrow> ExpertSlotMiss list \<Rightarrow> 'r LoadedExpertRecord list result option" where
  "read_expert_misses read_record ms =
     join_readers (map (\<lambda>m. case read_record (miss_expert m) of
         ReaderPanicked \<Rightarrow> ReaderPanicked
       | ReaderReturned r \<Rightarrow> ReaderReturned (bind_result r (\<lambda>x. Ok
           \<lparr>loaded_expert = miss_expert m, loaded_slot = miss_slot m, loaded_record = x\<rparr>))) ms)"

section \<open>The mapping on the device\<close>

definition enqueue_mapping_upload ::
  "ExpertSlotCache \<Rightarrow> cuda_status \<Rightarrow> unit result \<times> ExpertSlotCache" where
  "enqueue_mapping_upload c st =
     (let host_map = map (\<lambda>slot. case slot of None \<Rightarrow> -1 | Some s \<Rightarrow> of_nat s) (expert_to_slot c) in
      if length host_map \<noteq> length (map_staging c) then (Err (Shape ''pinned host copy''), c)
      else
        let c = c\<lparr>map_staging := host_map\<rparr> in
        (case st of Inl e \<Rightarrow> (Err e, c) | Inr _ \<Rightarrow> (Ok (), c\<lparr>device_map := host_map\<rparr>)))"

text \<open>The kernel: one thread per output entry.\<close>

definition remap_expert_indices_kernel :: "u32 list \<Rightarrow> u32 list \<Rightarrow> nat \<Rightarrow> u32 list" where
  "remap_expert_indices_kernel indices table count =
     map (\<lambda>i. if unat (indices ! i) < length table then table ! unat (indices ! i) else -1) [0..<count]"

definition remap_expert_indices_range ::
  "u32 list \<Rightarrow> nat \<Rightarrow> u32 list \<Rightarrow> u32 list \<Rightarrow> nat \<Rightarrow> cuda_status \<Rightarrow> unit result \<times> u32 list" where
  "remap_expert_indices_range indices offset table out count st =
     (let expert_end = saturating_add offset count in
      if out = [] \<or> count = 0 \<or> length out < count \<or> table = [] \<or> length indices < expert_end \<or>
         u32_max < offset \<or> u32_max < count \<or> u32_max < length table
      then (Err (Shape ''expert slot remap''), out)
      else (case st of
              Inl e \<Rightarrow> (Err e, out)
            | Inr _ \<Rightarrow>
                (Ok (), write_at out 0 (remap_expert_indices_kernel (drop offset indices) table count))))"

definition remap_at_offset_on_stream ::
  "ExpertSlotCache \<Rightarrow> u32 list \<Rightarrow> nat \<Rightarrow> cuda_status \<Rightarrow> unit result \<times> ExpertSlotCache" where
  "remap_at_offset_on_stream c ids offset st =
     (case remap_expert_indices_range ids offset (device_map c) (slot_indices c)
             (length (slot_indices c)) st of
        (r, out) \<Rightarrow> (r, c\<lparr>slot_indices := out\<rparr>))"

definition remap_on_stream ::
  "ExpertSlotCache \<Rightarrow> u32 list \<Rightarrow> cuda_status \<Rightarrow> unit result \<times> ExpertSlotCache" where
  "remap_on_stream c ids st = remap_at_offset_on_stream c ids 0 st"

definition remap_range_into_on_stream ::
  "ExpertSlotCache \<Rightarrow> u32 list \<Rightarrow> nat \<Rightarrow> nat \<Rightarrow> u32 list \<Rightarrow> cuda_status \<Rightarrow> unit result \<times> u32 list" where
  "remap_range_into_on_stream c ids offset count out st =
     remap_expert_indices_range ids offset (device_map c) out count st"

section \<open>Usage counts and the hot set\<close>

definition usage_tracker_new :: "nat \<Rightarrow> cuda_status \<Rightarrow> u64 list result" where
  "usage_tracker_new experts st =
     (if experts = 0 then Err (Shape ''expert usage tracker'')
      else bind_result st (\<lambda>_. Ok (replicate experts 0)))"

text \<open>The histogram kernel: one atomic increment per in-range route entry.\<close>

definition record_expert_indices_kernel :: "u32 list \<Rightarrow> u64 list \<Rightarrow> u64 list" where
  "record_expert_indices_kernel indices counts =
     foldl (\<lambda>cs e. if unat e < length cs then cs[unat e := cs ! unat e + 1] else cs) counts indices"

definition record_prefix ::
  "u32 list \<Rightarrow> nat \<Rightarrow> u64 list \<Rightarrow> cuda_status \<Rightarrow> unit result \<times> u64 list" where
  "record_prefix indices len counts st =
     (if len = 0 \<or> length indices < len \<or> counts = [] \<or> u32_max < len \<or> u32_max < length counts
      then (Err (Shape ''expert usage histogram''), counts)
      else (case st of
              Inl e \<Rightarrow> (Err e, counts)
            | Inr _ \<Rightarrow> (Ok (), record_expert_indices_kernel (take len indices) counts)))"

definition select_top_experts :: "u64 list \<Rightarrow> nat \<Rightarrow> nat list result" where
  "select_top_experts counts capacity =
     (if counts = [] \<or> capacity = 0 \<or> length counts < capacity
      then Err (Shape ''expert hotset selection'')
      else
        let ranked = filter (\<lambda>(_, count). count \<noteq> 0) (List.enumerate 0 counts);
            sorted = sort_key (\<lambda>(expert, count). (- int (unat count), expert)) ranked
        in Ok (map fst (take capacity sorted)))"

section \<open>The invariant\<close>

definition occupied :: "ExpertSlotCache \<Rightarrow> nat" where
  "occupied c = length (filter (\<lambda>e. e \<noteq> None) (slot_to_expert c))"

definition cache_ok :: "ExpertSlotCache \<Rightarrow> bool" where
  "cache_ok c \<longleftrightarrow>
     length (last_used c) = length (slot_to_expert c) \<and>
     length (device_map c) = length (expert_to_slot c) \<and>
     length (map_staging c) = length (expert_to_slot c) \<and>
     (\<forall>e < length (expert_to_slot c). \<forall>s. expert_to_slot c ! e = Some s \<longrightarrow>
        s < length (slot_to_expert c) \<and> slot_to_expert c ! s = Some e) \<and>
     (\<forall>s < length (slot_to_expert c). \<forall>e. slot_to_expert c ! s = Some e \<longrightarrow>
        e < length (expert_to_slot c) \<and> expert_to_slot c ! e = Some s)"

text \<open>The fields no planning step writes.\<close>

definition same_frame :: "ExpertSlotCache \<Rightarrow> ExpertSlotCache \<Rightarrow> bool" where
  "same_frame c c' \<longleftrightarrow>
     length (expert_to_slot c') = length (expert_to_slot c) \<and>
     length (slot_to_expert c') = length (slot_to_expert c) \<and>
     route_len c' = route_len c \<and> device_map c' = device_map c \<and>
     map_staging c' = map_staging c \<and> slot_indices c' = slot_indices c"

lemma cache_ok_slot:
  assumes "cache_ok c" "e < length (expert_to_slot c)" "expert_to_slot c ! e = Some s"
  shows "s < length (slot_to_expert c)" "slot_to_expert c ! s = Some e"
  using assms unfolding cache_ok_def by blast+

lemma cache_ok_expert:
  assumes "cache_ok c" "s < length (slot_to_expert c)" "slot_to_expert c ! s = Some e"
  shows "e < length (expert_to_slot c)" "expert_to_slot c ! e = Some s"
  using assms unfolding cache_ok_def by blast+

lemma cache_ok_lengths:
  "cache_ok c \<Longrightarrow> length (last_used c) = length (slot_to_expert c)"
  "cache_ok c \<Longrightarrow> length (device_map c) = length (expert_to_slot c)"
  "cache_ok c \<Longrightarrow> length (map_staging c) = length (expert_to_slot c)"
  by (simp_all add: cache_ok_def)

lemma cache_okI:
  assumes "length (last_used c) = length (slot_to_expert c)"
    "length (device_map c) = length (expert_to_slot c)"
    "length (map_staging c) = length (expert_to_slot c)"
    "\<And>e s. e < length (expert_to_slot c) \<Longrightarrow> expert_to_slot c ! e = Some s \<Longrightarrow>
       s < length (slot_to_expert c) \<and> slot_to_expert c ! s = Some e"
    "\<And>s e. s < length (slot_to_expert c) \<Longrightarrow> slot_to_expert c ! s = Some e \<Longrightarrow>
       e < length (expert_to_slot c) \<and> expert_to_slot c ! e = Some s"
  shows "cache_ok c"
  using assms unfolding cache_ok_def by blast

lemma cache_ok_new:
  "expert_cache_new experts capacity route st = Ok c \<Longrightarrow> cache_ok c"
  by (auto simp: expert_cache_new_def cache_ok_def result_simps split: if_splits)

lemma touch_simps [simp]:
  "expert_to_slot (touch c s) = expert_to_slot c" "slot_to_expert (touch c s) = slot_to_expert c"
  "same_frame c (touch c s)" "occupied (touch c s) = occupied c"
  "cache_ok (touch c s) = cache_ok c"
  by (simp_all add: touch_def same_frame_def occupied_def cache_ok_def)

lemma same_frame_trans: "same_frame a b \<Longrightarrow> same_frame b c \<Longrightarrow> same_frame a c"
  by (simp add: same_frame_def)

lemma same_frame_install [simp]: "same_frame c (install c e s)"
  by (simp add: install_def same_frame_def Let_def split: option.split)

lemma slot_to_expert_install [simp]:
  "slot_to_expert (install c e s) = (slot_to_expert c)[s := Some e]"
  by (simp add: install_def Let_def)

lemma expert_to_slot_install:
  assumes "e < length (expert_to_slot c)" "x < length (expert_to_slot c)"
  shows "expert_to_slot (install c e s) ! x =
    (if x = e then Some s else if slot_to_expert c ! s = Some x then None
     else expert_to_slot c ! x)"
  using assms by (auto simp: install_def Let_def nth_list_update split: option.splits)

lemma cache_ok_install:
  assumes ok: "cache_ok c" and e: "e < length (expert_to_slot c)" "expert_to_slot c ! e = None"
    and s: "s < length (slot_to_expert c)"
  shows "cache_ok (install c e s)"
proof -
  have len: "length (expert_to_slot (install c e s)) = length (expert_to_slot c)"
    using same_frame_install [of c e s] by (simp add: same_frame_def)
  have fwd: "t < length (slot_to_expert c) \<and> (slot_to_expert c)[s := Some e] ! t = Some x"
    if x: "x < length (expert_to_slot c)" "expert_to_slot (install c e s) ! x = Some t" for x t
    using x cache_ok_slot [OF ok x(1), of t] s
    by (auto simp: expert_to_slot_install [OF e(1) x(1)] nth_list_update split: if_splits)
  have bwd: "x < length (expert_to_slot c) \<and> expert_to_slot (install c e s) ! x = Some t"
    if t: "t < length (slot_to_expert c)" "(slot_to_expert c)[s := Some e] ! t = Some x" for x t
  proof (cases "t = s")
    case True
    with t s e show ?thesis by (simp add: expert_to_slot_install)
  next
    case False
    with t have c: "slot_to_expert c ! t = Some x" by simp
    note bk = cache_ok_expert [OF ok t(1) c]
    have "x \<noteq> e" using bk(2) e(2) by auto
    moreover have "slot_to_expert c ! s \<noteq> Some x"
      using cache_ok_expert(2) [OF ok s] bk(2) False by auto
    ultimately show ?thesis using bk by (simp add: expert_to_slot_install [OF e(1)])
  qed
  have "length (last_used (install c e s)) = length (slot_to_expert c)"
    "length (device_map (install c e s)) = length (expert_to_slot c)"
    "length (map_staging (install c e s)) = length (expert_to_slot c)"
    using ok by (simp_all add: cache_ok_def install_def Let_def)
  with fwd bwd show ?thesis
    unfolding cache_ok_def len slot_to_expert_install length_list_update by blast
qed

lemma occupied_install:
  assumes "s < length (slot_to_expert c)"
  shows "occupied (install c e s) + (if slot_to_expert c ! s = None then 0 else 1) = occupied c + 1"
proof -
  let ?P = "\<lambda>x. x \<noteq> None" and ?xs = "slot_to_expert c"
  have split: "?xs = take s ?xs @ ?xs ! s # drop (Suc s) ?xs"
    using assms by (rule id_take_nth_drop)
  have "length (filter ?P (?xs[s := Some e])) =
      length (filter ?P (take s ?xs)) + Suc (length (filter ?P (drop (Suc s) ?xs)))"
    using assms by (simp add: upd_conv_take_nth_drop)
  moreover have "length (filter ?P ?xs) = length (filter ?P (take s ?xs)) +
      (if ?xs ! s = None then 0 else 1) + length (filter ?P (drop (Suc s) ?xs))"
    by (subst split) (simp add: nth_append)
  ultimately show ?thesis by (simp add: occupied_def)
qed

section \<open>Choosing a slot\<close>

text \<open>\<open>protects ids c p\<close>: the protected slots are exactly those that hold an expert of the route.\<close>

definition protects :: "nat set \<Rightarrow> ExpertSlotCache \<Rightarrow> bool list \<Rightarrow> bool" where
  "protects ids c p \<longleftrightarrow> length p = length (slot_to_expert c) \<and>
     (\<forall>s < length p. p ! s \<longleftrightarrow> (\<exists>e \<in> ids. slot_to_expert c ! s = Some e))"

lemma protects_protected_slots:
  assumes ok: "cache_ok c" and xs: "\<forall>e \<in> set xs. e < length (expert_to_slot c)"
  shows "protects (set xs) c (protected_slots c xs)"
  using xs
proof (induction xs rule: rev_induct)
  case Nil
  then show ?case by (simp add: protects_def protected_slots_def)
next
  case (snoc e xs)
  then have IH: "protects (set xs) c (protected_slots c xs)" and e: "e < length (expert_to_slot c)"
    by simp_all
  show ?case
  proof (cases "expert_to_slot c ! e")
    case None
    then have "protected_slots c (xs @ [e]) = protected_slots c xs"
      by (simp add: protected_slots_def)
    moreover have "slot_to_expert c ! s \<noteq> Some e" if "s < length (slot_to_expert c)" for s
      using cache_ok_expert(2) [OF ok that, of e] None by auto
    ultimately show ?thesis using IH by (simp add: protects_def)
  next
    case (Some t)
    then have "protected_slots c (xs @ [e]) = (protected_slots c xs)[t := True]"
      by (simp add: protected_slots_def)
    moreover note cache_ok_slot [OF ok e Some]
    moreover have "slot_to_expert c ! s = Some e \<longleftrightarrow> s = t" if "s < length (slot_to_expert c)" for s
      using cache_ok_expert(2) [OF ok that, of e] cache_ok_slot [OF ok e Some] Some by auto
    ultimately show ?thesis using IH by (auto simp: protects_def nth_list_update)
  qed
qed

lemma choose_slot_unprotected:
  assumes "choose_slot c p = Some s" and "length (last_used c) = length (slot_to_expert c)"
  shows "s < length (slot_to_expert c) \<and>
    (slot_to_expert c ! s = None \<or>
     (\<forall>t < length (slot_to_expert c). slot_to_expert c ! t \<noteq> None) \<and> \<not> p ! s \<and>
     (\<forall>t < length (slot_to_expert c). \<not> p ! t \<longrightarrow> last_used c ! s \<le> last_used c ! t))"
proof (cases "position (\<lambda>e. e = None) (slot_to_expert c)")
  case (Some t)
  with assms(1) show ?thesis
    using position_Some [OF Some] by (simp add: choose_slot_def)
next
  case None
  let ?free = "filter (\<lambda>(slot, _). \<not> p ! slot) (List.enumerate 0 (last_used c))"
  from None assms(1) obtain u where
    m: "min_by (\<lambda>a b. snd a < snd b) ?free = Some (s, u)"
    by (auto simp: choose_slot_def)
  have min: "(s, u) \<in> set ?free \<and> (\<forall>y \<in> set ?free. \<not> snd y < snd (s, u))"
    by (rule min_by_Some [OF m]) auto
  have mem: "(i, x) \<in> set ?free \<longleftrightarrow> i < length (slot_to_expert c) \<and> x = last_used c ! i \<and> \<not> p ! i" for i x
    using assms(2) by (auto simp: in_set_enumerate_eq)
  have "\<forall>t < length (slot_to_expert c). slot_to_expert c ! t \<noteq> None"
    using None by (simp add: position_None)
  then show ?thesis using min mem by (force simp: not_less)
qed

lemma choose_slot_total:
  assumes ok: "cache_ok c" and p: "protects ids c p" and e: "e \<in> ids" "e < length (expert_to_slot c)"
      "expert_to_slot c ! e = None"
    and fin: "finite ids" and card: "card ids \<le> length (slot_to_expert c)"
  shows "\<exists>s. choose_slot c p = Some s"
proof (rule ccontr)
  let ?n = "length (slot_to_expert c)"
  assume "\<not> ?thesis"
  then have none: "position (\<lambda>e. e = None) (slot_to_expert c) = None"
    and empty: "filter (\<lambda>(slot, _). \<not> p ! slot) (List.enumerate 0 (last_used c)) = []"
    by (auto simp: choose_slot_def split: option.splits)
  have all: "p ! s" if "s < ?n" for s
  proof -
    have "(s, last_used c ! s) \<in> set (List.enumerate 0 (last_used c))"
      using ok that by (simp add: in_set_enumerate_eq cache_ok_def)
    with empty show ?thesis by (auto simp: filter_empty_conv)
  qed
  let ?f = "\<lambda>s. the (slot_to_expert c ! s)"
  have "inj_on ?f {..<?n}"
  proof (rule inj_onI)
    fix s t assume st: "s \<in> {..<?n}" "t \<in> {..<?n}" "?f s = ?f t"
    with all p have "\<exists>x. slot_to_expert c ! s = Some x" "\<exists>y. slot_to_expert c ! t = Some y"
      by (auto simp: protects_def)
    then obtain x y where "slot_to_expert c ! s = Some x" "slot_to_expert c ! t = Some y" by blast
    with st cache_ok_expert(2) [OF ok, of s x] cache_ok_expert(2) [OF ok, of t y] show "s = t"
      by simp
  qed
  moreover have "?f ` {..<?n} \<subseteq> ids - {e}"
  proof
    fix x assume "x \<in> ?f ` {..<?n}"
    then obtain s where s: "s < ?n" "x = ?f s" by auto
    with all p obtain y where y: "y \<in> ids" "slot_to_expert c ! s = Some y"
      by (auto simp: protects_def)
    with s e cache_ok_expert(2) [OF ok s(1) y(2)] show "x \<in> ids - {e}" by auto
  qed
  ultimately have "?n \<le> card (ids - {e})"
    by (metis card_inj_on_le card_lessThan fin finite_Diff)
  moreover have "card (ids - {e}) < card ids"
    using fin e(1) by (rule card_Diff1_less)
  ultimately show False using card by linarith
qed

section \<open>The planning loop\<close>

text \<open>What a run of the loop over \<open>xs\<close> guarantees, for a route with the experts \<open>ids\<close>.\<close>

definition plan_post ::
  "nat set \<Rightarrow> nat list \<Rightarrow> ExpertSlotCache \<Rightarrow> ExpertSlotPlan \<Rightarrow> ExpertSlotCache \<Rightarrow> ExpertSlotPlan \<Rightarrow> bool"
where
  "plan_post ids xs c p c' p' \<longleftrightarrow>
     cache_ok c' \<and> same_frame c c' \<and>
     (\<forall>e \<in> ids. \<forall>s. expert_to_slot c ! e = Some s \<longrightarrow> expert_to_slot c' ! e = Some s) \<and>
     (\<forall>e < length (expert_to_slot c). e \<notin> ids \<longrightarrow>
        expert_to_slot c' ! e = expert_to_slot c ! e \<or> expert_to_slot c' ! e = None) \<and>
     (\<forall>e \<in> set xs. expert_to_slot c' ! e \<noteq> None) \<and>
     plan_slots p' = plan_slots p @ map (\<lambda>e. of_nat (the (expert_to_slot c' ! e))) xs \<and>
     resident_slots p' = occupied c' \<and>
     (\<exists>ms. misses p' = misses p @ ms \<and> distinct (map miss_expert ms) \<and>
        miss_expert ` set ms = {e \<in> set xs. expert_to_slot c ! e = None} \<and>
        (\<forall>m \<in> set ms. expert_to_slot c' ! miss_expert m = Some (miss_slot m)) \<and>
        hits p' + length ms = hits p + length xs \<and>
        occupied c' + evictions p' = occupied c + evictions p + length ms)"

lemma plan_post_hit:
  assumes e: "e \<in> ids" "expert_to_slot c ! e = Some s"
    and post: "plan_post ids xs (touch c s) (p\<lparr>hits := hits p + 1, plan_slots := plan_slots p @ [of_nat s]\<rparr>) c' p'"
  shows "plan_post ids (e # xs) c p c' p'"
proof -
  have c': "expert_to_slot c' ! e = Some s" using e post by (simp add: plan_post_def)
  from post obtain ms where "misses p' = misses p @ ms" "distinct (map miss_expert ms)"
    "miss_expert ` set ms = {e \<in> set xs. expert_to_slot c ! e = None}"
    "\<forall>m \<in> set ms. expert_to_slot c' ! miss_expert m = Some (miss_slot m)"
    "hits p' + length ms = hits p + 1 + length xs"
    "occupied c' + evictions p' = occupied c + evictions p + length ms"
    by (auto simp: plan_post_def)
  moreover have "{x \<in> set (e # xs). expert_to_slot c ! x = None} = {x \<in> set xs. expert_to_slot c ! x = None}"
    using e(2) by auto
  moreover have "same_frame c c'"
    using post same_frame_trans [of c "touch c s" c'] by (simp add: plan_post_def)
  ultimately show ?thesis using post c' by (simp add: plan_post_def)
qed

lemma plan_post_miss:
  assumes ok: "cache_ok c" and e: "e \<in> ids" "e < length (expert_to_slot c)" "expert_to_slot c ! e = None"
    and s: "s < length (slot_to_expert c)" and free: "\<And>x. slot_to_expert c ! s = Some x \<Longrightarrow> x \<notin> ids"
    and ids: "\<forall>x \<in> ids. x < length (expert_to_slot c)" and xs: "set xs \<subseteq> ids"
    and post: "plan_post ids xs (touch (install c e s) s)
      (p\<lparr>evictions := evictions p + (if slot_to_expert c ! s = None then 0 else 1),
         misses := misses p @ [\<lparr>miss_expert = e, miss_slot = s\<rparr>],
         plan_slots := plan_slots p @ [of_nat s]\<rparr>) c' p'"
  shows "plan_post ids (e # xs) c p c' p'"
proof -
  let ?c1 = "install c e s"
  have in1: "expert_to_slot ?c1 ! x = (if x = e then Some s else expert_to_slot c ! x)" if "x \<in> ids" for x
    using that ids free by (auto simp: expert_to_slot_install [OF e(2)])
  have c': "expert_to_slot c' ! e = Some s"
    using e(1) post in1 by (simp add: plan_post_def)
  have len1: "length (expert_to_slot ?c1) = length (expert_to_slot c)"
    using same_frame_install [of c e s] by (simp add: same_frame_def)
  from post obtain ms where ms: "misses p' = misses p @ \<lparr>miss_expert = e, miss_slot = s\<rparr> # ms"
    "distinct (map miss_expert ms)"
    "miss_expert ` set ms = {x \<in> set xs. expert_to_slot ?c1 ! x = None}"
    "\<forall>m \<in> set ms. expert_to_slot c' ! miss_expert m = Some (miss_slot m)"
    "hits p' + length ms = hits p + length xs"
    "occupied c' + evictions p' =
       occupied ?c1 + (evictions p + (if slot_to_expert c ! s = None then 0 else 1)) + length ms"
    by (auto simp: plan_post_def)
  have img: "miss_expert ` set ms = {x \<in> set xs. expert_to_slot c ! x = None} - {e}"
  proof -
    have "expert_to_slot ?c1 ! x = (if x = e then Some s else expert_to_slot c ! x)" if "x \<in> set xs" for x
      using in1 [of x] xs that by blast
    then show ?thesis unfolding ms(3) by (auto split: if_splits)
  qed
  then have "insert e (miss_expert ` set ms) = {x \<in> set (e # xs). expert_to_slot c ! x = None}"
    using e(3) by auto
  moreover have "e \<notin> miss_expert ` set ms" unfolding img by simp
  moreover have "occupied c' + evictions p' = occupied c + evictions p + Suc (length ms)"
    using ms(6) occupied_install [OF s, of e] by simp
  moreover have "same_frame c c'"
    using post same_frame_trans [of c ?c1] same_frame_trans [of c "touch ?c1 s" c']
    by (simp add: plan_post_def)
  moreover have "\<forall>x \<in> ids. \<forall>t. expert_to_slot c ! x = Some t \<longrightarrow> expert_to_slot c' ! x = Some t"
  proof (intro ballI allI impI)
    fix x t assume "x \<in> ids" "expert_to_slot c ! x = Some t"
    with in1 [of x] e(3) have "expert_to_slot ?c1 ! x = Some t" by auto
    with post \<open>x \<in> ids\<close> show "expert_to_slot c' ! x = Some t" by (simp add: plan_post_def)
  qed
  moreover have "expert_to_slot c' ! x = expert_to_slot c ! x \<or> expert_to_slot c' ! x = None"
    if x: "x < length (expert_to_slot c)" "x \<notin> ids" for x
  proof -
    have "x \<noteq> e" using e(1) x(2) by blast
    then have "expert_to_slot ?c1 ! x = expert_to_slot c ! x \<or> expert_to_slot ?c1 ! x = None"
      using x by (simp add: expert_to_slot_install [OF e(2)])
    with post x show ?thesis by (auto simp: plan_post_def len1)
  qed
  moreover have "cache_ok c'" "\<forall>x \<in> set xs. expert_to_slot c' ! x \<noteq> None"
    "plan_slots p' = plan_slots p @ map (\<lambda>e. of_nat (the (expert_to_slot c' ! e))) (e # xs)"
    "resident_slots p' = occupied c'"
    using post c' by (simp_all add: plan_post_def)
  ultimately show ?thesis
    unfolding plan_post_def using ms(1,2,4,5) c'
    by (intro conjI exI [of _ "\<lparr>miss_expert = e, miss_slot = s\<rparr> # ms"]) simp_all
qed

lemma protects_touch [simp]: "protects ids (touch c s) p = protects ids c p"
  by (simp add: protects_def)

lemma protects_hit:
  assumes "protects ids c p" "e \<in> ids" "slot_to_expert c ! s = Some e"
  shows "protects ids c (p[s := True])"
  using assms by (auto simp: protects_def nth_list_update_lt)

lemma protects_install:
  assumes "protects ids c p" "e \<in> ids"
  shows "protects ids (install c e s) (p[s := True])"
  using assms by (auto simp: protects_def nth_list_update_lt)

lemma plan_loop_total:
  assumes "cache_ok c" "protects ids c prot" "set xs \<subseteq> ids"
    "\<forall>x \<in> ids. x < length (expert_to_slot c)" "finite ids" "card ids \<le> length (slot_to_expert c)"
  shows "\<exists>p' c'. plan_loop xs prot p c = (Ok p', c') \<and> plan_post ids xs c p c' p'"
  using assms
proof (induction xs arbitrary: c prot p)
  case Nil
  then show ?case by (simp add: plan_post_def same_frame_def occupied_def)
next
  case (Cons e xs)
  then have e: "e \<in> ids" "e < length (expert_to_slot c)" and xs: "set xs \<subseteq> ids" by auto
  show ?case
  proof (cases "expert_to_slot c ! e")
    case (Some s)
    let ?p1 = "p\<lparr>hits := hits p + 1, plan_slots := plan_slots p @ [of_nat s]\<rparr>"
    have "protects ids (touch c s) (prot[s := True])"
      using protects_hit [OF Cons.prems(2) e(1) cache_ok_slot(2) [OF Cons.prems(1) e(2) Some]]
      by simp
    then obtain p' c' where "plan_loop xs (prot[s := True]) ?p1 (touch c s) = (Ok p', c')"
      "plan_post ids xs (touch c s) ?p1 c' p'"
      using Cons.IH [of "touch c s" "prot[s := True]" ?p1] Cons.prems xs by auto
    with plan_post_hit [OF e(1) Some] Some show ?thesis by auto
  next
    case None
    obtain s where s: "choose_slot c prot = Some s"
      using choose_slot_total [OF Cons.prems(1,2) e None Cons.prems(5,6)] by blast
    have "length (last_used c) = length (slot_to_expert c)"
      using Cons.prems(1) by (simp add: cache_ok_def)
    from choose_slot_unprotected [OF s this] have s': "s < length (slot_to_expert c)"
      and un: "slot_to_expert c ! s = None \<or> \<not> prot ! s" by blast+
    have free: "x \<notin> ids" if "slot_to_expert c ! s = Some x" for x
      using that un s' Cons.prems(2) by (auto simp: protects_def)
    let ?c1 = "touch (install c e s) s"
    let ?p1 = "p\<lparr>evictions := evictions p + (if slot_to_expert c ! s = None then 0 else 1),
         misses := misses p @ [\<lparr>miss_expert = e, miss_slot = s\<rparr>],
         plan_slots := plan_slots p @ [of_nat s]\<rparr>"
    have fr: "same_frame c ?c1"
      by (rule same_frame_trans [of c "install c e s"]) simp_all
    have ok1: "cache_ok ?c1" using cache_ok_install [OF Cons.prems(1) e(2) None s'] by simp
    have "protects ids ?c1 (prot[s := True])"
      using protects_install [OF Cons.prems(2) e(1)] by simp
    then obtain p' c' where "plan_loop xs (prot[s := True]) ?p1 ?c1 = (Ok p', c')"
      "plan_post ids xs ?c1 ?p1 c' p'"
      using Cons.IH [OF ok1 _ xs, of "prot[s := True]" ?p1] Cons.prems(4-6) fr
      by (auto simp: same_frame_def)
    moreover from this(2) have "plan_post ids (e # xs) c p c' p'"
      by (rule plan_post_miss [OF Cons.prems(1) e None s' _ Cons.prems(4) xs, rotated]) (rule free)
    moreover from None s have "plan_loop (e # xs) prot p c = plan_loop xs (prot[s := True]) ?p1 ?c1"
      by simp
    ultimately show ?thesis by metis
  qed
qed

lemma plan_experts_post:
  assumes ok: "cache_ok c" and ids: "ids \<noteq> []" "length ids \<le> length (slot_to_expert c)"
    and range: "\<forall>e \<in> set ids. unat e < length (expert_to_slot c)"
  shows "\<exists>p c'. plan_experts c ids = (Ok p, c') \<and>
    plan_post (unat ` set ids) (map unat ids) c
      \<lparr>plan_slots = [], hits = 0, misses = [], evictions = 0, resident_slots = 0\<rparr> c' p"
proof -
  let ?ids = "unat ` set ids"
  have "card ?ids \<le> length (slot_to_expert c)"
    using card_length [of "map unat ids"] ids(2) by simp
  moreover have "protects ?ids c (protected_slots c (map unat ids))"
    using protects_protected_slots [OF ok, of "map unat ids"] range by simp
  moreover have "\<not> list_ex (\<lambda>e. length (expert_to_slot c) \<le> unat e) ids"
    using range by (auto simp: list_ex_iff not_le)
  ultimately show ?thesis
    using plan_loop_total [OF ok, of ?ids "protected_slots c (map unat ids)" "map unat ids"]
      ids range by (simp add: plan_experts_def not_less)
qed

lemma plan_experts_error:
  assumes "plan_experts c ids = (Err e, c')" and "cache_ok c"
  shows "c' = c \<and> (ids = [] \<or> length (slot_to_expert c) < length ids \<or>
    (\<exists>x \<in> set ids. length (expert_to_slot c) \<le> unat x))"
proof (cases "ids = [] \<or> length (slot_to_expert c) < length ids \<or>
    (\<exists>x \<in> set ids. length (expert_to_slot c) \<le> unat x)")
  case True
  with assms(1) show ?thesis by (auto simp: plan_experts_def list_ex_iff split: if_splits)
next
  case False
  with plan_experts_post [OF assms(2), of ids] assms(1) show ?thesis by (auto simp: not_less not_le)
qed

section \<open>Discarding misses\<close>

lemma discard_miss_Some:
  assumes ok: "cache_ok c" and d: "discard_miss c m = Some c'"
  shows "cache_ok c' \<and> same_frame c c' \<and>
    expert_to_slot c' = (if expert_to_slot c ! miss_expert m = Some (miss_slot m)
      then (expert_to_slot c)[miss_expert m := None] else expert_to_slot c)"
proof -
  have r: "miss_expert m < length (expert_to_slot c)" "miss_slot m < length (slot_to_expert c)"
    using d by (auto simp: discard_miss_def split: if_splits)
  have both: "expert_to_slot c ! miss_expert m = Some (miss_slot m) \<longleftrightarrow>
      slot_to_expert c ! miss_slot m = Some (miss_expert m)"
    using cache_ok_slot [OF ok r(1)] cache_ok_expert [OF ok r(2)] by blast
  show ?thesis
  proof (cases "expert_to_slot c ! miss_expert m = Some (miss_slot m)")
    case False
    with both d r show ?thesis using ok by (simp add: discard_miss_def same_frame_def)
  next
    case True
    with both d r have c': "c' = c\<lparr>expert_to_slot := (expert_to_slot c)[miss_expert m := None],
        slot_to_expert := (slot_to_expert c)[miss_slot m := None]\<rparr>"
      by (simp add: discard_miss_def)
    have fwd: "t < length (slot_to_expert c) \<and> (slot_to_expert c)[miss_slot m := None] ! t = Some x"
      if "x < length (expert_to_slot c)" "(expert_to_slot c)[miss_expert m := None] ! x = Some t" for x t
    proof -
      from that have x: "x \<noteq> miss_expert m" "expert_to_slot c ! x = Some t"
        by (auto simp: nth_list_update_lt split: if_splits)
      note sl = cache_ok_slot [OF ok that(1) x(2)]
      from sl(2) True both x(1) have "t \<noteq> miss_slot m" by auto
      with sl show ?thesis by simp
    qed
    have bwd: "x < length (expert_to_slot c) \<and> (expert_to_slot c)[miss_expert m := None] ! x = Some t"
      if "t < length (slot_to_expert c)" "(slot_to_expert c)[miss_slot m := None] ! t = Some x" for x t
    proof -
      from that have t: "t \<noteq> miss_slot m" "slot_to_expert c ! t = Some x"
        by (auto simp: nth_list_update_lt split: if_splits)
      note ex = cache_ok_expert [OF ok that(1) t(2)]
      from ex(2) True t(1) have "x \<noteq> miss_expert m" by auto
      with ex show ?thesis by simp
    qed
    have f: "expert_to_slot c' = (expert_to_slot c)[miss_expert m := None]"
      "slot_to_expert c' = (slot_to_expert c)[miss_slot m := None]"
      "last_used c' = last_used c" "device_map c' = device_map c" "map_staging c' = map_staging c"
      by (simp_all add: c')
    have "cache_ok c'"
      unfolding cache_ok_def f length_list_update using fwd bwd cache_ok_lengths [OF ok] by blast
    with True show ?thesis by (simp add: c' same_frame_def)
  qed
qed

lemma discard_misses_total:
  assumes "cache_ok c" "\<forall>m \<in> set ms. miss_expert m < length (expert_to_slot c) \<and>
      miss_slot m < length (slot_to_expert c)"
  shows "\<exists>c'. discard_misses c ms = Some c' \<and> cache_ok c' \<and> same_frame c c' \<and>
    (\<forall>e < length (expert_to_slot c). expert_to_slot c' ! e =
       (if \<exists>m \<in> set ms. miss_expert m = e \<and> expert_to_slot c ! e = Some (miss_slot m)
        then None else expert_to_slot c ! e))"
  using assms
proof (induction ms arbitrary: c)
  case Nil
  then show ?case by (simp add: same_frame_def)
next
  case (Cons m ms)
  then obtain c1 where d: "discard_miss c m = Some c1" by (auto simp: discard_miss_def)
  note d1 = discard_miss_Some [OF Cons.prems(1) d]
  from d1 Cons.prems(2) have "\<forall>m \<in> set ms. miss_expert m < length (expert_to_slot c1) \<and>
      miss_slot m < length (slot_to_expert c1)"
    by (simp add: same_frame_def)
  with Cons.IH [of c1] d1 obtain c' where c': "discard_misses c1 ms = Some c'" "cache_ok c'"
    "same_frame c1 c'"
    and look: "\<forall>e < length (expert_to_slot c1). expert_to_slot c' ! e =
       (if \<exists>m \<in> set ms. miss_expert m = e \<and> expert_to_slot c1 ! e = Some (miss_slot m)
        then None else expert_to_slot c1 ! e)"
    by blast
  have "expert_to_slot c' ! e =
       (if \<exists>m \<in> set (m # ms). miss_expert m = e \<and> expert_to_slot c ! e = Some (miss_slot m)
        then None else expert_to_slot c ! e)" if "e < length (expert_to_slot c)" for e
    using that look d1 by (auto simp: same_frame_def nth_list_update_lt)
  with c' d d1 same_frame_trans show ?case by (auto intro: same_frame_trans)
qed

section \<open>Joining the readers\<close>

lemma join_readers_quiet:
  "join_readers (map (\<lambda>x. ReaderReturned (f x)) xs) = Some (map_result f xs)"
proof (induction xs)
  case (Cons x xs)
  then show ?case by (cases "f x") (auto simp: result_simps)
qed simp

lemma join_readers_unjoined:
  "join_readers (xs @ ReaderPanicked # ys @ ReaderPanicked # zs) = None"
  by (induction xs rule: join_readers.induct) auto

section \<open>The hot set\<close>

definition ranks_above :: "u64 list \<Rightarrow> nat \<Rightarrow> nat \<Rightarrow> bool" where
  "ranks_above counts a b \<longleftrightarrow> counts ! b < counts ! a \<or> counts ! a = counts ! b \<and> a < b"

lemma sorted_by_rank:
  fixes counts :: "u64 list"
  defines "ranked \<equiv> filter (\<lambda>(_, n). n \<noteq> 0) (List.enumerate 0 counts)"
  defines "ss \<equiv> sort_key (\<lambda>(expert, n). (- int (unat n), expert)) ranked"
  shows "sorted_wrt (ranks_above counts) (map fst ss) \<and> distinct (map fst ss) \<and>
    set (map fst ss) = {e. e < length counts \<and> counts ! e \<noteq> 0}"
proof -
  let ?k = "\<lambda>(expert, n :: u64). (- int (unat n), expert :: nat)"
  have set: "set ss = {(e, n). e < length counts \<and> n = counts ! e \<and> n \<noteq> 0}"
    by (auto simp: ss_def ranked_def in_set_enumerate_eq)
  have "distinct (map fst ranked)"
    unfolding ranked_def by (rule distinct_map_filter) (simp add: distinct_enumerate)
  then have d: "distinct (map fst ss)" unfolding ss_def distinct_map by (simp add: distinct_map)
  have inj: "inj_on ?k (set ss)"
    by (auto simp: inj_on_def word_uint_eq_iff)
  have "distinct ss" using d by (simp add: distinct_map)
  with inj have "sorted_wrt (<) (map ?k ss)"
    by (simp add: strict_sorted_iff distinct_map ss_def)
  then have "sorted_wrt (\<lambda>a b. ?k a < ?k b) ss" by (simp add: sorted_wrt_map)
  then have "sorted_wrt (\<lambda>a b. ranks_above counts (fst a) (fst b)) ss"
    by (rule sorted_wrt_mono_rel [rotated]) (auto simp: set ranks_above_def word_less_def word_uint_eq_iff)
  then have "sorted_wrt (ranks_above counts) (map fst ss)" by (simp add: sorted_wrt_map)
  moreover have "set (map fst ss) = {e. e < length counts \<and> counts ! e \<noteq> 0}"
    unfolding set_map set by force
  ultimately show ?thesis using d by blast
qed

lemma record_kernel_length [simp]: "length (record_expert_indices_kernel xs cs) = length cs"
proof (induction xs arbitrary: cs)
  case (Cons x xs)
  then show ?case
    using Cons [of "if unat x < length cs then cs[unat x := cs ! unat x + 1] else cs"]
    by (simp add: record_expert_indices_kernel_def)
qed (simp add: record_expert_indices_kernel_def)

lemma record_kernel_Cons:
  "record_expert_indices_kernel (x # xs) cs =
   record_expert_indices_kernel xs (if unat x < length cs then cs[unat x := cs ! unat x + 1] else cs)"
  by (simp add: record_expert_indices_kernel_def)

lemma record_kernel_nth:
  "e < length cs \<Longrightarrow> record_expert_indices_kernel xs cs ! e = cs ! e + of_nat (count_list (map unat xs) e)"
proof (induction xs arbitrary: cs)
  case Nil
  then show ?case by (simp add: record_expert_indices_kernel_def)
next
  case (Cons x xs)
  then show ?case by (auto simp: record_kernel_Cons nth_list_update_lt)
qed

section \<open>Reachable caches\<close>

text \<open>
  The life of a cache: built by \<open>new\<close>, then any sequence of the public operations, in any order
  and with any outcome of the device calls.
\<close>

inductive cache_step :: "ExpertSlotCache \<Rightarrow> ExpertSlotCache \<Rightarrow> bool" where
  step_plan_experts: "plan_experts c ids = (r, c') \<Longrightarrow> cache_step c c'"
| step_plan_route: "plan_route c ids = (r, c') \<Longrightarrow> cache_step c c'"
| step_discard: "discard_misses c ms = Some c' \<Longrightarrow> cache_step c c'"
| step_upload: "enqueue_mapping_upload c st = (r', c') \<Longrightarrow> cache_step c c'"
| step_remap: "remap_at_offset_on_stream c ids offset st = (r', c') \<Longrightarrow> cache_step c c'"

inductive cache_reachable :: "nat \<Rightarrow> nat \<Rightarrow> nat \<Rightarrow> ExpertSlotCache \<Rightarrow> bool"
  for experts capacity route where
  reach_new: "expert_cache_new experts capacity route st = Ok c \<Longrightarrow>
    cache_reachable experts capacity route c"
| reach_step: "cache_reachable experts capacity route c \<Longrightarrow> cache_step c c' \<Longrightarrow>
    cache_reachable experts capacity route c'"

definition cache_inv :: "nat \<Rightarrow> nat \<Rightarrow> nat \<Rightarrow> ExpertSlotCache \<Rightarrow> bool" where
  "cache_inv experts capacity route c \<longleftrightarrow>
     cache_ok c \<and> 0 < route \<and> route \<le> capacity \<and> capacity \<le> experts \<and>
     length (expert_to_slot c) = experts \<and> length (slot_to_expert c) = capacity \<and>
     route_len c = route \<and> length (slot_indices c) = route"

lemma cache_inv_new:
  assumes "expert_cache_new experts capacity route st = Ok c"
  shows "cache_inv experts capacity route c"
  using cache_ok_new [OF assms] assms
  by (auto simp: cache_inv_def expert_cache_new_def result_simps split: if_splits)

lemma cache_inv_frame:
  "cache_inv n k r c \<Longrightarrow> cache_ok c' \<Longrightarrow> same_frame c c' \<Longrightarrow> cache_inv n k r c'"
  by (simp add: cache_inv_def same_frame_def)

lemma plan_experts_frame:
  assumes "cache_ok c" "plan_experts c ids = (r, c')"
  shows "cache_ok c' \<and> same_frame c c'"
proof (cases r)
  case (Inl e)
  with assms plan_experts_error [of c ids e c'] show ?thesis by (simp add: same_frame_def)
next
  case (Inr p)
  have "ids \<noteq> []" "length ids \<le> length (slot_to_expert c)"
    "\<forall>e \<in> set ids. unat e < length (expert_to_slot c)"
    using assms(2) Inr by (auto simp: plan_experts_def list_ex_iff not_le split: if_splits)
  from plan_experts_post [OF assms(1) this] assms(2) show ?thesis
    by (auto simp: plan_post_def)
qed

lemma discard_misses_frame:
  "discard_misses c ms = Some c' \<Longrightarrow> cache_ok c \<Longrightarrow> cache_ok c' \<and> same_frame c c'"
proof (induction ms arbitrary: c)
  case Nil
  then show ?case by (simp add: same_frame_def)
next
  case (Cons m ms)
  then obtain c1 where d: "discard_miss c m = Some c1" "discard_misses c1 ms = Some c'"
    by (auto split: bind_splits)
  from discard_miss_Some [OF Cons.prems(2) d(1)] have "cache_ok c1" "same_frame c c1" by auto
  with Cons.IH [OF d(2)] show ?case by (auto intro: same_frame_trans)
qed

lemma cache_ok_device [simp]:
  "cache_ok (c\<lparr>slot_indices := out\<rparr>) = cache_ok c"
  "length m = length (map_staging c) \<Longrightarrow> cache_ok (c\<lparr>map_staging := m\<rparr>) = cache_ok c"
  "length d = length (device_map c) \<Longrightarrow> cache_ok (c\<lparr>device_map := d\<rparr>) = cache_ok c"
  by (simp_all add: cache_ok_def)

lemma write_prefix_length: "length ys \<le> length xs \<Longrightarrow> length (write_at xs 0 ys) = length xs"
  by (simp add: write_at_def)

lemma remap_range_length:
  "remap_expert_indices_range indices offset table out n st = (r, out') \<Longrightarrow> length out' = length out"
  by (auto simp: remap_expert_indices_range_def remap_expert_indices_kernel_def write_prefix_length
      Let_def split: if_splits sum.splits)

lemma cache_inv_step: "cache_step c c' \<Longrightarrow> cache_inv n k r c \<Longrightarrow> cache_inv n k r c'"
proof (induction rule: cache_step.induct)
  case (step_plan_experts c ids r' c')
  then show ?case using plan_experts_frame cache_inv_frame unfolding cache_inv_def by blast
next
  case (step_plan_route c ids r' c')
  then show ?case
    using plan_experts_frame [of c ids] cache_inv_frame [of n k r c c']
    by (auto simp: plan_route_def cache_inv_def split: if_splits)
next
  case (step_discard c ms c')
  then show ?case using discard_misses_frame cache_inv_frame unfolding cache_inv_def by blast
next
  case (step_upload c st r' c')
  then have "length (map_staging c) = length (expert_to_slot c)" "length (device_map c) = length (expert_to_slot c)"
    by (simp_all add: cache_inv_def cache_ok_lengths)
  with step_upload show ?case
    by (auto simp: cache_inv_def enqueue_mapping_upload_def Let_def split: sum.splits)
next
  case (step_remap c ids offset st r' c')
  then show ?case
    by (auto simp: cache_inv_def remap_at_offset_on_stream_def
        dest: remap_range_length split: prod.splits)
qed

lemma cache_reachable_inv: "cache_reachable n k r c \<Longrightarrow> cache_inv n k r c"
  by (induction rule: cache_reachable.induct) (auto intro: cache_inv_new cache_inv_step)

lemma upload_Ok:
  assumes "cache_ok c"
  shows "\<exists>c'. enqueue_mapping_upload c (Ok ()) = (Ok (), c') \<and>
    device_map c' = map (\<lambda>slot. case slot of None \<Rightarrow> -1 | Some s \<Rightarrow> of_nat s) (expert_to_slot c) \<and>
    slot_indices c' = slot_indices c \<and> slot_to_expert c' = slot_to_expert c \<and>
    expert_to_slot c' = expert_to_slot c"
  using cache_ok_lengths(3) [OF assms] by (simp add: enqueue_mapping_upload_def Let_def)

lemma remap_expert_indices_range_Ok:
  assumes "ids \<noteq> []" "table \<noteq> []" "length out = length ids" "length table \<le> u32_max" "length ids \<le> u32_max"
    "\<forall>e \<in> set ids. unat e < length table"
  shows "remap_expert_indices_range ids 0 table out (length ids) (Ok ()) =
    (Ok (), map (\<lambda>e. table ! unat e) ids)"
proof -
  have "remap_expert_indices_kernel ids table (length ids) = map (\<lambda>e. table ! unat e) ids"
    using assms(6) by (intro nth_equalityI) (simp_all add: remap_expert_indices_kernel_def)
  moreover have "saturating_add 0 (length ids) \<le> length ids" by (simp add: saturating_add_def)
  moreover have "out \<noteq> []" using assms(1,3) by auto
  ultimately show ?thesis
    using assms(1-5) by (simp add: remap_expert_indices_range_def Let_def write_at_def not_less)
qed

lemma remap_on_stream_Ok:
  assumes "ids \<noteq> []" "device_map c \<noteq> []" "length (slot_indices c) = length ids"
    "length (device_map c) \<le> u32_max" "length ids \<le> u32_max"
    "\<forall>e \<in> set ids. unat e < length (device_map c)"
  shows "remap_on_stream c ids (Ok ()) =
    (Ok (), c\<lparr>slot_indices := map (\<lambda>e. device_map c ! unat e) ids\<rparr>)"
  using remap_expert_indices_range_Ok [OF assms] assms(3)
  by (simp add: remap_on_stream_def remap_at_offset_on_stream_def)

section \<open>Properties\<close>

text \<open>C3: Resolving a route that fits the cache always succeeds: the failure
  \<open>working set has no evictable slot\<close> never happens. The two tables stay inverse to each other,
  every expert of the route is resident afterwards and the plan lists its slot in route order, an
  expert of the route that was resident keeps its slot, no other expert moves (it stays or is
  evicted), the misses are exactly the experts that were not resident, each once, hits and misses
  add up to the route, and the evictions account for the change of the occupied slots.\<close>

theorem plan_experts_correct:
  assumes "cache_ok c" "ids \<noteq> []" "length ids \<le> length (slot_to_expert c)"
    and "\<forall>e \<in> set ids. unat e < length (expert_to_slot c)"
  shows "\<exists>p c'. plan_experts c ids = (Ok p, c') \<and> cache_ok c' \<and>
    plan_slots p = map (\<lambda>e. of_nat (the (expert_to_slot c' ! unat e))) ids \<and>
    (\<forall>e \<in> set ids. expert_to_slot c' ! unat e \<noteq> None) \<and>
    (\<forall>e \<in> set ids. expert_to_slot c ! unat e \<noteq> None \<longrightarrow>
       expert_to_slot c' ! unat e = expert_to_slot c ! unat e) \<and>
    (\<forall>e < length (expert_to_slot c). e \<notin> unat ` set ids \<longrightarrow>
       expert_to_slot c' ! e = expert_to_slot c ! e \<or> expert_to_slot c' ! e = None) \<and>
    distinct (map miss_expert (misses p)) \<and>
    miss_expert ` set (misses p) = {e \<in> unat ` set ids. expert_to_slot c ! e = None} \<and>
    (\<forall>m \<in> set (misses p). expert_to_slot c' ! miss_expert m = Some (miss_slot m)) \<and>
    hits p + length (misses p) = length ids \<and>
    occupied c' + evictions p = occupied c + length (misses p) \<and>
    resident_slots p = occupied c'"
  using plan_experts_post [OF assms] by (auto simp: plan_post_def)

definition sample_cache :: ExpertSlotCache where
  "sample_cache =
     \<lparr>expert_to_slot = [Some 0, None, Some 1, None], slot_to_expert = [Some 0, Some 2],
      last_used = [5, 3], clock = 5, route_len = 2, device_map = [0, -1, 1, -1],
      map_staging = [0, -1, 1, -1], slot_indices = [0, 0]\<rparr>"

lemma cache_ok_sample: "cache_ok sample_cache"
  by (rule cache_okI) (auto simp: sample_cache_def less_Suc_eq numeral_eq_Suc)

theorem plan_experts_correct_witness:
  "\<exists>p c'. plan_experts sample_cache [3, 0] = (Ok p, c') \<and> cache_ok c' \<and>
    plan_slots p = map (\<lambda>e. of_nat (the (expert_to_slot c' ! unat e))) [3, 0 :: u32] \<and>
    hits p + length (misses p) = length [3, 0 :: u32]"
proof -
  have "[3, 0 :: u32] \<noteq> []" "length [3, 0 :: u32] \<le> length (slot_to_expert sample_cache)"
    "\<forall>e \<in> set [3, 0 :: u32]. unat e < length (expert_to_slot sample_cache)"
    by (simp_all add: sample_cache_def)
  from plan_experts_correct [OF cache_ok_sample this] show ?thesis
    by (elim exE conjE) (intro exI conjI; assumption)
qed

text \<open>The slot given to a missing expert is an empty one when there is one; otherwise it is a
  slot that no expert of the current route holds, and among those the least recently used.\<close>

theorem choose_slot_lru:
  assumes "cache_ok c" "choose_slot c (protected_slots c ids) = Some s"
    "\<forall>e \<in> set ids. e < length (expert_to_slot c)"
  shows "s < length (slot_to_expert c) \<and>
    (slot_to_expert c ! s = None \<or>
     (\<forall>t < length (slot_to_expert c). slot_to_expert c ! t \<noteq> None) \<and>
     (\<forall>e \<in> set ids. expert_to_slot c ! e \<noteq> Some s) \<and>
     (\<forall>t < length (slot_to_expert c). (\<forall>e \<in> set ids. expert_to_slot c ! e \<noteq> Some t) \<longrightarrow>
        last_used c ! s \<le> last_used c ! t))"
proof -
  have prot: "protected_slots c ids ! t \<longleftrightarrow> (\<exists>e \<in> set ids. expert_to_slot c ! e = Some t)"
    if t: "t < length (slot_to_expert c)" for t
  proof -
    have "slot_to_expert c ! t = Some e \<longleftrightarrow> expert_to_slot c ! e = Some t" if "e \<in> set ids" for e
      using cache_ok_expert(2) [OF assms(1) t] cache_ok_slot(2) [OF assms(1)] assms(3) that by blast
    with protects_protected_slots [OF assms(1,3)] t show ?thesis by (simp add: protects_def)
  qed
  show ?thesis
    using choose_slot_unprotected [OF assms(2) cache_ok_lengths(1) [OF assms(1)]]
    by (auto simp: prot)
qed

theorem choose_slot_lru_witness:
  "choose_slot sample_cache (protected_slots sample_cache [3, 0]) = Some 1 \<and>
   expert_to_slot sample_cache ! 3 \<noteq> Some 1 \<and> expert_to_slot sample_cache ! 0 \<noteq> Some 1"
proof -
  have *: "choose_slot sample_cache (protected_slots sample_cache [3, 0]) = Some 1"
    "\<forall>e \<in> set [3, 0]. e < length (expert_to_slot sample_cache)"
    "slot_to_expert sample_cache ! 1 \<noteq> None"
    by code_simp+
  from choose_slot_lru [OF cache_ok_sample *(1,2)] *(3)
  have "\<forall>e \<in> set [3, 0]. expert_to_slot sample_cache ! e \<noteq> Some 1" by blast
  with *(1) show ?thesis by simp
qed

text \<open>C12: From a new cache through any sequence of its operations, resolving a route, uploading
  the mapping and remapping the route's expert ids on the device all succeed, and the device buffer
  the expert kernels read then holds, entry for entry, the slots of the plan, each of which holds
  the records of exactly the expert that the router chose.\<close>

theorem route_reaches_device:
  assumes reach: "cache_reachable experts capacity route c" and u32: "experts \<le> u32_max"
    and ids: "length ids = route" "\<forall>e \<in> set ids. unat e < experts"
  shows "\<exists>p c1 c2 c3. plan_route c ids = (Ok p, c1) \<and> enqueue_mapping_upload c1 (Ok ()) = (Ok (), c2) \<and>
    remap_on_stream c2 ids (Ok ()) = (Ok (), c3) \<and> slot_indices c3 = plan_slots p \<and>
    (\<forall>i < route. unat (slot_indices c3 ! i) < capacity \<and>
       slot_to_expert c3 ! unat (slot_indices c3 ! i) = Some (unat (ids ! i)))"
proof -
  from cache_reachable_inv [OF reach] have inv: "cache_ok c" "0 < route" "route \<le> capacity"
    "capacity \<le> experts" "length (expert_to_slot c) = experts" "length (slot_to_expert c) = capacity"
    "route_len c = route" "length (slot_indices c) = route"
    by (simp_all add: cache_inv_def)
  from inv(2) ids(1) have "ids \<noteq> []" by auto
  then obtain p c1 where plan: "plan_experts c ids = (Ok p, c1)"
    and post: "plan_post (unat ` set ids) (map unat ids) c
      \<lparr>plan_slots = [], hits = 0, misses = [], evictions = 0, resident_slots = 0\<rparr> c1 p"
    using plan_experts_post [OF inv(1), of ids] inv ids by auto
  from post have c1: "cache_ok c1" "same_frame c c1"
    and slots: "plan_slots p = map (\<lambda>e. of_nat (the (expert_to_slot c1 ! unat e))) ids"
    and res: "\<forall>e \<in> set ids. expert_to_slot c1 ! unat e \<noteq> None"
    by (simp_all add: plan_post_def o_def)
  from upload_Ok [OF c1(1)] obtain c2 where up: "enqueue_mapping_upload c1 (Ok ()) = (Ok (), c2)"
    and c2: "device_map c2 = map (\<lambda>slot. case slot of None \<Rightarrow> -1 | Some s \<Rightarrow> of_nat s) (expert_to_slot c1)"
      "slot_indices c2 = slot_indices c1" "slot_to_expert c2 = slot_to_expert c1"
    by blast
  have "remap_on_stream c2 ids (Ok ()) =
      (Ok (), c2\<lparr>slot_indices := map (\<lambda>e. device_map c2 ! unat e) ids\<rparr>)"
    using inv ids u32 c1(2) by (intro remap_on_stream_Ok) (auto simp: c2 same_frame_def)
  moreover have "map (\<lambda>e. device_map c2 ! unat e) ids = plan_slots p"
    using res ids(2) inv(5) c1(2) by (auto simp: slots c2 same_frame_def)
  moreover have "unat (plan_slots p ! i) < capacity \<and>
      slot_to_expert c1 ! unat (plan_slots p ! i) = Some (unat (ids ! i))" if i: "i < route" for i
  proof -
    from i ids have m: "ids ! i \<in> set ids" by simp
    with res obtain s where s: "expert_to_slot c1 ! unat (ids ! i) = Some s" by auto
    have l: "length (expert_to_slot c1) = experts" "length (slot_to_expert c1) = capacity"
      using c1(2) inv by (simp_all add: same_frame_def)
    with m ids(2) have "unat (ids ! i) < length (expert_to_slot c1)" by simp
    note sl = cache_ok_slot [OF c1(1) this s]
    moreover have "unat (of_nat s :: u32) = s"
      using sl(1) l u32 inv(4) by (intro unat_of_nat_u32) simp
    ultimately show ?thesis using l i ids(1) s by (simp add: slots)
  qed
  ultimately show ?thesis using plan up c2(3) inv(7) ids(1) by (simp add: plan_route_def)
qed

definition fresh_cache :: ExpertSlotCache where
  "fresh_cache =
     \<lparr>expert_to_slot = [None, None, None], slot_to_expert = [None, None], last_used = [0, 0],
      clock = 0, route_len = 2, device_map = [-1, -1, -1], map_staging = [0, 0, 0],
      slot_indices = [0, 0]\<rparr>"

lemma fresh_cache_reachable: "cache_reachable 3 2 2 fresh_cache"
  by (rule reach_new [where st = "Ok ()"])
    (simp add: expert_cache_new_def fresh_cache_def result_simps numeral_eq_Suc)

theorem route_reaches_device_witness:
  "\<exists>p c1 c2 c3. plan_route fresh_cache [2, 0] = (Ok p, c1) \<and>
    enqueue_mapping_upload c1 (Ok ()) = (Ok (), c2) \<and>
    remap_on_stream c2 [2, 0] (Ok ()) = (Ok (), c3) \<and> slot_indices c3 = plan_slots p"
proof -
  have "(3 :: nat) \<le> u32_max" "length [2, 0 :: u32] = 2" "\<forall>e \<in> set [2, 0 :: u32]. unat e < 3"
    by (simp_all add: u32_max_def)
  from route_reaches_device [OF fresh_cache_reachable this] show ?thesis
    by (elim exE conjE) (intro exI conjI; assumption)
qed

text \<open>When the records of the misses of a plan could not be read, taking the misses back
  succeeds (no index is out of range), keeps the tables inverse to each other, makes exactly the
  experts that the plan had newly admitted non-resident again and leaves every hit in its slot.\<close>

theorem discard_after_plan:
  assumes "cache_ok c" "plan_experts c ids = (Ok p, c1)"
  shows "\<exists>c2. discard_misses c1 (misses p) = Some c2 \<and> cache_ok c2 \<and>
    (\<forall>e \<in> set ids. expert_to_slot c2 ! unat e = expert_to_slot c ! unat e) \<and>
    (\<forall>e < length (expert_to_slot c). e \<notin> unat ` set ids \<longrightarrow>
       expert_to_slot c2 ! e = expert_to_slot c1 ! e)"
proof -
  have pre: "ids \<noteq> []" "length ids \<le> length (slot_to_expert c)"
    "\<forall>e \<in> set ids. unat e < length (expert_to_slot c)"
    using assms(2) by (auto simp: plan_experts_def list_ex_iff not_le split: if_splits)
  from plan_experts_post [OF assms(1) this] assms(2)
  have ok1: "cache_ok c1" "same_frame c c1"
    and keep: "\<forall>e \<in> set ids. \<forall>s. expert_to_slot c ! unat e = Some s \<longrightarrow> expert_to_slot c1 ! unat e = Some s"
    and miss: "miss_expert ` set (misses p) = {e \<in> unat ` set ids. expert_to_slot c ! e = None}"
      "\<forall>m \<in> set (misses p). expert_to_slot c1 ! miss_expert m = Some (miss_slot m)"
    by (auto simp: plan_post_def)
  have len: "length (expert_to_slot c1) = length (expert_to_slot c)"
    using ok1(2) by (simp add: same_frame_def)
  have in_range: "\<forall>m \<in> set (misses p). miss_expert m < length (expert_to_slot c1) \<and>
      miss_slot m < length (slot_to_expert c1)"
  proof
    fix m assume m: "m \<in> set (misses p)"
    with miss(1) have "miss_expert m \<in> unat ` set ids" by blast
    with pre(3) have "miss_expert m < length (expert_to_slot c1)" by (auto simp: len)
    with cache_ok_slot(1) [OF ok1(1) this] miss(2) m
    show "miss_expert m < length (expert_to_slot c1) \<and> miss_slot m < length (slot_to_expert c1)" by blast
  qed
  obtain c2 where c2: "discard_misses c1 (misses p) = Some c2" "cache_ok c2"
    and look: "\<forall>e < length (expert_to_slot c1). expert_to_slot c2 ! e =
       (if \<exists>m \<in> set (misses p). miss_expert m = e \<and> expert_to_slot c1 ! e = Some (miss_slot m)
        then None else expert_to_slot c1 ! e)"
    using discard_misses_total [OF ok1(1) in_range] by blast
  have gone: "(\<exists>m \<in> set (misses p). miss_expert m = e \<and> expert_to_slot c1 ! e = Some (miss_slot m))
      \<longleftrightarrow> e \<in> unat ` set ids \<and> expert_to_slot c ! e = None" for e
  proof -
    have "(\<exists>m \<in> set (misses p). miss_expert m = e \<and> expert_to_slot c1 ! e = Some (miss_slot m))
        \<longleftrightarrow> e \<in> miss_expert ` set (misses p)"
      using miss(2) by (auto simp: image_iff)
    then show ?thesis unfolding miss(1) by simp
  qed
  have "expert_to_slot c2 ! unat e = expert_to_slot c ! unat e" if "e \<in> set ids" for e
    using look pre(3) that keep by (auto simp: gone len)
  moreover have "expert_to_slot c2 ! e = expert_to_slot c1 ! e"
    if "e < length (expert_to_slot c)" "e \<notin> unat ` set ids" for e
    using look that by (simp add: gone len)
  ultimately show ?thesis using c2 by blast
qed

theorem discard_after_plan_witness:
  "\<exists>c2. discard_misses (snd (plan_experts sample_cache [3, 0]))
      [\<lparr>miss_expert = 3, miss_slot = 1\<rparr>] = Some c2 \<and> expert_to_slot c2 ! 3 = None"
proof -
  define p where "p = \<lparr>plan_slots = [1, 0], hits = 1,
    misses = [\<lparr>miss_expert = 3, miss_slot = 1\<rparr>], evictions = 1, resident_slots = 2\<rparr>"
  have plan: "plan_experts sample_cache [3, 0] = (Ok p, snd (plan_experts sample_cache [3, 0]))"
    unfolding p_def by code_simp
  have "expert_to_slot sample_cache ! unat (3 :: u32) = None" by code_simp
  with discard_after_plan [OF cache_ok_sample plan] show ?thesis by (force simp: p_def)
qed

text \<open>Recording the first \<open>len\<close> entries of a routing buffer adds to every expert's counter the
  number of times it occurs among them, modulo the 64-bit counter width, and ignores entries that
  name no expert.\<close>

theorem record_prefix_correct:
  assumes "0 < len" "len \<le> length indices" "len \<le> u32_max" "counts \<noteq> []" "length counts \<le> u32_max"
  shows "\<exists>counts'. record_prefix indices len counts (Ok ()) = (Ok (), counts') \<and>
    length counts' = length counts \<and>
    (\<forall>e < length counts. counts' ! e = counts ! e + of_nat (count_list (map unat (take len indices)) e))"
  using assms by (auto simp: record_prefix_def record_kernel_nth)

theorem record_prefix_correct_witness:
  "\<exists>counts'. record_prefix [2, 5, 2, 0] 3 [7, 0, -1] (Ok ()) = (Ok (), counts') \<and> counts' ! 2 = 1"
proof -
  have "3 \<le> u32_max" by (simp add: u32_max_def)
  with record_prefix_correct [of 3 "[2, 5, 2, 0]" "[7, 0, -1]"] show ?thesis by auto
qed

text \<open>The hot set lists experts that were observed, by decreasing count and increasing id on
  equal counts; it has \<open>capacity\<close> entries unless fewer experts were observed, and every expert it
  leaves out ranks below every expert it has.\<close>

theorem select_top_experts_correct:
  assumes "select_top_experts counts capacity = Ok hot"
  shows "sorted_wrt (ranks_above counts) hot \<and> distinct hot \<and>
    (\<forall>e \<in> set hot. e < length counts \<and> counts ! e \<noteq> 0) \<and>
    length hot = min capacity (card {e. e < length counts \<and> counts ! e \<noteq> 0}) \<and>
    (\<forall>e \<in> set hot. \<forall>x < length counts. counts ! x \<noteq> 0 \<longrightarrow> x \<notin> set hot \<longrightarrow> ranks_above counts e x)"
proof -
  define ss where "ss = sort_key (\<lambda>(expert, n). (- int (unat n), expert))
    (filter (\<lambda>(_, n). n \<noteq> 0) (List.enumerate 0 counts))"
  note all = sorted_by_rank [of counts, folded ss_def]
  have hot: "hot = take capacity (map fst ss)"
    using assms by (auto simp: select_top_experts_def ss_def take_map Let_def split: if_splits)
  have split: "map fst ss = hot @ drop capacity (map fst ss)" by (simp add: hot)
  have srt: "sorted_wrt (ranks_above counts) (hot @ drop capacity (map fst ss))"
    and dst: "distinct (hot @ drop capacity (map fst ss))"
    using all unfolding split [symmetric] by simp_all
  have obs: "set hot \<union> set (drop capacity (map fst ss)) = {e. e < length counts \<and> counts ! e \<noteq> 0}"
    using all split by (metis set_append)
  have "length (map fst ss) = card {e. e < length counts \<and> counts ! e \<noteq> 0}"
    using all distinct_card [of "map fst ss"] by simp
  then have "length hot = min capacity (card {e. e < length counts \<and> counts ! e \<noteq> 0})"
    by (simp add: hot min.commute)
  with srt dst obs show ?thesis by (auto simp: sorted_wrt_append)
qed

theorem select_top_experts_correct_witness:
  "select_top_experts [4, 0, 9, 4] 2 = Ok [2, 0] \<and> ranks_above [4, 0, 9, 4] 0 3"
proof -
  have sel: "select_top_experts [4, 0, 9, 4] 2 = Ok [2, 0]" by code_simp
  show ?thesis using select_top_experts_correct [OF sel] sel by auto
qed

text \<open>Reading the records of a plan's misses concurrently is reading them one after the other:
  when no reader panics the result is the records in route order, each with its expert and the slot
  the plan chose, or the first failure in that order.\<close>

theorem read_expert_misses_sequential:
  assumes "\<forall>m \<in> set ms. read_record (miss_expert m) = ReaderReturned (source (miss_expert m))"
  shows "read_expert_misses read_record ms =
    Some (map_result (\<lambda>m. bind_result (source (miss_expert m)) (\<lambda>x. Ok
      \<lparr>loaded_expert = miss_expert m, loaded_slot = miss_slot m, loaded_record = x\<rparr>)) ms)"
proof -
  let ?f = "\<lambda>m. bind_result (source (miss_expert m)) (\<lambda>x. Ok
      \<lparr>loaded_expert = miss_expert m, loaded_slot = miss_slot m, loaded_record = x\<rparr>)"
  have "read_expert_misses read_record ms = join_readers (map (\<lambda>m. ReaderReturned (?f m)) ms)"
    unfolding read_expert_misses_def using assms by (intro arg_cong [where f = join_readers] map_cong) auto
  then show ?thesis by (simp add: join_readers_quiet)
qed

theorem read_expert_misses_sequential_witness:
  "read_expert_misses (\<lambda>e. ReaderReturned (Ok (e * e))) [\<lparr>miss_expert = 3, miss_slot = 5\<rparr>] =
    Some (Ok [\<lparr>loaded_expert = 3, loaded_slot = 5, loaded_record = 9\<rparr>])"
  using read_expert_misses_sequential
    [of "[\<lparr>miss_expert = 3, miss_slot = 5\<rparr>]" "\<lambda>e. ReaderReturned (Ok (e * e))" "\<lambda>e. Ok (e * e)"]
  by (simp add: result_simps)

text \<open>When two readers panic, the call panics: joining stops at the first of them, the second is
  left to the thread scope, which panics itself, and the error value that the code prepares for a
  panicked reader never reaches the caller.\<close>

theorem read_expert_misses_two_panics:
  assumes "ms = before @ a # mid @ b # after"
    and "read_record (miss_expert a) = ReaderPanicked" "read_record (miss_expert b) = ReaderPanicked"
  shows "read_expert_misses read_record ms = None"
  using assms by (simp add: read_expert_misses_def join_readers_unjoined)

theorem read_expert_misses_two_panics_witness:
  "read_expert_misses (\<lambda>e. if e = 2 then ReaderReturned (Ok e) else ReaderPanicked)
     [\<lparr>miss_expert = 3, miss_slot = 0\<rparr>, \<lparr>miss_expert = 2, miss_slot = 5\<rparr>, \<lparr>miss_expert = 4, miss_slot = 6\<rparr>] = None"
  by (rule read_expert_misses_two_panics [where before = "[]" and after = "[]"
      and a = "\<lparr>miss_expert = 3, miss_slot = 0\<rparr>" and b = "\<lparr>miss_expert = 4, miss_slot = 6\<rparr>"
      and mid = "[\<lparr>miss_expert = 2, miss_slot = 5\<rparr>]"]) simp_all

end
