(* ===== verification/Device_Buffer.thy ===== *)
theory Device_Buffer
  imports Prelude
begin

text \<open>
  Device memory: \<open>DeviceBuffer\<close> and its views in \<open>crates/eider-cuda/src/cuda.rs\<close>, and the row
  append of \<open>kernels/non_gemm.rs\<close> with its CUDA kernel.

  A buffer is the list of its elements, so \<open>len\<close> is the length of the list. The CUDA runtime copies
  and sets memory as documented; an operation takes the status of its runtime calls, and a call that
  fails leaves the buffer as it was. \<open>esz\<close> is \<open>size_of::<T>()\<close>.

  The locale \<open>range_write\<close> states what a bounds-checked write of a range promises: a range inside the
  buffer is overwritten and nothing else, any other range is refused and nothing is written.
  It is interpreted on the host, pinned and device copies.
\<close>

section \<open>Allocation\<close>

definition buffer_uninitialized ::
  "nat \<Rightarrow> (nat \<Rightarrow> 'a) \<Rightarrow> nat \<Rightarrow> cuda_status \<Rightarrow> 'a list result" where
  "buffer_uninitialized esz raw len st =
     bind_result (ok_or (checked_mul len esz) (Shape ''device uninitialized allocation''))
       (\<lambda>_. bind_result st (\<lambda>_. Ok (map raw [0..<len])))"

definition buffer_from_host :: "'a list \<Rightarrow> cuda_status \<Rightarrow> cuda_status \<Rightarrow> 'a list result" where
  "buffer_from_host values malloc memcpy = bind_result malloc (\<lambda>_. bind_result memcpy (\<lambda>_. Ok values))"

definition buffer_zeroed ::
  "nat \<Rightarrow> nat \<Rightarrow> cuda_status \<Rightarrow> cuda_status \<Rightarrow> cuda_status \<Rightarrow> ('a :: zero) list result" where
  "buffer_zeroed esz len malloc memset sync =
     bind_result (ok_or (checked_mul len esz) (Shape ''device zeroed allocation''))
       (\<lambda>_. bind_result malloc (\<lambda>_. bind_result memset (\<lambda>_. bind_result sync
         (\<lambda>_. Ok (replicate len 0)))))"

definition buffer_zeroed_on_stream ::
  "nat \<Rightarrow> (nat \<Rightarrow> 'a) \<Rightarrow> nat \<Rightarrow> cuda_status \<Rightarrow> cuda_status \<Rightarrow> ('a :: zero) list result" where
  "buffer_zeroed_on_stream esz raw len malloc memset =
     bind_result (buffer_uninitialized esz raw len malloc)
       (\<lambda>b. if len \<noteq> 0 then bind_result memset (\<lambda>_. Ok (replicate len 0)) else Ok b)"

section \<open>Transfers\<close>

text \<open>The effect of a transfer into \<open>dst\<close> from element \<open>off\<close> on.\<close>

definition device_write ::
  "cuda_status \<Rightarrow> 'a list \<Rightarrow> nat \<Rightarrow> 'a list \<Rightarrow> unit result \<times> 'a list" where
  "device_write st dst off vals = try_result st dst (\<lambda>_. (Ok (), write_at dst off vals))"

definition copy_prefix_to_host ::
  "'a list \<Rightarrow> nat \<Rightarrow> cuda_status \<Rightarrow> cuda_status \<Rightarrow> 'a list result" where
  "copy_prefix_to_host b len sync memcpy =
     (if length b < len then Err (Shape ''device prefix copy to host'')
      else bind_result sync (\<lambda>_. bind_result memcpy (\<lambda>_. Ok (take len b))))"

definition copy_to_host :: "'a list \<Rightarrow> cuda_status \<Rightarrow> cuda_status \<Rightarrow> 'a list result" where
  "copy_to_host b sync memcpy = copy_prefix_to_host b (length b) sync memcpy"

definition copy_from_host :: "'a list \<Rightarrow> 'a list \<Rightarrow> cuda_status \<Rightarrow> unit result \<times> 'a list" where
  "copy_from_host dst vals st =
     (if length vals \<noteq> length dst then (Err (Shape ''device copy from host''), dst)
      else device_write st dst 0 vals)"

definition copy_prefix_from_host :: "'a list \<Rightarrow> 'a list \<Rightarrow> cuda_status \<Rightarrow> unit result \<times> 'a list" where
  "copy_prefix_from_host dst vals st =
     (if length dst < length vals then (Err (Shape ''device prefix copy from host''), dst)
      else if vals = [] then (Ok (), dst)
      else device_write st dst 0 vals)"

definition copy_prefix_from_device ::
  "nat \<Rightarrow> 'a list \<Rightarrow> 'a list \<Rightarrow> nat \<Rightarrow> cuda_status \<Rightarrow> unit result \<times> 'a list" where
  "copy_prefix_from_device esz dst src len st =
     (if length dst < len \<or> length src < len then (Err (Shape ''device prefix copy''), dst)
      else if len = 0 then (Ok (), dst)
      else try_result (ok_or (checked_mul len esz) (Shape ''device prefix copy bytes'')) dst
        (\<lambda>_. device_write st dst 0 (take len src)))"

definition copy_range_from_device ::
  "nat \<Rightarrow> 'a list \<Rightarrow> nat \<Rightarrow> 'a list \<Rightarrow> nat \<Rightarrow> nat \<Rightarrow> cuda_status \<Rightarrow> unit result \<times> 'a list" where
  "copy_range_from_device esz dst doff src soff len st =
     try_result (ok_or (checked_add doff len) (Shape ''device range copy destination'')) dst
     (\<lambda>dend. try_result (ok_or (checked_add soff len) (Shape ''device range copy source'')) dst
     (\<lambda>send.
       if length dst < dend \<or> length src < send then (Err (Shape ''device range copy''), dst)
       else if len = 0 then (Ok (), dst)
       else try_result (ok_or (checked_mul len esz) (Shape ''device range copy bytes'')) dst
         (\<lambda>_. device_write st dst doff (take len (drop soff src)))))"

definition buffer_from_device_range ::
  "nat \<Rightarrow> (nat \<Rightarrow> 'a) \<Rightarrow> 'a list \<Rightarrow> nat \<Rightarrow> nat \<Rightarrow> cuda_status \<Rightarrow> cuda_status \<Rightarrow> 'a list result" where
  "buffer_from_device_range esz raw src offset len malloc memcpy =
     (if (case checked_add offset len of None \<Rightarrow> True | Some e \<Rightarrow> length src < e)
      then Err (Shape ''device range allocation'')
      else bind_result (buffer_uninitialized esz raw len malloc)
        (\<lambda>b. case copy_range_from_device esz b 0 src offset len memcpy of
               (Inl e, _) \<Rightarrow> Err e | (Inr _, b') \<Rightarrow> Ok b'))"

definition copy_within ::
  "nat \<Rightarrow> 'a list \<Rightarrow> nat \<Rightarrow> nat \<Rightarrow> nat \<Rightarrow> cuda_status \<Rightarrow> unit result \<times> 'a list" where
  "copy_within esz b soff doff len st =
     try_result (ok_or (checked_add soff len) (Shape ''device within-copy source'')) b
     (\<lambda>send. try_result (ok_or (checked_add doff len) (Shape ''device within-copy destination'')) b
     (\<lambda>dend.
       if length b < send \<or> length b < dend \<or> (soff < dend \<and> doff < send)
       then (Err (Shape ''device within-copy''), b)
       else if len = 0 then (Ok (), b)
       else try_result (ok_or (checked_mul len esz) (Shape ''device within-copy bytes'')) b
         (\<lambda>_. device_write st b doff (take len (drop soff b)))))"

definition copy_range_from_host ::
  "'a list \<Rightarrow> nat \<Rightarrow> 'a list \<Rightarrow> cuda_status \<Rightarrow> unit result \<times> 'a list" where
  "copy_range_from_host dst off vals st =
     try_result (ok_or (checked_add off (length vals)) (Shape ''device range copy from host'')) dst
     (\<lambda>e. if length dst < e then (Err (Shape ''device range copy from host''), dst)
          else device_write st dst off vals)"

definition copy_range_from_pinned ::
  "'a list \<Rightarrow> nat \<Rightarrow> 'a list \<Rightarrow> cuda_status \<Rightarrow> unit result \<times> 'a list" where
  "copy_range_from_pinned dst off vals st =
     try_result (ok_or (checked_add off (length vals)) (Shape ''device asynchronous range copy'')) dst
     (\<lambda>e. if length dst < e then (Err (Shape ''device asynchronous range copy''), dst)
          else device_write st dst off vals)"

text \<open>
  The two byte-addressed transfers see the allocation as bytes: \<open>bytes\<close> is the memory of \<open>len\<close>
  elements of \<open>esz\<close> bytes each.
\<close>

definition copy_bytes_from_pinned_range ::
  "nat \<Rightarrow> nat \<Rightarrow> u8 list \<Rightarrow> nat \<Rightarrow> u8 list \<Rightarrow> nat \<Rightarrow> nat \<Rightarrow> cuda_status \<Rightarrow> unit result \<times> u8 list" where
  "copy_bytes_from_pinned_range esz len mem doff vals soff bytes st =
     try_result (ok_or (checked_mul len esz) (Shape ''device asynchronous byte range'')) mem
     (\<lambda>device_bytes. try_result (ok_or (checked_add doff bytes) (Shape ''device asynchronous byte range'')) mem
     (\<lambda>device_end. try_result (ok_or (checked_add soff bytes) (Shape ''pinned asynchronous byte range'')) mem
     (\<lambda>source_end.
       if device_bytes < device_end \<or> length vals < source_end
       then (Err (Shape ''asynchronous pinned byte range''), mem)
       else device_write st mem doff (take bytes (drop soff vals)))))"

definition copy_bytes_from_host ::
  "nat \<Rightarrow> nat \<Rightarrow> u8 list \<Rightarrow> nat \<Rightarrow> u8 list \<Rightarrow> cuda_status \<Rightarrow> unit result \<times> u8 list" where
  "copy_bytes_from_host esz len mem off vals st =
     try_result (ok_or (checked_add off (length vals)) (Shape ''device byte-range copy'')) mem
     (\<lambda>e. if len * esz < e then (Err (Shape ''device byte-range copy''), mem)
          else device_write st mem off vals)"

section \<open>Views and addresses\<close>

definition validate_device_range :: "nat \<Rightarrow> nat \<Rightarrow> nat \<Rightarrow> string \<Rightarrow> unit result" where
  "validate_device_range len start stop label =
     (if stop < start \<or> len < stop then Err (Shape label) else Ok ())"

record DeviceSlice =
  slice_offset :: nat
  slice_len :: nat

definition buffer_slice :: "'a list \<Rightarrow> nat \<Rightarrow> nat \<Rightarrow> DeviceSlice result" where
  "buffer_slice b start stop =
     bind_result (validate_device_range (length b) start stop ''device slice'')
       (\<lambda>_. Ok \<lparr>slice_offset = start, slice_len = stop - start\<rparr>)"

definition validate_matrix_shape :: "nat \<Rightarrow> nat \<Rightarrow> nat \<Rightarrow> nat \<Rightarrow> unit result" where
  "validate_matrix_shape len rows cols stride =
     bind_result (ok_or (checked_mul rows stride) (Shape ''device matrix''))
       (\<lambda>required. if rows = 0 \<or> cols = 0 \<or> stride < cols \<or> len < required
                   then Err (Shape ''device matrix'') else Ok ())"

record DeviceMatrix =
  matrix_values :: DeviceSlice
  matrix_rows :: nat
  matrix_cols :: nat
  matrix_stride :: nat

definition slice_matrix :: "DeviceSlice \<Rightarrow> nat \<Rightarrow> nat \<Rightarrow> nat \<Rightarrow> DeviceMatrix result" where
  "slice_matrix s rows cols stride =
     bind_result (validate_matrix_shape (slice_len s) rows cols stride)
       (\<lambda>_. Ok \<lparr>matrix_values = s, matrix_rows = rows, matrix_cols = cols, matrix_stride = stride\<rparr>)"

definition address_offset :: "nat \<Rightarrow> nat \<Rightarrow> nat \<Rightarrow> nat result" where
  "address_offset esz pointer elements =
     bind_result (ok_or (checked_mul elements esz) (Shape ''CUDA address offset''))
       (\<lambda>byte_offset. ok_or (checked_add pointer byte_offset) (Shape ''CUDA address offset''))"

definition address_at :: "nat \<Rightarrow> nat \<Rightarrow> 'a list \<Rightarrow> nat \<Rightarrow> nat result" where
  "address_at esz pointer b offset =
     (if length b < offset then Err (Shape ''CUDA buffer address'')
      else address_offset esz pointer offset)"

section \<open>Row append\<close>

definition validate_append_rows_f32 :: "nat \<Rightarrow> nat \<Rightarrow> nat \<Rightarrow> nat \<Rightarrow> nat \<Rightarrow> unit result" where
  "validate_append_rows_f32 src_len_actual dst_len_actual dst_start_row rows cols =
     bind_result (ok_or (checked_mul rows cols) (Shape ''f32 row append source''))
     (\<lambda>src_len. bind_result
       (ok_or (Option.bind (checked_add dst_start_row rows) (\<lambda>row. checked_mul row cols))
         (Shape ''f32 row append destination''))
     (\<lambda>dst_required.
       if src_len_actual \<noteq> src_len then Err (Shape ''f32 row append source'')
       else if dst_len_actual < dst_required then Err (Shape ''f32 row append destination'')
       else if u32_max < dst_start_row \<or> rows = 0 \<or> cols = 0 \<or> u32_max < rows \<or> u32_max < cols
       then Err (Shape ''f32 row append dimensions'')
       else Ok ()))"

text \<open>
  The kernel. Thread \<open>idx\<close> copies one element; all of its index arithmetic is that of 32-bit
  unsigned integers. The threads are run in index order.
\<close>

definition append_rows_dst :: "u32 \<Rightarrow> u32 \<Rightarrow> u32 \<Rightarrow> nat" where
  "append_rows_dst start cols idx = unat ((start + idx div cols) * cols + idx mod cols)"

definition append_rows_src :: "u32 \<Rightarrow> u32 \<Rightarrow> nat" where
  "append_rows_src cols idx = unat ((idx div cols) * cols + idx mod cols)"

definition append_rows_kernel :: "'a list \<Rightarrow> 'a list \<Rightarrow> u32 \<Rightarrow> u32 \<Rightarrow> u32 \<Rightarrow> 'a list" where
  "append_rows_kernel src dst start rows cols =
     foldl (\<lambda>d i. d[append_rows_dst start cols (of_nat i) := src ! append_rows_src cols (of_nat i)])
       dst [0..<unat (rows * cols)]"

definition append_rows_f32_into_on_stream ::
  "'a list \<Rightarrow> 'a list \<Rightarrow> nat \<Rightarrow> nat \<Rightarrow> nat \<Rightarrow> cuda_status \<Rightarrow> unit result \<times> 'a list" where
  "append_rows_f32_into_on_stream src dst start rows cols st =
     try_result (validate_append_rows_f32 (length src) (length dst) start rows cols) dst
     (\<lambda>_. try_result st dst
       (\<lambda>_. (Ok (), append_rows_kernel src dst (of_nat start) (of_nat rows) (of_nat cols))))"

definition append_rows_f32_indexed_into_on_stream ::
  "'a list \<Rightarrow> 'a list \<Rightarrow> u32 list \<Rightarrow> nat \<Rightarrow> nat \<Rightarrow> nat \<Rightarrow> cuda_status \<Rightarrow> unit result \<times> 'a list" where
  "append_rows_f32_indexed_into_on_stream src dst start_row max_start rows cols st =
     try_result (validate_append_rows_f32 (length src) (length dst) max_start rows cols) dst
     (\<lambda>_. if length start_row \<noteq> 1 then (Err (Shape ''f32 indexed row append start''), dst)
          else try_result st dst
            (\<lambda>_. (Ok (), append_rows_kernel src dst (start_row ! 0) (of_nat rows) (of_nat cols))))"

section \<open>The contract of a range write\<close>

locale range_write =
  fixes op :: "'a list \<Rightarrow> nat \<Rightarrow> 'a list \<Rightarrow> cuda_status \<Rightarrow> unit result \<times> 'a list"
    and fits :: "nat \<Rightarrow> bool"
  assumes write_ok: "off + length vs \<le> length dst \<Longrightarrow> fits (length dst) \<Longrightarrow>
      op dst off vs (Ok ()) = (Ok (), write_at dst off vs)"
    and write_bounds: "length dst < off + length vs \<Longrightarrow> \<exists>e. op dst off vs st = (Err e, dst)"
    and write_fail: "snd (op dst off vs (Err e)) = dst"
begin

lemma write_cases:
  assumes "op dst off vs st = (r, dst')" "fits (length dst)"
  shows "dst' = dst \<or> off + length vs \<le> length dst \<and> dst' = write_at dst off vs"
proof (cases "off + length vs \<le> length dst")
  case True
  then show ?thesis using assms write_ok [of off vs dst] write_fail [of dst off vs]
    by (cases st) (auto simp: prod_eq_iff)
next
  case False
  with write_bounds [of dst off vs st] assms(1) show ?thesis by auto
qed

lemma write_length: "op dst off vs st = (r, dst') \<Longrightarrow> fits (length dst) \<Longrightarrow> length dst' = length dst"
  using write_cases by force

lemma write_frame:
  assumes "op dst off vs st = (r, dst')" "fits (length dst)" "i < length dst" "i < off \<or> off + length vs \<le> i"
  shows "dst' ! i = dst ! i"
  using write_cases [OF assms(1,2)] assms(3,4) by (auto simp: nth_write_at)

lemma write_append:
  assumes "off + length vs + length ws \<le> length dst" "fits (length dst)"
  shows "op (snd (op dst off vs (Ok ()))) (off + length vs) ws (Ok ()) = op dst off (vs @ ws) (Ok ())"
proof -
  have "op dst off vs (Ok ()) = (Ok (), write_at dst off vs)"
    using assms by (intro write_ok) auto
  moreover have "op (write_at dst off vs) (off + length vs) ws (Ok ()) =
      (Ok (), write_at (write_at dst off vs) (off + length vs) ws)"
    using assms by (intro write_ok) auto
  moreover have "op dst off (vs @ ws) (Ok ()) = (Ok (), write_at dst off (vs @ ws))"
    using assms by (intro write_ok) auto
  moreover have "write_at (write_at dst off vs) (off + length vs) ws = write_at dst off (vs @ ws)"
    using assms by (intro nth_equalityI) (auto simp: nth_write_at nth_append)
  ultimately show ?thesis by simp
qed

lemma write_disjoint:
  assumes "i + length vs \<le> length dst" "j + length ws \<le> length dst" "fits (length dst)"
    and "i + length vs \<le> j \<or> j + length ws \<le> i"
  shows "op (snd (op dst i vs (Ok ()))) j ws (Ok ()) = op (snd (op dst j ws (Ok ()))) i vs (Ok ())"
  using assms write_at_commute [OF assms(1,2,4)] by (simp add: write_ok)

end

lemma device_write_simps [simp]:
  "device_write (Ok ()) dst off vs = (Ok (), write_at dst off vs)"
  "device_write (Err e) dst off vs = (Err e, dst)"
  by (simp_all add: device_write_def)

lemma write_at_Nil [simp]: "write_at xs at [] = xs"
  by (simp add: write_at_def)

interpretation host: range_write copy_range_from_host "\<lambda>n. n \<le> usize_max"
proof
  fix off :: nat and vs dst :: "'a list" and st :: cuda_status and e
  show "off + length vs \<le> length dst \<Longrightarrow> length dst \<le> usize_max \<Longrightarrow>
      copy_range_from_host dst off vs (Ok ()) = (Ok (), write_at dst off vs)"
    by (simp add: copy_range_from_host_def checked_add_def)
  show "length dst < off + length vs \<Longrightarrow> \<exists>e. copy_range_from_host dst off vs st = (Err e, dst)"
    by (simp add: copy_range_from_host_def checked_add_def)
  show "snd (copy_range_from_host dst off vs (Err e)) = dst"
    by (simp add: copy_range_from_host_def checked_add_def)
qed

interpretation pinned: range_write copy_range_from_pinned "\<lambda>n. n \<le> usize_max"
proof
  fix off :: nat and vs dst :: "'a list" and st :: cuda_status and e
  show "off + length vs \<le> length dst \<Longrightarrow> length dst \<le> usize_max \<Longrightarrow>
      copy_range_from_pinned dst off vs (Ok ()) = (Ok (), write_at dst off vs)"
    by (simp add: copy_range_from_pinned_def checked_add_def)
  show "length dst < off + length vs \<Longrightarrow> \<exists>e. copy_range_from_pinned dst off vs st = (Err e, dst)"
    by (simp add: copy_range_from_pinned_def checked_add_def)
  show "snd (copy_range_from_pinned dst off vs (Err e)) = dst"
    by (simp add: copy_range_from_pinned_def checked_add_def)
qed

definition buffer_fits :: "nat \<Rightarrow> nat \<Rightarrow> bool" where
  "buffer_fits esz n \<longleftrightarrow> n \<le> usize_max \<and> n * esz \<le> usize_max"

lemma buffer_fits_mono: "buffer_fits esz n \<Longrightarrow> m \<le> n \<Longrightarrow> buffer_fits esz m"
  unfolding buffer_fits_def using mult_le_mono1 [of m n esz] by linarith

interpretation device: range_write
  "\<lambda>dst off vs. copy_range_from_device esz dst off vs 0 (length vs)" "buffer_fits esz" for esz
proof
  fix off :: nat and vs dst :: "'a list" and st :: cuda_status and e
  show "copy_range_from_device esz dst off vs 0 (length vs) (Ok ()) = (Ok (), write_at dst off vs)"
    if "off + length vs \<le> length dst" "buffer_fits esz (length dst)"
    using that buffer_fits_mono [of esz "length dst" "length vs"]
    by (simp add: copy_range_from_device_def checked_add_def checked_mul_def buffer_fits_def)
  show "length dst < off + length vs \<Longrightarrow>
      \<exists>e. copy_range_from_device esz dst off vs 0 (length vs) st = (Err e, dst)"
    by (simp add: copy_range_from_device_def checked_add_def)
  show "snd (copy_range_from_device esz dst off vs 0 (length vs) (Err e)) = dst"
    by (simp add: copy_range_from_device_def checked_add_def checked_mul_def)
qed

section \<open>The append kernel\<close>

lemma update_prefix_write_at:
  assumes "off + length vs \<le> length dst" "n \<le> length vs"
  shows "foldl (\<lambda>d i. d[off + i := vs ! i]) dst [0..<n] = write_at dst off (take n vs)"
  using assms(2)
proof (induction n)
  case (Suc n)
  then have "foldl (\<lambda>d i. d[off + i := vs ! i]) dst [0..<Suc n] =
      (write_at dst off (take n vs))[off + n := vs ! n]" by simp
  also have "\<dots> = write_at dst off (take (Suc n) vs)"
    using assms(1) Suc.prems
    by (intro nth_equalityI)
      (auto simp: nth_write_at nth_list_update_lt less_Suc_eq nth_append take_Suc_conv_app_nth)
  finally show ?case .
qed simp

lemma append_rows_index:
  assumes i: "i < rows * cols" and fit: "(start + rows) * cols \<le> 2 ^ 32" "cols \<le> u32_max"
  shows "append_rows_dst (of_nat start) (of_nat cols) (of_nat i) = start * cols + i"
    and "append_rows_src (of_nat cols) (of_nat i) = i"
proof -
  have "start * cols + rows * cols \<le> 2 ^ 32" using fit(1) by (simp add: algebra_simps)
  with i have i32: "start * cols + i \<le> u32_max" by (simp add: u32_max_def)
  then have u: "unat (of_nat i :: u32) = i" "unat (of_nat cols :: u32) = cols"
    using fit(2) by (simp_all add: unat_of_nat_u32)
  have dv: "(of_nat i :: u32) div of_nat cols = of_nat (i div cols)"
    "(of_nat i :: u32) mod of_nat cols = of_nat (i mod cols)"
    by (simp_all only: word_arith_nat_div word_arith_nat_mod u)
  have "(of_nat start + of_nat (i div cols)) * of_nat cols + of_nat (i mod cols)
      = (of_nat ((start + i div cols) * cols + i mod cols) :: u32)" by simp
  also have "(start + i div cols) * cols + i mod cols = start * cols + i"
    by (simp add: algebra_simps)
  finally show "append_rows_dst (of_nat start) (of_nat cols) (of_nat i) = start * cols + i"
    using i32 by (simp only: append_rows_dst_def dv unat_of_nat_u32)
  have "of_nat (i div cols) * of_nat cols + of_nat (i mod cols)
      = (of_nat (i div cols * cols + i mod cols) :: u32)"
    by (simp only: of_nat_add of_nat_mult)
  also have "i div cols * cols + i mod cols = i" by simp
  finally show "append_rows_src (of_nat cols) (of_nat i) = i"
    using i32 by (simp only: append_rows_src_def dv u)
qed

lemma validate_append_rows_Ok:
  "validate_append_rows_f32 n m start rows cols = Ok () \<longleftrightarrow>
   n = rows * cols \<and> (start + rows) * cols \<le> m \<and> 0 < rows \<and> 0 < cols \<and>
   rows * cols \<le> usize_max \<and> start + rows \<le> usize_max \<and> (start + rows) * cols \<le> usize_max \<and>
   start \<le> u32_max \<and> rows \<le> u32_max \<and> cols \<le> u32_max"
  by (auto simp: validate_append_rows_f32_def result_simps usize_simps bind_eq_Some_conv
      split: if_splits)

lemma append_rows_kernel_write:
  assumes "length src = rows * cols" "(start + rows) * cols \<le> length dst"
    "(start + rows) * cols \<le> 2 ^ 32" "cols \<le> u32_max" "rows * cols \<le> u32_max"
  shows "append_rows_kernel src dst (of_nat start) (of_nat rows) (of_nat cols) =
    write_at dst (start * cols) src"
proof -
  have "of_nat rows * of_nat cols = (of_nat (rows * cols) :: u32)" by simp
  then have n: "unat (of_nat rows * of_nat cols :: u32) = length src"
    using assms(1,5) by (simp only: unat_of_nat_u32)
  have "append_rows_kernel src dst (of_nat start) (of_nat rows) (of_nat cols) =
      foldl (\<lambda>d i. d[start * cols + i := src ! i]) dst [0..<length src]"
    unfolding append_rows_kernel_def n
    by (rule foldl_cong) (simp_all add: append_rows_index [OF _ assms(3,4)] assms(1))
  also have "\<dots> = write_at dst (start * cols) src"
    using assms(1,2) by (subst update_prefix_write_at) (simp_all add: algebra_simps)
  finally show ?thesis .
qed

section \<open>Properties\<close>

text \<open>A device-to-device copy succeeds exactly when both ranges lie inside their buffers; it then
  overwrites exactly the destination range with the source range, and otherwise (a range out of
  bounds, an address computation that would overflow, a failing runtime call) writes nothing.\<close>

theorem copy_range_from_device_correct:
  assumes "buffer_fits esz (length dst)" "buffer_fits esz (length src)"
  shows "(fst (copy_range_from_device esz dst doff src soff len (Ok ())) = Ok () \<longleftrightarrow>
      doff + len \<le> length dst \<and> soff + len \<le> length src) \<and>
    snd (copy_range_from_device esz dst doff src soff len (Ok ())) =
      (if doff + len \<le> length dst \<and> soff + len \<le> length src
       then write_at dst doff (take len (drop soff src)) else dst) \<and>
    snd (copy_range_from_device esz dst doff src soff len (Err e)) = dst"
proof (cases "doff + len \<le> length dst \<and> soff + len \<le> length src")
  case True
  then have "buffer_fits esz len" using buffer_fits_mono [OF assms(1), of len] by linarith
  with True assms show ?thesis
    by (auto simp: copy_range_from_device_def checked_add_def checked_mul_def buffer_fits_def)
next
  case False
  then show ?thesis
    by (auto simp: copy_range_from_device_def checked_add_def checked_mul_def)
qed

theorem copy_range_from_device_correct_witness:
  "fst (copy_range_from_device 4 [1, 2, 3 :: nat] 1 [7, 8] 0 2 (Ok ())) = Ok () \<and>
   snd (copy_range_from_device 4 [1, 2, 3 :: nat] 1 [7, 8] 0 2 (Ok ())) = write_at [1, 2, 3] 1 [7, 8] \<and>
   snd (copy_range_from_device 4 [1, 2, 3] 2 [7, 8] 0 2 (Ok ())) = [1, 2, 3 :: nat]"
  using copy_range_from_device_correct [of 4 "[1, 2, 3 :: nat]" "[7, 8]" 1 0 2]
    copy_range_from_device_correct [of 4 "[1, 2, 3 :: nat]" "[7, 8]" 2 0 2]
  by (simp add: buffer_fits_def usize_max_def)

text \<open>A copy within one buffer is refused when the ranges overlap or leave the buffer. When it
  succeeds the destination holds what the source held, and every element outside the destination,
  the whole source range included, is as before.\<close>

theorem copy_within_correct:
  assumes "copy_within esz b soff doff len st = (Ok (), b')"
  shows "length b' = length b \<and> soff + len \<le> length b \<and> doff + len \<le> length b \<and>
    take len (drop doff b') = take len (drop soff b) \<and>
    take len (drop soff b') = take len (drop soff b) \<and>
    (\<forall>i < length b. i < doff \<or> doff + len \<le> i \<longrightarrow> b' ! i = b ! i)"
proof (cases "len = 0")
  case True
  with assms show ?thesis
    by (auto simp: copy_within_def result_simps usize_simps split: if_splits)
next
  case False
  with assms have *: "soff + len \<le> length b" "doff + len \<le> length b" "doff + len \<le> soff \<or> soff + len \<le> doff"
    and b': "b' = write_at b doff (take len (drop soff b))"
    by (auto simp: copy_within_def result_simps usize_simps device_write_def split: if_splits)
  have "take len (drop soff b') = take len (drop soff b)"
    using * by (intro nth_equalityI) (auto simp: b' nth_write_at)
  with * show ?thesis
    using write_at_read [of doff "take len (drop soff b)" b] by (auto simp: b' nth_write_at)
qed

theorem copy_within_correct_witness:
  "copy_within 4 [1, 2, 3, 4 :: nat] 0 2 2 (Ok ()) = (Ok (), [1, 2, 1, 2]) \<and>
   take 2 (drop 0 [1, 2, 1, 2]) = take 2 (drop 0 [1, 2, 3, 4 :: nat])"
proof -
  have c: "copy_within 4 [1, 2, 3, 4 :: nat] 0 2 2 (Ok ()) = (Ok (), [1, 2, 1, 2])"
    by (simp add: copy_within_def checked_add_def checked_mul_def usize_max_def write_at_def)
  show ?thesis using copy_within_correct [OF c] c by blast
qed

text \<open>The row append writes exactly the rows at their place, in all of its 32-bit index
  arithmetic, for every destination of at most \<open>2 ^ 32\<close> elements whose validation succeeds and
  whose rows hold fewer than \<open>2 ^ 32\<close> elements; what the validation refuses leaves the destination
  unchanged.\<close>

theorem append_rows_correct:
  assumes "length dst \<le> 2 ^ 32" "length src \<le> u32_max"
  shows "append_rows_f32_into_on_stream src dst start rows cols (Ok ()) =
    (case validate_append_rows_f32 (length src) (length dst) start rows cols of
       Inl e \<Rightarrow> (Err e, dst)
     | Inr _ \<Rightarrow> (Ok (), write_at dst (start * cols) src))"
proof (cases "validate_append_rows_f32 (length src) (length dst) start rows cols")
  case (Inr u)
  then have "validate_append_rows_f32 (length src) (length dst) start rows cols = Ok ()" by simp
  then have "append_rows_kernel src dst (of_nat start) (of_nat rows) (of_nat cols) =
      write_at dst (start * cols) src"
    unfolding validate_append_rows_Ok using assms by (intro append_rows_kernel_write) auto
  with Inr show ?thesis by (simp add: append_rows_f32_into_on_stream_def)
qed (simp add: append_rows_f32_into_on_stream_def)

theorem append_rows_correct_witness:
  "append_rows_f32_into_on_stream [7, 8] [1, 2, 3, 4, 5, 6 :: nat] 2 1 2 (Ok ()) = (Ok (), [1, 2, 3, 4, 7, 8])"
proof -
  have "validate_append_rows_f32 (length [7, 8 :: nat]) (length [1, 2, 3, 4, 5, 6 :: nat]) 2 1 2 = Ok ()"
    by (simp add: validate_append_rows_Ok usize_max_def u32_max_def)
  then show ?thesis
    using append_rows_correct [of "[1, 2, 3, 4, 5, 6 :: nat]" "[7, 8]" 2 1 2]
    by (simp add: u32_max_def write_at_def)
qed

text \<open>Beyond that size the validation accepts appends that the kernel writes elsewhere: with rows
  of two elements, appending row \<open>2 ^ 31\<close> to a destination that has it overwrites row 0.\<close>

theorem append_rows_wraps:
  assumes "length dst = 2 ^ 32 + 2"
  shows "append_rows_f32_into_on_stream [a, b] dst (2 ^ 31) 1 2 (Ok ()) = (Ok (), dst[0 := a, 1 := b])"
proof -
  have "validate_append_rows_f32 (length [a, b]) (2 ^ 32 + 2) (2 ^ 31) 1 2 = Ok ()"
    unfolding validate_append_rows_Ok by (simp add: usize_max_def u32_max_def)
  moreover have "append_rows_kernel [a, b] dst (of_nat (2 ^ 31)) (of_nat 1) (of_nat 2) = dst[0 := a, 1 := b]"
  proof -
    have "[0..<unat (of_nat 1 * of_nat 2 :: u32)] = [0, 1]" by (simp add: upt_rec)
    moreover have "append_rows_dst (of_nat (2 ^ 31)) (of_nat 2) (of_nat 0) = 0"
      "append_rows_dst (of_nat (2 ^ 31)) (of_nat 2) (of_nat 1) = 1"
      "append_rows_src (of_nat 2) (of_nat 0) = 0" "append_rows_src (of_nat 2) (of_nat 1) = 1"
      by (simp_all add: append_rows_dst_def append_rows_src_def)
    ultimately show ?thesis unfolding append_rows_kernel_def by simp
  qed
  ultimately show ?thesis
    using assms unfolding append_rows_f32_into_on_stream_def by simp
qed

theorem append_rows_wraps_witness:
  "append_rows_f32_into_on_stream [5, 6] (replicate (2 ^ 32 + 2) (0 :: nat)) (2 ^ 31) 1 2 (Ok ()) =
   (Ok (), (replicate (2 ^ 32 + 2) 0)[0 := 5, 1 := 6])"
  by (rule append_rows_wraps) (rule length_replicate)

text \<open>Every element of a matrix view that the code constructs lies inside the buffer it was cut
  from.\<close>

theorem matrix_in_bounds:
  assumes "buffer_slice b start stop = Ok s" "slice_matrix s rows cols stride = Ok m"
    and "r < matrix_rows m" "c < matrix_cols m"
  shows "slice_offset (matrix_values m) + (r * matrix_stride m + c) < length b"
proof -
  from assms have m: "r < rows" "c < cols" "cols \<le> stride" "rows * stride \<le> stop - start"
    "start \<le> stop" "stop \<le> length b" "matrix_values m = s" "slice_offset s = start" "matrix_stride m = stride"
    by (auto simp: buffer_slice_def slice_matrix_def validate_device_range_def
        validate_matrix_shape_def result_simps usize_simps split: if_splits)
  from m(1) have "(r + 1) * stride \<le> rows * stride" by (intro mult_le_mono1) simp
  with m show ?thesis by simp
qed

theorem matrix_in_bounds_witness:
  "slice_offset \<lparr>slice_offset = 2, slice_len = 6\<rparr> + (1 * 3 + 1) < length (replicate 9 (0 :: nat))"
proof -
  let ?s = "\<lparr>slice_offset = 2, slice_len = 6\<rparr>"
  let ?m = "\<lparr>matrix_values = ?s, matrix_rows = 2, matrix_cols = 2, matrix_stride = 3\<rparr>"
  have "buffer_slice (replicate 9 (0 :: nat)) 2 8 = Ok ?s"
    by (simp add: buffer_slice_def validate_device_range_def)
  moreover have "slice_matrix ?s 2 2 3 = Ok ?m"
    by (simp add: slice_matrix_def validate_matrix_shape_def checked_mul_def usize_max_def)
  ultimately show ?thesis using matrix_in_bounds [of "replicate 9 (0 :: nat)" 2 8 ?s 2 2 3 ?m 1 1] by simp
qed

end
