(* ===== verification/Kv_Cache.thy ===== *)
theory Kv_Cache
  imports Device_Buffer
begin

text \<open>
  The contiguous key/value cache of one sequence, \<open>crates/infer/src/execution/kv_cache.rs\<close>.

  A \<open>LayerKvCache\<close> holds \<open>max_tokens\<close> rows of \<open>kv_heads * head_dim\<close> elements for the keys and for the
  values, of which the first \<open>len\<close> are valid. Elements (\<open>f32\<close> in the code) are of any type with a zero,
  since no operation here computes with them; \<open>size_of::<f32>()\<close> is 4.

  What the cache promises is a log of rows with a capacity: appending extends the log, truncating
  cuts it, a checkpoint can be restored. The locale \<open>row_log\<close> states that contract and derives what
  speculative decoding relies on (append a draft, keep an accepted prefix); it is interpreted on the
  three append operations of the code.
\<close>

section \<open>State\<close>

record 'a LayerKvCache =
  kv_key :: "'a list"
  kv_value :: "'a list"
  kv_max_tokens :: nat
  kv_len :: nat
  kv_heads :: nat
  kv_head_dim :: nat

record 'a LayerKvCacheCheckpoint =
  cp_key :: "'a list"
  cp_value :: "'a list"
  cp_len :: nat
  cp_heads :: nat
  cp_head_dim :: nat

definition f32_size :: nat where "f32_size = 4"

section \<open>Operations on one layer\<close>

definition layer_kv_new ::
  "nat \<Rightarrow> nat \<Rightarrow> nat \<Rightarrow> cuda_status \<Rightarrow> cuda_status \<Rightarrow> ('a :: zero) LayerKvCache result" where
  "layer_kv_new max_tokens heads dim st_key st_value =
     (if max_tokens = 0 \<or> heads = 0 \<or> dim = 0 then Err (Shape ''layer KV cache'')
      else bind_result (ok_or (checked_mul heads dim) (Shape ''layer KV cache width''))
      (\<lambda>width. bind_result (ok_or (checked_mul max_tokens width) (Shape ''layer KV cache allocation''))
      (\<lambda>n. bind_result (buffer_zeroed f32_size n st_key (Ok ()) (Ok ()))
      (\<lambda>key. bind_result (buffer_zeroed f32_size n st_value (Ok ()) (Ok ()))
      (\<lambda>value. Ok \<lparr>kv_key = key, kv_value = value, kv_max_tokens = max_tokens, kv_len = 0,
                   kv_heads = heads, kv_head_dim = dim\<rparr>)))))"

definition kv_width :: "('a, 'b) LayerKvCache_scheme \<Rightarrow> nat" where
  "kv_width c = kv_heads c * kv_head_dim c"

text \<open>
  Writing both buffers and advancing: the key write is kept when the value write fails. The two
  arguments are the writes as functions of the buffer.
\<close>

definition write_both ::
  "('a list \<Rightarrow> unit result \<times> 'a list) \<Rightarrow> ('a list \<Rightarrow> unit result \<times> 'a list) \<Rightarrow> nat \<Rightarrow>
   'a LayerKvCache \<Rightarrow> unit result \<times> 'a LayerKvCache" where
  "write_both wk wv rows c =
     (case wk (kv_key c) of (rk, key) \<Rightarrow>
        let c = c\<lparr>kv_key := key\<rparr> in
        try_result rk c (\<lambda>_.
          case wv (kv_value c) of (rv, value) \<Rightarrow>
            let c = c\<lparr>kv_value := value\<rparr> in
            try_result rv c (\<lambda>_. (Ok (), c\<lparr>kv_len := kv_len c + rows\<rparr>))))"

definition kv_append_on_stream ::
  "'a LayerKvCache \<Rightarrow> 'a list \<Rightarrow> 'a list \<Rightarrow> cuda_status \<Rightarrow> cuda_status \<Rightarrow>
   unit result \<times> 'a LayerKvCache" where
  "kv_append_on_stream c key value st_key st_value =
     (let width = kv_width c in
      if length key \<noteq> length value \<or> \<not> width dvd length key
      then (Err (Shape ''layer KV append''), c)
      else
        let rows = length key div width in
        if kv_max_tokens c < kv_len c + rows then (Err (Shape ''layer KV append capacity''), c)
        else write_both
          (\<lambda>b. append_rows_f32_into_on_stream key b (kv_len c) rows width st_key)
          (\<lambda>b. append_rows_f32_into_on_stream value b (kv_len c) rows width st_value) rows c)"

text \<open>The blocking form makes a stream of its own, and waits for it before the length advances.\<close>

definition kv_append ::
  "'a LayerKvCache \<Rightarrow> 'a list \<Rightarrow> 'a list \<Rightarrow> cuda_status \<Rightarrow> cuda_status \<Rightarrow> cuda_status \<Rightarrow> cuda_status \<Rightarrow>
   unit result \<times> 'a LayerKvCache" where
  "kv_append c key value st_stream st_key st_value st_sync =
     (let width = kv_width c in
      if length key \<noteq> length value \<or> \<not> width dvd length key
      then (Err (Shape ''layer KV append''), c)
      else
        let rows = length key div width in
        if kv_max_tokens c < kv_len c + rows then (Err (Shape ''layer KV append capacity''), c)
        else try_result st_stream c (\<lambda>_. write_both
          (\<lambda>b. append_rows_f32_into_on_stream key b (kv_len c) rows width st_key)
          (\<lambda>b. case append_rows_f32_into_on_stream value b (kv_len c) rows width st_value of
                 (r, b') \<Rightarrow> (bind_result r (\<lambda>_. st_sync), b')) rows c))"

definition kv_append_prefix_on_stream ::
  "'a LayerKvCache \<Rightarrow> 'a list \<Rightarrow> 'a list \<Rightarrow> nat \<Rightarrow> cuda_status \<Rightarrow> cuda_status \<Rightarrow>
   unit result \<times> 'a LayerKvCache" where
  "kv_append_prefix_on_stream c key value rows st_key st_value =
     (let width = kv_width c in
      if rows = 0 \<or> kv_max_tokens c - kv_len c < rows
      then (Err (Format ''KV prefill append''), c)
      else write_both
        (\<lambda>b. copy_range_from_device f32_size b (kv_len c * width) key 0 (rows * width) st_key)
        (\<lambda>b. copy_range_from_device f32_size b (kv_len c * width) value 0 (rows * width) st_value) rows c)"

definition kv_append_indexed_on_stream ::
  "'a LayerKvCache \<Rightarrow> 'a list \<Rightarrow> 'a list \<Rightarrow> u32 list \<Rightarrow> nat \<Rightarrow> cuda_status \<Rightarrow> cuda_status \<Rightarrow>
   unit result \<times> 'a LayerKvCache" where
  "kv_append_indexed_on_stream c key value start max_start st_key st_value =
     (let width = kv_width c in
      if length key \<noteq> length value \<or> \<not> width dvd length key
      then (Err (Shape ''layer KV indexed append''), c)
      else
        let rows = length key div width in
        if kv_max_tokens c < max_start + rows
        then (Err (Shape ''layer KV indexed append capacity''), c)
        else write_both
          (\<lambda>b. append_rows_f32_indexed_into_on_stream key b start max_start rows width st_key)
          (\<lambda>b. append_rows_f32_indexed_into_on_stream value b start max_start rows width st_value) 0 c)"

definition kv_advance_len :: "'a LayerKvCache \<Rightarrow> nat \<Rightarrow> unit result \<times> 'a LayerKvCache" where
  "kv_advance_len c rows =
     (if kv_max_tokens c < kv_len c + rows then (Err (Shape ''layer KV advance''), c)
      else (Ok (), c\<lparr>kv_len := kv_len c + rows\<rparr>))"

definition kv_truncate_len :: "'a LayerKvCache \<Rightarrow> nat \<Rightarrow> unit result \<times> 'a LayerKvCache" where
  "kv_truncate_len c n =
     (if kv_len c < n then (Err (Shape ''layer KV truncate''), c)
      else (Ok (), c\<lparr>kv_len := n\<rparr>))"

definition kv_checkpoint_on_stream ::
  "('a :: zero) LayerKvCache \<Rightarrow> cuda_status \<Rightarrow> cuda_status \<Rightarrow> cuda_status \<Rightarrow> cuda_status \<Rightarrow>
   'a LayerKvCacheCheckpoint result" where
  "kv_checkpoint_on_stream c alloc_key alloc_value copy_key copy_value =
     (let n = saturating_mul (kv_len c) (kv_width c) in
      bind_result (buffer_zeroed f32_size n alloc_key (Ok ()) (Ok ()))
      (\<lambda>key. bind_result (buffer_zeroed f32_size n alloc_value (Ok ()) (Ok ()))
      (\<lambda>value. case copy_prefix_from_device f32_size key (kv_key c) n copy_key of
         (rk, key) \<Rightarrow> bind_result rk
      (\<lambda>_. case copy_prefix_from_device f32_size value (kv_value c) n copy_value of
         (rv, value) \<Rightarrow> bind_result rv
      (\<lambda>_. Ok \<lparr>cp_key = key, cp_value = value, cp_len = kv_len c, cp_heads = kv_heads c,
               cp_head_dim = kv_head_dim c\<rparr>)))))"

definition kv_restore_checkpoint_on_stream ::
  "'a LayerKvCache \<Rightarrow> 'a LayerKvCacheCheckpoint \<Rightarrow> cuda_status \<Rightarrow> cuda_status \<Rightarrow>
   unit result \<times> 'a LayerKvCache" where
  "kv_restore_checkpoint_on_stream c cp st_key st_value =
     (if kv_heads c \<noteq> cp_heads cp \<or> kv_head_dim c \<noteq> cp_head_dim cp
      then (Err (Shape ''layer KV checkpoint layout''), c)
      else if kv_max_tokens c < cp_len cp then (Err (Shape ''layer KV checkpoint capacity''), c)
      else
        let n = saturating_mul (cp_len cp) (kv_width c) in
        (case copy_prefix_from_device f32_size (kv_key c) (cp_key cp) n st_key of (rk, key) \<Rightarrow>
          let c = c\<lparr>kv_key := key\<rparr> in
          try_result rk c (\<lambda>_.
            case copy_prefix_from_device f32_size (kv_value c) (cp_value cp) n st_value of (rv, value) \<Rightarrow>
              let c = c\<lparr>kv_value := value\<rparr> in
              try_result rv c (\<lambda>_. (Ok (), c\<lparr>kv_len := cp_len cp\<rparr>)))))"

section \<open>All layers\<close>

definition kv_cache_new ::
  "nat \<Rightarrow> nat \<Rightarrow> nat \<Rightarrow> nat \<Rightarrow> (nat \<Rightarrow> cuda_status \<times> cuda_status) \<Rightarrow> ('a :: zero) LayerKvCache list result" where
  "kv_cache_new n_layers max_tokens heads dim st =
     (if n_layers = 0 then Err (Shape ''KV cache'')
      else map_result (\<lambda>i. layer_kv_new max_tokens heads dim (fst (st i)) (snd (st i))) [0..<n_layers])"

definition kv_layer :: "'a LayerKvCache list \<Rightarrow> nat \<Rightarrow> 'a LayerKvCache result" where
  "kv_layer layers index = ok_or (get layers index) (Shape ''KV cache layer'')"

fun kv_advance_all :: "'a LayerKvCache list \<Rightarrow> nat \<Rightarrow> unit result \<times> 'a LayerKvCache list" where
  "kv_advance_all [] rows = (Ok (), [])"
| "kv_advance_all (c # cs) rows =
     (case kv_advance_len c rows of
        (Inl e, c') \<Rightarrow> (Err e, c' # cs)
      | (Inr _, c') \<Rightarrow> (case kv_advance_all cs rows of (r, cs') \<Rightarrow> (r, c' # cs')))"

section \<open>Rows\<close>

definition row_of :: "nat \<Rightarrow> 'a list \<Rightarrow> nat \<Rightarrow> 'a list" where
  "row_of w b i = take w (drop (i * w) b)"

lemma length_concat_rows: "\<forall>x \<in> set xs. length x = w \<Longrightarrow> length (concat xs) = length xs * w"
  by (induction xs) auto

lemma row_of_concat:
  "\<forall>x \<in> set xs. length x = w \<Longrightarrow> j < length xs \<Longrightarrow> row_of w (concat xs) j = xs ! j"
proof (induction xs arbitrary: j)
  case (Cons x xs)
  then show ?case by (cases j) (auto simp: row_of_def)
qed simp

lemma row_of_write_at_before:
  assumes "i < n" "n * w \<le> length b"
  shows "row_of w (write_at b (n * w) vs) i = row_of w b i"
proof -
  have "Suc i * w \<le> n * w" using assms(1) by (intro mult_le_mono1) simp
  then have "row_of w b' i = drop (i * w) (take (Suc i * w) b')" for b' :: "'a list"
    by (simp add: row_of_def drop_take)
  moreover have "take (Suc i * w) (write_at b (n * w) vs) = take (Suc i * w) b"
    using \<open>Suc i * w \<le> n * w\<close> assms(2) by (rule take_write_at)
  ultimately show ?thesis by simp
qed

lemma row_of_write_at_new:
  assumes "n \<le> i" "i < n + m" "length vs = m * w" "(n + m) * w \<le> length b"
  shows "row_of w (write_at b (n * w) vs) i = row_of w vs (i - n)"
proof -
  have nm: "n * w + m * w \<le> length b" using assms(4) by (simp add: algebra_simps)
  have "(i - n) * w + w = Suc (i - n) * w" by simp
  also have "\<dots> \<le> m * w" using assms(1,2) by (intro mult_le_mono1) linarith
  finally have fit: "(i - n) * w + w \<le> length vs" by (simp add: assms(3))
  have "i * w = n * w + (i - n) * w" using assms(1) by (simp flip: add_mult_distrib)
  then have "drop (i * w) (write_at b (n * w) vs) = drop ((i - n) * w) (vs @ drop (n * w + length vs) b)"
    using nm fit by (simp add: write_at_def)
  with fit show ?thesis by (simp add: row_of_def)
qed

section \<open>The invariant and the abstraction\<close>

definition layer_ok :: "'a LayerKvCache \<Rightarrow> bool" where
  "layer_ok c \<longleftrightarrow>
     0 < kv_max_tokens c \<and> 0 < kv_heads c \<and> 0 < kv_head_dim c \<and> kv_len c \<le> kv_max_tokens c \<and>
     length (kv_key c) = kv_max_tokens c * kv_width c \<and>
     length (kv_value c) = kv_max_tokens c * kv_width c \<and>
     buffer_fits f32_size (kv_max_tokens c * kv_width c)"

definition kv_rows :: "'a LayerKvCache \<Rightarrow> ('a list \<times> 'a list) list" where
  "kv_rows c = map (\<lambda>i. (row_of (kv_width c) (kv_key c) i, row_of (kv_width c) (kv_value c) i)) [0..<kv_len c]"

definition valid_row :: "'a LayerKvCache \<Rightarrow> 'a list \<times> 'a list \<Rightarrow> bool" where
  "valid_row c r \<longleftrightarrow> length (fst r) = kv_width c \<and> length (snd r) = kv_width c"

definition key_of :: "('a list \<times> 'a list) list \<Rightarrow> 'a list" where
  "key_of xs = concat (map fst xs)"

definition value_of :: "('a list \<times> 'a list) list \<Rightarrow> 'a list" where
  "value_of xs = concat (map snd xs)"

lemma length_kv_rows [simp]: "length (kv_rows c) = kv_len c"
  by (simp add: kv_rows_def)

lemma kv_width_update [simp]:
  "kv_width (c\<lparr>kv_key := k\<rparr>) = kv_width c" "kv_width (c\<lparr>kv_value := v\<rparr>) = kv_width c"
  "kv_width (c\<lparr>kv_len := n\<rparr>) = kv_width c"
  by (simp_all add: kv_width_def)

lemma length_of_rows:
  assumes "\<forall>r \<in> set xs. valid_row c r"
  shows "length (key_of xs) = length xs * kv_width c" "length (value_of xs) = length xs * kv_width c"
  using assms length_concat_rows [of "map fst xs" "kv_width c"] length_concat_rows [of "map snd xs" "kv_width c"]
  by (simp_all add: key_of_def value_of_def valid_row_def)

lemma layer_ok_width: "layer_ok c \<Longrightarrow> 0 < kv_width c"
  by (simp add: layer_ok_def kv_width_def)

lemma room_le: "layer_ok c \<Longrightarrow> n \<le> kv_max_tokens c \<Longrightarrow> n * kv_width c \<le> length (kv_key c)"
  by (simp add: layer_ok_def)

definition appended :: "'a LayerKvCache \<Rightarrow> ('a list \<times> 'a list) list \<Rightarrow> 'a LayerKvCache" where
  "appended c xs = c\<lparr>kv_key := write_at (kv_key c) (kv_len c * kv_width c) (key_of xs),
     kv_value := write_at (kv_value c) (kv_len c * kv_width c) (value_of xs),
     kv_len := kv_len c + length xs\<rparr>"

lemma appended_correct:
  assumes ok: "layer_ok c" and xs: "\<forall>r \<in> set xs. valid_row c r"
    and room: "kv_len c + length xs \<le> kv_max_tokens c"
  shows "layer_ok (appended c xs)" "kv_rows (appended c xs) = kv_rows c @ xs"
    "kv_max_tokens (appended c xs) = kv_max_tokens c" "kv_width (appended c xs) = kv_width c"
proof -
  let ?w = "kv_width c" and ?n = "kv_len c"
  have b: "(?n + length xs) * ?w \<le> length (kv_key c)" "(?n + length xs) * ?w \<le> length (kv_value c)"
    using ok room by (simp_all add: layer_ok_def)
  then have b': "?n * ?w + length xs * ?w \<le> length (kv_key c)" "?n * ?w + length xs * ?w \<le> length (kv_value c)"
    by (simp_all add: algebra_simps)
  show "kv_width (appended c xs) = ?w" by (simp add: appended_def)
  show "kv_max_tokens (appended c xs) = kv_max_tokens c" by (simp add: appended_def)
  show "layer_ok (appended c xs)"
    using ok room b' by (simp add: layer_ok_def appended_def length_of_rows [OF xs])
  show "kv_rows (appended c xs) = kv_rows c @ xs"
  proof (rule nth_equalityI)
    fix i assume "i < length (kv_rows (appended c xs))"
    then have i: "i < ?n + length xs" by (simp add: appended_def)
    show "kv_rows (appended c xs) ! i = (kv_rows c @ xs) ! i"
    proof (cases "i < ?n")
      case True
      then show ?thesis
        using b' i row_of_write_at_before [OF True, of ?w "kv_key c"] row_of_write_at_before [OF True, of ?w "kv_value c"]
        by (simp add: kv_rows_def appended_def nth_append)
    next
      case False
      then have ni: "?n \<le> i" by simp
      have "row_of ?w (write_at (kv_key c) (?n * ?w) (key_of xs)) i = fst (xs ! (i - ?n))"
        using row_of_write_at_new [OF ni i _ b(1), of "key_of xs"] length_of_rows [OF xs] xs i ni
          row_of_concat [of "map fst xs" ?w "i - ?n"]
        by (simp add: key_of_def valid_row_def)
      moreover have "row_of ?w (write_at (kv_value c) (?n * ?w) (value_of xs)) i = snd (xs ! (i - ?n))"
        using row_of_write_at_new [OF ni i _ b(2), of "value_of xs"] length_of_rows [OF xs] xs i ni
          row_of_concat [of "map snd xs" ?w "i - ?n"]
        by (simp add: value_of_def valid_row_def)
      ultimately show ?thesis using i ni by (simp add: kv_rows_def appended_def nth_append)
    qed
  qed (simp add: appended_def)
qed

section \<open>The contract of a log of rows\<close>

locale row_log =
  fixes inv :: "'s \<Rightarrow> bool" and rows :: "'s \<Rightarrow> 'r list" and cap :: "'s \<Rightarrow> nat"
    and valid :: "'s \<Rightarrow> 'r \<Rightarrow> bool"
    and app :: "'s \<Rightarrow> 'r list \<Rightarrow> unit result \<times> 's" and trunc :: "'s \<Rightarrow> nat \<Rightarrow> unit result \<times> 's"
  assumes app_ok: "inv s \<Longrightarrow> xs \<noteq> [] \<Longrightarrow> \<forall>r \<in> set xs. valid s r \<Longrightarrow> length (rows s) + length xs \<le> cap s \<Longrightarrow>
      \<exists>s'. app s xs = (Ok (), s') \<and> inv s' \<and> rows s' = rows s @ xs \<and> cap s' = cap s \<and> valid s' = valid s"
    and app_full: "inv s \<Longrightarrow> \<forall>r \<in> set xs. valid s r \<Longrightarrow> cap s < length (rows s) + length xs \<Longrightarrow>
      \<exists>e. app s xs = (Err e, s)"
    and trunc_ok: "inv s \<Longrightarrow> n \<le> length (rows s) \<Longrightarrow>
      \<exists>s'. trunc s n = (Ok (), s') \<and> inv s' \<and> rows s' = take n (rows s) \<and> cap s' = cap s \<and> valid s' = valid s"
begin

lemma append_cases:
  assumes "inv s" "xs \<noteq> []" "\<forall>r \<in> set xs. valid s r"
  obtains (fits) s' where "app s xs = (Ok (), s')" "inv s'" "rows s' = rows s @ xs"
      "length (rows s) + length xs \<le> cap s" "cap s' = cap s" "valid s' = valid s"
  | (full) e where "app s xs = (Err e, s)" "cap s < length (rows s) + length xs"
  using assms app_ok [of s xs] app_full [of s xs] by (cases "length (rows s) + length xs \<le> cap s") auto

text \<open>Appending a draft and keeping \<open>k\<close> of its rows leaves the old rows and those \<open>k\<close>.\<close>

lemma append_accept_prefix:
  assumes "inv s" "xs \<noteq> []" "\<forall>r \<in> set xs. valid s r" "length (rows s) + length xs \<le> cap s" "k \<le> length xs"
  shows "\<exists>s' s''. app s xs = (Ok (), s') \<and> trunc s' (length (rows s) + k) = (Ok (), s'') \<and>
    inv s'' \<and> rows s'' = rows s @ take k xs"
proof -
  from app_ok [OF assms(1-4)] obtain s' where s': "app s xs = (Ok (), s')" "inv s'" "rows s' = rows s @ xs"
    by blast
  with trunc_ok [of s' "length (rows s) + k"] assms(5) show ?thesis by auto
qed

text \<open>Appending in two chunks is appending at once.\<close>

lemma append_chunks:
  assumes "inv s" "xs \<noteq> []" "ys \<noteq> []" "\<forall>r \<in> set (xs @ ys). valid s r"
    and "length (rows s) + length (xs @ ys) \<le> cap s"
  shows "\<exists>s1 s2 s3. app s xs = (Ok (), s1) \<and> app s1 ys = (Ok (), s2) \<and> app s (xs @ ys) = (Ok (), s3) \<and>
    rows s2 = rows s3"
proof -
  from assms app_ok [of s xs] obtain s1 where s1: "app s xs = (Ok (), s1)" "inv s1" "rows s1 = rows s @ xs"
    "cap s1 = cap s" "valid s1 = valid s" by auto
  with assms app_ok [of s1 ys] obtain s2 where "app s1 ys = (Ok (), s2)" "rows s2 = rows s @ xs @ ys" by auto
  moreover from assms app_ok [of s "xs @ ys"] obtain s3 where
    "app s (xs @ ys) = (Ok (), s3)" "rows s3 = rows s @ xs @ ys" by auto
  ultimately show ?thesis using s1(1) by simp
qed

end

section \<open>The appends meet the contract\<close>

definition layer_small :: "'a LayerKvCache \<Rightarrow> bool" where
  "layer_small c \<longleftrightarrow> layer_ok c \<and> kv_max_tokens c * kv_width c \<le> u32_max"

lemma validate_layer_append:
  assumes s: "layer_small c" and rows: "0 < rows" "kv_len c + rows \<le> kv_max_tokens c"
    and b: "length b = kv_max_tokens c * kv_width c"
  shows "validate_append_rows_f32 (rows * kv_width c) (length b) (kv_len c) rows (kv_width c) = Ok ()"
proof -
  let ?w = "kv_width c"
  have ok: "layer_ok c" and u: "kv_max_tokens c * ?w \<le> u32_max" using s by (simp_all add: layer_small_def)
  have w: "0 < ?w" using ok by (rule layer_ok_width)
  have le: "(kv_len c + rows) * ?w \<le> kv_max_tokens c * ?w" using rows(2) by (rule mult_le_mono1)
  have "kv_len c + rows \<le> (kv_len c + rows) * ?w" using w by simp
  moreover have "?w \<le> (kv_len c + rows) * ?w" using rows(1) by simp
  moreover have "rows * ?w \<le> (kv_len c + rows) * ?w" by simp
  ultimately show ?thesis
    unfolding validate_append_rows_Ok using le u b rows w u32_max_le_usize_max by linarith
qed

lemma append_rows_layer:
  assumes s: "layer_small c" and vs: "vs \<noteq> []" "length vs = rows * kv_width c"
    and rows: "kv_len c + rows \<le> kv_max_tokens c" and b: "length b = kv_max_tokens c * kv_width c"
  shows "append_rows_f32_into_on_stream vs b (kv_len c) rows (kv_width c) (Ok ()) =
    (Ok (), write_at b (kv_len c * kv_width c) vs)"
proof -
  have "0 < rows" using vs by (cases rows) auto
  note v = validate_layer_append [OF s this rows b, folded vs(2)]
  have u: "kv_max_tokens c * kv_width c \<le> u32_max" using s by (simp add: layer_small_def)
  have "rows * kv_width c \<le> kv_max_tokens c * kv_width c" using rows by (intro mult_le_mono1) simp
  then have r: "rows * kv_width c \<le> u32_max" using u by (rule order_trans)
  have "(kv_len c + rows) * kv_width c \<le> kv_max_tokens c * kv_width c"
    using rows by (rule mult_le_mono1)
  then have t: "(kv_len c + rows) * kv_width c \<le> 2 ^ 32" using u by (simp only: u32_max_def)
  from v have "kv_width c \<le> u32_max" "(kv_len c + rows) * kv_width c \<le> length b"
    unfolding validate_append_rows_Ok by auto
  then have "append_rows_kernel vs b (of_nat (kv_len c)) (of_nat rows) (of_nat (kv_width c)) =
      write_at b (kv_len c * kv_width c) vs"
    using vs r t by (intro append_rows_kernel_write)
  with v show ?thesis by (simp add: append_rows_f32_into_on_stream_def)
qed

lemma write_both_Ok:
  assumes "wk (kv_key c) = (Ok (), k)" "wv (kv_value c) = (Ok (), v)"
  shows "write_both wk wv n c = (Ok (), c\<lparr>kv_key := k, kv_value := v, kv_len := kv_len c + n\<rparr>)"
  using assms by (simp add: write_both_def)

lemma key_value_nonempty:
  assumes "layer_ok c" "xs \<noteq> []" "\<forall>r \<in> set xs. valid_row c r"
  shows "key_of xs \<noteq> []" "value_of xs \<noteq> []"
  using length_of_rows [OF assms(3)] layer_ok_width [OF assms(1)] assms(2) by fastforce+

lemma kv_append_on_stream_Ok:
  assumes s: "layer_small c" and xs: "xs \<noteq> []" "\<forall>r \<in> set xs. valid_row c r"
    and room: "kv_len c + length xs \<le> kv_max_tokens c"
  shows "kv_append_on_stream c (key_of xs) (value_of xs) (Ok ()) (Ok ()) = (Ok (), appended c xs)"
proof -
  have ok: "layer_ok c" using s by (simp add: layer_small_def)
  note w = layer_ok_width [OF ok] and len = length_of_rows [OF xs(2)]
  have b: "length (kv_key c) = kv_max_tokens c * kv_width c" "length (kv_value c) = kv_max_tokens c * kv_width c"
    using ok by (simp_all add: layer_ok_def)
  show ?thesis
    using append_rows_layer [OF s key_value_nonempty(1) [OF ok xs] len(1) room b(1)]
      append_rows_layer [OF s key_value_nonempty(2) [OF ok xs] len(2) room b(2)] w room
    by (simp add: kv_append_on_stream_def Let_def len write_both_Ok appended_def)
qed

lemma kv_append_on_stream_full:
  assumes "layer_ok c" "\<forall>r \<in> set xs. valid_row c r" "kv_max_tokens c < kv_len c + length xs"
  shows "kv_append_on_stream c (key_of xs) (value_of xs) st_key st_value =
    (Err (Shape ''layer KV append capacity''), c)"
  using layer_ok_width [OF assms(1)] length_of_rows [OF assms(2)] assms(3)
  by (simp add: kv_append_on_stream_def Let_def)

lemma kv_append_Ok:
  assumes "layer_small c" "xs \<noteq> []" "\<forall>r \<in> set xs. valid_row c r"
    and "kv_len c + length xs \<le> kv_max_tokens c"
  shows "kv_append c (key_of xs) (value_of xs) (Ok ()) (Ok ()) (Ok ()) (Ok ()) = (Ok (), appended c xs)"
proof -
  have ok: "layer_ok c" using assms by (simp add: layer_small_def)
  note w = layer_ok_width [OF ok] and len = length_of_rows [OF assms(3)]
  have b: "length (kv_key c) = kv_max_tokens c * kv_width c" "length (kv_value c) = kv_max_tokens c * kv_width c"
    using ok by (simp_all add: layer_ok_def)
  show ?thesis
    using append_rows_layer [OF assms(1) key_value_nonempty(1) [OF ok assms(2,3)] len(1) assms(4) b(1)]
      append_rows_layer [OF assms(1) key_value_nonempty(2) [OF ok assms(2,3)] len(2) assms(4) b(2)] w assms(4)
    by (simp add: kv_append_def Let_def len write_both_Ok appended_def)
qed

lemma kv_append_prefix_Ok:
  assumes ok: "layer_ok c" and xs: "xs \<noteq> []" "\<forall>r \<in> set xs. valid_row c r"
    and room: "kv_len c + length xs \<le> kv_max_tokens c"
    and junk: "buffer_fits f32_size (length (key_of xs @ jk))" "buffer_fits f32_size (length (value_of xs @ jv))"
  shows "kv_append_prefix_on_stream c (key_of xs @ jk) (value_of xs @ jv) (length xs) (Ok ()) (Ok ()) =
    (Ok (), appended c xs)"
proof -
  note len = length_of_rows [OF xs(2)]
  have le: "(kv_len c + length xs) * kv_width c \<le> kv_max_tokens c * kv_width c" using room by (rule mult_le_mono1)
  then have le': "kv_len c * kv_width c + length xs * kv_width c \<le> kv_max_tokens c * kv_width c"
    by (simp add: algebra_simps)
  then have le2: "length xs * kv_width c \<le> kv_max_tokens c * kv_width c" by linarith
  have fit: "buffer_fits f32_size (kv_max_tokens c * kv_width c)" "buffer_fits f32_size (length xs * kv_width c)"
    using ok buffer_fits_mono [OF _ le2] by (simp_all add: layer_ok_def)
  have "copy_range_from_device f32_size b (kv_len c * kv_width c) (vs @ j) 0 (length xs * kv_width c) (Ok ()) =
      (Ok (), write_at b (kv_len c * kv_width c) vs)"
    if "length b = kv_max_tokens c * kv_width c" "length vs = length xs * kv_width c" for b vs j :: "'a list"
    using that le' fit by (auto simp: copy_range_from_device_def checked_add_def checked_mul_def buffer_fits_def)
  with ok xs(1) room show ?thesis
    by (simp add: kv_append_prefix_on_stream_def Let_def write_both_Ok appended_def len layer_ok_def)
qed

lemma kv_truncate_Ok:
  assumes "layer_ok c" "n \<le> kv_len c"
  shows "kv_truncate_len c n = (Ok (), c\<lparr>kv_len := n\<rparr>)" "layer_ok (c\<lparr>kv_len := n\<rparr>)"
    "kv_rows (c\<lparr>kv_len := n\<rparr>) = take n (kv_rows c)"
  using assms by (simp_all add: kv_truncate_len_def layer_ok_def kv_rows_def take_map min_def)

lemma valid_row_cong: "kv_width c' = kv_width c \<Longrightarrow> valid_row c' = valid_row c"
  by (simp add: valid_row_def fun_eq_iff)

interpretation stream_log: row_log layer_small kv_rows kv_max_tokens valid_row
  "\<lambda>c xs. kv_append_on_stream c (key_of xs) (value_of xs) (Ok ()) (Ok ())" kv_truncate_len
proof
  fix c :: "'a LayerKvCache" and xs :: "('a list \<times> 'a list) list" and n
  assume s: "layer_small c"
  then have ok: "layer_ok c" by (simp add: layer_small_def)
  show "\<exists>s'. kv_append_on_stream c (key_of xs) (value_of xs) (Ok ()) (Ok ()) = (Ok (), s') \<and> layer_small s' \<and>
      kv_rows s' = kv_rows c @ xs \<and> kv_max_tokens s' = kv_max_tokens c \<and> valid_row s' = valid_row c"
    if "xs \<noteq> []" "\<forall>r \<in> set xs. valid_row c r" "length (kv_rows c) + length xs \<le> kv_max_tokens c"
    using kv_append_on_stream_Ok [OF s that(1,2)] appended_correct [OF ok that(2)] that(3) s valid_row_cong
    by (auto simp: layer_small_def)
  show "\<exists>e. kv_append_on_stream c (key_of xs) (value_of xs) (Ok ()) (Ok ()) = (Err e, c)"
    if "\<forall>r \<in> set xs. valid_row c r" "kv_max_tokens c < length (kv_rows c) + length xs"
    using kv_append_on_stream_full [OF ok that(1)] that(2) by auto
  show "\<exists>s'. kv_truncate_len c n = (Ok (), s') \<and> layer_small s' \<and> kv_rows s' = take n (kv_rows c) \<and>
      kv_max_tokens s' = kv_max_tokens c \<and> valid_row s' = valid_row c"
    if "n \<le> length (kv_rows c)"
    using kv_truncate_Ok [OF ok] that s by (auto simp: layer_small_def valid_row_def fun_eq_iff)
qed

interpretation prefill_log: row_log layer_ok kv_rows kv_max_tokens valid_row
  "\<lambda>c xs. kv_append_prefix_on_stream c (key_of xs) (value_of xs) (length xs) (Ok ()) (Ok ())" kv_truncate_len
proof
  fix c :: "'a LayerKvCache" and xs :: "('a list \<times> 'a list) list" and n
  assume ok: "layer_ok c"
  show "\<exists>s'. kv_append_prefix_on_stream c (key_of xs) (value_of xs) (length xs) (Ok ()) (Ok ()) = (Ok (), s') \<and>
      layer_ok s' \<and> kv_rows s' = kv_rows c @ xs \<and> kv_max_tokens s' = kv_max_tokens c \<and> valid_row s' = valid_row c"
    if xs: "xs \<noteq> []" "\<forall>r \<in> set xs. valid_row c r" "length (kv_rows c) + length xs \<le> kv_max_tokens c"
  proof -
    have "length xs * kv_width c \<le> kv_max_tokens c * kv_width c" using xs(3) by (intro mult_le_mono1) simp
    then have "buffer_fits f32_size (length xs * kv_width c)"
      using ok buffer_fits_mono by (auto simp: layer_ok_def)
    then show ?thesis
      using kv_append_prefix_Ok [OF ok xs(1,2), of "[]" "[]"] appended_correct [OF ok xs(2)] xs(3) valid_row_cong
        length_of_rows [OF xs(2)] by auto
  qed
  show "\<exists>e. kv_append_prefix_on_stream c (key_of xs) (value_of xs) (length xs) (Ok ()) (Ok ()) = (Err e, c)"
    if "kv_max_tokens c < length (kv_rows c) + length xs"
  proof -
    have "kv_max_tokens c - kv_len c < length xs" using that ok by (auto simp: layer_ok_def)
    then show ?thesis by (simp add: kv_append_prefix_on_stream_def Let_def)
  qed
  show "\<exists>s'. kv_truncate_len c n = (Ok (), s') \<and> layer_ok s' \<and> kv_rows s' = take n (kv_rows c) \<and>
      kv_max_tokens s' = kv_max_tokens c \<and> valid_row s' = valid_row c"
    if "n \<le> length (kv_rows c)"
    using kv_truncate_Ok [OF ok] that by (auto simp: valid_row_def fun_eq_iff)
qed

section \<open>The invariant under every operation\<close>

text \<open>A write that keeps the length of the buffer it is given.\<close>

definition keeps_length :: "('a list \<Rightarrow> unit result \<times> 'a list) \<Rightarrow> bool" where
  "keeps_length w \<longleftrightarrow> (\<forall>b. length (snd (w b)) = length b)"

lemma append_rows_kernel_length [simp]: "length (append_rows_kernel src dst s r c) = length dst"
proof -
  have "length (foldl (\<lambda>d i. d[f i := g i]) dst xs) = length dst" for f :: "nat \<Rightarrow> nat" and g xs
    by (induction xs arbitrary: dst) simp_all
  then show ?thesis by (simp add: append_rows_kernel_def)
qed

lemma keeps_length_append [simp]:
  "keeps_length (\<lambda>b. append_rows_f32_into_on_stream v b s r w st)"
  "keeps_length (\<lambda>b. append_rows_f32_indexed_into_on_stream v b i s r w st)"
  "keeps_length (\<lambda>b. case append_rows_f32_into_on_stream v b s r w st of (x, b') \<Rightarrow> (f x, b'))"
  by (simp_all add: keeps_length_def append_rows_f32_into_on_stream_def
      append_rows_f32_indexed_into_on_stream_def try_result_def split: sum.split prod.split)

lemma keeps_length_copy [simp]:
  "keeps_length (\<lambda>b. copy_range_from_device e b d v s n st)"
  "keeps_length (\<lambda>b. copy_prefix_from_device e b v n st)"
  by (auto simp: keeps_length_def copy_range_from_device_def copy_prefix_from_device_def device_write_def
      try_result_def ok_or_def checked_add_def split: sum.split option.split if_splits)

lemma layer_ok_write_both:
  assumes "write_both wk wv n c = (r, c')" "keeps_length wk" "keeps_length wv" "layer_ok c"
    "kv_len c + n \<le> kv_max_tokens c"
  shows "layer_ok c' \<and> kv_max_tokens c' = kv_max_tokens c \<and> kv_width c' = kv_width c"
proof -
  obtain rk k where k: "wk (kv_key c) = (rk, k)" "length k = length (kv_key c)"
    using assms(2) by (cases "wk (kv_key c)") (auto simp: keeps_length_def dest: spec [of _ "kv_key c"])
  obtain rv v where v: "wv (kv_value c) = (rv, v)" "length v = length (kv_value c)"
    using assms(3) by (cases "wv (kv_value c)") (auto simp: keeps_length_def dest: spec [of _ "kv_value c"])
  show ?thesis
    using assms(1,4,5) k v by (cases rk; cases rv) (auto simp: write_both_def layer_ok_def)
qed

inductive kv_step :: "('a :: zero) LayerKvCache \<Rightarrow> 'a LayerKvCache \<Rightarrow> bool" where
  step_append: "kv_append c key value st1 st2 st3 st4 = (r, c') \<Longrightarrow> kv_step c c'"
| step_append_on_stream: "kv_append_on_stream c key value st1 st2 = (r, c') \<Longrightarrow> kv_step c c'"
| step_append_prefix: "kv_append_prefix_on_stream c key value n st1 st2 = (r, c') \<Longrightarrow> kv_step c c'"
| step_append_indexed: "kv_append_indexed_on_stream c key value idx n st1 st2 = (r, c') \<Longrightarrow> kv_step c c'"
| step_advance: "kv_advance_len c n = (r, c') \<Longrightarrow> kv_step c c'"
| step_truncate: "kv_truncate_len c n = (r, c') \<Longrightarrow> kv_step c c'"
| step_restore: "kv_restore_checkpoint_on_stream c cp st1 st2 = (r, c') \<Longrightarrow> kv_step c c'"

lemma layer_ok_restore:
  assumes "kv_restore_checkpoint_on_stream c cp st1 st2 = (r, c')" "layer_ok c"
  shows "layer_ok c' \<and> kv_max_tokens c' = kv_max_tokens c \<and> kv_width c' = kv_width c"
proof -
  have "length (snd (copy_prefix_from_device f32_size b v n st)) = length b" for b v :: "'a list" and n st
    using keeps_length_copy(2) unfolding keeps_length_def by blast
  then have "length b' = length b" if "copy_prefix_from_device f32_size b v n st = (x, b')"
    for b v b' :: "'a list" and n st x
    using that by (metis snd_conv)
  with assms show ?thesis
    by (auto simp: kv_restore_checkpoint_on_stream_def layer_ok_def Let_def try_result_def
        split: if_splits prod.splits sum.splits)
qed

lemma layer_ok_step:
  "kv_step c c' \<Longrightarrow> layer_ok c \<Longrightarrow>
   layer_ok c' \<and> kv_max_tokens c' = kv_max_tokens c \<and> kv_width c' = kv_width c"
proof (induction rule: kv_step.induct)
  case (step_append c k v st1 st2 st3 st4 r c')
  then show ?case using layer_ok_write_both
    by (fastforce simp: kv_append_def Let_def try_result_def not_less split: if_splits sum.splits)
next
  case (step_append_on_stream c k v st1 st2 r c')
  then show ?case using layer_ok_write_both
    by (fastforce simp: kv_append_on_stream_def Let_def not_less split: if_splits)
next
  case (step_append_prefix c k v n st1 st2 r c')
  then have "kv_len c \<le> kv_max_tokens c" by (simp add: layer_ok_def)
  with step_append_prefix show ?case using layer_ok_write_both [of _ _ n c r c']
    by (fastforce simp: kv_append_prefix_on_stream_def Let_def not_less split: if_splits)
next
  case (step_append_indexed c k v idx n st1 st2 r c')
  then have "kv_len c + 0 \<le> kv_max_tokens c" by (simp add: layer_ok_def)
  with step_append_indexed show ?case using layer_ok_write_both [of _ _ 0 c r c']
    by (fastforce simp: kv_append_indexed_on_stream_def Let_def split: if_splits)
next
  case (step_advance c n r c')
  then show ?case by (auto simp: kv_advance_len_def layer_ok_def split: if_splits)
next
  case (step_truncate c n r c')
  then show ?case by (auto simp: kv_truncate_len_def layer_ok_def split: if_splits)
next
  case (step_restore c cp st1 st2 r c')
  then show ?case using layer_ok_restore by blast
qed

lemma layer_ok_new: "layer_kv_new m h d st1 st2 = Ok c \<Longrightarrow> layer_ok c \<and> kv_rows c = []"
  by (auto simp: layer_kv_new_def layer_ok_def kv_width_def kv_rows_def buffer_zeroed_def buffer_fits_def
      result_simps usize_simps split: if_splits)

section \<open>Checkpoints\<close>

lemma row_of_take: "i < m \<Longrightarrow> row_of w (take (m * w) b) i = row_of w b i"
proof -
  assume "i < m"
  then have "Suc i * w \<le> m * w" by (intro mult_le_mono1) simp
  then show ?thesis by (simp add: row_of_def drop_take min_def)
qed

lemma kv_checkpoint_Ok:
  assumes "layer_ok c"
  shows "kv_checkpoint_on_stream c (Ok ()) (Ok ()) (Ok ()) (Ok ()) =
    Ok \<lparr>cp_key = take (kv_len c * kv_width c) (kv_key c), cp_value = take (kv_len c * kv_width c) (kv_value c),
        cp_len = kv_len c, cp_heads = kv_heads c, cp_head_dim = kv_head_dim c\<rparr>"
proof -
  let ?n = "kv_len c * kv_width c"
  have le: "?n \<le> kv_max_tokens c * kv_width c" using assms by (intro mult_le_mono1) (simp add: layer_ok_def)
  then have fit: "buffer_fits f32_size ?n" using assms buffer_fits_mono by (auto simp: layer_ok_def)
  then have n: "saturating_mul (kv_len c) (kv_width c) = ?n"
    by (simp add: saturating_mul_def buffer_fits_def)
  have copy: "copy_prefix_from_device f32_size (replicate ?n 0) b ?n (Ok ()) = (Ok (), take ?n b)"
    if "length b = kv_max_tokens c * kv_width c" for b :: "'a list"
    using that le fit
    by (auto simp: copy_prefix_from_device_def checked_mul_def buffer_fits_def write_at_def)
  show ?thesis
    using copy [of "kv_key c"] copy [of "kv_value c"] assms fit
    by (simp add: kv_checkpoint_on_stream_def Let_def n buffer_zeroed_def checked_mul_def buffer_fits_def
        layer_ok_def)
qed

lemma kv_restore_Ok:
  assumes ok: "layer_ok c" and geo: "kv_heads c = cp_heads cp" "kv_head_dim c = cp_head_dim cp"
    and len: "cp_len cp \<le> kv_max_tokens c" "length (cp_key cp) = cp_len cp * kv_width c"
      "length (cp_value cp) = cp_len cp * kv_width c"
  shows "kv_restore_checkpoint_on_stream c cp (Ok ()) (Ok ()) =
    (Ok (), c\<lparr>kv_key := write_at (kv_key c) 0 (cp_key cp), kv_value := write_at (kv_value c) 0 (cp_value cp),
             kv_len := cp_len cp\<rparr>)"
proof -
  let ?n = "cp_len cp * kv_width c"
  have le: "?n \<le> kv_max_tokens c * kv_width c" using len(1) by (rule mult_le_mono1)
  then have fit: "buffer_fits f32_size ?n" using ok buffer_fits_mono by (auto simp: layer_ok_def)
  then have n: "saturating_mul (cp_len cp) (kv_width c) = ?n"
    by (simp add: saturating_mul_def buffer_fits_def)
  have "copy_prefix_from_device f32_size b v ?n (Ok ()) = (Ok (), write_at b 0 v)"
    if "length b = kv_max_tokens c * kv_width c" "length v = ?n" for b v :: "'a list"
    using that le fit
    by (auto simp: copy_prefix_from_device_def checked_mul_def buffer_fits_def write_at_def)
  with ok geo len(1) show ?thesis
    using len(2,3) by (simp add: kv_restore_checkpoint_on_stream_def Let_def n layer_ok_def)
qed

section \<open>Properties\<close>

text \<open>C17: Appending rows refines appending to a list. On a well-formed layer of fewer than \<open>2 ^ 32\<close>
  elements per buffer, a batch of rows that fits is appended behind the valid rows, which stay as
  they were; a batch that does not fit is refused and nothing changes.\<close>

theorem kv_append_refines:
  assumes "layer_small c" "xs \<noteq> []" "\<forall>r \<in> set xs. valid_row c r"
  shows "\<exists>r c'. kv_append_on_stream c (key_of xs) (value_of xs) (Ok ()) (Ok ()) = (r, c') \<and>
    (if kv_len c + length xs \<le> kv_max_tokens c
     then r = Ok () \<and> layer_small c' \<and> kv_rows c' = kv_rows c @ xs
     else r = Err (Shape ''layer KV append capacity'') \<and> c' = c)"
proof (cases "kv_len c + length xs \<le> kv_max_tokens c")
  case True
  with stream_log.app_ok [OF assms] show ?thesis by fastforce
next
  case False
  with kv_append_on_stream_full [of c xs] assms show ?thesis by (simp add: layer_small_def)
qed

definition sample_layer :: "int LayerKvCache" where
  "sample_layer = \<lparr>kv_key = [1, 2, 0, 0, 0, 0], kv_value = [5, 6, 0, 0, 0, 0], kv_max_tokens = 3,
     kv_len = 1, kv_heads = 1, kv_head_dim = 2\<rparr>"

lemma sample_layer_small: "layer_small sample_layer"
  by (simp add: layer_small_def layer_ok_def sample_layer_def kv_width_def buffer_fits_def f32_size_def
      usize_max_def u32_max_def)

lemma sample_rows_valid: "\<forall>r \<in> set [([3, 4], [7, 8]), ([9, 9], [9, 9])]. valid_row sample_layer r"
  by (simp add: valid_row_def sample_layer_def kv_width_def)

theorem kv_append_refines_witness:
  "\<exists>c'. kv_append_on_stream sample_layer [3, 4, 9, 9] [7, 8, 9, 9] (Ok ()) (Ok ()) = (Ok (), c') \<and>
    kv_rows c' = [([1, 2], [5, 6]), ([3, 4], [7, 8]), ([9, 9], [9, 9])]"
proof -
  have "kv_rows sample_layer = [([1, 2], [5, 6])]" by code_simp
  moreover have "kv_len sample_layer + 2 \<le> kv_max_tokens sample_layer" by (simp add: sample_layer_def)
  ultimately show ?thesis
    using kv_append_refines [OF sample_layer_small _ sample_rows_valid] by (auto simp: key_of_def value_of_def)
qed

text \<open>A draft of several rows can be appended and then cut back to any accepted prefix: the
  cache holds the old rows followed by exactly the accepted ones, as if the rest had never been
  written.\<close>

theorem kv_accept_prefix:
  assumes "layer_small c" "xs \<noteq> []" "\<forall>r \<in> set xs. valid_row c r"
    and "kv_len c + length xs \<le> kv_max_tokens c" "k \<le> length xs"
  shows "\<exists>c' c''. kv_append_on_stream c (key_of xs) (value_of xs) (Ok ()) (Ok ()) = (Ok (), c') \<and>
    kv_truncate_len c' (kv_len c + k) = (Ok (), c'') \<and> layer_small c'' \<and> kv_rows c'' = kv_rows c @ take k xs"
  using stream_log.append_accept_prefix [OF assms(1-3) _ assms(5)] assms(4) by simp

theorem kv_accept_prefix_witness:
  "\<exists>c' c''. kv_append_on_stream sample_layer [3, 4, 9, 9] [7, 8, 9, 9] (Ok ()) (Ok ()) = (Ok (), c') \<and>
    kv_truncate_len c' 2 = (Ok (), c'') \<and> kv_rows c'' = [([1, 2], [5, 6]), ([3, 4], [7, 8])]"
proof -
  have "kv_rows sample_layer = [([1, 2], [5, 6])]" "kv_len sample_layer = 1" by code_simp+
  moreover have "kv_len sample_layer + length [([3, 4], [7, 8]), ([9, 9], [9, 9 :: int])]
      \<le> kv_max_tokens sample_layer" by (simp add: sample_layer_def)
  ultimately show ?thesis
    using kv_accept_prefix [OF sample_layer_small _ sample_rows_valid, of 1]
    by (auto simp: key_of_def value_of_def numeral_2_eq_2)
qed

text \<open>A layer stays well formed through any sequence of operations with any outcomes of the
  device calls: the valid length never exceeds the capacity, both buffers keep the size of the
  capacity, and neither capacity nor row width changes.\<close>

theorem kv_reachable_ok:
  assumes "layer_kv_new max_tokens heads dim st1 st2 = Ok c0" "kv_step\<^sup>*\<^sup>* c0 c"
  shows "kv_len c \<le> max_tokens \<and> length (kv_key c) = max_tokens * (heads * dim) \<and>
    length (kv_value c) = max_tokens * (heads * dim) \<and> kv_max_tokens c = max_tokens \<and> layer_ok c"
proof -
  have "layer_ok c \<and> kv_max_tokens c = kv_max_tokens c0 \<and> kv_width c = kv_width c0"
    using assms(2)
    by (induction rule: rtranclp_induct) (use layer_ok_new [OF assms(1)] layer_ok_step in auto)
  moreover have "kv_max_tokens c0 = max_tokens" "kv_width c0 = heads * dim"
    using assms(1) by (auto simp: layer_kv_new_def kv_width_def result_simps usize_simps split: if_splits)
  ultimately show ?thesis by (auto simp: layer_ok_def)
qed

theorem kv_reachable_ok_witness:
  "\<exists>c0. layer_kv_new 2 1 1 (Ok ()) (Ok ()) = Ok c0 \<and> kv_len (snd (kv_advance_len (c0 :: int LayerKvCache) 2)) \<le> 2"
proof -
  define c0 :: "int LayerKvCache" where "c0 = \<lparr>kv_key = replicate 2 0, kv_value = replicate 2 0, kv_max_tokens = 2,
    kv_len = 0, kv_heads = 1, kv_head_dim = 1\<rparr>"
  have new: "layer_kv_new 2 1 1 (Ok ()) (Ok ()) = Ok c0"
    by (simp add: layer_kv_new_def buffer_zeroed_def checked_mul_def usize_max_def f32_size_def c0_def)
  have "kv_step\<^sup>*\<^sup>* c0 (snd (kv_advance_len c0 2))"
    by (rule r_into_rtranclp, rule step_advance [where n = 2 and r = "fst (kv_advance_len c0 2)"]) simp
  from kv_reachable_ok [OF new this] new show ?thesis by blast
qed

text \<open>Restoring a checkpoint brings back exactly the rows that were valid when it was taken, in
  any layer of the same geometry with room for them, whatever that layer held.\<close>

theorem kv_checkpoint_restore:
  assumes ok: "layer_ok c" and ok2: "layer_ok d"
    and geo: "kv_heads d = kv_heads c" "kv_head_dim d = kv_head_dim c" and room: "kv_len c \<le> kv_max_tokens d"
  shows "\<exists>cp d'. kv_checkpoint_on_stream c (Ok ()) (Ok ()) (Ok ()) (Ok ()) = Ok cp \<and>
    kv_restore_checkpoint_on_stream d cp (Ok ()) (Ok ()) = (Ok (), d') \<and> layer_ok d' \<and> kv_rows d' = kv_rows c"
proof -
  let ?w = "kv_width c" and ?m = "kv_len c"
  have w: "kv_width d = ?w" using geo by (simp add: kv_width_def)
  have le: "?m * ?w \<le> kv_max_tokens c * ?w" "(0 + ?m) * ?w \<le> kv_max_tokens d * ?w"
    using ok room by (auto intro!: mult_le_mono1 simp: layer_ok_def)
  have l: "length (kv_key c) = kv_max_tokens c * ?w" "length (kv_value c) = kv_max_tokens c * ?w"
    "length (kv_key d) = kv_max_tokens d * ?w" "length (kv_value d) = kv_max_tokens d * ?w"
    using ok ok2 w by (simp_all add: layer_ok_def)
  define cp where "cp = \<lparr>cp_key = take (?m * ?w) (kv_key c), cp_value = take (?m * ?w) (kv_value c),
    cp_len = ?m, cp_heads = kv_heads c, cp_head_dim = kv_head_dim c\<rparr>"
  define d' where "d' = d\<lparr>kv_key := write_at (kv_key d) 0 (cp_key cp), kv_value := write_at (kv_value d) 0 (cp_value cp),
    kv_len := ?m\<rparr>"
  have len: "length (cp_key cp) = ?m * ?w" "length (cp_value cp) = ?m * ?w"
    using le(1) l by (simp_all add: cp_def)
  have res: "kv_restore_checkpoint_on_stream d cp (Ok ()) (Ok ()) = (Ok (), d')"
    using kv_restore_Ok [OF ok2, of cp] geo room len by (simp add: d'_def w cp_def)
  have row: "row_of ?w (write_at b 0 (take (?m * ?w) a)) i = row_of ?w a i"
    if "i < ?m" "length b = kv_max_tokens d * ?w" "length a = kv_max_tokens c * ?w" for a b :: "'a list" and i
    using row_of_write_at_new [of 0 i ?m "take (?m * ?w) a" ?w b] that le row_of_take [OF that(1), of ?w a]
    by simp
  have "kv_rows d' = kv_rows c"
    using row l by (simp add: kv_rows_def d'_def w cp_def)
  moreover have "layer_ok d'" using layer_ok_restore [OF res ok2] by blast
  ultimately show ?thesis using kv_checkpoint_Ok [OF ok] res by (simp add: cp_def)
qed

theorem kv_checkpoint_restore_witness:
  "\<exists>cp d'. kv_checkpoint_on_stream sample_layer (Ok ()) (Ok ()) (Ok ()) (Ok ()) = Ok cp \<and>
    kv_restore_checkpoint_on_stream (sample_layer\<lparr>kv_len := 3\<rparr>) cp (Ok ()) (Ok ()) = (Ok (), d') \<and>
    kv_rows d' = kv_rows sample_layer"
proof -
  have "layer_ok sample_layer" "layer_ok (sample_layer\<lparr>kv_len := 3\<rparr>)"
    using sample_layer_small by (simp_all add: layer_small_def layer_ok_def sample_layer_def kv_width_def)
  from kv_checkpoint_restore [OF this] show ?thesis by (auto simp: sample_layer_def)
qed

text \<open>Advancing all layers of a sequence is all or nothing when the layers are in step: either
  every layer advances by the rows or, when they do not fit, none does.\<close>

theorem kv_advance_all_atomic:
  assumes "\<forall>c \<in> set cs. kv_len c = n \<and> kv_max_tokens c = m" "cs \<noteq> []"
  shows "kv_advance_all cs rows =
    (if n + rows \<le> m then (Ok (), map (\<lambda>c. c\<lparr>kv_len := n + rows\<rparr>) cs)
     else (Err (Shape ''layer KV advance''), cs))"
proof (cases "n + rows \<le> m")
  case True
  with assms(1) have "kv_advance_all cs rows = (Ok (), map (\<lambda>c. c\<lparr>kv_len := n + rows\<rparr>) cs)"
    by (induction cs) (auto simp: kv_advance_len_def)
  with True show ?thesis by simp
next
  case False
  with assms show ?thesis by (cases cs) (auto simp: kv_advance_len_def)
qed

theorem kv_advance_all_atomic_witness:
  "kv_advance_all [sample_layer, sample_layer] 5 =
    (Err (Shape ''layer KV advance''), [sample_layer, sample_layer])"
  using kv_advance_all_atomic [of "[sample_layer, sample_layer]" 1 3 5] by (simp add: sample_layer_def)

end
