(* ===== verification/Page_Pool.thy ===== *)
theory Page_Pool
  imports Device_Buffer
begin

text \<open>
  The physical pages of the compact FP4 key/value cache, \<open>Sm12xKvPagePool\<close> and
  \<open>Sm12xKvTailSnapshot\<close> of \<open>crates/eider-cuda/src/kernels/sm12x_kv_cache.rs\<close>: the byte layout of a
  page, the pool of pages, the snapshot of a page's circular tail and the copy of a page.

  A pool is one allocation of \<open>page_slots\<close> pages of \<open>total_bytes\<close> bytes each; memory is a list of
  bytes, and the \<open>f32\<close> tails are seen as the bytes they occupy. The kernels that quantize rows into
  a page are not modelled: what is proved here holds for any contents they write.
\<close>

section \<open>The layout of a page\<close>

definition K_TOKEN_TILE :: nat where "K_TOKEN_TILE = 8"
definition V_TOKEN_BLOCK :: nat where "V_TOKEN_BLOCK = 16"
definition MMA_K :: nat where "MMA_K = 64"
definition MMA_N :: nat where "MMA_N = 8"
definition COMPACT_TILE_BYTES :: nat where "COMPACT_TILE_BYTES = MMA_N * MMA_K div 2"
definition SCALE_BYTES_PER_TILE :: nat where "SCALE_BYTES_PER_TILE = MMA_K div 16"
definition SM12X_KV_PAGE_TOKENS :: nat where "SM12X_KV_PAGE_TOKENS = 128"
definition F32_BYTES :: nat where "F32_BYTES = 4"

lemmas layout_constants =
  K_TOKEN_TILE_def V_TOKEN_BLOCK_def MMA_K_def MMA_N_def COMPACT_TILE_BYTES_def
  SCALE_BYTES_PER_TILE_def SM12X_KV_PAGE_TOKENS_def F32_BYTES_def

fun checked_product_from :: "string \<Rightarrow> nat \<Rightarrow> nat list \<Rightarrow> nat result" where
  "checked_product_from label acc [] = Ok acc"
| "checked_product_from label acc (v # vs) =
     bind_result (ok_or (checked_mul acc v) (Shape label)) (\<lambda>p. checked_product_from label p vs)"

definition checked_product :: "string \<Rightarrow> nat list \<Rightarrow> nat result" where
  "checked_product label vs = checked_product_from label 1 vs"

definition checked_sum :: "string \<Rightarrow> nat \<Rightarrow> nat \<Rightarrow> nat result" where
  "checked_sum label left right = ok_or (checked_add left right) (Shape label)"

text \<open>The rounding masks off the low bits of a 64-bit word.\<close>

definition align_up :: "nat \<Rightarrow> nat \<Rightarrow> nat result" where
  "align_up v alignment =
     (let m = alignment - 1 in
      bind_result (checked_sum ''SM12x KV cache alignment'' v m)
        (\<lambda>s. Ok (unat (Bit_Operations.and (of_nat s) (Bit_Operations.not (of_nat m)) :: u64))))"

record Sm12xKvCacheLayout =
  lay_key_values :: nat
  lay_key_scales :: nat
  lay_value_values :: nat
  lay_value_scales :: nat
  lay_key_tail :: nat
  lay_value_tail :: nat
  lay_total_bytes :: nat

definition kv_layout :: "nat \<Rightarrow> nat \<Rightarrow> nat \<Rightarrow> Sm12xKvCacheLayout result" where
  "kv_layout max_tokens heads dim =
     bind_result (checked_product ''SM12x K tile count''
       [heads, div_ceil max_tokens K_TOKEN_TILE, dim div MMA_K])
     (\<lambda>key_tiles. bind_result (checked_product ''SM12x V tile count''
       [heads, dim div MMA_N, div_ceil max_tokens MMA_K])
     (\<lambda>value_tiles. bind_result (checked_product ''SM12x KV tail'' [V_TOKEN_BLOCK, heads, dim])
     (\<lambda>tail_values. bind_result (checked_product ''SM12x K values'' [key_tiles, COMPACT_TILE_BYTES])
     (\<lambda>key_values_bytes. bind_result (checked_product ''SM12x K scales''
       [key_tiles, K_TOKEN_TILE, SCALE_BYTES_PER_TILE])
     (\<lambda>key_scales_bytes. bind_result (checked_product ''SM12x V values'' [value_tiles, COMPACT_TILE_BYTES])
     (\<lambda>value_values_bytes. bind_result (checked_product ''SM12x V scales''
       [value_tiles, MMA_N, SCALE_BYTES_PER_TILE])
     (\<lambda>value_scales_bytes. bind_result (checked_product ''SM12x KV tail bytes'' [tail_values, F32_BYTES])
     (\<lambda>tail_bytes. bind_result (checked_sum ''SM12x K values end'' 0 key_values_bytes)
     (\<lambda>key_scales. bind_result (checked_sum ''SM12x K scales end'' key_scales key_scales_bytes)
     (\<lambda>value_values. bind_result (checked_sum ''SM12x V values end'' value_values value_values_bytes)
     (\<lambda>value_scales. bind_result (checked_sum ''SM12x V scales end'' value_scales value_scales_bytes)
     (\<lambda>scales_end. bind_result (align_up scales_end F32_BYTES)
     (\<lambda>key_tail. bind_result (checked_sum ''SM12x K tail end'' key_tail tail_bytes)
     (\<lambda>value_tail. bind_result (checked_sum ''SM12x V tail end'' value_tail tail_bytes)
     (\<lambda>total_bytes. Ok \<lparr>lay_key_values = 0, lay_key_scales = key_scales,
        lay_value_values = value_values, lay_value_scales = value_scales,
        lay_key_tail = key_tail, lay_value_tail = value_tail, lay_total_bytes = total_bytes\<rparr>)))))))))))))))"

section \<open>Tail snapshots and the pool\<close>

record Sm12xKvTailSnapshot =
  snap_key :: "u8 list"
  snap_value :: "u8 list"
  snap_heads :: nat
  snap_dim :: nat

definition tail_snapshot_new ::
  "nat \<Rightarrow> nat \<Rightarrow> cuda_status \<Rightarrow> cuda_status \<Rightarrow> Sm12xKvTailSnapshot result" where
  "tail_snapshot_new heads dim st_key st_value =
     (if heads = 0 \<or> dim = 0 then Err (Shape ''SM12x KV tail snapshot'')
      else bind_result (ok_or (Option.bind (checked_mul V_TOKEN_BLOCK heads) (\<lambda>v. checked_mul v dim))
          (Shape ''SM12x KV tail snapshot''))
      (\<lambda>n. bind_result (ok_or (checked_mul n F32_BYTES) (Shape ''device zeroed allocation''))
      (\<lambda>bytes. bind_result st_key (\<lambda>_. bind_result st_value
      (\<lambda>_. Ok \<lparr>snap_key = replicate bytes 0, snap_value = replicate bytes 0, snap_heads = heads,
               snap_dim = dim\<rparr>)))))"

record Sm12xKvPagePool =
  pool_storage :: "u8 list"
  pool_layout :: Sm12xKvCacheLayout
  pool_page_slots :: nat
  pool_heads :: nat
  pool_dim :: nat

definition page_pool_new :: "nat \<Rightarrow> nat \<Rightarrow> nat \<Rightarrow> cuda_status \<Rightarrow> Sm12xKvPagePool result" where
  "page_pool_new page_slots heads dim st =
     (if page_slots = 0 then Err (Shape ''SM12x KV page pool'')
      else bind_result (kv_layout SM12X_KV_PAGE_TOKENS heads dim)
      (\<lambda>layout. if u32_max < lay_total_bytes layout then Err (Shape ''SM12x KV page stride'')
        else bind_result (ok_or (checked_mul (lay_total_bytes layout) page_slots)
          (Shape ''SM12x KV page pool''))
      (\<lambda>total. bind_result (buffer_zeroed 1 total st (Ok ()) (Ok ()))
      (\<lambda>storage. Ok \<lparr>pool_storage = storage, pool_layout = layout, pool_page_slots = page_slots,
                     pool_heads = heads, pool_dim = dim\<rparr>))))"

definition pool_page_bytes :: "Sm12xKvPagePool \<Rightarrow> nat" where
  "pool_page_bytes p = lay_total_bytes (pool_layout p)"

definition pool_tail_snapshot ::
  "Sm12xKvPagePool \<Rightarrow> cuda_status \<Rightarrow> cuda_status \<Rightarrow> Sm12xKvTailSnapshot result" where
  "pool_tail_snapshot p st_key st_value = tail_snapshot_new (pool_heads p) (pool_dim p) st_key st_value"

definition check_slot :: "Sm12xKvPagePool \<Rightarrow> nat \<Rightarrow> unit result" where
  "check_slot p slot = (if pool_page_slots p \<le> slot then Err (Shape ''SM12x KV page slot'') else Ok ())"

definition validate_tail_snapshot :: "Sm12xKvPagePool \<Rightarrow> Sm12xKvTailSnapshot \<Rightarrow> unit result" where
  "validate_tail_snapshot p s =
     (if snap_heads s \<noteq> pool_heads p \<or> snap_dim s \<noteq> pool_dim p
      then Err (Shape ''SM12x paged KV tail snapshot shape'') else Ok ())"

definition component_offset :: "Sm12xKvPagePool \<Rightarrow> nat \<Rightarrow> nat \<Rightarrow> nat" where
  "component_offset p slot off = slot * lay_total_bytes (pool_layout p) + off"

definition snapshot_tail_on_stream ::
  "Sm12xKvPagePool \<Rightarrow> nat \<Rightarrow> Sm12xKvTailSnapshot \<Rightarrow> cuda_status \<Rightarrow> cuda_status \<Rightarrow>
   unit result \<times> Sm12xKvTailSnapshot" where
  "snapshot_tail_on_stream p slot s st_key st_value =
     try_result (check_slot p slot) s (\<lambda>_.
     try_result (validate_tail_snapshot p s) s (\<lambda>_.
       let bytes = V_TOKEN_BLOCK * pool_heads p * pool_dim p * F32_BYTES in
       try_result st_key s (\<lambda>_.
         let s = s\<lparr>snap_key := write_at (snap_key s) 0
             (take bytes (drop (component_offset p slot (lay_key_tail (pool_layout p))) (pool_storage p)))\<rparr> in
         try_result st_value s (\<lambda>_.
           (Ok (), s\<lparr>snap_value := write_at (snap_value s) 0
             (take bytes (drop (component_offset p slot (lay_value_tail (pool_layout p))) (pool_storage p)))\<rparr>)))))"

definition restore_tail_prefix_on_stream ::
  "Sm12xKvPagePool \<Rightarrow> nat \<Rightarrow> Sm12xKvTailSnapshot \<Rightarrow> nat \<Rightarrow> cuda_status \<Rightarrow> cuda_status \<Rightarrow>
   unit result \<times> Sm12xKvPagePool" where
  "restore_tail_prefix_on_stream p slot s rows st_key st_value =
     try_result (check_slot p slot) p (\<lambda>_.
     try_result (validate_tail_snapshot p s) p (\<lambda>_.
       if V_TOKEN_BLOCK < rows then (Err (Shape ''SM12x paged KV tail restore''), p)
       else if rows = 0 then (Ok (), p)
       else
         let bytes = rows * pool_heads p * pool_dim p * F32_BYTES in
         try_result st_key p (\<lambda>_.
           let p = p\<lparr>pool_storage := write_at (pool_storage p)
               (component_offset p slot (lay_key_tail (pool_layout p))) (take bytes (snap_key s))\<rparr> in
           try_result st_value p (\<lambda>_.
             (Ok (), p\<lparr>pool_storage := write_at (pool_storage p)
               (component_offset p slot (lay_value_tail (pool_layout p))) (take bytes (snap_value s))\<rparr>)))))"

definition copy_page_on_stream ::
  "Sm12xKvPagePool \<Rightarrow> nat \<Rightarrow> nat \<Rightarrow> cuda_status \<Rightarrow> unit result \<times> Sm12xKvPagePool" where
  "copy_page_on_stream p source destination st =
     try_result (check_slot p source) p (\<lambda>_.
     try_result (check_slot p destination) p (\<lambda>_.
       let bytes = lay_total_bytes (pool_layout p) in
       try_result st p (\<lambda>_. (Ok (), p\<lparr>pool_storage := write_at (pool_storage p) (destination * bytes)
         (take bytes (drop (source * bytes) (pool_storage p)))\<rparr>))))"

section \<open>The layout is in order\<close>

lemma and_not_3: "unat (Bit_Operations.and w (Bit_Operations.not 3) :: u64) = unat w div 4 * 4"
proof -
  have m: "(3 :: u64) = mask 2" by (simp add: mask_eq_exp_minus_1)
  have "Bit_Operations.and w (Bit_Operations.not 3) = push_bit 2 (drop_bit 2 w)"
    unfolding m
  proof (rule bit_eqI)
    fix n
    have "2 \<le> n \<Longrightarrow> Suc (Suc (n - 2)) = n" by arith
    then show "bit (Bit_Operations.and w (Bit_Operations.not (mask 2))) n = bit (push_bit 2 (drop_bit 2 w)) n"
      by (auto simp: bit_simps not_less)
  qed
  moreover have "unat (push_bit 2 (drop_bit 2 w)) = unat w div 4 * 4"
  proof -
    have "unat w div 4 * 4 \<le> unat w" by simp
    then have "unat w div 4 * 4 < 2 ^ 64" using unsigned_less [of w, where 'a = nat] by simp
    then show ?thesis
      by (simp only: unsigned_push_bit_eq unsigned_drop_bit_eq)
        (simp add: push_bit_eq_mult drop_bit_eq_div take_bit_nat_eq_self)
  qed
  ultimately show ?thesis by simp
qed

lemma align_up_Ok:
  assumes "align_up v F32_BYTES = Ok a"
  shows "F32_BYTES dvd a \<and> v \<le> a \<and> a < v + F32_BYTES"
proof -
  from assms have le: "v + 3 \<le> usize_max"
    and a: "a = unat (Bit_Operations.and (of_nat (v + 3)) (Bit_Operations.not 3) :: u64)"
    by (auto simp: align_up_def checked_sum_def F32_BYTES_def result_simps usize_simps)
  have "unat (of_nat (v + 3) :: u64) = v + 3"
    using le by (simp only: unsigned_of_nat) (simp add: take_bit_nat_eq_self usize_max_def)
  then have "a = (v + 3) div 4 * 4" unfolding a and_not_3 by (simp only:)
  then show ?thesis by (simp add: F32_BYTES_def) presburger
qed

lemma checked_product_Ok: "checked_product label vs = Ok p \<Longrightarrow> p = prod_list vs"
proof -
  have "checked_product_from label a vs = Ok p \<Longrightarrow> p = a * prod_list vs" for a
    by (induction vs arbitrary: a) (fastforce simp: result_simps usize_simps mult.assoc)+
  then show "checked_product label vs = Ok p \<Longrightarrow> p = prod_list vs"
    by (fastforce simp: checked_product_def)
qed

lemma checked_sum_Ok: "checked_sum label a b = Ok c \<longleftrightarrow> c = a + b \<and> a + b \<le> usize_max"
  by (auto simp: checked_sum_def usize_simps)

definition tail_bytes :: "nat \<Rightarrow> nat \<Rightarrow> nat" where
  "tail_bytes heads dim = V_TOKEN_BLOCK * heads * dim * F32_BYTES"

definition key_tiles_of :: "nat \<Rightarrow> nat \<Rightarrow> nat \<Rightarrow> nat" where
  "key_tiles_of tokens heads dim = heads * (div_ceil tokens K_TOKEN_TILE * (dim div MMA_K))"

definition value_tiles_of :: "nat \<Rightarrow> nat \<Rightarrow> nat \<Rightarrow> nat" where
  "value_tiles_of tokens heads dim = heads * (dim div MMA_N * div_ceil tokens MMA_K)"

lemma kv_layout_Ok:
  assumes "kv_layout tokens heads dim = Ok L"
  shows "lay_key_values L = 0 \<and>
    lay_key_scales L = key_tiles_of tokens heads dim * COMPACT_TILE_BYTES \<and>
    lay_value_values L = lay_key_scales L + key_tiles_of tokens heads dim * (K_TOKEN_TILE * SCALE_BYTES_PER_TILE) \<and>
    lay_value_scales L = lay_value_values L + value_tiles_of tokens heads dim * COMPACT_TILE_BYTES \<and>
    lay_value_scales L + value_tiles_of tokens heads dim * (MMA_N * SCALE_BYTES_PER_TILE) \<le> lay_key_tail L \<and>
    F32_BYTES dvd lay_key_tail L \<and>
    lay_value_tail L = lay_key_tail L + tail_bytes heads dim \<and>
    lay_total_bytes L = lay_value_tail L + tail_bytes heads dim \<and> lay_total_bytes L \<le> usize_max"
  using assms
  by (auto simp: kv_layout_def result_simps checked_sum_Ok key_tiles_of_def value_tiles_of_def tail_bytes_def
      mult.assoc dest!: checked_product_Ok align_up_Ok)

section \<open>The pool\<close>

definition pool_ok :: "Sm12xKvPagePool \<Rightarrow> bool" where
  "pool_ok p \<longleftrightarrow>
     kv_layout SM12X_KV_PAGE_TOKENS (pool_heads p) (pool_dim p) = Ok (pool_layout p) \<and>
     length (pool_storage p) = pool_page_slots p * lay_total_bytes (pool_layout p)"

definition snap_ok :: "Sm12xKvPagePool \<Rightarrow> Sm12xKvTailSnapshot \<Rightarrow> bool" where
  "snap_ok p s \<longleftrightarrow> snap_heads s = pool_heads p \<and> snap_dim s = pool_dim p \<and>
     length (snap_key s) = tail_bytes (pool_heads p) (pool_dim p) \<and>
     length (snap_value s) = tail_bytes (pool_heads p) (pool_dim p)"

text \<open>The bytes of a page, and the first \<open>n\<close> bytes of its key tail and of its value tail.\<close>

definition page_of :: "Sm12xKvPagePool \<Rightarrow> nat \<Rightarrow> u8 list" where
  "page_of p slot = take (pool_page_bytes p) (drop (slot * pool_page_bytes p) (pool_storage p))"

definition key_tail_of :: "Sm12xKvPagePool \<Rightarrow> nat \<Rightarrow> nat \<Rightarrow> u8 list" where
  "key_tail_of p slot n = take n (drop (component_offset p slot (lay_key_tail (pool_layout p))) (pool_storage p))"

definition value_tail_of :: "Sm12xKvPagePool \<Rightarrow> nat \<Rightarrow> nat \<Rightarrow> u8 list" where
  "value_tail_of p slot n = take n (drop (component_offset p slot (lay_value_tail (pool_layout p))) (pool_storage p))"

lemma page_pool_new_ok:
  assumes "page_pool_new slots heads dim st = Ok p"
  shows "pool_ok p \<and> pool_page_slots p = slots \<and> 0 < slots \<and> pool_page_bytes p \<le> u32_max \<and>
    pool_heads p = heads \<and> pool_dim p = dim"
  using assms
  by (auto simp: page_pool_new_def pool_ok_def buffer_zeroed_def pool_page_bytes_def result_simps usize_simps
      mult.commute split: if_splits)

lemma tail_snapshot_new_ok:
  assumes "pool_tail_snapshot p st1 st2 = Ok s"
  shows "snap_ok p s"
  using assms
  by (auto simp: pool_tail_snapshot_def tail_snapshot_new_def snap_ok_def tail_bytes_def result_simps usize_simps
      bind_eq_Some_conv split: if_splits)

lemma slot_in_storage:
  assumes "pool_ok p" "slot < pool_page_slots p"
  shows "slot * pool_page_bytes p + pool_page_bytes p \<le> length (pool_storage p)"
proof -
  have "Suc slot * pool_page_bytes p \<le> pool_page_slots p * pool_page_bytes p"
    using assms(2) by (intro mult_le_mono1) simp
  with assms(1) show ?thesis by (simp add: pool_ok_def pool_page_bytes_def)
qed

lemma tails_in_page:
  assumes "pool_ok p" "slot < pool_page_slots p" "n \<le> tail_bytes (pool_heads p) (pool_dim p)"
  shows "component_offset p slot (lay_key_tail (pool_layout p)) + n
      \<le> component_offset p slot (lay_value_tail (pool_layout p))"
    and "component_offset p slot (lay_value_tail (pool_layout p)) + n \<le> length (pool_storage p)"
    and "component_offset p slot (lay_value_tail (pool_layout p)) + n \<le> Suc slot * pool_page_bytes p"
    and "slot * pool_page_bytes p \<le> component_offset p slot (lay_key_tail (pool_layout p))"
  using kv_layout_Ok [of SM12X_KV_PAGE_TOKENS "pool_heads p" "pool_dim p" "pool_layout p"]
    slot_in_storage [OF assms(1,2)] assms(1,3)
  by (simp_all add: pool_ok_def component_offset_def pool_page_bytes_def)

lemma rows_in_tail: "rows \<le> V_TOKEN_BLOCK \<Longrightarrow> rows * h * d * F32_BYTES \<le> tail_bytes h d"
  by (simp add: tail_bytes_def mult_le_mono1)

lemma write_whole: "length vs = length b \<Longrightarrow> write_at b 0 vs = vs"
  by (simp add: write_at_def)

lemma snapshot_Ok:
  assumes p: "pool_ok p" "slot < pool_page_slots p" and s: "snap_ok p s"
  shows "snapshot_tail_on_stream p slot s (Ok ()) (Ok ()) =
    (Ok (), s\<lparr>snap_key := key_tail_of p slot (tail_bytes (pool_heads p) (pool_dim p)),
             snap_value := value_tail_of p slot (tail_bytes (pool_heads p) (pool_dim p))\<rparr>)"
proof -
  let ?n = "tail_bytes (pool_heads p) (pool_dim p)"
  have n: "V_TOKEN_BLOCK * pool_heads p * pool_dim p * F32_BYTES = ?n" by (simp add: tail_bytes_def)
  note t = tails_in_page [OF p, of ?n]
  have "length (key_tail_of p slot ?n) = ?n" "length (value_tail_of p slot ?n) = ?n"
    using t by (simp_all add: key_tail_of_def value_tail_of_def)
  then show ?thesis
    using p s
    by (simp add: snapshot_tail_on_stream_def check_slot_def validate_tail_snapshot_def snap_ok_def Let_def n
        write_whole key_tail_of_def value_tail_of_def)
qed

lemma restore_Ok:
  assumes p: "pool_ok p" "slot < pool_page_slots p" and s: "snap_ok p s" and rows: "rows \<le> V_TOKEN_BLOCK"
  defines "n \<equiv> rows * pool_heads p * pool_dim p * F32_BYTES"
  shows "restore_tail_prefix_on_stream p slot s rows (Ok ()) (Ok ()) =
    (Ok (), p\<lparr>pool_storage := write_at (write_at (pool_storage p)
        (component_offset p slot (lay_key_tail (pool_layout p))) (take n (snap_key s)))
        (component_offset p slot (lay_value_tail (pool_layout p))) (take n (snap_value s))\<rparr>)"
proof (cases "rows = 0")
  case True
  with p s show ?thesis
    by (simp add: restore_tail_prefix_on_stream_def check_slot_def validate_tail_snapshot_def snap_ok_def n_def)
next
  case False
  with p s rows show ?thesis
    by (simp add: restore_tail_prefix_on_stream_def check_slot_def validate_tail_snapshot_def snap_ok_def n_def
        Let_def component_offset_def)
qed

lemma drop_write_before:
  "at + length vs \<le> i \<Longrightarrow> i \<le> length b \<Longrightarrow> take n (drop i (write_at b at vs)) = take n (drop i b)"
  by (simp add: drop_write_at)

lemma take_drop_write_after:
  "i + n \<le> at \<Longrightarrow> at + length vs \<le> length b \<Longrightarrow> take n (drop i (write_at b at vs)) = take n (drop i b)"
  by (rule nth_equalityI) (auto simp: nth_write_at)

lemma frame_two_writes:
  assumes "k + length vk \<le> v" "v + length vv \<le> length b" "i + n \<le> k \<or> v + length vv \<le> i"
    and "i + n \<le> length b"
  shows "take n (drop i (write_at (write_at b k vk) v vv)) = take n (drop i b)"
  using assms by (intro nth_equalityI) (auto simp: nth_write_at)

lemma pages_disjoint:
  assumes "t \<noteq> slot"
  shows "t * B + B \<le> slot * B \<or> slot * B + B \<le> t * (B :: nat)"
proof (cases "t < slot")
  case True
  then have "Suc t * B \<le> slot * B" by (intro mult_le_mono1) simp
  then show ?thesis by simp
next
  case False
  with assms have "Suc slot * B \<le> t * B" by (intro mult_le_mono1) simp
  then show ?thesis by simp
qed

text \<open>
  A snapshot that holds the tails \<open>slot\<close> has in \<open>p\<close>, and what it means that the first \<open>rows\<close> rows of
  them are back in \<open>q'\<close> while the other pages are those of \<open>q\<close>.
\<close>

definition holds_tail :: "Sm12xKvPagePool \<Rightarrow> nat \<Rightarrow> Sm12xKvTailSnapshot \<Rightarrow> bool" where
  "holds_tail p slot s \<longleftrightarrow> snap_heads s = pool_heads p \<and> snap_dim s = pool_dim p \<and>
     snap_key s = key_tail_of p slot (tail_bytes (pool_heads p) (pool_dim p)) \<and>
     snap_value s = value_tail_of p slot (tail_bytes (pool_heads p) (pool_dim p))"

definition tail_restored :: "Sm12xKvPagePool \<Rightarrow> nat \<Rightarrow> nat \<Rightarrow> Sm12xKvPagePool \<Rightarrow> Sm12xKvPagePool \<Rightarrow> bool" where
  "tail_restored p slot rows q q' \<longleftrightarrow> pool_ok q' \<and>
    key_tail_of q' slot (rows * pool_heads p * pool_dim p * F32_BYTES) =
      key_tail_of p slot (rows * pool_heads p * pool_dim p * F32_BYTES) \<and>
    value_tail_of q' slot (rows * pool_heads p * pool_dim p * F32_BYTES) =
      value_tail_of p slot (rows * pool_heads p * pool_dim p * F32_BYTES) \<and>
    (\<forall>t < pool_page_slots p. t \<noteq> slot \<longrightarrow> page_of q' t = page_of q t)"

lemma restore_from_snapshot:
  assumes p: "pool_ok p" "slot < pool_page_slots p" and rows: "rows \<le> V_TOKEN_BLOCK"
    and q: "pool_ok q" "pool_heads q = pool_heads p" "pool_dim q = pool_dim p" "pool_page_slots q = pool_page_slots p"
    and s: "holds_tail p slot s"
  shows "\<exists>q'. restore_tail_prefix_on_stream q slot s rows (Ok ()) (Ok ()) = (Ok (), q') \<and>
    tail_restored p slot rows q q'"
proof -
  let ?n = "rows * pool_heads p * pool_dim p * F32_BYTES" and ?m = "tail_bytes (pool_heads p) (pool_dim p)"
  let ?k = "component_offset q slot (lay_key_tail (pool_layout q))"
  let ?v = "component_offset q slot (lay_value_tail (pool_layout q))"
  have n: "?n \<le> ?m" using rows by (rule rows_in_tail)
  define vk where "vk = take ?n (snap_key s)"
  define vv where "vv = take ?n (snap_value s)"
  note tp = tails_in_page [OF p(1,2), of ?m] and tq = tails_in_page [OF q(1), of slot ?n]
  have vk: "vk = key_tail_of p slot ?n" "vv = value_tail_of p slot ?n"
    using n s by (simp_all add: vk_def vv_def holds_tail_def key_tail_of_def value_tail_of_def min_def)
  have len: "length vk = ?n" "length vv = ?n"
    using tp n by (simp_all add: vk key_tail_of_def value_tail_of_def)
  have bound: "?k + ?n \<le> ?v" "?v + ?n \<le> length (pool_storage q)" "?v + ?n \<le> Suc slot * pool_page_bytes q"
    "slot * pool_page_bytes q \<le> ?k"
    using tq p(2) n q by simp_all
  define q' where "q' = q\<lparr>pool_storage := write_at (write_at (pool_storage q) ?k vk) ?v vv\<rparr>"
  have "snap_ok q s"
    using s tp q(2,3) by (simp add: snap_ok_def holds_tail_def key_tail_of_def value_tail_of_def)
  with restore_Ok [OF q(1) _ _ rows, of slot s] p(2) q(2-4)
  have rest: "restore_tail_prefix_on_stream q slot s rows (Ok ()) (Ok ()) = (Ok (), q')"
    by (simp add: q'_def vk_def vv_def)
  have f: "pool_layout q' = pool_layout q" "pool_page_bytes q' = pool_page_bytes q"
    "component_offset q' t x = component_offset q t x"
    "pool_storage q' = write_at (write_at (pool_storage q) ?k vk) ?v vv" for t x
    by (simp_all add: q'_def pool_page_bytes_def component_offset_def)
  have inner: "length (write_at (pool_storage q) ?k vk) = length (pool_storage q)"
    using bound len by simp
  have "key_tail_of q' slot ?n = vk"
    using take_drop_write_after [of ?k ?n ?v vv "write_at (pool_storage q) ?k vk"] bound inner len
      write_at_read [of ?k vk "pool_storage q"] by (simp add: key_tail_of_def f)
  moreover have "value_tail_of q' slot ?n = vv"
    using write_at_read [of ?v vv "write_at (pool_storage q) ?k vk"] bound inner len
    by (simp add: value_tail_of_def f)
  moreover have "page_of q' t = page_of q t" if t: "t < pool_page_slots p" "t \<noteq> slot" for t
  proof -
    have "t * pool_page_bytes q + pool_page_bytes q \<le> length (pool_storage q)"
      using slot_in_storage [OF q(1)] t(1) q(4) by simp
    moreover have "t * pool_page_bytes q + pool_page_bytes q \<le> ?k \<or> ?v + length vv \<le> t * pool_page_bytes q"
      using pages_disjoint [OF t(2), of "pool_page_bytes q"] bound(3,4) len by auto
    ultimately show ?thesis
      using frame_two_writes [of ?k vk ?v vv "pool_storage q"] bound(1,2) len by (simp add: page_of_def f)
  qed
  moreover have "pool_ok q'" using q(1) inner bound len by (simp add: pool_ok_def q'_def)
  ultimately show ?thesis using rest vk by (simp add: tail_restored_def)
qed

section \<open>Properties\<close>

text \<open>The byte layout of a page that the code accepts places its six regions one after the
  other without overlap, each as large as its tiles, scales or tail rows need, the \<open>f32\<close> tails
  aligned, and ends exactly at the page size, without any overflow.\<close>

theorem layout_regions:
  assumes "kv_layout tokens heads dim = Ok L"
  shows "lay_key_values L + key_tiles_of tokens heads dim * 256 \<le> lay_key_scales L \<and>
    lay_key_scales L + key_tiles_of tokens heads dim * 32 \<le> lay_value_values L \<and>
    lay_value_values L + value_tiles_of tokens heads dim * 256 \<le> lay_value_scales L \<and>
    lay_value_scales L + value_tiles_of tokens heads dim * 32 \<le> lay_key_tail L \<and>
    lay_key_tail L + 16 * heads * dim * 4 \<le> lay_value_tail L \<and>
    lay_value_tail L + 16 * heads * dim * 4 = lay_total_bytes L \<and>
    4 dvd lay_key_tail L \<and> 4 dvd lay_value_tail L \<and> lay_total_bytes L \<le> usize_max"
  using kv_layout_Ok [OF assms] by (simp add: layout_constants tail_bytes_def mult.commute mult.left_commute)

theorem layout_regions_witness:
  "kv_layout 128 2 64 = Ok \<lparr>lay_key_values = 0, lay_key_scales = 8192, lay_value_values = 9216,
     lay_value_scales = 17408, lay_key_tail = 18432, lay_value_tail = 26624, lay_total_bytes = 34816\<rparr> \<and>
   (4 :: nat) dvd 18432"
proof -
  have l: "kv_layout 128 2 64 = Ok \<lparr>lay_key_values = 0, lay_key_scales = 8192, lay_value_values = 9216,
     lay_value_scales = 17408, lay_key_tail = 18432, lay_value_tail = 26624, lay_total_bytes = 34816\<rparr>"
    by (simp add: kv_layout_def checked_product_def checked_sum_def align_up_def checked_mul_def checked_add_def
        layout_constants div_ceil_def usize_max_def)
  show ?thesis using layout_regions [OF l] l by simp
qed

text \<open>Speculative rows written into a page can be taken back. Whatever was written to the pool
  after a snapshot of the tail of \<open>slot\<close> was taken, restoring \<open>rows\<close> rows makes the first \<open>rows\<close> rows
  of both tails those of the snapshot, and changes nothing in any other page.\<close>

theorem tail_snapshot_restore:
  assumes p: "pool_ok p" "slot < pool_page_slots p" "snap_ok p s" and rows: "rows \<le> V_TOKEN_BLOCK"
    and q: "pool_ok q" "pool_heads q = pool_heads p" "pool_dim q = pool_dim p" "pool_page_slots q = pool_page_slots p"
  shows "\<exists>s' q'. snapshot_tail_on_stream p slot s (Ok ()) (Ok ()) = (Ok (), s') \<and>
    restore_tail_prefix_on_stream q slot s' rows (Ok ()) (Ok ()) = (Ok (), q') \<and> pool_ok q' \<and>
    key_tail_of q' slot (rows * pool_heads p * pool_dim p * F32_BYTES) =
      key_tail_of p slot (rows * pool_heads p * pool_dim p * F32_BYTES) \<and>
    value_tail_of q' slot (rows * pool_heads p * pool_dim p * F32_BYTES) =
      value_tail_of p slot (rows * pool_heads p * pool_dim p * F32_BYTES) \<and>
    (\<forall>t < pool_page_slots p. t \<noteq> slot \<longrightarrow> page_of q' t = page_of q t)"
proof -
  let ?m = "tail_bytes (pool_heads p) (pool_dim p)"
  let ?s' = "s\<lparr>snap_key := key_tail_of p slot ?m, snap_value := value_tail_of p slot ?m\<rparr>"
  have "holds_tail p slot ?s'" using p(3) by (simp add: holds_tail_def snap_ok_def)
  from restore_from_snapshot [OF p(1,2) rows q this] snapshot_Ok [OF p] show ?thesis
    unfolding tail_restored_def by blast
qed

lemma sample_pool:
  "\<exists>p s. page_pool_new 2 1 64 (Ok ()) = Ok p \<and> pool_tail_snapshot p (Ok ()) (Ok ()) = Ok s \<and>
    pool_ok p \<and> snap_ok p s \<and> pool_page_slots p = 2"
proof -
  obtain p where p: "page_pool_new 2 1 64 (Ok ()) = Ok p"
    by (simp add: page_pool_new_def kv_layout_def checked_product_def checked_sum_def align_up_def checked_mul_def
        checked_add_def layout_constants div_ceil_def usize_max_def u32_max_def buffer_zeroed_def)
  note new = page_pool_new_ok [OF p]
  then obtain s where s: "pool_tail_snapshot p (Ok ()) (Ok ()) = Ok s"
    by (simp add: pool_tail_snapshot_def tail_snapshot_new_def checked_mul_def usize_max_def layout_constants)
  from p s new tail_snapshot_new_ok [OF s] show ?thesis by blast
qed

theorem tail_snapshot_restore_witness:
  "\<exists>p s s' q'. page_pool_new 2 1 64 (Ok ()) = Ok p \<and>
    snapshot_tail_on_stream p 1 s (Ok ()) (Ok ()) = (Ok (), s') \<and>
    restore_tail_prefix_on_stream p 1 s' 3 (Ok ()) (Ok ()) = (Ok (), q') \<and> page_of q' 0 = page_of p 0"
proof -
  obtain p s where ps: "page_pool_new 2 1 64 (Ok ()) = Ok p" "pool_ok p" "snap_ok p s" "pool_page_slots p = 2"
    using sample_pool by blast
  have "1 < pool_page_slots p" "3 \<le> V_TOKEN_BLOCK" using ps(4) by (simp_all add: V_TOKEN_BLOCK_def)
  from tail_snapshot_restore [OF ps(2) this(1) ps(3) this(2) ps(2) refl refl refl] obtain s' q' where
    "snapshot_tail_on_stream p 1 s (Ok ()) (Ok ()) = (Ok (), s')"
    "restore_tail_prefix_on_stream p 1 s' 3 (Ok ()) (Ok ()) = (Ok (), q')"
    "\<forall>t < pool_page_slots p. t \<noteq> 1 \<longrightarrow> page_of q' t = page_of p t" by blast
  moreover from this(3) ps(4) have "page_of q' 0 = page_of p 0" by simp
  ultimately show ?thesis using ps(1) by blast
qed

text \<open>Copying a page makes the destination page equal to the source page and leaves every other
  page as it was; a slot outside the pool is refused and nothing is written.\<close>

theorem copy_page_correct:
  assumes "pool_ok p"
  shows "\<exists>r p'. copy_page_on_stream p src dst (Ok ()) = (r, p') \<and> pool_ok p' \<and>
    (if src < pool_page_slots p \<and> dst < pool_page_slots p
     then r = Ok () \<and> page_of p' dst = page_of p src \<and>
       (\<forall>t < pool_page_slots p. t \<noteq> dst \<longrightarrow> page_of p' t = page_of p t)
     else r = Err (Shape ''SM12x KV page slot'') \<and> p' = p)"
proof (cases "src < pool_page_slots p \<and> dst < pool_page_slots p")
  case False
  with assms show ?thesis by (auto simp: copy_page_on_stream_def check_slot_def)
next
  case True
  let ?B = "pool_page_bytes p"
  define p' where "p' = p\<lparr>pool_storage := write_at (pool_storage p) (dst * ?B) (page_of p src)\<rparr>"
  have c: "copy_page_on_stream p src dst (Ok ()) = (Ok (), p')"
    using True by (simp add: copy_page_on_stream_def check_slot_def Let_def p'_def page_of_def pool_page_bytes_def)
  have in_s: "t * ?B + ?B \<le> length (pool_storage p)" if "t < pool_page_slots p" for t
    using slot_in_storage [OF assms that] .
  have len: "length (page_of p src) = ?B" using in_s [of src] True by (simp add: page_of_def)
  have B: "pool_page_bytes p' = ?B" by (simp add: p'_def pool_page_bytes_def)
  have "page_of p' dst = page_of p src"
    using write_at_read [of "dst * ?B" "page_of p src" "pool_storage p"] in_s [of dst] True len
    unfolding page_of_def [of p'] B by (simp add: p'_def)
  moreover have "page_of p' t = page_of p t" if t: "t < pool_page_slots p" "t \<noteq> dst" for t
    using pages_disjoint [OF t(2), of ?B] in_s [of dst] in_s [OF t(1)] True len
      take_drop_write_after [of "t * ?B" ?B "dst * ?B" "page_of p src" "pool_storage p"]
      drop_write_before [of "dst * ?B" "page_of p src" "t * ?B" "pool_storage p" ?B]
    unfolding page_of_def [of p'] page_of_def [of p t] B by (auto simp: p'_def)
  moreover have "pool_ok p'" using assms in_s [of dst] True len by (simp add: pool_ok_def p'_def)
  ultimately show ?thesis using c True by auto
qed

theorem copy_page_correct_witness:
  "\<exists>p p'. page_pool_new 2 1 64 (Ok ()) = Ok p \<and> copy_page_on_stream p 0 1 (Ok ()) = (Ok (), p') \<and>
    page_of p' 1 = page_of p 0"
proof -
  obtain p s where ps: "page_pool_new 2 1 64 (Ok ()) = Ok p" "pool_ok p" "pool_page_slots p = 2"
    using sample_pool by blast
  from copy_page_correct [OF ps(2), of 0 1] ps(3) obtain p' where
    "copy_page_on_stream p 0 1 (Ok ()) = (Ok (), p')" "page_of p' 1 = page_of p 0"
    by auto
  with ps(1) show ?thesis by blast
qed

end
