(* ===== verification/Page_Backend.thy ===== *)
theory Page_Backend
  imports Page_Pool
begin

text \<open>
  Paged sequence storage, \<open>crates/infer/src/sm12x_cache.rs\<close>: the page table of a sequence on the host
  and on the device, and \<open>Sm12xPageBackend\<close>, the allocator of physical slots that the sequence cache
  manager drives through the \<open>PageBackend\<close> trait.

  The manager itself (the \<open>seqcache\<close> crate) is not part of the repository; the pages it names in an
  append, a commit or an abort are arguments of the operations. The locale \<open>page_backend\<close> states what
  the manager can rely on when it allocates and retires pages, and is interpreted on the backend.

  A \<open>Vec\<close> used as a stack has its top at the end of the list. The events that order uploads are
  represented by the status of the runtime calls on them.
\<close>

section \<open>The page table of a sequence\<close>

record Sm12xPageTable =
  pt_host :: "u32 list"
  pt_staging :: "u32 list"
  pt_device :: "u32 list"
  pt_page_capacity :: nat
  pt_position :: nat

definition page_table_new :: "nat \<Rightarrow> cuda_status \<Rightarrow> Sm12xPageTable result" where
  "page_table_new max_position st =
     (if max_position = 0 then Err (Shape ''SM12x page table'')
      else
        let page_capacity = div_ceil max_position SM12X_KV_PAGE_TOKENS in
        bind_result st (\<lambda>_. Ok
          \<lparr>pt_host = replicate page_capacity (-1), pt_staging = replicate page_capacity (-1),
           pt_device = replicate page_capacity 0, pt_page_capacity = page_capacity, pt_position = 0\<rparr>))"

text \<open>
  Publishing slots: they are staged, padded with \<open>u32::MAX\<close>, and uploaded only when they differ from
  what was published last; the two host buffers are then exchanged. The statuses are those of waiting
  for the staging buffer, of the upload and of recording its event.
\<close>

definition update_slots ::
  "Sm12xPageTable \<Rightarrow> u32 list \<Rightarrow> nat \<Rightarrow> nat \<Rightarrow> cuda_status \<Rightarrow> cuda_status \<Rightarrow> cuda_status \<Rightarrow>
   unit result \<times> Sm12xPageTable" where
  "update_slots t slots page_count pos wait_st copy_st record_st =
     (if pt_page_capacity t < page_count \<or> pt_page_capacity t * SM12X_KV_PAGE_TOKENS < pos
      then (Err (Shape ''SM12x page-table update''), t)
      else try_result wait_st t (\<lambda>_.
        let t = t\<lparr>pt_staging := write_at (pt_staging t) 0 (take page_count slots)\<rparr> in
        if length slots < page_count then (Err (Shape ''SM12x page-table slots''), t)
        else if page_count < length slots then (Err (Shape ''SM12x page-table slots''), t)
        else
          let staging = take page_count (pt_staging t) @ replicate (length (pt_staging t) - page_count) (-1);
              t = t\<lparr>pt_staging := staging\<rparr> in
          if pt_host t \<noteq> staging then
            (case copy_range_from_pinned (pt_device t) 0 staging copy_st of
               (r, device) \<Rightarrow> try_result r t (\<lambda>_.
                 let t = t\<lparr>pt_device := device\<rparr> in
                 try_result record_st t (\<lambda>_.
                   (Ok (), t\<lparr>pt_host := staging, pt_staging := pt_host t, pt_position := pos\<rparr>))))
          else (Ok (), t\<lparr>pt_position := pos\<rparr>)))"

definition page_table_update ::
  "Sm12xPageTable \<Rightarrow> u32 list \<Rightarrow> nat \<Rightarrow> cuda_status \<Rightarrow> cuda_status \<Rightarrow> cuda_status \<Rightarrow>
   unit result \<times> Sm12xPageTable" where
  "page_table_update t pages pos wait_st copy_st record_st =
     (if pt_page_capacity t < length pages \<or> pt_page_capacity t * SM12X_KV_PAGE_TOKENS < pos
      then (Err (Shape ''SM12x page-table update''), t)
      else update_slots t pages (length pages) pos wait_st copy_st record_st)"

section \<open>The backend\<close>

text \<open>A page (\<open>Sm12xPage\<close>) is its slot number.\<close>

record Sm12xExistingTail =
  tail_slot :: nat
  tail_rows :: nat
  tail_snapshots :: "Sm12xKvTailSnapshot option list"

record Sm12xAppendTransaction =
  existing_tail :: "Sm12xExistingTail option"
  reserved_rows :: nat

record Sm12xPageBackend =
  be_pools :: "Sm12xKvPagePool option list"
  be_snapshot_reuse :: "Sm12xKvTailSnapshot list list"
  be_free_slots :: "u32 list"
  be_used_slots :: "bool list"
  be_ever_used_slots :: "bool list"
  be_page_bytes :: nat

record PageAllocation =
  alloc_page :: u32
  alloc_recycled :: bool

text \<open>What the manager passes: the pages of an append, and the outcome of a commit.\<close>

record BackendAppendPage =
  bap_page :: u32
  bap_rows :: nat
  bap_page_offset :: nat
  bap_existed :: bool

record BackendAppendCommit =
  bac_committed :: "u32 list"
  bac_sealed :: "u32 list"
  bac_released :: "u32 list"
  bac_rows :: nat
  bac_position :: nat

definition COMPACT_TAIL_ROWS :: nat where "COMPACT_TAIL_ROWS = 16"

fun new_pools ::
  "(nat \<times> nat) option list \<Rightarrow> nat \<Rightarrow> nat \<Rightarrow> cuda_status list \<Rightarrow> (Sm12xKvPagePool option list \<times> nat) result" where
  "new_pools [] page_slots bytes sts = Ok ([], bytes)"
| "new_pools (None # gs) page_slots bytes sts =
     bind_result (new_pools gs page_slots bytes sts) (\<lambda>(ps, b). Ok (None # ps, b))"
| "new_pools (Some (heads, dim) # gs) page_slots bytes sts =
     bind_result (page_pool_new page_slots heads dim (case sts of [] \<Rightarrow> Ok () | st # _ \<Rightarrow> st))
     (\<lambda>pool. bind_result (ok_or (checked_add bytes (pool_page_bytes pool)) (Shape ''SM12x page bundle bytes''))
     (\<lambda>bytes. bind_result (new_pools gs page_slots bytes (tl sts)) (\<lambda>(ps, b). Ok (Some pool # ps, b))))"

definition backend_new_heterogeneous ::
  "(nat \<times> nat) option list \<Rightarrow> nat \<Rightarrow> cuda_status list \<Rightarrow> Sm12xPageBackend result" where
  "backend_new_heterogeneous geometries page_slots sts =
     (if page_slots = 0 \<or> u32_max < page_slots then Err (Shape ''SM12x KV page slots'')
      else bind_result (new_pools geometries page_slots 0 sts)
      (\<lambda>(pools, page_bytes). Ok
        \<lparr>be_pools = pools, be_snapshot_reuse = map (\<lambda>_. []) pools,
         be_free_slots = rev (map of_nat [0..<page_slots]), be_used_slots = replicate page_slots False,
         be_ever_used_slots = replicate page_slots False, be_page_bytes = page_bytes\<rparr>))"

definition backend_new ::
  "bool list \<Rightarrow> nat \<Rightarrow> nat \<Rightarrow> nat \<Rightarrow> cuda_status list \<Rightarrow> Sm12xPageBackend result" where
  "backend_new paged_layers page_slots heads dim sts =
     backend_new_heterogeneous (map (\<lambda>paged. if paged then Some (heads, dim) else None) paged_layers) page_slots sts"

definition validate_page :: "Sm12xPageBackend \<Rightarrow> u32 \<Rightarrow> unit result" where
  "validate_page b page =
     (if length (be_used_slots b) \<le> unat page \<or> \<not> be_used_slots b ! unat page
      then Err (Shape ''SM12x physical page'') else Ok ())"

fun validate_pages :: "Sm12xPageBackend \<Rightarrow> u32 list \<Rightarrow> unit result" where
  "validate_pages b [] = Ok ()"
| "validate_pages b (p # ps) = bind_result (validate_page b p) (\<lambda>_. validate_pages b ps)"

definition allocate_page :: "Sm12xPageBackend \<Rightarrow> PageAllocation result \<times> Sm12xPageBackend" where
  "allocate_page b =
     (if be_free_slots b = [] then (Err (Shape ''SM12x physical page allocation''), b)
      else
        let slot = last (be_free_slots b); i = unat slot in
        (Ok \<lparr>alloc_page = slot, alloc_recycled = be_ever_used_slots b ! i\<rparr>,
         b\<lparr>be_free_slots := butlast (be_free_slots b), be_used_slots := (be_used_slots b)[i := True],
           be_ever_used_slots := (be_ever_used_slots b)[i := True]\<rparr>))"

definition release_page :: "Sm12xPageBackend \<Rightarrow> u32 \<Rightarrow> Sm12xPageBackend" where
  "release_page b page =
     b\<lparr>be_used_slots := (be_used_slots b)[unat page := False], be_free_slots := be_free_slots b @ [page]\<rparr>"

text \<open>\<open>rollback_page\<close> indexes with the page it is given: \<open>None\<close> is the panic out of range.\<close>

definition rollback_page :: "Sm12xPageBackend \<Rightarrow> u32 \<Rightarrow> Sm12xPageBackend option" where
  "rollback_page b page =
     (if unat page < length (be_used_slots b) then Some (release_page b page) else None)"

fun release_pages :: "Sm12xPageBackend \<Rightarrow> u32 list \<Rightarrow> Sm12xPageBackend" where
  "release_pages b [] = b"
| "release_pages b (p # ps) = release_pages (release_page b p) ps"

definition retire_pages :: "Sm12xPageBackend \<Rightarrow> u32 list \<Rightarrow> unit result \<times> Sm12xPageBackend" where
  "retire_pages b pages =
     try_result (validate_pages b pages) b (\<lambda>_. (Ok (), release_pages b pages))"

section \<open>Append transactions\<close>

text \<open>
  The journal of an append keeps, for every paged layer, a snapshot of the tail of the page that the
  append continues. Snapshot buffers are taken from the layer's reuse stack when it has one. The
  statuses of a layer are those of allocating and filling its snapshot.
\<close>

type_synonym layer_status = "cuda_status \<times> cuda_status \<times> cuda_status \<times> cuda_status"

fun snapshot_layers ::
  "nat \<Rightarrow> Sm12xKvPagePool option list \<Rightarrow> Sm12xKvTailSnapshot list list \<Rightarrow> (nat \<Rightarrow> layer_status) \<Rightarrow> nat \<Rightarrow>
   Sm12xKvTailSnapshot option list result \<times> Sm12xKvTailSnapshot list list" where
  "snapshot_layers slot (None # ps) (r # rs) sts i =
     (case snapshot_layers slot ps rs sts (Suc i) of
        (res, rs') \<Rightarrow> (bind_result res (\<lambda>snaps. Ok (None # snaps)), r # rs'))"
| "snapshot_layers slot (Some p # ps) (r # rs) sts i =
     (case sts i of (alloc_k, alloc_v, copy_k, copy_v) \<Rightarrow>
        let (fresh, r') = (if r = [] then (pool_tail_snapshot p alloc_k alloc_v, []) else (Ok (last r), butlast r)) in
        try_result fresh (r' # rs) (\<lambda>s.
          case snapshot_tail_on_stream p slot s copy_k copy_v of (taken, s') \<Rightarrow>
            try_result taken (r' # rs) (\<lambda>_.
              case snapshot_layers slot ps rs sts (Suc i) of
                (res, rs') \<Rightarrow> (bind_result res (\<lambda>snaps. Ok (Some s' # snaps)), r' # rs'))))"
| "snapshot_layers slot _ rs sts i = (Ok [], rs)"

fun sum_rows :: "nat \<Rightarrow> BackendAppendPage list \<Rightarrow> nat result" where
  "sum_rows rows [] = Ok rows"
| "sum_rows rows (p # ps) =
     bind_result (ok_or (checked_add rows (bap_rows p)) (Shape ''SM12x append transaction'')) (\<lambda>r. sum_rows r ps)"

definition prepare_append ::
  "Sm12xPageBackend \<Rightarrow> BackendAppendPage list \<Rightarrow> (nat \<Rightarrow> layer_status) \<Rightarrow>
   Sm12xAppendTransaction result \<times> Sm12xPageBackend" where
  "prepare_append b pages sts =
     try_result (sum_rows 0 pages) b (\<lambda>reserved.
       case find bap_existed pages of
         None \<Rightarrow> (Ok \<lparr>existing_tail = None, reserved_rows = reserved\<rparr>, b)
       | Some page \<Rightarrow> try_result (validate_page b (bap_page page)) b (\<lambda>_.
           let rows = bap_page_offset page mod COMPACT_TAIL_ROWS in
           if rows = 0 then (Ok \<lparr>existing_tail = None, reserved_rows = reserved\<rparr>, b)
           else
             (case snapshot_layers (unat (bap_page page)) (be_pools b) (be_snapshot_reuse b) sts 0 of
                (res, reuse) \<Rightarrow>
                  let b = b\<lparr>be_snapshot_reuse := reuse\<rparr> in
                  try_result res b (\<lambda>snaps.
                    (Ok \<lparr>existing_tail = Some \<lparr>tail_slot = unat (bap_page page), tail_rows = rows,
                           tail_snapshots = snaps\<rparr>, reserved_rows = reserved\<rparr>, b)))))"

fun restore_layers ::
  "nat \<Rightarrow> nat \<Rightarrow> Sm12xKvPagePool option list \<Rightarrow> Sm12xKvTailSnapshot option list \<Rightarrow>
   (nat \<Rightarrow> cuda_status \<times> cuda_status) \<Rightarrow> nat \<Rightarrow> unit result \<times> Sm12xKvPagePool option list" where
  "restore_layers slot rows (Some p # ps) (Some s # snaps) sts i =
     (case restore_tail_prefix_on_stream p slot s rows (fst (sts i)) (snd (sts i)) of (r, p') \<Rightarrow>
        try_result r (Some p' # ps) (\<lambda>_.
          case restore_layers slot rows ps snaps sts (Suc i) of (r, ps') \<Rightarrow> (r, Some p' # ps')))"
| "restore_layers slot rows (p # ps) (s # snaps) sts i =
     (case restore_layers slot rows ps snaps sts (Suc i) of (r, ps') \<Rightarrow> (r, p # ps'))"
| "restore_layers slot rows ps _ sts i = (Ok (), ps)"

definition restore_transaction ::
  "Sm12xPageBackend \<Rightarrow> Sm12xAppendTransaction \<Rightarrow> (nat \<Rightarrow> cuda_status \<times> cuda_status) \<Rightarrow>
   unit result \<times> Sm12xPageBackend" where
  "restore_transaction b tx sts =
     (case existing_tail tx of
        None \<Rightarrow> (Ok (), b)
      | Some tail \<Rightarrow>
          (case restore_layers (tail_slot tail) (tail_rows tail) (be_pools b) (tail_snapshots tail) sts 0 of
             (r, pools) \<Rightarrow> (r, b\<lparr>be_pools := pools\<rparr>)))"

definition recycle_transaction ::
  "Sm12xPageBackend \<Rightarrow> Sm12xAppendTransaction \<Rightarrow> Sm12xPageBackend \<times> Sm12xAppendTransaction" where
  "recycle_transaction b tx =
     (case existing_tail tx of
        None \<Rightarrow> (b, tx)
      | Some tail \<Rightarrow>
          let reuse = be_snapshot_reuse b; snaps = tail_snapshots tail in
          (b\<lparr>be_snapshot_reuse :=
              map2 (\<lambda>r s. case s of None \<Rightarrow> r | Some s \<Rightarrow> r @ [s]) reuse snaps @ drop (length snaps) reuse\<rparr>,
           tx\<lparr>existing_tail := None\<rparr>))"

text \<open>
  Aborting and committing an append. Both take the page table of the sequence, publish the pages
  that remain and only then give released slots back. The state after an error is the state reached.
\<close>

type_synonym append_state = "Sm12xPageBackend \<times> Sm12xAppendTransaction \<times> Sm12xPageTable"

definition abort_append ::
  "Sm12xPageBackend \<Rightarrow> Sm12xAppendTransaction \<Rightarrow> Sm12xPageTable \<Rightarrow> u32 list \<Rightarrow> u32 list \<Rightarrow> nat \<Rightarrow>
   (nat \<Rightarrow> cuda_status \<times> cuda_status) \<Rightarrow> cuda_status \<Rightarrow> cuda_status \<Rightarrow> cuda_status \<Rightarrow> cuda_status \<Rightarrow>
   unit result \<times> append_state" where
  "abort_append b tx t restored released pos sts sync_st wait_st copy_st record_st =
     try_result (validate_pages b (restored @ released)) (b, tx, t) (\<lambda>_.
       case restore_transaction b tx sts of (r, b) \<Rightarrow>
         try_result r (b, tx, t) (\<lambda>_.
         try_result sync_st (b, tx, t) (\<lambda>_.
           case page_table_update t restored pos wait_st copy_st record_st of (r, t) \<Rightarrow>
             try_result r (b, tx, t) (\<lambda>_.
               let b = release_pages b released in
               case recycle_transaction b tx of (b, tx) \<Rightarrow> (Ok (), b, tx, t)))))"

definition commit_append ::
  "Sm12xPageBackend \<Rightarrow> Sm12xAppendTransaction \<Rightarrow> Sm12xPageTable \<Rightarrow> BackendAppendCommit \<Rightarrow>
   (nat \<Rightarrow> cuda_status \<times> cuda_status) \<Rightarrow> cuda_status \<Rightarrow> cuda_status \<Rightarrow> cuda_status \<Rightarrow> cuda_status \<Rightarrow>
   unit result \<times> append_state" where
  "commit_append b tx t commit sts sync_st wait_st copy_st record_st =
     try_result (validate_pages b (bac_committed commit @ bac_sealed commit @ bac_released commit)) (b, tx, t) (\<lambda>_.
       let rewind = (bac_rows commit < reserved_rows tx \<and>
             (case existing_tail tx of None \<Rightarrow> False
              | Some tail \<Rightarrow> tail_rows tail + bac_rows commit \<le> COMPACT_TAIL_ROWS)) in
       case (if rewind then restore_transaction b tx sts else (Ok (), b)) of (r, b) \<Rightarrow>
         try_result r (b, tx, t) (\<lambda>_.
         try_result (if bac_released commit \<noteq> [] then sync_st else Ok ()) (b, tx, t) (\<lambda>_.
           case page_table_update t (bac_committed commit) (bac_position commit) wait_st copy_st record_st of (r, t) \<Rightarrow>
             try_result r (b, tx, t) (\<lambda>_.
               let b = release_pages b (bac_released commit) in
               case recycle_transaction b tx of (b, tx) \<Rightarrow> (Ok (), b, tx, t)))))"

definition update_page_table ::
  "Sm12xPageBackend \<Rightarrow> Sm12xPageTable \<Rightarrow> u32 list \<Rightarrow> nat \<Rightarrow> cuda_status \<Rightarrow> cuda_status \<Rightarrow> cuda_status \<Rightarrow>
   unit result \<times> Sm12xPageTable" where
  "update_page_table b t pages pos wait_st copy_st record_st =
     try_result (validate_pages b pages) t (\<lambda>_. page_table_update t pages pos wait_st copy_st record_st)"

fun copy_layers ::
  "nat \<Rightarrow> nat \<Rightarrow> Sm12xKvPagePool option list \<Rightarrow> (nat \<Rightarrow> cuda_status) \<Rightarrow> nat \<Rightarrow>
   unit result \<times> Sm12xKvPagePool option list" where
  "copy_layers src dst [] sts i = (Ok (), [])"
| "copy_layers src dst (None # ps) sts i =
     (case copy_layers src dst ps sts (Suc i) of (r, ps') \<Rightarrow> (r, None # ps'))"
| "copy_layers src dst (Some p # ps) sts i =
     (case copy_page_on_stream p src dst (sts i) of (r, p') \<Rightarrow>
        try_result r (Some p' # ps) (\<lambda>_.
          case copy_layers src dst ps sts (Suc i) of (r, ps') \<Rightarrow> (r, Some p' # ps')))"

definition copy_partial_page ::
  "Sm12xPageBackend \<Rightarrow> u32 \<Rightarrow> nat \<Rightarrow> (nat \<Rightarrow> cuda_status) \<Rightarrow> PageAllocation result \<times> Sm12xPageBackend" where
  "copy_partial_page b source valid_tokens sts =
     try_result (validate_page b source) b (\<lambda>_.
       if valid_tokens = 0 \<or> SM12X_KV_PAGE_TOKENS \<le> valid_tokens
       then (Err (Shape ''SM12x partial page copy''), b)
       else
         (case allocate_page b of (res, b) \<Rightarrow> try_result res b (\<lambda>a.
            case copy_layers (unat source) (unat (alloc_page a)) (be_pools b) sts 0 of (r, pools) \<Rightarrow>
              let b = b\<lparr>be_pools := pools\<rparr> in
              (case r of Inl e \<Rightarrow> (Err e, release_page b (alloc_page a)) | Inr _ \<Rightarrow> (Ok a, b)))))"

section \<open>Free and used slots\<close>

definition slots_ok :: "Sm12xPageBackend \<Rightarrow> bool" where
  "slots_ok b \<longleftrightarrow>
     length (be_ever_used_slots b) = length (be_used_slots b) \<and> length (be_used_slots b) \<le> u32_max \<and>
     distinct (be_free_slots b) \<and>
     (\<forall>s. s \<in> set (be_free_slots b) \<longleftrightarrow> unat s < length (be_used_slots b) \<and> \<not> be_used_slots b ! unat s) \<and>
     (\<forall>i < length (be_used_slots b). be_used_slots b ! i \<longrightarrow> be_ever_used_slots b ! i)"

definition live_pages :: "Sm12xPageBackend \<Rightarrow> u32 set" where
  "live_pages b = {s. unat s < length (be_used_slots b) \<and> be_used_slots b ! unat s}"

definition page_slots :: "Sm12xPageBackend \<Rightarrow> nat" where
  "page_slots b = length (be_used_slots b)"

lemma validate_page_Ok: "validate_page b p = Ok () \<longleftrightarrow> p \<in> live_pages b"
  by (auto simp: validate_page_def live_pages_def)

lemma validate_pages_Ok: "validate_pages b ps = Ok () \<longleftrightarrow> set ps \<subseteq> live_pages b"
  by (induction ps) (auto simp: validate_page_Ok result_simps)

lemma unat_inj_u32 [simp]: "unat (a :: u32) = unat b \<longleftrightarrow> a = b"
  by (simp add: word_unat_eq_iff)

lemma card_slots: "n \<le> u32_max \<Longrightarrow> card {s :: u32. unat s < n} = n"
proof -
  assume n: "n \<le> u32_max"
  have "{s :: u32. unat s < n} = of_nat ` {..<n}"
  proof (intro set_eqI iffI)
    fix s :: u32 assume "s \<in> {s. unat s < n}"
    then show "s \<in> of_nat ` {..<n}" by (intro image_eqI [of _ _ "unat s"]) auto
  next
    fix s :: u32 assume "s \<in> of_nat ` {..<n}"
    with n show "s \<in> {s. unat s < n}" by (auto simp: unat_of_nat_u32)
  qed
  moreover have "inj_on (of_nat :: nat \<Rightarrow> u32) {..<n}"
    using n by (intro inj_on_inverseI [where g = unat]) (auto simp: unat_of_nat_u32)
  ultimately show ?thesis by (simp add: card_image)
qed

lemma finite_slots [simp]: "finite (S :: u32 set)"
  by (rule finite_subset [OF subset_UNIV]) simp

lemma slots_partition:
  assumes "slots_ok b"
  shows "length (be_free_slots b) + card (live_pages b) = page_slots b"
proof -
  have "length (be_free_slots b) = card (set (be_free_slots b))"
    using assms by (simp add: slots_ok_def distinct_card)
  moreover have "set (be_free_slots b) \<inter> live_pages b = {}"
    "set (be_free_slots b) \<union> live_pages b = {s. unat s < page_slots b}"
    using assms by (auto simp: slots_ok_def live_pages_def page_slots_def)
  moreover have "card {s :: u32. unat s < page_slots b} = page_slots b"
    using assms by (intro card_slots) (simp add: slots_ok_def page_slots_def)
  ultimately show ?thesis using card_Un_disjoint [of "set (be_free_slots b)" "live_pages b"] by simp
qed

lemma allocate_slots_ok:
  assumes ok: "slots_ok b" and free: "be_free_slots b \<noteq> []"
  shows "\<exists>a b'. allocate_page b = (Ok a, b') \<and> slots_ok b' \<and> alloc_page a \<notin> live_pages b \<and>
    live_pages b' = insert (alloc_page a) (live_pages b) \<and> page_slots b' = page_slots b \<and>
    be_pools b' = be_pools b \<and> be_snapshot_reuse b' = be_snapshot_reuse b"
proof -
  let ?s = "last (be_free_slots b)"
  define b' where "b' = b\<lparr>be_free_slots := butlast (be_free_slots b), be_used_slots := (be_used_slots b)[unat ?s := True],
    be_ever_used_slots := (be_ever_used_slots b)[unat ?s := True]\<rparr>"
  have dec: "be_free_slots b = butlast (be_free_slots b) @ [?s]" using free by simp
  with ok have d: "distinct (butlast (be_free_slots b) @ [?s])" by (simp add: slots_ok_def)
  have mem: "?s \<in> set (be_free_slots b)" using free by simp
  have s: "unat ?s < length (be_used_slots b)" "\<not> be_used_slots b ! unat ?s"
    using ok mem by (auto simp: slots_ok_def)
  have "set (be_free_slots b) = set (butlast (be_free_slots b) @ [?s])" using dec by (rule arg_cong)
  with d have inb: "x \<in> set (butlast (be_free_slots b)) \<longleftrightarrow> x \<in> set (be_free_slots b) \<and> x \<noteq> ?s" for x
    by auto
  have "slots_ok b'"
    using ok s d by (auto simp: slots_ok_def b'_def inb nth_list_update_lt split: if_splits)
  moreover have "live_pages b' = insert ?s (live_pages b)"
    using s by (auto simp: live_pages_def b'_def nth_list_update_lt)
  ultimately show ?thesis
    using free s by (simp add: allocate_page_def Let_def b'_def live_pages_def page_slots_def)
qed

lemma release_page_ok:
  assumes ok: "slots_ok b" and p: "p \<in> live_pages b"
  shows "slots_ok (release_page b p)" "live_pages (release_page b p) = live_pages b - {p}"
    "page_slots (release_page b p) = page_slots b"
  using assms by (auto simp: slots_ok_def live_pages_def release_page_def page_slots_def nth_list_update_lt
      split: if_splits)

lemma release_page_frame [simp]:
  "be_pools (release_page b p) = be_pools b" "be_snapshot_reuse (release_page b p) = be_snapshot_reuse b"
  by (simp_all add: release_page_def)

lemma release_pages_ok:
  "slots_ok b \<Longrightarrow> distinct ps \<Longrightarrow> set ps \<subseteq> live_pages b \<Longrightarrow>
   slots_ok (release_pages b ps) \<and> live_pages (release_pages b ps) = live_pages b - set ps \<and>
   page_slots (release_pages b ps) = page_slots b"
proof (induction ps arbitrary: b)
  case (Cons p ps)
  then have p: "p \<in> live_pages b" by simp
  note r = release_page_ok [OF Cons.prems(1) p]
  have "set ps \<subseteq> live_pages (release_page b p)" using Cons.prems r(2) by auto
  with Cons.IH [OF r(1)] Cons.prems r show ?case by auto
qed simp

lemma release_pages_frame [simp]:
  "be_pools (release_pages b ps) = be_pools b" "be_snapshot_reuse (release_pages b ps) = be_snapshot_reuse b"
  by (induction ps arbitrary: b) simp_all

section \<open>What the manager relies on\<close>

locale page_backend =
  fixes inv :: "'s \<Rightarrow> bool" and live :: "'s \<Rightarrow> 'p set" and cap :: "'s \<Rightarrow> nat"
    and alloc :: "'s \<Rightarrow> 'p result \<times> 's" and retire :: "'s \<Rightarrow> 'p list \<Rightarrow> unit result \<times> 's"
  assumes live_bound: "inv s \<Longrightarrow> finite (live s) \<and> card (live s) \<le> cap s"
    and alloc_ok: "inv s \<Longrightarrow> card (live s) < cap s \<Longrightarrow>
      \<exists>p s'. alloc s = (Ok p, s') \<and> inv s' \<and> p \<notin> live s \<and> live s' = insert p (live s) \<and> cap s' = cap s"
    and alloc_full: "inv s \<Longrightarrow> card (live s) = cap s \<Longrightarrow> \<exists>e. alloc s = (Err e, s)"
    and retire_ok: "inv s \<Longrightarrow> distinct ps \<Longrightarrow> set ps \<subseteq> live s \<Longrightarrow>
      \<exists>s'. retire s ps = (Ok (), s') \<and> inv s' \<and> live s' = live s - set ps \<and> cap s' = cap s"
    and retire_bad: "inv s \<Longrightarrow> \<not> set ps \<subseteq> live s \<Longrightarrow> \<exists>e. retire s ps = (Err e, s)"
begin

lemma alloc_cases:
  assumes "inv s"
  obtains (page) p s' where "alloc s = (Ok p, s')" "inv s'" "p \<notin> live s" "live s' = insert p (live s)"
      "cap s' = cap s" "card (live s) < cap s"
  | (full) e where "alloc s = (Err e, s)" "card (live s) = cap s"
  using assms live_bound alloc_ok [OF assms] alloc_full [OF assms] by (metis nat_less_le)

text \<open>As many pages can be allocated as the capacity leaves, and they are all different.\<close>

lemma alloc_many:
  assumes "inv s" "card (live s) + n \<le> cap s"
  shows "\<exists>ps s'. length ps = n \<and> distinct ps \<and> set ps \<inter> live s = {} \<and> live s' = live s \<union> set ps \<and> inv s' \<and>
    cap s' = cap s \<and> ((\<lambda>s s'. \<exists>p. alloc s = (Ok p, s')) ^^ n) s s'"
  using assms
proof (induction n arbitrary: s)
  case 0
  then show ?case by (intro exI [of _ "[]"] exI [of _ s]) simp
next
  case (Suc n)
  then obtain p s1 where p: "alloc s = (Ok p, s1)" "inv s1" "p \<notin> live s" "live s1 = insert p (live s)" "cap s1 = cap s"
    using alloc_ok [of s] by auto
  with Suc.prems live_bound [of s] have "card (live s1) + n \<le> cap s1" by simp
  with Suc.IH [OF p(2)] obtain ps s' where ps: "length ps = n" "distinct ps" "set ps \<inter> live s1 = {}"
    "live s' = live s1 \<union> set ps" "inv s'" "cap s' = cap s1"
    "((\<lambda>s s'. \<exists>p. alloc s = (Ok p, s')) ^^ n) s1 s'" by blast
  have "((\<lambda>s s'. \<exists>p. alloc s = (Ok p, s')) ^^ Suc n) s s'"
    using p(1) ps(7) by (intro relpowp_Suc_I2 [of _ s s1]) auto
  with ps p show ?case by (intro exI [of _ "p # ps"] exI [of _ s']) auto
qed

text \<open>Retiring a page makes room for one allocation, also when the backend was full.\<close>

lemma retire_then_alloc:
  assumes "inv s" "p \<in> live s"
  shows "\<exists>s' q s''. retire s [p] = (Ok (), s') \<and> alloc s' = (Ok q, s'') \<and> inv s'' \<and> q \<notin> live s - {p}"
proof -
  obtain s' where s': "retire s [p] = (Ok (), s')" "inv s'" "live s' = live s - {p}" "cap s' = cap s"
    using retire_ok [OF assms(1), of "[p]"] assms(2) by auto
  have "card (live s') < cap s'"
    using live_bound [OF assms(1)] assms(2) s'(3,4) card_Diff1_less [of "live s" p] by simp
  with alloc_ok [OF s'(2)] s' show ?thesis by auto
qed

end

definition backend_alloc :: "Sm12xPageBackend \<Rightarrow> u32 result \<times> Sm12xPageBackend" where
  "backend_alloc b = (case allocate_page b of (r, b') \<Rightarrow> (bind_result r (\<lambda>a. Ok (alloc_page a)), b'))"

interpretation sm12x: page_backend slots_ok live_pages page_slots backend_alloc retire_pages
proof
  fix b :: Sm12xPageBackend and ps
  assume ok: "slots_ok b"
  note part = slots_partition [OF ok]
  show "finite (live_pages b) \<and> card (live_pages b) \<le> page_slots b" using part by simp
  show "\<exists>p s'. backend_alloc b = (Ok p, s') \<and> slots_ok s' \<and> p \<notin> live_pages b \<and>
      live_pages s' = insert p (live_pages b) \<and> page_slots s' = page_slots b"
    if "card (live_pages b) < page_slots b"
  proof -
    have "be_free_slots b \<noteq> []" using part that by auto
    from allocate_slots_ok [OF ok this] show ?thesis by (auto simp: backend_alloc_def)
  qed
  show "\<exists>e. backend_alloc b = (Err e, b)" if "card (live_pages b) = page_slots b"
    using part that by (simp add: backend_alloc_def allocate_page_def)
  show "\<exists>s'. retire_pages b ps = (Ok (), s') \<and> slots_ok s' \<and> live_pages s' = live_pages b - set ps \<and>
      page_slots s' = page_slots b" if "distinct ps" "set ps \<subseteq> live_pages b"
    using that release_pages_ok [OF ok that] validate_pages_Ok [of b ps] by (simp add: retire_pages_def)
  show "\<exists>e. retire_pages b ps = (Err e, b)" if "\<not> set ps \<subseteq> live_pages b"
    using that validate_pages_Ok [of b ps] by (cases "validate_pages b ps") (auto simp: retire_pages_def)
qed

section \<open>Reachable backends\<close>

definition pool_fits :: "nat \<Rightarrow> Sm12xKvPagePool option \<Rightarrow> bool" where
  "pool_fits n p = (case p of None \<Rightarrow> True | Some p \<Rightarrow> pool_ok p \<and> pool_page_slots p = n)"

definition backend_ok :: "Sm12xPageBackend \<Rightarrow> bool" where
  "backend_ok b \<longleftrightarrow> slots_ok b \<and> (\<forall>p \<in> set (be_pools b). pool_fits (page_slots b) p) \<and>
     length (be_snapshot_reuse b) = length (be_pools b)"

lemma new_pools_ok:
  "new_pools gs n bytes sts = Ok (ps, b) \<Longrightarrow> (\<forall>p \<in> set ps. pool_fits n p) \<and> length ps = length gs"
proof (induction gs n bytes sts arbitrary: ps b rule: new_pools.induct)
  case (3 heads dim gs n bytes sts)
  then obtain pool bytes' qs where
    pool: "page_pool_new n heads dim (case sts of [] \<Rightarrow> Ok () | st # _ \<Rightarrow> st) = Ok pool"
    and add: "checked_add bytes (pool_page_bytes pool) = Some bytes'"
    and rest: "new_pools gs n bytes' (tl sts) = Ok (qs, b)" and ps: "ps = Some pool # qs"
    by (auto simp: result_simps)
  have "(\<forall>p \<in> set qs. pool_fits n p) \<and> length qs = length gs"
    using "3.IH" [OF pool _ rest] add by simp
  with page_pool_new_ok [OF pool] ps show ?case by (simp add: pool_fits_def)
qed (auto simp: result_simps pool_fits_def)

lemma backend_new_ok:
  assumes "backend_new_heterogeneous geometries n sts = Ok b"
  shows "backend_ok b \<and> live_pages b = {} \<and> page_slots b = n"
proof -
  from assms obtain pools bytes where n: "0 < n" "n \<le> u32_max"
    and pools: "new_pools geometries n 0 sts = Ok (pools, bytes)"
    and b: "b = \<lparr>be_pools = pools, be_snapshot_reuse = map (\<lambda>_. []) pools,
         be_free_slots = rev (map of_nat [0..<n]), be_used_slots = replicate n False,
         be_ever_used_slots = replicate n False, be_page_bytes = bytes\<rparr>"
    by (auto simp: backend_new_heterogeneous_def result_simps split: if_splits)
  have "distinct (map (of_nat :: nat \<Rightarrow> u32) [0..<n])"
    using n(2) by (auto simp: distinct_map intro!: inj_on_inverseI [where g = unat] unat_of_nat_u32)
  moreover have "s \<in> of_nat ` {0..<n} \<longleftrightarrow> unat s < n" for s :: u32
    using n(2) by (auto simp: unat_of_nat_u32 intro!: image_eqI [of _ _ "unat s"])
  ultimately have "slots_ok b" using n by (auto simp: slots_ok_def b)
  moreover have "live_pages b = {}" by (auto simp: live_pages_def b)
  ultimately show ?thesis using new_pools_ok [OF pools] by (simp add: backend_ok_def b page_slots_def)
qed

text \<open>Every pool operation keeps a pool well formed, whatever the outcome of the device calls.\<close>

definition pool_kept :: "Sm12xKvPagePool \<Rightarrow> Sm12xKvPagePool \<Rightarrow> bool" where
  "pool_kept p p' \<longleftrightarrow> (pool_ok p \<longrightarrow> pool_ok p') \<and> pool_page_slots p' = pool_page_slots p \<and>
     pool_heads p' = pool_heads p \<and> pool_dim p' = pool_dim p"

definition opt_kept :: "Sm12xKvPagePool option \<Rightarrow> Sm12xKvPagePool option \<Rightarrow> bool" where
  "opt_kept = rel_option pool_kept"

lemma pool_kept_refl [simp]: "pool_kept p p"
  by (simp add: pool_kept_def)

lemma opt_kept_refl [simp]: "opt_kept p p"
  by (simp add: opt_kept_def option.rel_refl)

lemma opt_kept_Some [simp]: "opt_kept (Some p) (Some q) = pool_kept p q"
  by (simp add: opt_kept_def)

lemma pools_kept_refl [simp]: "list_all2 opt_kept ps ps"
  by (simp add: list_all2_refl)

lemma pool_kept_storage:
  "(pool_ok p \<Longrightarrow> length st = length (pool_storage p)) \<Longrightarrow> pool_kept p (p\<lparr>pool_storage := st\<rparr>)"
  by (simp add: pool_kept_def pool_ok_def)

lemma restore_kept:
  assumes "restore_tail_prefix_on_stream p slot s rows st1 st2 = (r, p')"
  shows "pool_kept p p'"
proof (cases "slot < pool_page_slots p \<and> rows \<le> V_TOKEN_BLOCK \<and> rows \<noteq> 0 \<and> validate_tail_snapshot p s = Ok () \<and> is_ok st1")
  case False
  with assms have "p' = p"
    by (auto simp: restore_tail_prefix_on_stream_def check_slot_def try_result_def not_less Let_def result_simps
        split: if_splits sum.splits)
  then show ?thesis by simp
next
  case True
  let ?n = "rows * pool_heads p * pool_dim p * F32_BYTES"
  let ?k = "component_offset p slot (lay_key_tail (pool_layout p))"
  let ?v = "component_offset p slot (lay_value_tail (pool_layout p))"
  let ?a = "write_at (pool_storage p) ?k (take ?n (snap_key s))"
  from True assms have "p' = p\<lparr>pool_storage := ?a\<rparr> \<or>
      p' = p\<lparr>pool_storage := write_at ?a ?v (take ?n (snap_value s))\<rparr>"
    by (auto simp: restore_tail_prefix_on_stream_def check_slot_def try_result_def Let_def component_offset_def
        result_simps split: if_splits sum.splits)
  moreover have "length ?a = length (pool_storage p)"
    "length (write_at ?a ?v (take ?n (snap_value s))) = length (pool_storage p)" if "pool_ok p"
    using tails_in_page(1,2) [OF that, of slot ?n] True rows_in_tail [of rows "pool_heads p" "pool_dim p"]
    by simp_all
  ultimately show ?thesis using pool_kept_storage [of p] by auto
qed

lemma copy_page_kept:
  assumes "copy_page_on_stream p src dst st = (r, p')"
  shows "pool_kept p p'"
proof (cases "src < pool_page_slots p \<and> dst < pool_page_slots p \<and> is_ok st")
  case False
  with assms show ?thesis
    by (auto simp: copy_page_on_stream_def check_slot_def try_result_def Let_def result_simps
        split: if_splits sum.splits)
next
  case True
  let ?B = "pool_page_bytes p"
  from True assms have "p' = p\<lparr>pool_storage := write_at (pool_storage p) (dst * ?B) (page_of p src)\<rparr>"
    by (auto simp: copy_page_on_stream_def check_slot_def Let_def page_of_def pool_page_bytes_def result_simps)
  moreover have "length (write_at (pool_storage p) (dst * ?B) (page_of p src)) = length (pool_storage p)"
    if "pool_ok p"
    using slot_in_storage [OF that, of dst] True by (simp add: page_of_def)
  ultimately show ?thesis using pool_kept_storage [of p] by auto
qed

lemma restore_layers_kept:
  "restore_layers slot rows ps snaps sts i = (r, ps') \<Longrightarrow> list_all2 opt_kept ps ps'"
proof (induction slot rows ps snaps sts i arbitrary: r ps' rule: restore_layers.induct)
  case (1 slot rows p ps s snaps sts i)
  then show ?case
    by (auto simp: try_result_def dest: restore_kept split: prod.splits sum.splits)
qed (auto split: prod.splits)

lemma copy_layers_kept: "copy_layers src dst ps sts i = (r, ps') \<Longrightarrow> list_all2 opt_kept ps ps'"
proof (induction src dst ps sts i arbitrary: r ps' rule: copy_layers.induct)
  case (3 src dst p ps sts i)
  then show ?case
    by (auto simp: try_result_def dest: copy_page_kept split: prod.splits sum.splits)
qed (auto split: prod.splits)

lemma snapshot_layers_length:
  "snapshot_layers slot ps rs sts i = (res, rs') \<Longrightarrow> length rs' = length rs"
proof (induction ps arbitrary: rs i res rs')
  case (Cons p ps)
  show ?case
  proof (cases rs)
    case (Cons r rest)
    obtain res1 rest' where rec: "snapshot_layers slot ps rest sts (Suc i) = (res1, rest')"
      by (cases "snapshot_layers slot ps rest sts (Suc i)") auto
    with Cons.IH have "length rest' = length rest" by blast
    with Cons Cons.prems rec show ?thesis
      by (cases p; cases "sts i") (auto simp: try_result_def Let_def split: prod.splits sum.splits if_splits)
  qed (use Cons.prems in \<open>cases p; simp\<close>)
qed simp

text \<open>What every operation keeps of a backend: its slots, its pools and its snapshot stacks.\<close>

definition backend_kept :: "Sm12xPageBackend \<Rightarrow> Sm12xPageBackend \<Rightarrow> bool" where
  "backend_kept b b' \<longleftrightarrow> (slots_ok b \<longrightarrow> slots_ok b') \<and> page_slots b' = page_slots b \<and>
     list_all2 opt_kept (be_pools b) (be_pools b') \<and>
     length (be_snapshot_reuse b') = length (be_snapshot_reuse b)"

lemma backend_kept_ok:
  assumes "backend_kept b b'" "backend_ok b"
  shows "backend_ok b' \<and> page_slots b' = page_slots b"
proof -
  have "pool_fits n q" if "opt_kept p q" "pool_fits n p" for n p q
    using that by (cases p; cases q) (auto simp: opt_kept_def pool_fits_def pool_kept_def)
  then have "\<forall>q \<in> set (be_pools b'). pool_fits (page_slots b) q"
    using assms by (fastforce simp: backend_kept_def backend_ok_def list_all2_conv_all_nth in_set_conv_nth)
  with assms show ?thesis
    by (auto simp: backend_kept_def backend_ok_def dest: list_all2_lengthD)
qed

lemma backend_kept_trans:
  assumes "backend_kept a b" "backend_kept b c"
  shows "backend_kept a c"
proof -
  have "opt_kept p r" if "opt_kept p q" "opt_kept q r" for p q r
    using that by (cases p; cases q; cases r) (auto simp: opt_kept_def pool_kept_def)
  then have "list_all2 opt_kept (be_pools a) (be_pools c)"
    using assms unfolding backend_kept_def by (blast intro: list_all2_trans)
  with assms show ?thesis by (simp add: backend_kept_def)
qed

lemma backend_kept_refl [simp]: "backend_kept b b"
  by (simp add: backend_kept_def)

lemma backend_kept_pools:
  "list_all2 opt_kept (be_pools b) ps \<Longrightarrow> backend_kept b (b\<lparr>be_pools := ps\<rparr>)"
  by (simp add: backend_kept_def slots_ok_def page_slots_def)

lemma backend_kept_reuse:
  "length rs = length (be_snapshot_reuse b) \<Longrightarrow> backend_kept b (b\<lparr>be_snapshot_reuse := rs\<rparr>)"
  by (simp add: backend_kept_def slots_ok_def page_slots_def)

lemma release_pages_slots: "length (be_used_slots (release_pages b ps)) = length (be_used_slots b)"
  by (induction ps arbitrary: b) (simp_all add: release_page_def)

lemma backend_kept_release:
  "distinct ps \<Longrightarrow> set ps \<subseteq> live_pages b \<Longrightarrow> backend_kept b (release_pages b ps)"
  using release_pages_ok by (auto simp: backend_kept_def page_slots_def release_pages_slots)

lemma allocate_kept: "allocate_page b = (r, b') \<Longrightarrow> backend_kept b b'"
  using allocate_slots_ok [of b]
  by (cases "be_free_slots b = []") (auto simp: backend_kept_def allocate_page_def Let_def page_slots_def)

lemma restore_transaction_kept:
  "restore_transaction b tx sts = (r, b') \<Longrightarrow> backend_kept b b' \<and> live_pages b' = live_pages b"
  by (auto simp: restore_transaction_def live_pages_def dest!: restore_layers_kept
      intro!: backend_kept_pools split: option.splits prod.splits)

lemma recycle_kept:
  "recycle_transaction b tx = (b', tx') \<Longrightarrow> backend_kept b b' \<and> live_pages b' = live_pages b"
  by (auto simp: recycle_transaction_def live_pages_def Let_def intro!: backend_kept_reuse split: option.splits)

lemma prepare_kept: "prepare_append b pages sts = (r, b') \<Longrightarrow> backend_kept b b'"
  by (auto simp: prepare_append_def try_result_def Let_def dest!: snapshot_layers_length
      intro!: backend_kept_reuse split: option.splits prod.splits sum.splits if_splits)

text \<open>
  The common end of an abort and of a commit: the pages that remain are published, then the
  released slots are given back and the journal is recycled.
\<close>

definition settle ::
  "Sm12xPageBackend \<Rightarrow> Sm12xAppendTransaction \<Rightarrow> Sm12xPageTable \<Rightarrow> u32 list \<Rightarrow> u32 list \<Rightarrow> nat \<Rightarrow>
   cuda_status \<Rightarrow> cuda_status \<Rightarrow> cuda_status \<Rightarrow> unit result \<times> append_state" where
  "settle b tx t kept released pos wait_st copy_st record_st =
     (case page_table_update t kept pos wait_st copy_st record_st of (r, t) \<Rightarrow>
        try_result r (b, tx, t) (\<lambda>_.
          let b = release_pages b released in
          case recycle_transaction b tx of (b, tx) \<Rightarrow> (Ok (), b, tx, t)))"

lemma settle_kept:
  assumes "settle b tx t kept released pos w c k = (r, b', tx', t')" "distinct released" "set released \<subseteq> live_pages b"
  shows "backend_kept b b'"
proof (cases "b' = b")
  case False
  with assms(1) obtain tx1 where rec: "recycle_transaction (release_pages b released) tx = (b', tx1)"
    by (auto simp: settle_def try_result_def Let_def split: prod.splits sum.splits)
  with backend_kept_trans [OF backend_kept_release [OF assms(2,3)]] recycle_kept [OF rec] show ?thesis by blast
qed simp

lemma abort_kept:
  assumes "abort_append b tx t restored released pos sts s w c k = (r, b', tx', t')" "distinct released"
  shows "backend_kept b b'"
proof (cases "set (restored @ released) \<subseteq> live_pages b")
  case False
  then have "validate_pages b (restored @ released) \<noteq> Ok ()" using validate_pages_Ok by blast
  with assms(1) show ?thesis by (cases "validate_pages b (restored @ released)") (auto simp: abort_append_def)
next
  case True
  obtain r1 b1 where rt: "restore_transaction b tx sts = (r1, b1)" by (cases "restore_transaction b tx sts")
  note rk = restore_transaction_kept [OF rt]
  have v: "validate_pages b (restored @ released) = Ok ()" using True validate_pages_Ok by blast
  have "b' = b1 \<or> (\<exists>r. settle b1 tx t restored released pos w c k = (r, b', tx', t'))"
    using assms(1) v rt
    by (cases r1; cases s) (auto simp: abort_append_def settle_def)
  with rk settle_kept [OF _ assms(2)] True show ?thesis
    by (auto intro: backend_kept_trans)
qed

lemma commit_kept:
  assumes "commit_append b tx t commit sts s w c k = (r, b', tx', t')" "distinct (bac_released commit)"
  shows "backend_kept b b'"
proof -
  let ?ps = "bac_committed commit @ bac_sealed commit @ bac_released commit"
  show ?thesis
  proof (cases "set ?ps \<subseteq> live_pages b")
    case False
    then have "validate_pages b ?ps \<noteq> Ok ()" using validate_pages_Ok by blast
    with assms(1) show ?thesis by (cases "validate_pages b ?ps") (auto simp: commit_append_def)
  next
    case True
    let ?rewind = "bac_rows commit < reserved_rows tx \<and> (case existing_tail tx of None \<Rightarrow> False
       | Some tail \<Rightarrow> tail_rows tail + bac_rows commit \<le> COMPACT_TAIL_ROWS)"
    obtain r1 b1 where rt: "(if ?rewind then restore_transaction b tx sts else (Ok (), b)) = (r1, b1)"
      by (cases "if ?rewind then restore_transaction b tx sts else (Ok (), b)")
    then have rk: "backend_kept b b1 \<and> live_pages b1 = live_pages b"
      using restore_transaction_kept by (auto split: if_splits)
    have v: "validate_pages b ?ps = Ok ()" using True validate_pages_Ok by blast
    have "b' = b1 \<or> (\<exists>r. settle b1 tx t (bac_committed commit) (bac_released commit) (bac_position commit) w c k
        = (r, b', tx', t'))"
      using assms(1) v rt
      by (cases r1; cases "if bac_released commit \<noteq> [] then s else Ok ()")
        (auto simp: commit_append_def settle_def Let_def)
    with rk settle_kept [OF _ assms(2)] True show ?thesis
      by (auto intro: backend_kept_trans)
  qed
qed

lemma copy_partial_kept:
  assumes "copy_partial_page b source n sts = (r, b')" "slots_ok b"
  shows "backend_kept b b'"
proof (cases "b' = b")
  case False
  with assms(1) obtain a b1 where al: "allocate_page b = (Ok a, b1)"
    and cp: "(case copy_layers (unat source) (unat (alloc_page a)) (be_pools b1) sts 0 of (r, pools) \<Rightarrow>
      let b = b1\<lparr>be_pools := pools\<rparr> in
      (case r of Inl e \<Rightarrow> (Err e, release_page b (alloc_page a)) | Inr _ \<Rightarrow> (Ok a, b))) = (r, b')"
    by (auto simp: copy_partial_page_def allocate_page_def Let_def try_result_def
        split: sum.splits if_splits prod.splits)
  obtain r1 pools where cl: "copy_layers (unat source) (unat (alloc_page a)) (be_pools b1) sts 0 = (r1, pools)"
    by (cases "copy_layers (unat source) (unat (alloc_page a)) (be_pools b1) sts 0")
  note k1 = allocate_kept [OF al] and k2 = backend_kept_pools [OF copy_layers_kept [OF cl]]
  have free: "be_free_slots b \<noteq> []" using al by (auto simp: allocate_page_def)
  have "alloc_page a \<in> live_pages b1" using allocate_slots_ok [OF assms(2) free] al by auto
  then have "alloc_page a \<in> live_pages (b1\<lparr>be_pools := pools\<rparr>)" by (simp add: live_pages_def)
  then have k3: "backend_kept (b1\<lparr>be_pools := pools\<rparr>) (release_page (b1\<lparr>be_pools := pools\<rparr>) (alloc_page a))"
    using backend_kept_release [of "[alloc_page a]"] by simp
  from cp cl have "b' = b1\<lparr>be_pools := pools\<rparr> \<or> b' = release_page (b1\<lparr>be_pools := pools\<rparr>) (alloc_page a)"
    by (auto simp: Let_def split: sum.splits)
  with backend_kept_trans [OF k1 k2] backend_kept_trans [OF _ k3] show ?thesis by blast
qed simp

text \<open>
  The life of a backend under its manager: any sequence of operations with any outcome of the device
  calls, and the kernels that write rows into the pools. The manager names a page at most once among
  those it gives back, and rolls back only a page it holds.
\<close>

inductive backend_step :: "Sm12xPageBackend \<Rightarrow> Sm12xPageBackend \<Rightarrow> bool" where
  step_allocate: "allocate_page b = (r, b') \<Longrightarrow> backend_step b b'"
| step_rollback: "p \<in> live_pages b \<Longrightarrow> rollback_page b p = Some b' \<Longrightarrow> backend_step b b'"
| step_retire: "distinct ps \<Longrightarrow> retire_pages b ps = (r', b') \<Longrightarrow> backend_step b b'"
| step_prepare: "prepare_append b pages sts = (tx_r, b') \<Longrightarrow> backend_step b b'"
| step_abort: "distinct released \<Longrightarrow>
    abort_append b tx t restored released pos sts2 s w c k = (r', b', tx', t') \<Longrightarrow> backend_step b b'"
| step_commit: "distinct (bac_released commit) \<Longrightarrow>
    commit_append b tx t commit sts2 s w c k = (r', b', tx', t') \<Longrightarrow> backend_step b b'"
| step_copy_partial: "copy_partial_page b source n sts3 = (r, b') \<Longrightarrow> backend_step b b'"
| step_kernels: "list_all2 opt_kept (be_pools b) pools \<Longrightarrow> backend_step b (b\<lparr>be_pools := pools\<rparr>)"

lemma backend_step_ok:
  "backend_step b b' \<Longrightarrow> backend_ok b \<Longrightarrow> backend_ok b' \<and> page_slots b' = page_slots b"
proof (induction rule: backend_step.induct)
  case (step_rollback p b b')
  then show ?case
    using backend_kept_release [of "[p]" b] backend_kept_ok
    by (auto simp: rollback_page_def split: if_splits)
next
  case (step_retire ps b r' b')
  then have "backend_kept b b'"
    using backend_kept_release [of ps b] validate_pages_Ok [of b ps]
    by (cases "validate_pages b ps") (auto simp: retire_pages_def)
  with step_retire show ?case using backend_kept_ok by blast
next
  case (step_copy_partial b source n sts3 r b')
  then show ?case using copy_partial_kept backend_kept_ok unfolding backend_ok_def by blast
next
  case (step_allocate b r b')
  then show ?case using allocate_kept backend_kept_ok by blast
next
  case (step_prepare b pages sts tx_r b')
  then show ?case using prepare_kept backend_kept_ok by blast
next
  case (step_abort released b tx t restored pos sts2 s w c k r' b' tx' t')
  then show ?case using abort_kept backend_kept_ok by blast
next
  case (step_commit commit b tx t sts2 s w c k r' b' tx' t')
  then show ?case using commit_kept backend_kept_ok by blast
next
  case (step_kernels b pools)
  then show ?case using backend_kept_pools backend_kept_ok by blast
qed

section \<open>The published table\<close>

definition table_ok :: "Sm12xPageTable \<Rightarrow> bool" where
  "table_ok t \<longleftrightarrow>
     length (pt_host t) = pt_page_capacity t \<and> length (pt_staging t) = pt_page_capacity t \<and>
     length (pt_device t) = pt_page_capacity t \<and> pt_page_capacity t \<le> usize_max \<and>
     (pt_device t = pt_host t \<or> pt_host t = replicate (pt_page_capacity t) (-1))"

lemma table_ok_new:
  assumes "page_table_new n st = Ok t" "n \<le> usize_max"
  shows "table_ok t \<and> pt_page_capacity t * SM12X_KV_PAGE_TOKENS \<ge> n"
proof -
  let ?d = "div_ceil n SM12X_KV_PAGE_TOKENS"
  have "n = 128 * (n div 128) + n mod 128" by simp
  then have "n \<le> ?d * 128" "?d \<le> n + 1"
    by (auto simp: div_ceil_def SM12X_KV_PAGE_TOKENS_def)
  moreover have "?d \<le> n" using assms(1) \<open>n = 128 * (n div 128) + n mod 128\<close>
    by (auto simp: div_ceil_def SM12X_KV_PAGE_TOKENS_def page_table_new_def)
  ultimately show ?thesis
    using assms by (auto simp: page_table_new_def table_ok_def result_simps Let_def SM12X_KV_PAGE_TOKENS_def
        split: if_splits)
qed

lemma update_Ok_cases:
  assumes "page_table_update t pages pos w c k = (Ok (), t')" "table_ok t"
  defines "staged \<equiv> pages @ replicate (pt_page_capacity t - length pages) (-1)"
  shows "length pages \<le> pt_page_capacity t \<and> pt_position t' = pos \<and> pt_page_capacity t' = pt_page_capacity t \<and>
    pt_host t' = staged \<and> length (pt_staging t') = pt_page_capacity t \<and>
    (if pt_host t = staged then pt_device t' = pt_device t else pt_device t' = staged)"
proof -
  from assms(1,2) have le: "length pages \<le> pt_page_capacity t" and w: "is_ok w"
    and u: "update_slots t pages (length pages) pos w c k = (Ok (), t')"
    by (cases w; auto simp: page_table_update_def update_slots_def split: if_splits)+
  have st: "take (length pages) (write_at (pt_staging t) 0 pages) @
      replicate (pt_page_capacity t - length pages) (-1) = staged"
    by (simp add: staged_def write_at_def)
  have len: "length (write_at (pt_staging t) 0 pages) = pt_page_capacity t"
    using le assms(2) by (simp add: table_ok_def)
  have sl: "length staged = pt_page_capacity t" using le by (simp add: staged_def)
  have cp: "copy_range_from_pinned (pt_device t) 0 staged c = device_write c (pt_device t) 0 staged" for c
    using sl assms(2) by (simp add: copy_range_from_pinned_def checked_add_def table_ok_def)
  show ?thesis
  proof (cases "pt_host t = staged")
    case True
    with u w le st len assms(2) show ?thesis
      by (auto simp: update_slots_def Let_def result_simps table_ok_def split: if_splits)
  next
    case False
    with u w le have "is_ok c \<and> is_ok k \<and> t' = t\<lparr>pt_staging := pt_host t, pt_device := write_at (pt_device t) 0 staged,
        pt_host := staged, pt_position := pos\<rparr>"
      by (cases c; cases k) (auto simp: update_slots_def Let_def result_simps st len cp split: if_splits)
    with False le sl assms(2) show ?thesis by (simp add: table_ok_def write_at_def)
  qed
qed

lemma page_table_update_total:
  assumes ok: "table_ok t" and fit: "length pages \<le> pt_page_capacity t"
    "pos \<le> pt_page_capacity t * SM12X_KV_PAGE_TOKENS"
  shows "\<exists>t'. page_table_update t pages pos (Ok ()) (Ok ()) (Ok ()) = (Ok (), t')"
proof -
  let ?staged = "pages @ replicate (pt_page_capacity t - length pages) (-1)"
  have st: "take (length pages) (write_at (pt_staging t) 0 pages) = pages"
    by (simp add: write_at_def)
  have len: "length (write_at (pt_staging t) 0 pages) = pt_page_capacity t"
    using fit ok by (simp add: table_ok_def)
  have "copy_range_from_pinned (pt_device t) 0 ?staged (Ok ()) = (Ok (), write_at (pt_device t) 0 ?staged)"
    using fit ok by (simp add: copy_range_from_pinned_def checked_add_def table_ok_def)
  then show ?thesis
    using fit by (simp add: page_table_update_def update_slots_def Let_def st len not_less)
qed

section \<open>The journal of an append\<close>

definition reuse_ok :: "Sm12xKvPagePool option \<Rightarrow> Sm12xKvTailSnapshot list \<Rightarrow> bool" where
  "reuse_ok p r \<longleftrightarrow> (\<forall>p' s. p = Some p' \<longrightarrow> s \<in> set r \<longrightarrow> snap_ok p' s)"

definition journal_ok :: "nat \<Rightarrow> Sm12xKvPagePool option \<Rightarrow> Sm12xKvTailSnapshot option \<Rightarrow> bool" where
  "journal_ok slot p s = rel_option (\<lambda>p s. holds_tail p slot s) p s"

lemma snapshot_tail_holds:
  assumes "snapshot_tail_on_stream p slot s st1 st2 = (Ok (), s')" "pool_ok p" "snap_ok p s"
  shows "holds_tail p slot s'"
proof -
  have "slot < pool_page_slots p" "st1 = Ok ()" "st2 = Ok ()"
    using assms(1) by (auto simp: snapshot_tail_on_stream_def check_slot_def result_simps Let_def split: if_splits)
  with assms snapshot_Ok [OF assms(2) _ assms(3), of slot] show ?thesis
    by (auto simp: holds_tail_def snap_ok_def)
qed

lemma snapshot_layers_journal:
  assumes "snapshot_layers slot ps rs sts i = (Ok snaps, rs')" "list_all2 reuse_ok ps rs"
    "\<forall>p \<in> set ps. pool_fits n p"
  shows "list_all2 (journal_ok slot) ps snaps"
  using assms
proof (induction ps arbitrary: rs i snaps rs')
  case (Cons p ps)
  then obtain r rest where rs: "rs = r # rest" and r: "reuse_ok p r" "list_all2 reuse_ok ps rest"
    by (auto simp: list_all2_Cons1)
  obtain res rest' where rec: "snapshot_layers slot ps rest sts (Suc i) = (res, rest')"
    by (cases "snapshot_layers slot ps rest sts (Suc i)")
  show ?case
  proof (cases p)
    case None
    with Cons.prems(1) rs rec obtain tl where "res = Ok tl" "snaps = None # tl" by (auto simp: result_simps)
    with Cons.IH [OF _ r(2)] rec Cons.prems(3) None show ?thesis by (simp add: journal_ok_def)
  next
    case (Some q)
    obtain ak av ck cv where st: "sts i = (ak, av, ck, cv)" by (cases "sts i")
    define fresh where "fresh = (if r = [] then pool_tail_snapshot q ak av else Ok (last r))"
    from Cons.prems(1) rs rec Some st obtain s s' tl where f: "fresh = Ok s"
      and t: "snapshot_tail_on_stream q slot s ck cv = (Ok (), s')" and tl: "res = Ok tl" "snaps = Some s' # tl"
      by (auto simp: result_simps try_result_def fresh_def Let_def split: prod.splits sum.splits if_splits)
    have "snap_ok q s"
      using f r(1) Some tail_snapshot_new_ok [of q ak av s] by (auto simp: fresh_def reuse_ok_def split: if_splits)
    with snapshot_tail_holds [OF t] Cons.prems(3) Some have "holds_tail q slot s'" by (simp add: pool_fits_def)
    with Cons.IH [OF _ r(2)] rec tl Cons.prems(3) Some show ?thesis by (simp add: journal_ok_def)
  qed
qed simp

lemma prepare_append_tail:
  assumes "prepare_append b pages sts = (Ok tx, b1)" "existing_tail tx = Some tail"
  obtains page :: BackendAppendPage and snaps reuse where "tail = \<lparr>tail_slot = unat (bap_page page),
      tail_rows = bap_page_offset page mod COMPACT_TAIL_ROWS, tail_snapshots = snaps\<rparr>"
    "validate_page b (bap_page page) = Ok ()"
    "snapshot_layers (unat (bap_page page)) (be_pools b) (be_snapshot_reuse b) sts 0 = (Ok snaps, reuse)"
proof -
  from assms obtain page where f: "find bap_existed pages = Some page"
    by (cases "find bap_existed pages"; cases "sum_rows 0 pages") (auto simp: prepare_append_def)
  obtain res reuse where s: "snapshot_layers (unat (bap_page page)) (be_pools b) (be_snapshot_reuse b) sts 0 = (res, reuse)"
    by (cases "snapshot_layers (unat (bap_page page)) (be_pools b) (be_snapshot_reuse b) sts 0")
  show thesis
    using assms f s that [of page _ reuse]
    by (cases "sum_rows 0 pages"; cases "validate_page b (bap_page page)"; cases res)
      (auto simp: prepare_append_def Let_def split: if_splits)
qed

definition layer_restored ::
  "nat \<Rightarrow> nat \<Rightarrow> Sm12xKvPagePool option \<Rightarrow> Sm12xKvPagePool option \<Rightarrow> Sm12xKvPagePool option \<Rightarrow> bool" where
  "layer_restored slot rows p q q' =
     (case (p, q, q') of
        (None, None, None) \<Rightarrow> True
      | (Some p, Some q, Some q') \<Rightarrow> tail_restored p slot rows q q'
      | _ \<Rightarrow> False)"

lemma restore_layers_journal:
  assumes "list_all2 (journal_ok slot) ps snaps" "list_all2 opt_kept ps qs" "\<forall>p \<in> set ps. pool_fits n p"
    "slot < n" "rows \<le> V_TOKEN_BLOCK"
  shows "\<exists>qs'. restore_layers slot rows qs snaps (\<lambda>_. (Ok (), Ok ())) i = (Ok (), qs') \<and>
    length qs' = length ps \<and> (\<forall>j < length ps. layer_restored slot rows (ps ! j) (qs ! j) (qs' ! j))"
  using assms
proof (induction ps arbitrary: snaps qs i)
  case (Cons p ps)
  then obtain s snaps' q qs' where d: "snaps = s # snaps'" "qs = q # qs'"
    and ps: "journal_ok slot p s" "list_all2 (journal_ok slot) ps snaps'" "opt_kept p q" "list_all2 opt_kept ps qs'"
    by (auto simp: list_all2_Cons1)
  from Cons.IH [OF ps(2,4) _ Cons.prems(4,5), of "Suc i"] Cons.prems(3) obtain rest where
    rest: "restore_layers slot rows qs' snaps' (\<lambda>_. (Ok (), Ok ())) (Suc i) = (Ok (), rest)"
    "length rest = length ps" "\<forall>j < length ps. layer_restored slot rows (ps ! j) (qs' ! j) (rest ! j)" by auto
  have "\<exists>q1. restore_layers slot rows (q # qs') (s # snaps') (\<lambda>_. (Ok (), Ok ())) i = (Ok (), q1 # rest) \<and>
      layer_restored slot rows p q q1"
  proof (cases p)
    case None
    with ps have "s = None" "q = None" by (auto simp: journal_ok_def opt_kept_def)
    with None rest show ?thesis by (simp add: layer_restored_def)
  next
    case (Some p0)
    with ps obtain s0 q0 where sq: "s = Some s0" "q = Some q0" "holds_tail p0 slot s0" "pool_kept p0 q0"
      by (cases s; cases q) (auto simp: journal_ok_def opt_kept_def)
    with Some Cons.prems(3,4) have "pool_ok p0" "slot < pool_page_slots p0" by (auto simp: pool_fits_def)
    with restore_from_snapshot [OF this Cons.prems(5), of q0 s0] sq Some rest show ?thesis
      by (auto simp: pool_kept_def layer_restored_def)
  qed
  with rest d show ?case by (auto simp: nth_Cons' less_Suc_eq_0_disj)
qed simp

section \<open>Properties\<close>

text \<open>C8: Through any life of a backend no physical slot is lost or handed out twice: the free list
  has no duplicates and holds exactly the slots not in use, free and live slots add up to the slots
  of the pool, and an allocation fails only when every slot is live and otherwise returns a slot of
  the pool that is not live.\<close>

theorem backend_slots_conserved:
  assumes "backend_new_heterogeneous geometries n sts = Ok b0" "backend_step\<^sup>*\<^sup>* b0 b"
  shows "distinct (be_free_slots b) \<and> set (be_free_slots b) \<inter> live_pages b = {} \<and>
    length (be_free_slots b) + card (live_pages b) = n \<and>
    (case fst (allocate_page b) of
       Inl e \<Rightarrow> card (live_pages b) = n
     | Inr a \<Rightarrow> alloc_page a \<notin> live_pages b \<and> unat (alloc_page a) < n)"
proof -
  have "backend_ok b \<and> page_slots b = page_slots b0"
    using assms(2)
    by (induction rule: rtranclp_induct) (use backend_new_ok [OF assms(1)] backend_step_ok in auto)
  then have ok: "slots_ok b" and n: "page_slots b = n"
    using backend_new_ok [OF assms(1)] by (auto simp: backend_ok_def)
  have "case fst (allocate_page b) of Inl e \<Rightarrow> card (live_pages b) = n
     | Inr a \<Rightarrow> alloc_page a \<notin> live_pages b \<and> unat (alloc_page a) < n"
  proof (cases "be_free_slots b = []")
    case True
    with slots_partition [OF ok] n show ?thesis by (simp add: allocate_page_def)
  next
    case False
    with allocate_slots_ok [OF ok] obtain a b' where a: "allocate_page b = (Ok a, b')"
      "alloc_page a \<notin> live_pages b" "live_pages b' = insert (alloc_page a) (live_pages b)"
      "page_slots b' = page_slots b" by blast
    then have "alloc_page a \<in> live_pages b'" by simp
    with a n show ?thesis by (simp add: live_pages_def page_slots_def)
  qed
  moreover have "set (be_free_slots b) \<inter> live_pages b = {}"
    using ok by (auto simp: slots_ok_def live_pages_def)
  ultimately show ?thesis using ok n slots_partition [OF ok] by (simp add: slots_ok_def)
qed

definition sample_backend :: Sm12xPageBackend where
  "sample_backend = \<lparr>be_pools = [None], be_snapshot_reuse = [[]], be_free_slots = [1, 0],
     be_used_slots = [False, False], be_ever_used_slots = [False, False], be_page_bytes = 0\<rparr>"

lemma sample_backend_new: "backend_new_heterogeneous [None] 2 [] = Ok sample_backend"
proof -
  have "[0..<2] = [0, 1 :: nat]" "replicate 2 False = [False, False]"
    by (simp_all add: upt_rec numeral_2_eq_2)
  then show ?thesis by (simp add: backend_new_heterogeneous_def sample_backend_def u32_max_def)
qed

theorem backend_slots_conserved_witness:
  "length (be_free_slots (snd (allocate_page sample_backend))) +
    card (live_pages (snd (allocate_page sample_backend))) = 2"
proof -
  have "backend_step\<^sup>*\<^sup>* sample_backend (snd (allocate_page sample_backend))"
    by (rule r_into_rtranclp, rule step_allocate [where r = "fst (allocate_page sample_backend)"]) simp
  from backend_slots_conserved [OF sample_backend_new this] show ?thesis by simp
qed

text \<open>As long as fewer slots are live than the pool has, allocations keep succeeding: with \<open>k\<close>
  slots to spare, \<open>k\<close> successive allocations return \<open>k\<close> different pages, none of them live before.\<close>

theorem backend_alloc_many:
  assumes "slots_ok b" "card (live_pages b) + k \<le> page_slots b"
  shows "\<exists>ps b'. length ps = k \<and> distinct ps \<and> set ps \<inter> live_pages b = {} \<and>
    live_pages b' = live_pages b \<union> set ps \<and> slots_ok b' \<and>
    ((\<lambda>b b'. \<exists>p. backend_alloc b = (Ok p, b')) ^^ k) b b'"
  using sm12x.alloc_many [OF assms] by blast

theorem backend_alloc_many_witness:
  "\<exists>ps b'. length ps = 2 \<and> distinct ps \<and>
    ((\<lambda>b b'. \<exists>p. backend_alloc b = (Ok p, b')) ^^ 2) sample_backend b' \<and> live_pages b' = set ps"
proof -
  have "slots_ok sample_backend" "live_pages sample_backend = {}" "page_slots sample_backend = 2"
    using backend_new_ok [OF sample_backend_new] by (simp_all add: backend_ok_def)
  with backend_alloc_many [of sample_backend 2] show ?thesis by auto
qed



text \<open>The comparison with what was published last is only sound while no event record fails. After
  an upload whose event could not be recorded, the operation reports the error and the host copy stays
  behind the device; publishing the previous pages again then succeeds without an upload and leaves the
  pages of the failed operation on the device.\<close>

theorem stale_table_after_failed_record:
  assumes "p \<noteq> q"
  defines "t \<equiv> \<lparr>pt_host = [p], pt_staging = [-1], pt_device = [p], pt_page_capacity = 1, pt_position = 1\<rparr>"
  shows "table_ok t \<and> (\<exists>t1 t2. update_slots t [q] 1 2 (Ok ()) (Ok ()) (Err e) = (Err e, t1) \<and>
    update_slots t1 [p] 1 1 (Ok ()) (Ok ()) (Ok ()) = (Ok (), t2) \<and> pt_position t2 = 1 \<and> pt_device t2 = [q])"
  using assms(1)
  by (simp add: t_def table_ok_def update_slots_def Let_def SM12X_KV_PAGE_TOKENS_def copy_range_from_pinned_def
      checked_add_def usize_max_def write_at_def)

theorem stale_table_after_failed_record_witness:
  "\<exists>t t1 t2. table_ok t \<and> pt_device t = [7] \<and>
    update_slots t [9] 1 2 (Ok ()) (Ok ()) (Err (Cuda ''cudaEventRecord'')) = (Err (Cuda ''cudaEventRecord''), t1) \<and>
    update_slots t1 [7] 1 1 (Ok ()) (Ok ()) (Ok ()) = (Ok (), t2) \<and> pt_device t2 = [9]"
  using stale_table_after_failed_record [of 7 9 "Cuda ''cudaEventRecord''"] by auto


definition sample_append :: "BackendAppendPage list" where
  "sample_append = [\<lparr>bap_page = 0, bap_rows = 2, bap_page_offset = 3, bap_existed = True\<rparr>]"

definition paged_backend :: "Sm12xKvPagePool \<Rightarrow> Sm12xPageBackend" where
  "paged_backend p = \<lparr>be_pools = [Some p], be_snapshot_reuse = [[]], be_free_slots = [1],
     be_used_slots = [True, False], be_ever_used_slots = [True, False], be_page_bytes = pool_page_bytes p\<rparr>"

lemma paged_backend_ok:
  assumes "pool_ok p" "pool_page_slots p = 2"
  shows "backend_ok (paged_backend p)" "list_all2 reuse_ok (be_pools (paged_backend p)) (be_snapshot_reuse (paged_backend p))"
    "0 \<in> live_pages (paged_backend p)"
proof -
  have "s = 1 \<longleftrightarrow> unat s < 2 \<and> \<not> [True, False] ! unat s" for s :: u32
    by (auto simp: less_2_cases_iff word_unat_eq_iff)
  then have "slots_ok (paged_backend p)"
    by (auto simp: slots_ok_def paged_backend_def u32_max_def less_2_cases_iff less_Suc_eq)
  with assms show "backend_ok (paged_backend p)"
    by (simp add: backend_ok_def paged_backend_def pool_fits_def page_slots_def)
qed (simp_all add: paged_backend_def reuse_ok_def live_pages_def)


end
