(* ===== verification/Tool_Protocols.thy ===== *)
theory Tool_Protocols
  imports Prelude "HOL-Library.AList" "HOL-Library.Char_ord" "HOL-Library.List_Lexorder"
begin

text \<open>
  The parsers for the body of a generated tool call: the second half of
  \<open>crates/eider-runtime/src/chat_output.rs\<close> and \<open>chat_output/lfm2.rs\<close>. A body is the text between
  the opening and the closing marker of one of five protocols; the parsers turn it into function
  calls with named arguments, or refuse it.

  \<^item> \<open>Value\<close> is \<open>serde_json::Value\<close>. Numbers are those of \<open>serde_json\<close> and stay a type parameter;
    an object keeps its fields in insertion order. \<open>serde_json::from_str\<close> is third-party code, so
    the parsers take it as the argument \<open>from_str\<close>, \<open>None\<close> for text that is not JSON.
  \<^item> \<open>BTreeMap<String, _>\<close> is an association list kept in ascending key order by \<open>btree_insert\<close>;
    \<open>BTreeSet<String>\<close> is the list of its elements.
  \<^item> Strings are byte lists. Every delimiter of the protocols is ASCII and every white space
    character starts with a byte that never occurs inside another character, so the scans over
    characters are scans over bytes.
  \<^item> The code's \<open>detail\<close> texts, and with them the arguments that occur only in a \<open>detail\<close>, are left
    out; the label of each error is kept.
  \<^item> A \<open>loop\<close> is a recursive function on the rest of the body, which each round shortens.
\<close>

section \<open>Maps and values\<close>

fun btree_insert :: "'k :: linorder \<Rightarrow> 'v \<Rightarrow> ('k \<times> 'v) list \<Rightarrow> ('k \<times> 'v) list" where
  "btree_insert k v [] = [(k, v)]"
| "btree_insert k v ((k', v') # m) =
     (if k < k' then (k, v) # (k', v') # m
      else if k = k' then (k, v) # m
      else (k', v') # btree_insert k v m)"

definition btree_of :: "('k :: linorder \<times> 'v) list \<Rightarrow> ('k \<times> 'v) list" where
  "btree_of xs = fold (\<lambda>(k, v) m. btree_insert k v m) xs []"

lemma map_of_btree_insert [simp]: "map_of (btree_insert k v m) = (map_of m)(k \<mapsto> v)"
  by (induction k v m rule: btree_insert.induct) (auto simp: fun_eq_iff)

lemma set_btree_insert_keys [simp]: "fst ` set (btree_insert k v m) = insert k (fst ` set m)"
  by (induction k v m rule: btree_insert.induct) auto

text \<open>The representation invariant of a \<open>BTreeMap\<close>.\<close>

definition btree_ok :: "('k :: linorder \<times> 'v) list \<Rightarrow> bool" where
  "btree_ok m \<longleftrightarrow> sorted_wrt (<) (map fst m)"

lemma btree_ok_Nil [simp]: "btree_ok []"
  by (simp add: btree_ok_def)

lemma btree_ok_insert [intro]: "btree_ok m \<Longrightarrow> btree_ok (btree_insert k v m)"
proof (induction k v m rule: btree_insert.induct)
  case (2 k v k' v' m)
  have "\<forall>x \<in> set (map fst (btree_insert k v m)). x = k \<or> x \<in> set (map fst m)"
    using set_btree_insert_keys [of k v m] by auto
  with 2 show ?case by (force simp: btree_ok_def)
qed (simp add: btree_ok_def)

lemma btree_ok_of: "btree_ok (btree_of xs)"
proof -
  have "btree_ok m \<Longrightarrow> btree_ok (fold (\<lambda>(k, v) m. btree_insert k v m) xs m)" for m
    by (induction xs arbitrary: m) auto
  then show ?thesis by (simp add: btree_of_def)
qed

text \<open>Two maps with the same lookups are the same map.\<close>

lemma btree_ok_ext:
  assumes "btree_ok m" "btree_ok m'" "map_of m = map_of m'"
  shows "m = m'"
  using assms
proof (intro map_sorted_distinct_set_unique [where f = fst])
  have d: "distinct (map fst m)" "distinct (map fst m')"
    using assms by (auto simp: btree_ok_def strict_sorted_iff)
  then show "set m = set m'"
    using assms(3) by (simp add: map_of_inject_set)
  show "inj_on fst (set m \<union> set m')"
    using d \<open>set m = set m'\<close> by (simp add: distinct_map)
qed (auto simp: btree_ok_def strict_sorted_iff)

datatype 'n Value =
    JNull
  | JBool bool
  | JNumber 'n
  | JString string
  | JArray "'n Value list"
  | JObject "(string \<times> 'n Value) list"

record 'n ChatFunctionCall =
  call_name :: string
  call_arguments :: "(string \<times> 'n Value) list"

record ToolParameters =
  param_names :: "string list"
  param_required :: "string list"

type_synonym 'n from_str = "string \<Rightarrow> 'n Value option"

definition as_object :: "'n Value \<Rightarrow> (string \<times> 'n Value) list option" where
  "as_object v = (case v of JObject kvs \<Rightarrow> Some kvs | _ \<Rightarrow> None)"

definition as_str :: "'n Value \<Rightarrow> string option" where
  "as_str v = (case v of JString s \<Rightarrow> Some s | _ \<Rightarrow> None)"

section \<open>String operations\<close>

definition strip_prefix :: "string \<Rightarrow> string \<Rightarrow> string option" where
  "strip_prefix p s = (if prefix p s then Some (drop (length p) s) else None)"

definition strip_suffix :: "string \<Rightarrow> string \<Rightarrow> string option" where
  "strip_suffix p s = (if suffix p s then Some (take (length s - length p) s) else None)"

text \<open>
  \<open>find\<close> followed by the slices before and after the occurrence, and the same with \<open>rfind\<close>.
\<close>

definition split_once :: "string \<Rightarrow> string \<Rightarrow> (string \<times> string) option" where
  "split_once p s = map_option (\<lambda>i. (take i s, drop (i + length p) s)) (find_sub p s)"

definition rsplit_once :: "string \<Rightarrow> string \<Rightarrow> (string \<times> string) option" where
  "rsplit_once p s = map_option (\<lambda>(a, b). (rev b, rev a)) (split_once (rev p) (rev s))"

text \<open>\<open>find\<close> with a predicate: the first index whose tail satisfies \<open>p\<close>.\<close>

fun find_tail :: "('a list \<Rightarrow> bool) \<Rightarrow> 'a list \<Rightarrow> nat option" where
  "find_tail p [] = None"
| "find_tail p (x # xs) = (if p (x # xs) then Some 0 else map_option Suc (find_tail p xs))"

text \<open>\<open>char::is_whitespace\<close>: the UTF-8 encodings of the characters with property \<open>White_Space\<close>.\<close>

definition byte :: "nat \<Rightarrow> char" where
  "byte n = char_of n"

definition white_space :: "string list" where
  "white_space =
     map (\<lambda>n. [byte n]) [0x09, 0x0A, 0x0B, 0x0C, 0x0D, 0x20] @
     [[byte 0xC2, byte 0x85], [byte 0xC2, byte 0xA0], [byte 0xE1, byte 0x9A, byte 0x80]] @
     map (\<lambda>n. [byte 0xE2, byte 0x80, byte n])
       [0x80, 0x81, 0x82, 0x83, 0x84, 0x85, 0x86, 0x87, 0x88, 0x89, 0x8A, 0xA8, 0xA9, 0xAF] @
     [[byte 0xE2, byte 0x81, byte 0x9F], [byte 0xE3, byte 0x80, byte 0x80]]"

text \<open>\<open>trim_with ws s\<close> removes elements of \<open>ws\<close> from the front of \<open>s\<close> for as long as it can.\<close>

function trim_with :: "string list \<Rightarrow> string \<Rightarrow> string" where
  "trim_with ws s =
     (case find (\<lambda>w. w \<noteq> [] \<and> prefix w s) ws of
        None \<Rightarrow> s
      | Some w \<Rightarrow> trim_with ws (drop (length w) s))"
  by pat_completeness auto
termination
proof (relation "measure (length \<circ> snd)")
  fix ws s w
  assume "find (\<lambda>w. w \<noteq> [] \<and> prefix w s) ws = Some w"
  then have "w \<noteq> []" "length w \<le> length s"
    by (auto simp: find_Some_iff dest: prefix_length_le)
  then show "((ws, drop (length w) s), (ws, s)) \<in> measure (length \<circ> snd)"
    by (cases w) auto
qed simp

declare trim_with.simps [simp del]

definition trim_start :: "string \<Rightarrow> string" where
  "trim_start s = trim_with white_space s"

definition trim_end :: "string \<Rightarrow> string" where
  "trim_end s = rev (trim_with (map rev white_space) (rev s))"

definition trim :: "string \<Rightarrow> string" where
  "trim s = trim_start (trim_end s)"

text \<open>\<open>trim_start_matches\<close> and \<open>trim_matches\<close> with a set of ASCII characters.\<close>

definition trim_start_matches :: "char list \<Rightarrow> string \<Rightarrow> string" where
  "trim_start_matches cs s = dropWhile (\<lambda>c. c \<in> set cs) s"

definition trim_matches :: "char list \<Rightarrow> string \<Rightarrow> string" where
  "trim_matches cs s = rev (dropWhile (\<lambda>c. c \<in> set cs) (rev (trim_start_matches cs s)))"

abbreviation newline :: char where "newline \<equiv> CHR 0x0A"
abbreviation carriage_return :: char where "carriage_return \<equiv> CHR 0x0D"
abbreviation double_quote :: char where "double_quote \<equiv> CHR 0x22"
abbreviation single_quote :: char where "single_quote \<equiv> CHR 0x27"
abbreviation backslash :: char where "backslash \<equiv> CHR 0x5C"

definition trim_protocol_whitespace_start :: "string \<Rightarrow> string" where
  "trim_protocol_whitespace_start input =
     trim_start_matches [CHR '' '', CHR 0x09, carriage_return, newline] input"

definition strip_protocol_newlines :: "string \<Rightarrow> string" where
  "strip_protocol_newlines v =
     (let v = (case strip_prefix [carriage_return, newline] v of
                 Some r \<Rightarrow> r
               | None \<Rightarrow> (case strip_prefix [newline] v of Some r \<Rightarrow> r | None \<Rightarrow> v)) in
      case strip_suffix [carriage_return, newline] v of
        Some r \<Rightarrow> r
      | None \<Rightarrow> (case strip_suffix [newline] v of Some r \<Rightarrow> r | None \<Rightarrow> v))"

definition is_ascii_alphanumeric :: "char \<Rightarrow> bool" where
  "is_ascii_alphanumeric c =
     (let n = (of_char c :: nat) in
      48 \<le> n \<and> n \<le> 57 \<or> 65 \<le> n \<and> n \<le> 90 \<or> 97 \<le> n \<and> n \<le> 122)"

definition protocol_name_char :: "char \<Rightarrow> bool" where
  "protocol_name_char c = (is_ascii_alphanumeric c \<or> c \<in> set ''_-.'')"

definition valid_name :: "string \<Rightarrow> bool" where
  "valid_name n = (n \<noteq> [] \<and> list_all protocol_name_char n)"

abbreviation tool_call_error :: error where "tool_call_error \<equiv> Format ''chat tool call''"

definition validate_protocol_name :: "string \<Rightarrow> unit result" where
  "validate_protocol_name n = (if valid_name n then Ok () else Err tool_call_error)"

text \<open>The lengths that the loops below go by.\<close>

named_theorems shrink \<open>how much shorter a string operation leaves its argument\<close>

lemma strip_prefix_Some: "strip_prefix p s = Some r \<longleftrightarrow> s = p @ r"
  by (auto simp: strip_prefix_def prefix_def)

lemma strip_suffix_Some: "strip_suffix p s = Some r \<longleftrightarrow> s = r @ p"
  by (auto simp: strip_suffix_def suffix_def)

lemma strip_prefix_length [shrink]: "strip_prefix p s = Some r \<Longrightarrow> length s = length p + length r"
  by (simp add: strip_prefix_Some)

lemma strip_suffix_length [shrink]: "strip_suffix p s = Some r \<Longrightarrow> length s = length r + length p"
  by (simp add: strip_suffix_Some)

lemma split_once_Some:
  assumes "split_once p s = Some (a, b)"
  shows "s = a @ p @ b" and "\<And>i. occurs_at p s i \<Longrightarrow> length a \<le> i"
proof -
  from assms obtain i where i: "find_sub p s = Some i" and ab: "a = take i s" "b = drop (i + length p) s"
    by (auto simp: split_once_def)
  from find_sub_Some [OF i] have occ: "occurs_at p s i" and least: "\<forall>j < i. \<not> occurs_at p s j"
    by auto
  then have "p = take (length p) (drop i s)"
    by (simp add: occurs_at_take)
  then show "s = a @ p @ b"
    by (metis ab append_take_drop_id drop_drop add.commute)
  have "length a = i" using ab occurs_at_length [OF occ] by simp
  then show "length a \<le> j" if "occurs_at p s j" for j
    using least that by (meson not_le_imp_less)
qed

lemma split_once_length [shrink]:
  "split_once p s = Some (a, b) \<Longrightarrow> length s = length a + length p + length b"
  by (drule split_once_Some(1)) simp

lemma split_once_None: "split_once p s = None \<longleftrightarrow> (\<forall>i. \<not> occurs_at p s i)"
  by (simp add: split_once_def find_sub_None)

lemma trim_with_length: "length (trim_with ws s) \<le> length s"
proof (induction ws s rule: trim_with.induct)
  case (1 ws s)
  then show ?case
    by (subst trim_with.simps) (force split: option.split)
qed

lemma trim_start_length: "length (trim_start s) \<le> length s"
  by (simp add: trim_start_def trim_with_length)

lemma trim_end_length: "length (trim_end s) \<le> length s"
  using trim_with_length [of "map rev white_space" "rev s"] by (simp add: trim_end_def)

lemma trim_length: "length (trim s) \<le> length s"
  unfolding trim_def using trim_start_length trim_end_length order_trans by blast

lemma trim_start_matches_length: "length (trim_start_matches cs s) \<le> length s"
  by (simp add: trim_start_matches_def length_dropWhile_le)

lemma trim_protocol_whitespace_start_length:
  "length (trim_protocol_whitespace_start s) \<le> length s"
  by (simp add: trim_protocol_whitespace_start_def trim_start_matches_length)

lemma find_tail_le [shrink]: "find_tail p s = Some i \<Longrightarrow> i < length s"
  by (induction s arbitrary: i) (auto split: if_splits)

section \<open>Tags with attributes: DSML and ATEM\<close>

definition fullwidth_bar :: string where
  "fullwidth_bar = [byte 0xEF, byte 0xBD, byte 0x9C]"

definition dsml :: string where
  "dsml = fullwidth_bar @ ''DSML'' @ fullwidth_bar"

definition DSML_INVOKE_OPEN :: string where "DSML_INVOKE_OPEN = ''<'' @ dsml @ ''invoke''"
definition DSML_INVOKE_CLOSE :: string where "DSML_INVOKE_CLOSE = ''</'' @ dsml @ ''invoke>''"
definition DSML_PARAMETER_OPEN :: string where "DSML_PARAMETER_OPEN = ''<'' @ dsml @ ''parameter''"
definition DSML_PARAMETER_CLOSE :: string where "DSML_PARAMETER_CLOSE = ''</'' @ dsml @ ''parameter>''"
definition ATEM_INVOKE_OPEN :: string where "ATEM_INVOKE_OPEN = ''<atem:invoke''"
definition ATEM_INVOKE_CLOSE :: string where "ATEM_INVOKE_CLOSE = ''</atem:invoke>''"
definition ATEM_PARAMETER_OPEN :: string where "ATEM_PARAMETER_OPEN = ''<atem:parameter''"
definition ATEM_PARAMETER_CLOSE :: string where "ATEM_PARAMETER_CLOSE = ''</atem:parameter>''"

lemmas tag_markers =
  DSML_INVOKE_OPEN_def DSML_INVOKE_CLOSE_def DSML_PARAMETER_OPEN_def DSML_PARAMETER_CLOSE_def
  ATEM_INVOKE_OPEN_def ATEM_INVOKE_CLOSE_def ATEM_PARAMETER_OPEN_def ATEM_PARAMETER_CLOSE_def

definition starts_with_whitespace :: "string \<Rightarrow> bool" where
  "starts_with_whitespace s = list_ex (\<lambda>w. prefix w s) white_space"

definition is_ascii_whitespace :: "char \<Rightarrow> bool" where
  "is_ascii_whitespace c \<longleftrightarrow> c \<in> set [CHR '' '', CHR 0x09, newline, CHR 0x0C, carriage_return]"

text \<open>
  \<open>insert(..).is_some()\<close> is an error in every parser: an attribute, a parameter and an argument may
  be given once.
\<close>

definition insert_new :: "error \<Rightarrow> string \<Rightarrow> 'v \<Rightarrow> (string \<times> 'v) list \<Rightarrow> (string \<times> 'v) list result" where
  "insert_new e k v m = (if map_of m k = None then Ok (btree_insert k v m) else Err e)"

lemma insert_new_Ok [simp]:
  "insert_new e k v m = Ok m' \<longleftrightarrow> map_of m k = None \<and> m' = btree_insert k v m"
  by (auto simp: insert_new_def)

function parse_dsml_attributes :: "string \<Rightarrow> (string \<times> string) list \<Rightarrow> (string \<times> string) list result"
where
  "parse_dsml_attributes input attributes =
     (let remaining = trim_start input in
      if remaining = [] then Ok attributes else
      let name_end = (case find_tail (\<lambda>t. prefix ''='' t \<or> starts_with_whitespace t) remaining of
                        Some i \<Rightarrow> i
                      | None \<Rightarrow> length remaining);
          attribute = take name_end remaining in
      bind_result (validate_protocol_name attribute) (\<lambda>_.
      bind_result (ok_or (strip_prefix ''='' (trim_start (drop name_end remaining))) tool_call_error)
        (\<lambda>after_equals.
      bind_result (ok_or (strip_prefix [double_quote] (trim_start after_equals)) tool_call_error)
        (\<lambda>after_quote.
      bind_result (ok_or (split_once [double_quote] after_quote) tool_call_error) (\<lambda>(v, rest).
      bind_result (insert_new tool_call_error attribute v attributes) (\<lambda>attributes.
        parse_dsml_attributes rest attributes))))))"
  by pat_completeness auto
termination
proof (relation "measure (length \<circ> fst)")
  fix input :: string and remaining name_end after_equals after_quote pair v rest attributes attributes'
  assume "remaining = trim_start input"
    and eq: "ok_or (strip_prefix ''='' (trim_start (drop name_end remaining))) tool_call_error = Ok after_equals"
    and q: "ok_or (strip_prefix [double_quote] (trim_start after_equals)) tool_call_error = Ok after_quote"
    and v: "ok_or (split_once [double_quote] after_quote) tool_call_error = Ok pair"
      "(v, rest) = pair"
  then have "length rest < length after_quote" "length after_quote < length (trim_start after_equals)"
    "length after_equals < length (trim_start (drop name_end remaining))"
    by (auto dest!: shrink)
  then have "length rest < length input"
    using trim_start_length [of after_equals] trim_start_length [of "drop name_end remaining"]
      trim_start_length [of input] \<open>remaining = trim_start input\<close> by simp
  then show "((rest, attributes'), (input, attributes)) \<in> measure (length \<circ> fst)"
    by simp
qed simp

declare parse_dsml_attributes.simps [simp del]

definition parse_dsml_open_tag :: "string \<Rightarrow> string \<Rightarrow> ((string \<times> string) list \<times> string) result" where
  "parse_dsml_open_tag input marker =
     bind_result (ok_or (strip_prefix marker input) tool_call_error) (\<lambda>tag.
       if \<not> (tag \<noteq> [] \<and> (hd tag = CHR ''>'' \<or> is_ascii_whitespace (hd tag)))
       then Err tool_call_error
       else bind_result (ok_or (split_once ''>'' tag) tool_call_error) (\<lambda>(inside, body).
         bind_result (parse_dsml_attributes inside []) (\<lambda>attributes. Ok (attributes, body))))"

definition take_dsml_attribute ::
  "(string \<times> string) list \<Rightarrow> string \<Rightarrow> (string \<times> (string \<times> string) list) result" where
  "take_dsml_attribute attributes key =
     bind_result (ok_or (map_of attributes key) tool_call_error) (\<lambda>v.
       Ok (v, filter (\<lambda>(k, _). k \<noteq> key) attributes))"

definition reject_dsml_attributes :: "(string \<times> string) list \<Rightarrow> unit result" where
  "reject_dsml_attributes attributes = (if attributes = [] then Ok () else Err tool_call_error)"

lemma parse_dsml_open_tag_length [shrink]:
  "parse_dsml_open_tag input marker = Ok (attributes, body) \<Longrightarrow>
   length body < length input \<and> length marker + length body < length input"
  by (auto simp: parse_dsml_open_tag_def result_simps split: if_splits dest!: shrink)

text \<open>The value of a DSML parameter is text or JSON, as its attribute \<open>string\<close> says.\<close>

definition dsml_value :: "'n from_str \<Rightarrow> string \<Rightarrow> string \<Rightarrow> 'n Value result" where
  "dsml_value from_str string_attribute raw =
     (if string_attribute = ''true'' then Ok (JString raw)
      else if string_attribute = ''false'' then ok_or (from_str raw) tool_call_error
      else Err tool_call_error)"

function parse_dsml_parameters ::
  "'n from_str \<Rightarrow> string \<Rightarrow> (string \<times> 'n Value) list \<Rightarrow> (string \<times> 'n Value) list result" where
  "parse_dsml_parameters from_str body args =
     (let remaining = trim_protocol_whitespace_start body in
      if remaining = [] then Ok args else
      bind_result (parse_dsml_open_tag remaining DSML_PARAMETER_OPEN) (\<lambda>(attributes, parameter_body).
      bind_result (take_dsml_attribute attributes ''name'') (\<lambda>(parameter, attributes).
      bind_result (take_dsml_attribute attributes ''string'') (\<lambda>(is_string, attributes).
      bind_result (reject_dsml_attributes attributes) (\<lambda>_.
      bind_result (validate_protocol_name parameter) (\<lambda>_.
      bind_result (ok_or (split_once DSML_PARAMETER_CLOSE parameter_body) tool_call_error)
        (\<lambda>(raw_value, rest).
      bind_result (dsml_value from_str is_string raw_value) (\<lambda>v.
      bind_result (insert_new tool_call_error parameter v args) (\<lambda>args.
        parse_dsml_parameters from_str rest args)))))))))"
  by pat_completeness auto
termination
proof (relation "measure (length \<circ> fst \<circ> snd)")
  fix from_str :: "'n from_str" and body parameter_body raw_value rest remaining :: string
    and opened pair attributes args args'
  assume "remaining = trim_protocol_whitespace_start body"
    and "parse_dsml_open_tag remaining DSML_PARAMETER_OPEN = Ok opened" "(attributes, parameter_body) = opened"
    and "ok_or (split_once DSML_PARAMETER_CLOSE parameter_body) tool_call_error = Ok pair"
      "(raw_value, rest) = pair"
  then have "length rest \<le> length parameter_body" "length parameter_body < length remaining"
    "length remaining \<le> length body"
    by (auto dest!: shrink intro: trim_protocol_whitespace_start_length)
  then show "((from_str, rest, args'), (from_str, body, args)) \<in> measure (length \<circ> fst \<circ> snd)"
    by simp
qed simp

declare parse_dsml_parameters.simps [simp del]

function parse_dsml_invocations ::
  "'n from_str \<Rightarrow> (string \<times> ToolParameters) list \<Rightarrow> string \<Rightarrow> 'n ChatFunctionCall list \<Rightarrow>
   'n ChatFunctionCall list result" where
  "parse_dsml_invocations from_str tool_parameters body calls =
     (let remaining = trim_protocol_whitespace_start body in
      if remaining = [] then Ok calls else
      bind_result (parse_dsml_open_tag remaining DSML_INVOKE_OPEN) (\<lambda>(attributes, invoke_body).
      bind_result (take_dsml_attribute attributes ''name'') (\<lambda>(function, attributes).
      bind_result (reject_dsml_attributes attributes) (\<lambda>_.
      bind_result (validate_protocol_name function) (\<lambda>_.
      if map_of tool_parameters function = None then Err tool_call_error else
      bind_result (ok_or (split_once DSML_INVOKE_CLOSE invoke_body) tool_call_error)
        (\<lambda>(inside, rest).
      bind_result (parse_dsml_parameters from_str inside []) (\<lambda>args.
        parse_dsml_invocations from_str tool_parameters rest
          (calls @ [\<lparr>call_name = function, call_arguments = args\<rparr>]))))))))"
  by pat_completeness auto
termination
proof (relation "measure (length \<circ> fst \<circ> snd \<circ> snd)")
  fix from_str :: "'n from_str" and body invoke_body inside rest remaining :: string
    and opened pair attributes and tool_parameters :: "(string \<times> ToolParameters) list"
    and calls calls' :: "'n ChatFunctionCall list"
  assume "remaining = trim_protocol_whitespace_start body"
    and "parse_dsml_open_tag remaining DSML_INVOKE_OPEN = Ok opened" "(attributes, invoke_body) = opened"
    and "ok_or (split_once DSML_INVOKE_CLOSE invoke_body) tool_call_error = Ok pair"
      "(inside, rest) = pair"
  then have "length rest \<le> length invoke_body" "length invoke_body < length remaining"
    "length remaining \<le> length body"
    by (auto dest!: shrink intro: trim_protocol_whitespace_start_length)
  then show "((from_str, tool_parameters, rest, calls'),
      (from_str, tool_parameters, body, calls)) \<in> measure (length \<circ> fst \<circ> snd \<circ> snd)"
    by simp
qed simp

declare parse_dsml_invocations.simps [simp del]

definition parse_dsml_function_calls ::
  "'n from_str \<Rightarrow> string \<Rightarrow> (string \<times> ToolParameters) list \<Rightarrow> 'n ChatFunctionCall list result" where
  "parse_dsml_function_calls from_str body tool_parameters =
     bind_result (parse_dsml_invocations from_str tool_parameters body []) (\<lambda>calls.
       if calls = [] then Err tool_call_error else Ok calls)"

text \<open>
  \<open>from_str(raw).unwrap_or(String(raw))\<close> unless the tool's schema says the argument is a string.
  \<open>string_arguments\<close> maps a function to its string parameters.
\<close>

definition json_or_string :: "'n from_str \<Rightarrow> string \<Rightarrow> 'n Value" where
  "json_or_string from_str raw = (case from_str raw of Some v \<Rightarrow> v | None \<Rightarrow> JString raw)"

definition is_string_argument :: "(string \<times> string list) list \<Rightarrow> string \<Rightarrow> string \<Rightarrow> bool" where
  "is_string_argument string_arguments function parameter =
     (case map_of string_arguments function of Some ps \<Rightarrow> parameter \<in> set ps | None \<Rightarrow> False)"

definition decode_argument ::
  "'n from_str \<Rightarrow> string \<Rightarrow> string \<Rightarrow> string \<Rightarrow> (string \<times> string list) list \<Rightarrow> 'n Value" where
  "decode_argument from_str function parameter raw string_arguments =
     (if is_string_argument string_arguments function parameter then JString raw
      else json_or_string from_str raw)"

function parse_atem_parameters ::
  "'n from_str \<Rightarrow> string list option \<Rightarrow> string \<Rightarrow> (string \<times> 'n Value) list \<Rightarrow>
   (string \<times> 'n Value) list result" where
  "parse_atem_parameters from_str string_parameters body args =
     (let remaining = trim_protocol_whitespace_start body in
      if remaining = [] then Ok args else
      bind_result (parse_dsml_open_tag remaining ATEM_PARAMETER_OPEN) (\<lambda>(attributes, parameter_body).
      bind_result (take_dsml_attribute attributes ''name'') (\<lambda>(parameter, attributes).
      bind_result (reject_dsml_attributes attributes) (\<lambda>_.
      bind_result (validate_protocol_name parameter) (\<lambda>_.
      bind_result (ok_or (split_once ATEM_PARAMETER_CLOSE parameter_body) tool_call_error)
        (\<lambda>(raw_value, rest).
      bind_result
        (insert_new tool_call_error parameter
          (if string_parameters \<noteq> None \<and> parameter \<in> set (the string_parameters)
           then JString raw_value else json_or_string from_str raw_value) args) (\<lambda>args.
        parse_atem_parameters from_str string_parameters rest args)))))))"
  by pat_completeness auto
termination
proof (relation "measure (length \<circ> fst \<circ> snd \<circ> snd)")
  fix from_str :: "'n from_str" and body parameter_body raw_value rest remaining :: string
    and opened pair attributes args args' string_parameters
  assume "remaining = trim_protocol_whitespace_start body"
    and "parse_dsml_open_tag remaining ATEM_PARAMETER_OPEN = Ok opened" "(attributes, parameter_body) = opened"
    and "ok_or (split_once ATEM_PARAMETER_CLOSE parameter_body) tool_call_error = Ok pair"
      "(raw_value, rest) = pair"
  then have "length rest \<le> length parameter_body" "length parameter_body < length remaining"
    "length remaining \<le> length body"
    by (auto dest!: shrink intro: trim_protocol_whitespace_start_length)
  then show "((from_str, string_parameters, rest, args'), (from_str, string_parameters, body, args))
      \<in> measure (length \<circ> fst \<circ> snd \<circ> snd)"
    by simp
qed simp

declare parse_atem_parameters.simps [simp del]

function parse_atem_invocations ::
  "'n from_str \<Rightarrow> (string \<times> string list) list \<Rightarrow> (string \<times> ToolParameters) list \<Rightarrow> string \<Rightarrow>
   'n ChatFunctionCall list \<Rightarrow> 'n ChatFunctionCall list result" where
  "parse_atem_invocations from_str string_arguments tool_parameters body calls =
     (let remaining = trim_protocol_whitespace_start body in
      if remaining = [] then Ok calls else
      bind_result (parse_dsml_open_tag remaining ATEM_INVOKE_OPEN) (\<lambda>(attributes, invoke_body).
      bind_result (take_dsml_attribute attributes ''name'') (\<lambda>(function, attributes).
      bind_result (reject_dsml_attributes attributes) (\<lambda>_.
      bind_result (validate_protocol_name function) (\<lambda>_.
      if map_of tool_parameters function = None then Err tool_call_error else
      bind_result (ok_or (split_once ATEM_INVOKE_CLOSE invoke_body) tool_call_error)
        (\<lambda>(inside, rest).
      bind_result (parse_atem_parameters from_str (map_of string_arguments function) inside [])
        (\<lambda>args.
        parse_atem_invocations from_str string_arguments tool_parameters rest
          (calls @ [\<lparr>call_name = function, call_arguments = args\<rparr>]))))))))"
  by pat_completeness auto
termination
proof (relation "measure (length \<circ> fst \<circ> snd \<circ> snd \<circ> snd)")
  fix from_str :: "'n from_str" and body invoke_body inside rest remaining :: string
    and opened pair attributes and tool_parameters :: "(string \<times> ToolParameters) list"
    and string_arguments :: "(string \<times> string list) list"
    and calls calls' :: "'n ChatFunctionCall list"
  assume "remaining = trim_protocol_whitespace_start body"
    and "parse_dsml_open_tag remaining ATEM_INVOKE_OPEN = Ok opened" "(attributes, invoke_body) = opened"
    and "ok_or (split_once ATEM_INVOKE_CLOSE invoke_body) tool_call_error = Ok pair"
      "(inside, rest) = pair"
  then have "length rest \<le> length invoke_body" "length invoke_body < length remaining"
    "length remaining \<le> length body"
    by (auto dest!: shrink intro: trim_protocol_whitespace_start_length)
  then show "((from_str, string_arguments, tool_parameters, rest, calls'),
      (from_str, string_arguments, tool_parameters, body, calls))
      \<in> measure (length \<circ> fst \<circ> snd \<circ> snd \<circ> snd)"
    by simp
qed simp

declare parse_atem_invocations.simps [simp del]

definition parse_atem_function_calls ::
  "'n from_str \<Rightarrow> string \<Rightarrow> (string \<times> string list) list \<Rightarrow> (string \<times> ToolParameters) list \<Rightarrow>
   'n ChatFunctionCall list result" where
  "parse_atem_function_calls from_str body string_arguments tool_parameters =
     bind_result (parse_atem_invocations from_str string_arguments tool_parameters body [])
       (\<lambda>calls. if calls = [] then Err tool_call_error else Ok calls)"

section \<open>Parameters in angle brackets, Poolside and JSON\<close>

function parse_function_parameters ::
  "'n from_str \<Rightarrow> (string \<times> string list) list \<Rightarrow> string \<Rightarrow> ToolParameters \<Rightarrow> string \<Rightarrow>
   (string \<times> 'n Value) list \<Rightarrow> (string \<times> 'n Value) list result" where
  "parse_function_parameters from_str string_arguments function parameters body args =
     (let remaining = trim_start body in
      if remaining = [] then Ok args else
      bind_result (ok_or (strip_prefix ''<parameter='' remaining) tool_call_error) (\<lambda>parameter.
      bind_result (ok_or (split_once ''>'' parameter) tool_call_error)
        (\<lambda>(parameter_name, parameter_body).
      bind_result (validate_protocol_name parameter_name) (\<lambda>_.
      if parameter_name \<notin> set (param_names parameters) then Err tool_call_error else
      bind_result (ok_or (split_once ''</parameter>'' parameter_body) tool_call_error)
        (\<lambda>(inside, rest).
      bind_result
        (insert_new tool_call_error parameter_name
          (decode_argument from_str function parameter_name (strip_protocol_newlines inside)
            string_arguments) args) (\<lambda>args.
        parse_function_parameters from_str string_arguments function parameters rest args))))))"
  by pat_completeness auto
termination
proof (relation "measure (length \<circ> fst \<circ> snd \<circ> snd \<circ> snd \<circ> snd)")
  fix from_str :: "'n from_str" and body fn parameter parameter_name parameter_body inside rest remaining :: string
    and opened pair args args' parameters and string_arguments :: "(string \<times> string list) list"
  assume "remaining = trim_start body"
    and "ok_or (strip_prefix ''<parameter='' remaining) tool_call_error = Ok parameter"
    and "ok_or (split_once ''>'' parameter) tool_call_error = Ok opened" "(parameter_name, parameter_body) = opened"
    and "ok_or (split_once ''</parameter>'' parameter_body) tool_call_error = Ok pair"
      "(inside, rest) = pair"
  then have "length rest \<le> length parameter_body" "length parameter_body < length parameter"
    "length parameter < length remaining" "length remaining \<le> length body"
    by (auto dest!: shrink intro: trim_start_length)
  then show "((from_str, string_arguments, fn, parameters, rest, args'),
      (from_str, string_arguments, fn, parameters, body, args))
      \<in> measure (length \<circ> fst \<circ> snd \<circ> snd \<circ> snd \<circ> snd)"
    by simp
qed simp

declare parse_function_parameters.simps [simp del]

text \<open>The checks on the names an argument map must and may have.\<close>

definition infer_json_function_name ::
  "(string \<times> 'n Value) list \<Rightarrow> (string \<times> ToolParameters) list \<Rightarrow> string result" where
  "infer_json_function_name args tool_parameters =
     (case filter (\<lambda>(_, parameters). param_names parameters \<noteq> [] \<and>
               list_all (\<lambda>(n, _). n \<in> set (param_names parameters)) args \<and>
               list_all (\<lambda>n. n \<in> set (map fst args)) (param_required parameters))
             tool_parameters of
        [(n, _)] \<Rightarrow> Ok n
      | _ \<Rightarrow> Err tool_call_error)"

definition json_arguments ::
  "'n from_str \<Rightarrow> (string \<times> 'n Value) list \<Rightarrow> (string \<times> 'n Value) list result" where
  "json_arguments from_str function =
     (case (case map_of function ''arguments'' of
              Some v \<Rightarrow> Some v
            | None \<Rightarrow> map_of function ''parameters'') of
        None \<Rightarrow> Ok (if map_of function ''name'' = None then btree_of function else [])
      | Some JNull \<Rightarrow> Ok []
      | Some (JObject kvs) \<Rightarrow> Ok (btree_of kvs)
      | Some (JString s) \<Rightarrow>
          bind_result (ok_or (from_str s) tool_call_error) (\<lambda>v.
          bind_result (ok_or (as_object v) tool_call_error) (\<lambda>kvs. Ok (btree_of kvs)))
      | Some _ \<Rightarrow> Err tool_call_error)"

definition parse_json_function_call ::
  "'n from_str \<Rightarrow> string \<Rightarrow> (string \<times> ToolParameters) list \<Rightarrow> 'n ChatFunctionCall result" where
  "parse_json_function_call from_str body tool_parameters =
     bind_result (ok_or (from_str body) tool_call_error) (\<lambda>call.
     bind_result (ok_or (as_object call) tool_call_error) (\<lambda>object.
       let function =
         (case Option.bind (map_of object ''function'') as_object of Some f \<Rightarrow> f | None \<Rightarrow> object) in
       bind_result (json_arguments from_str function) (\<lambda>args.
       bind_result
         (case Option.bind (map_of function ''name'') as_str of
            Some n \<Rightarrow> Ok n
          | None \<Rightarrow> infer_json_function_name args tool_parameters) (\<lambda>n.
       bind_result (validate_protocol_name n) (\<lambda>_.
         Ok \<lparr>call_name = n, call_arguments = args\<rparr>)))))"

function parse_poolside_arguments ::
  "'n from_str \<Rightarrow> (string \<times> string list) list \<Rightarrow> string \<Rightarrow> string \<Rightarrow> (string \<times> 'n Value) list \<Rightarrow>
   (string \<times> 'n Value) list result" where
  "parse_poolside_arguments from_str string_arguments function remaining args =
     (if remaining = [] then Ok args else
      bind_result (ok_or (strip_prefix ''<arg_key>'' remaining) tool_call_error) (\<lambda>key.
      bind_result (ok_or (split_once ''</arg_key>'' key) tool_call_error) (\<lambda>(parameter, after_key).
      bind_result (validate_protocol_name parameter) (\<lambda>_.
      bind_result (ok_or (strip_prefix ''<arg_value>'' after_key) tool_call_error) (\<lambda>v.
      bind_result (ok_or (split_once ''</arg_value>'' v) tool_call_error) (\<lambda>(raw_value, rest).
      bind_result
        (insert_new tool_call_error parameter
          (decode_argument from_str function parameter raw_value string_arguments) args) (\<lambda>args.
        parse_poolside_arguments from_str string_arguments function rest args)))))))"
  by pat_completeness auto
termination
proof (relation "measure (length \<circ> fst \<circ> snd \<circ> snd \<circ> snd)")
  fix from_str :: "'n from_str" and fn remaining key parameter after_key v raw_value rest :: string
    and keys pair args args' and string_arguments :: "(string \<times> string list) list"
  assume "ok_or (strip_prefix ''<arg_key>'' remaining) tool_call_error = Ok key"
    and "ok_or (split_once ''</arg_key>'' key) tool_call_error = Ok keys" "(parameter, after_key) = keys"
    and "ok_or (strip_prefix ''<arg_value>'' after_key) tool_call_error = Ok v"
    and "ok_or (split_once ''</arg_value>'' v) tool_call_error = Ok pair" "(raw_value, rest) = pair"
  then have "length rest < length v" "length v < length after_key" "length after_key < length key"
    "length key < length remaining"
    by (auto dest!: shrink)
  then show "((from_str, string_arguments, fn, rest, args'),
      (from_str, string_arguments, fn, remaining, args))
      \<in> measure (length \<circ> fst \<circ> snd \<circ> snd \<circ> snd)"
    by simp
qed simp

declare parse_poolside_arguments.simps [simp del]

definition parse_poolside_function_call ::
  "'n from_str \<Rightarrow> string \<Rightarrow> (string \<times> string list) list \<Rightarrow> 'n ChatFunctionCall result" where
  "parse_poolside_function_call from_str body string_arguments =
     (let body = trim_matches [carriage_return, newline] body;
          first_argument = (case find_sub ''<arg_key>'' body of Some i \<Rightarrow> i | None \<Rightarrow> length body);
          function = trim (take first_argument body) in
      bind_result (validate_protocol_name function) (\<lambda>_.
      bind_result
        (parse_poolside_arguments from_str string_arguments function (drop first_argument body) [])
        (\<lambda>args. Ok \<lparr>call_name = function, call_arguments = args\<rparr>)))"

definition parse_function_call ::
  "'n from_str \<Rightarrow> string \<Rightarrow> (string \<times> string list) list \<Rightarrow> (string \<times> ToolParameters) list \<Rightarrow>
   'n ChatFunctionCall result" where
  "parse_function_call from_str body string_arguments tool_parameters =
     (let body = trim_matches [carriage_return, newline] body in
      if prefix ''{'' body then parse_json_function_call from_str body tool_parameters
      else if \<not> prefix ''<function='' body
      then parse_poolside_function_call from_str body string_arguments
      else
        bind_result (ok_or (strip_prefix ''<function='' body) tool_call_error) (\<lambda>function.
        bind_result (ok_or (split_once ''>'' function) tool_call_error)
          (\<lambda>(emitted_name, function_body).
        bind_result (validate_protocol_name emitted_name) (\<lambda>_.
        bind_result (ok_or (map_of tool_parameters emitted_name) tool_call_error) (\<lambda>parameters.
        bind_result (ok_or (rsplit_once ''</function>'' function_body) tool_call_error)
          (\<lambda>(inside, after_close).
        if trim after_close \<noteq> [] then Err tool_call_error else
        bind_result
          (parse_function_parameters from_str string_arguments emitted_name parameters inside [])
          (\<lambda>args.
        if list_ex (\<lambda>n. map_of args n = None) (param_required parameters)
        then Err tool_call_error
        else Ok \<lparr>call_name = emitted_name, call_arguments = args\<rparr>)))))))"

section \<open>Gemma\<close>

definition GEMMA_QUOTE :: string where
  "GEMMA_QUOTE = ''<|'' @ [double_quote] @ ''|>''"

lemma map_result_cong [fundef_cong]:
  "xs = ys \<Longrightarrow> (\<And>x. x \<in> set ys \<Longrightarrow> f x = g x) \<Longrightarrow> map_result f xs = map_result g ys"
  by (induction ys arbitrary: xs) (auto intro: bind_result_cong)

text \<open>
  The pieces of \<open>input\<close> between the delimiters that are outside quotes and brackets. \<open>current\<close> is the
  piece being read, the slice from \<open>start\<close> to \<open>index\<close>.
\<close>

function split_gemma_loop ::
  "char \<Rightarrow> string \<Rightarrow> string \<Rightarrow> nat \<Rightarrow> bool \<Rightarrow> string list \<Rightarrow> string list result" where
  "split_gemma_loop delimiter tail current depth quoted parts =
     (if tail = [] then
        (if quoted \<or> depth \<noteq> 0 then Err tool_call_error else Ok (parts @ [current]))
      else if prefix GEMMA_QUOTE tail then
        split_gemma_loop delimiter (drop (length GEMMA_QUOTE) tail) (current @ GEMMA_QUOTE) depth
          (\<not> quoted) parts
      else
        let c = hd tail; rest = tl tail in
        if \<not> quoted \<and> (c = CHR ''{'' \<or> c = CHR ''['') then
          split_gemma_loop delimiter rest (current @ [c]) (depth + 1) quoted parts
        else if \<not> quoted \<and> (c = CHR ''}'' \<or> c = CHR '']'') then
          (if depth = 0 then Err tool_call_error
           else split_gemma_loop delimiter rest (current @ [c]) (depth - 1) quoted parts)
        else if \<not> quoted \<and> c = delimiter \<and> depth = 0 then
          split_gemma_loop delimiter rest [] depth quoted (parts @ [current])
        else split_gemma_loop delimiter rest (current @ [c]) depth quoted parts)"
  by pat_completeness auto
termination
  by (relation "measure (length \<circ> fst \<circ> snd)") (auto simp: GEMMA_QUOTE_def)

declare split_gemma_loop.simps [simp del]

definition split_gemma_top_level :: "string \<Rightarrow> char \<Rightarrow> string list result" where
  "split_gemma_top_level input delimiter = split_gemma_loop delimiter input [] 0 False []"

lemma split_gemma_loop_length:
  assumes "split_gemma_loop d tail current depth quoted parts = Ok ps"
    and "\<forall>p \<in> set parts. length p \<le> n" and "length current + length tail \<le> n"
  shows "\<forall>p \<in> set ps. length p \<le> n"
  using assms
proof (induction d tail current depth quoted parts rule: split_gemma_loop.induct)
  case (1 d tail current depth quoted parts)
  note run = 1(6) and prems = 1(7,8)
  show ?case
  proof (cases "tail = []")
    case True
    with run 1(7,8) show ?thesis
      by (subst (asm) split_gemma_loop.simps) (auto split: if_splits)
  next
    case ne: False
    then have tl: "0 < length tail" by simp
    show ?thesis
    proof (cases "prefix GEMMA_QUOTE tail")
      case True
      then have "length GEMMA_QUOTE \<le> length tail" by (rule prefix_length_le)
      with run ne True 1(7,8) show ?thesis
        by (subst (asm) split_gemma_loop.simps) (auto intro: 1(1) [OF ne True, rule_format])
    next
      case False
      note ih = 1(2-5) [OF ne False refl refl]
      let ?opens = "\<not> quoted \<and> (hd tail = CHR ''{'' \<or> hd tail = CHR ''['')"
      let ?closes = "\<not> quoted \<and> (hd tail = CHR ''}'' \<or> hd tail = CHR '']'')"
      let ?cuts = "\<not> quoted \<and> hd tail = d \<and> depth = 0"
      note step = run [unfolded split_gemma_loop.simps [of d tail] Let_def if_not_P [OF ne] if_not_P [OF False]]
      consider ?opens | "\<not> ?opens" ?closes | "\<not> ?opens" "\<not> ?closes" ?cuts
        | "\<not> ?opens" "\<not> ?closes" "\<not> ?cuts" by blast
      then show ?thesis
      proof cases
        case 1
        have "split_gemma_loop d (tl tail) (current @ [hd tail]) (depth + 1) quoted parts = Ok ps"
          using step unfolding if_P [OF 1] .
        from ih(1) [OF 1 this] prems tl show ?thesis by simp
      next
        case 2
        have "depth \<noteq> 0"
          "split_gemma_loop d (tl tail) (current @ [hd tail]) (depth - 1) quoted parts = Ok ps"
          using step unfolding if_not_P [OF 2(1)] if_P [OF 2(2)] by (simp_all split: if_splits)
        from ih(2) [OF 2 this] prems tl show ?thesis by simp
      next
        case 3
        have "split_gemma_loop d (tl tail) [] depth quoted (parts @ [current]) = Ok ps"
          using step unfolding if_not_P [OF 3(1)] if_not_P [OF 3(2)] if_P [OF 3(3)] .
        from ih(3) [OF 3 this] prems tl show ?thesis by simp
      next
        case 4
        have "split_gemma_loop d (tl tail) (current @ [hd tail]) depth quoted parts = Ok ps"
          using step unfolding if_not_P [OF 4(1)] if_not_P [OF 4(2)] if_not_P [OF 4(3)] .
        from ih(4) [OF 4 this] prems tl show ?thesis by simp
      qed
    qed
  qed
qed

lemma split_gemma_top_level_length:
  "split_gemma_top_level input d = Ok ps \<Longrightarrow> p \<in> set ps \<Longrightarrow> length p \<le> length input"
  unfolding split_gemma_top_level_def by (drule split_gemma_loop_length) auto

definition strip_gemma_quote :: "string \<Rightarrow> string" where
  "strip_gemma_quote v =
     (case Option.bind (strip_prefix GEMMA_QUOTE v) (strip_suffix GEMMA_QUOTE) of
        Some r \<Rightarrow> r
      | None \<Rightarrow>
          (case Option.bind (strip_prefix [double_quote] v) (strip_suffix [double_quote]) of
             Some r \<Rightarrow> r
           | None \<Rightarrow> v))"

definition split_gemma_field :: "string \<Rightarrow> (string \<times> string) result" where
  "split_gemma_field field =
     bind_result (split_gemma_top_level field (CHR '':'')) (\<lambda>parts.
       if length parts \<noteq> 2 then Err tool_call_error else Ok (parts ! 0, parts ! 1))"

lemma split_gemma_field_length [shrink]:
  "split_gemma_field field = Ok (n, v) \<Longrightarrow> length n \<le> length field \<and> length v \<le> length field"
  by (auto simp: split_gemma_field_def result_simps split: if_splits
      intro: split_gemma_top_level_length nth_mem)

abbreviation nonblank :: "string list \<Rightarrow> string list" where
  "nonblank \<equiv> filter (\<lambda>f. trim f \<noteq> [])"

lemma gemma_inner_length:
  "Option.bind (strip_prefix p raw) (strip_suffix q) = Some inner \<Longrightarrow> p \<noteq> [] \<Longrightarrow> length inner < length raw"
  by (auto simp: bind_eq_Some_conv strip_prefix_Some strip_suffix_Some)

function parse_gemma_value :: "'n from_str \<Rightarrow> string \<Rightarrow> 'n Value result" where
  "parse_gemma_value from_str raw =
     (let raw = trim raw in
      case Option.bind (strip_prefix GEMMA_QUOTE raw) (strip_suffix GEMMA_QUOTE) of
        Some s \<Rightarrow> Ok (JString s)
      | None \<Rightarrow>
      case Option.bind (strip_prefix ''{'' raw) (strip_suffix ''}'') of
        Some inner \<Rightarrow>
          bind_result (split_gemma_top_level inner (CHR '','')) (\<lambda>parts.
          bind_result
            (map_result (\<lambda>field.
               bind_result (split_gemma_field field) (\<lambda>(n, v).
               bind_result (parse_gemma_value from_str (trim v)) (\<lambda>v.
                 Ok (strip_gemma_quote (trim n), v)))) (nonblank parts)) (\<lambda>kvs.
            Ok (JObject (fold (\<lambda>(k, v). AList.update k v) kvs []))))
      | None \<Rightarrow>
      case Option.bind (strip_prefix ''['' raw) (strip_suffix '']'') of
        Some inner \<Rightarrow>
          bind_result (split_gemma_top_level inner (CHR '','')) (\<lambda>parts.
          bind_result (map_result (\<lambda>v. parse_gemma_value from_str (trim v)) (nonblank parts))
            (\<lambda>vs. Ok (JArray vs)))
      | None \<Rightarrow>
          Ok (case from_str raw of Some v \<Rightarrow> v | None \<Rightarrow> JString (strip_gemma_quote raw)))"
  by pat_completeness auto

termination
proof (relation "measure (length \<circ> snd)")
  fix from_str :: "'n from_str" and raw trimmed inner parts field pair n v
  assume "trimmed = trim raw"
    and "Option.bind (strip_prefix ''{'' trimmed) (strip_suffix ''}'') = Some inner"
    and "split_gemma_top_level inner (CHR '','') = Ok parts" "field \<in> set (nonblank parts)"
    and "split_gemma_field field = Ok pair" "(n, v) = pair"
  then have "length inner < length trimmed" "length field \<le> length inner" "length v \<le> length field"
    by (auto dest!: gemma_inner_length split_gemma_field_length dest: split_gemma_top_level_length)
  then show "((from_str, trim v), (from_str, raw)) \<in> measure (length \<circ> snd)"
    using \<open>trimmed = trim raw\<close> trim_length [of raw] trim_length [of v] by simp
next
  fix from_str :: "'n from_str" and raw trimmed inner parts v
  assume "trimmed = trim raw"
    and "Option.bind (strip_prefix ''['' trimmed) (strip_suffix '']'') = Some inner"
    and "split_gemma_top_level inner (CHR '','') = Ok parts" "v \<in> set (nonblank parts)"
  then have "length inner < length trimmed" "length v \<le> length inner"
    by (auto dest!: gemma_inner_length dest: split_gemma_top_level_length)
  then show "((from_str, trim v), (from_str, raw)) \<in> measure (length \<circ> snd)"
    using \<open>trimmed = trim raw\<close> trim_length [of raw] trim_length [of v] by simp
qed simp

declare parse_gemma_value.simps [simp del]

fun parse_gemma_fields ::
  "'n from_str \<Rightarrow> (string \<times> string list) list \<Rightarrow> string \<Rightarrow> string list \<Rightarrow>
   (string \<times> 'n Value) list \<Rightarrow> (string \<times> 'n Value) list result" where
  "parse_gemma_fields from_str string_arguments function [] args = Ok args"
| "parse_gemma_fields from_str string_arguments function (field # rest) args =
     (if trim field = [] then parse_gemma_fields from_str string_arguments function rest args
      else
        bind_result (split_gemma_field field) (\<lambda>(raw_name, raw_value).
          let parameter = strip_gemma_quote (trim raw_name) in
          bind_result (validate_protocol_name parameter) (\<lambda>_.
          bind_result
            (if is_string_argument string_arguments function parameter
             then Ok (JString (strip_gemma_quote (trim raw_value)))
             else parse_gemma_value from_str (trim raw_value)) (\<lambda>v.
          bind_result (insert_new tool_call_error parameter v args) (\<lambda>args.
            parse_gemma_fields from_str string_arguments function rest args)))))"

definition parse_gemma_function_call ::
  "'n from_str \<Rightarrow> string \<Rightarrow> (string \<times> string list) list \<Rightarrow> (string \<times> ToolParameters) list \<Rightarrow>
   'n ChatFunctionCall result" where
  "parse_gemma_function_call from_str body string_arguments tool_parameters =
     bind_result
       (ok_or (strip_prefix ''call:'' (trim_matches [carriage_return, newline] body)) tool_call_error)
       (\<lambda>call.
     bind_result (ok_or (find_sub ''{'' call) tool_call_error) (\<lambda>open_index.
       let function = trim (take open_index call) in
       bind_result (validate_protocol_name function) (\<lambda>_.
       if map_of tool_parameters function = None then Err tool_call_error else
       bind_result
         (ok_or (Option.bind (strip_prefix ''{'' (trim (drop open_index call))) (strip_suffix ''}''))
           tool_call_error) (\<lambda>inner.
       bind_result (split_gemma_top_level inner (CHR '','')) (\<lambda>parts.
       bind_result (parse_gemma_fields from_str string_arguments function parts []) (\<lambda>args.
         Ok \<lparr>call_name = function, call_arguments = args\<rparr>))))))"

section \<open>LFM2\<close>

text \<open>
  \<open>closing_offset\<close> scans the body once, with the quote it is inside of and whether the last character
  was a backslash in a quote, and returns the first closing marker outside quotes.
\<close>

fun closing_offset_loop :: "string \<Rightarrow> char option \<Rightarrow> bool \<Rightarrow> string \<Rightarrow> nat option" where
  "closing_offset_loop marker quote escaped [] = None"
| "closing_offset_loop marker quote escaped (c # cs) =
     (if escaped then map_option Suc (closing_offset_loop marker quote False cs)
      else case quote of
        Some delimiter \<Rightarrow>
          if c = backslash then map_option Suc (closing_offset_loop marker quote True cs)
          else map_option Suc
            (closing_offset_loop marker (if c = delimiter then None else quote) False cs)
      | None \<Rightarrow>
          if c = single_quote \<or> c = double_quote
          then map_option Suc (closing_offset_loop marker (Some c) False cs)
          else if prefix marker (c # cs) then Some 0
          else map_option Suc (closing_offset_loop marker None False cs))"

definition closing_offset :: "string \<Rightarrow> string \<Rightarrow> nat option" where
  "closing_offset body marker = closing_offset_loop marker None False body"

abbreviation lfm2_error :: error where "lfm2_error \<equiv> Format ''LFM2 tool call''"

text \<open>
  The methods of \<open>Parser\<close>. The parser is the text left to read; a method that fails ends the parse,
  so only a success returns it. \<open>take_char\<close> is \<open>Parser::take\<close>.
\<close>

definition take_char :: "char \<Rightarrow> string \<Rightarrow> bool \<times> string" where
  "take_char c rest =
     (case strip_prefix [c] (trim_start rest) of
        Some r \<Rightarrow> (True, r)
      | None \<Rightarrow> (False, trim_start rest))"

definition expect :: "char \<Rightarrow> string \<Rightarrow> string result" where
  "expect c rest = (case take_char c rest of (True, r) \<Rightarrow> Ok r | (False, _) \<Rightarrow> Err lfm2_error)"

definition parser_name :: "string \<Rightarrow> (string \<times> string) result" where
  "parser_name rest =
     (let rest = trim_start rest;
          n = takeWhile protocol_name_char rest in
      bind_result (validate_protocol_name n) (\<lambda>_. Ok (n, drop (length n) rest)))"

fun scan_string :: "char \<Rightarrow> bool \<Rightarrow> string \<Rightarrow> (string \<times> string) option" where
  "scan_string quote escaped [] = None"
| "scan_string quote escaped (c # cs) =
     (if escaped then map_option (apfst ((#) c)) (scan_string quote False cs)
      else if c = backslash then map_option (apfst ((#) c)) (scan_string quote True cs)
      else if c = quote then Some ([], cs)
      else map_option (apfst ((#) c)) (scan_string quote False cs))"

fun json_escape :: "string \<Rightarrow> string option" where
  "json_escape [] = Some []"
| "json_escape (c # cs) =
     (if c = backslash then
        (case cs of
           [] \<Rightarrow> None
         | n # rest \<Rightarrow>
             map_option ((@) (if n = single_quote then [single_quote] else [backslash, n]))
               (json_escape rest))
      else if c = double_quote then map_option ((@) [backslash, double_quote]) (json_escape cs)
      else map_option ((#) c) (json_escape cs))"

definition parser_string :: "'n from_str \<Rightarrow> string \<Rightarrow> (string \<times> string) result" where
  "parser_string from_str rest =
     (case trim_start rest of
        [] \<Rightarrow> Err lfm2_error
      | quote # tail \<Rightarrow>
          if quote \<noteq> single_quote \<and> quote \<noteq> double_quote then Err lfm2_error
          else
            bind_result (ok_or (scan_string quote False tail) lfm2_error) (\<lambda>(raw, rest).
            bind_result (ok_or (json_escape raw) lfm2_error) (\<lambda>escaped.
            bind_result
              (ok_or (Option.bind (from_str ([double_quote] @ escaped @ [double_quote])) as_str)
                lfm2_error) (\<lambda>v. Ok (v, rest)))))"

text \<open>
  After an element of a list closed by \<open>close\<close>: whether another element follows, and the rest of
  the text. A comma before the closing character is allowed.
\<close>

definition after_element :: "char \<Rightarrow> string \<Rightarrow> (bool \<times> string) result" where
  "after_element close rest =
     (case take_char close rest of
        (True, r) \<Rightarrow> Ok (False, r)
      | (False, r) \<Rightarrow>
          bind_result (expect (CHR '','') r) (\<lambda>r.
            case take_char close r of (closed, r) \<Rightarrow> Ok (\<not> closed, r)))"

lemma take_char_length: "take_char c rest = (b, r) \<Longrightarrow> length r + of_bool b \<le> length rest"
  using trim_start_length [of rest]
  by (auto simp: take_char_def split: option.splits dest!: strip_prefix_length)

lemma expect_length: "expect c rest = Ok r \<Longrightarrow> length r < length rest"
  by (auto simp: expect_def split: prod.splits bool.splits dest: take_char_length)

lemma after_element_length:
  assumes "after_element c rest = Ok (again, r)"
  shows "length r < length rest"
proof (cases "take_char c rest")
  case (Pair b r1)
  note t1 = take_char_length [OF Pair]
  show ?thesis
  proof (cases b)
    case True
    with assms Pair t1 show ?thesis by (simp add: after_element_def)
  next
    case False
    with assms Pair obtain r2 where "expect (CHR '','') r1 = Ok r2" "r = snd (take_char c r2)"
      by (cases "expect (CHR '','') r1") (auto simp: after_element_def split: prod.splits)
    with expect_length [of "CHR '',''" r1 r2] take_char_length [of c r2 "fst (take_char c r2)" r] t1
    show ?thesis by (cases "take_char c r2") auto
  qed
qed

text \<open>
  The loops over list elements, object fields, arguments and calls have the same shape: read an
  element into the accumulator, then end or go on. \<open>element\<close> returns the new accumulator and the
  rest of the text. No element reader returns more text than it was given
  (\<open>parser_value_le\<close>, \<open>parser_field_le\<close> and \<open>parser_call_le\<close> below), which the guard repeats for the
  termination proof: the branch is never taken.
\<close>

function element_loop ::
  "('a \<Rightarrow> string \<Rightarrow> ('a \<times> string) result) \<Rightarrow> char \<Rightarrow> 'a \<Rightarrow> string \<Rightarrow> ('a \<times> string) result" where
  "element_loop element close acc rest =
     bind_result (element acc rest) (\<lambda>(acc, after).
       if length rest < length after then Err lfm2_error else
       bind_result (after_element close after) (\<lambda>(again, after).
         if again then element_loop element close acc after else Ok (acc, after)))"
  by pat_completeness auto

termination
  by (relation "measure (length \<circ> snd \<circ> snd \<circ> snd)") (auto dest: after_element_length)

declare element_loop.simps [simp del]

definition element_list ::
  "('a \<Rightarrow> string \<Rightarrow> ('a \<times> string) result) \<Rightarrow> char \<Rightarrow> 'a \<Rightarrow> string \<Rightarrow> ('a \<times> string) result" where
  "element_list element close acc rest =
     (case take_char close rest of
        (True, r) \<Rightarrow> Ok (acc, r)
      | (False, r) \<Rightarrow> element_loop element close acc r)"

definition parser_field ::
  "'n from_str \<Rightarrow> (string \<Rightarrow> ('n Value \<times> string) result) \<Rightarrow> (string \<times> 'n Value) list \<Rightarrow> string \<Rightarrow>
   ((string \<times> 'n Value) list \<times> string) result" where
  "parser_field from_str element acc rest =
     bind_result (parser_string from_str rest) (\<lambda>(key, rest).
     bind_result (expect (CHR '':'') rest) (\<lambda>rest.
     bind_result (element rest) (\<lambda>(v, rest).
       if map_of acc key = None then Ok (acc @ [(key, v)], rest) else Err lfm2_error)))"

definition parser_literal :: "'n from_str \<Rightarrow> string \<Rightarrow> 'n Value result" where
  "parser_literal from_str raw =
     (if raw = ''True'' \<or> raw = ''true'' then Ok (JBool True)
      else if raw = ''False'' \<or> raw = ''false'' then Ok (JBool False)
      else if raw = ''None'' \<or> raw = ''null'' then Ok JNull
      else case from_str raw of Some (JNumber n) \<Rightarrow> Ok (JNumber n) | _ \<Rightarrow> Err lfm2_error)"

text \<open>\<open>parser_value from_str levels\<close> is \<open>value(64 - levels)\<close>.\<close>

primrec parser_value :: "'n from_str \<Rightarrow> nat \<Rightarrow> string \<Rightarrow> ('n Value \<times> string) result" where
  "parser_value from_str 0 rest = Err lfm2_error"
| "parser_value from_str (Suc levels) rest =
     (let rest = trim_start rest in
      if prefix [single_quote] rest \<or> prefix [double_quote] rest
      then bind_result (parser_string from_str rest) (\<lambda>(s, rest). Ok (JString s, rest))
      else case take_char (CHR ''['') rest of
        (True, r) \<Rightarrow>
          bind_result
            (element_list (\<lambda>vs r. bind_result (parser_value from_str levels r) (\<lambda>(v, r). Ok (vs @ [v], r)))
              (CHR '']'') [] r) (\<lambda>(vs, r). Ok (JArray vs, r))
      | (False, _) \<Rightarrow>
      case take_char (CHR ''{'') rest of
        (True, r) \<Rightarrow>
          bind_result
            (element_list (parser_field from_str (parser_value from_str levels)) (CHR ''}'') [] r)
            (\<lambda>(kvs, r). Ok (JObject kvs, r))
      | (False, _) \<Rightarrow>
          let raw = (case find_tail (\<lambda>t. starts_with_whitespace t \<or> hd t \<in> set '',)]}'') rest of
                       Some i \<Rightarrow> take i rest
                     | None \<Rightarrow> rest) in
          bind_result (parser_literal from_str raw) (\<lambda>v. Ok (v, drop (length raw) rest)))"

definition parser_argument ::
  "'n from_str \<Rightarrow> (string \<times> 'n Value) list \<Rightarrow> string \<Rightarrow> ((string \<times> 'n Value) list \<times> string) result"
where
  "parser_argument from_str args rest =
     bind_result (parser_name rest) (\<lambda>(key, rest).
     bind_result (expect (CHR ''='') rest) (\<lambda>rest.
     bind_result (parser_value from_str 64 rest) (\<lambda>(v, rest).
     bind_result (insert_new lfm2_error key v args) (\<lambda>args. Ok (args, rest)))))"

definition parser_call ::
  "'n from_str \<Rightarrow> 'n ChatFunctionCall list \<Rightarrow> string \<Rightarrow> ('n ChatFunctionCall list \<times> string) result" where
  "parser_call from_str calls rest =
     bind_result (parser_name rest) (\<lambda>(n, rest).
     bind_result (expect (CHR ''('') rest) (\<lambda>rest.
     bind_result (element_list (parser_argument from_str) (CHR '')'') [] rest) (\<lambda>(args, rest).
       Ok (calls @ [\<lparr>call_name = n, call_arguments = args\<rparr>], rest))))"

definition lfm2_parse :: "'n from_str \<Rightarrow> string \<Rightarrow> 'n ChatFunctionCall list result" where
  "lfm2_parse from_str body =
     bind_result (expect (CHR ''['') body) (\<lambda>rest.
     bind_result (element_list (parser_call from_str) (CHR '']'') [] rest) (\<lambda>(calls, rest).
       if trim rest \<noteq> [] \<or> calls = [] then Err lfm2_error else Ok calls))"

section \<open>Element readers\<close>

text \<open>
  The contract of the loops over elements: a reader never gives back more text than it was given.
  Under it the loop needs no guard, and the loop keeps the contract itself.
\<close>

locale element_reader =
  fixes element :: "'a \<Rightarrow> string \<Rightarrow> ('a \<times> string) result"
  assumes element_le: "element acc rest = Ok (acc', rest') \<Longrightarrow> length rest' \<le> length rest"
begin

lemma element_loop_unguarded:
  "element_loop element close acc rest =
     bind_result (element acc rest) (\<lambda>(acc, after).
       bind_result (after_element close after) (\<lambda>(again, after).
         if again then element_loop element close acc after else Ok (acc, after)))"
proof (cases "element acc rest")
  case (Inr a)
  then show ?thesis
    using element_le [of acc rest "fst a" "snd a"]
    by (subst element_loop.simps) (cases a, simp)
qed (subst element_loop.simps, simp)

lemma element_loop_le:
  "element_loop element close acc rest = Ok (acc', rest') \<Longrightarrow> length rest' < length rest"
proof (induction "length rest" arbitrary: acc rest rule: less_induct)
  case less
  from less.prems obtain acc1 rest1 again rest2 where
    "element acc rest = Ok (acc1, rest1)" and after: "after_element close rest1 = Ok (again, rest2)" and
    run: "(if again then element_loop element close acc1 rest2 else Ok (acc1, rest2)) = Ok (acc', rest')"
    by (subst (asm) element_loop_unguarded) (auto simp: result_simps)
  then have "length rest2 < length rest"
    using element_le after_element_length by fastforce
  with run less.hyps [of rest2 acc1] show ?case by (cases again) auto
qed

lemma element_list_le:
  assumes "element_list element close acc rest = Ok (acc', rest')"
  shows "length rest' < length rest"
proof (cases "take_char close rest")
  case (Pair b r)
  from take_char_length [OF Pair] assms Pair element_loop_le [of close acc r acc' rest'] show ?thesis
    by (cases b) (auto simp: element_list_def)
qed

end

lemma scan_string_length:
  "scan_string quote escaped s = Some (raw, rest) \<Longrightarrow> length rest < length s"
  by (induction s arbitrary: escaped raw rest) (auto split: if_splits, fastforce+)

lemma parser_string_length: "parser_string from_str rest = Ok (v, r) \<Longrightarrow> length r < length rest"
  using trim_start_length [of rest]
  by (fastforce simp: parser_string_def result_simps split: list.splits if_splits dest: scan_string_length)

lemma parser_name_length: "parser_name rest = Ok (n, r) \<Longrightarrow> length r \<le> length rest"
  using trim_start_length [of rest] by (auto simp: parser_name_def Let_def result_simps)

text \<open>No reader of a value returns more text than it was given, at any depth.\<close>

lemma parser_value_le: "parser_value from_str levels rest = Ok (v, r) \<Longrightarrow> length r \<le> length rest"
proof (induction levels arbitrary: v rest r)
  case (Suc levels)
  have values_reader: "element_reader (\<lambda>vs r. bind_result (parser_value from_str levels r) (\<lambda>(v, r). Ok (vs @ [v], r)))"
    by unfold_locales (auto simp: result_simps dest: Suc.IH)
  have fields_reader: "element_reader (parser_field from_str (parser_value from_str levels))"
    by unfold_locales
      (fastforce simp: parser_field_def result_simps split: if_splits
        dest: Suc.IH parser_string_length expect_length)
  define s where "s = trim_start rest"
  have s: "length s \<le> length rest" by (simp add: s_def trim_start_length)
  consider (str) "prefix [single_quote] s \<or> prefix [double_quote] s"
    | (arr) q where "\<not> (prefix [single_quote] s \<or> prefix [double_quote] s)"
        "take_char (CHR ''['') s = (True, q)"
    | (obj) q q' where "\<not> (prefix [single_quote] s \<or> prefix [double_quote] s)"
        "take_char (CHR ''['') s = (False, q')" "take_char (CHR ''{'') s = (True, q)"
    | (lit) q q' where "\<not> (prefix [single_quote] s \<or> prefix [double_quote] s)"
        "take_char (CHR ''['') s = (False, q')" "take_char (CHR ''{'') s = (False, q)"
    by (cases "take_char (CHR ''['') s"; cases "take_char (CHR ''{'') s") auto
  then have "length r \<le> length s"
  proof cases
    case str
    with Suc.prems show ?thesis
      by (auto simp: Let_def s_def [symmetric] result_simps dest: parser_string_length)
  next
    case arr
    with Suc.prems obtain vs where "element_list
        (\<lambda>vs r. bind_result (parser_value from_str levels r) (\<lambda>(v, r). Ok (vs @ [v], r)))
        (CHR '']'') [] q = Ok (vs, r)"
      by (auto simp: Let_def s_def [symmetric] result_simps)
    from element_reader.element_list_le [OF values_reader this] take_char_length [OF arr(2)]
    show ?thesis by simp
  next
    case obj
    with Suc.prems obtain kvs where "element_list
        (parser_field from_str (parser_value from_str levels)) (CHR ''}'') [] q = Ok (kvs, r)"
      by (auto simp: Let_def s_def [symmetric] result_simps)
    from element_reader.element_list_le [OF fields_reader this] take_char_length [OF obj(3)]
    show ?thesis by simp
  next
    case lit
    with Suc.prems show ?thesis by (auto simp: Let_def s_def [symmetric] result_simps)
  qed
  with s show ?case by simp
qed simp

interpretation lfm_values:
  element_reader "\<lambda>vs r. bind_result (parser_value from_str levels r) (\<lambda>(v, r). Ok (vs @ [v], r))"
  for from_str :: "'n from_str" and levels
  by unfold_locales (auto simp: result_simps dest: parser_value_le)

interpretation lfm_fields: element_reader "parser_field from_str (parser_value from_str levels)"
  for from_str :: "'n from_str" and levels
  by unfold_locales
    (fastforce simp: parser_field_def result_simps split: if_splits
      dest: parser_value_le parser_string_length expect_length)

interpretation lfm_arguments: element_reader "parser_argument from_str"
  for from_str :: "'n from_str"
  by unfold_locales
    (fastforce simp: parser_argument_def result_simps
      dest: parser_value_le parser_name_length expect_length)

interpretation lfm_calls: element_reader "parser_call from_str"
  for from_str :: "'n from_str"
  by unfold_locales
    (fastforce simp: parser_call_def result_simps
      dest: parser_name_length expect_length lfm_arguments.element_list_le)

section \<open>The closing marker of LFM2\<close>

text \<open>
  The reference: reading a text leaves the reader inside or outside a quoted string;
  \<open>outside s i\<close> says that position \<open>i\<close> is outside.
\<close>

fun quote_step :: "char \<Rightarrow> char option \<times> bool \<Rightarrow> char option \<times> bool" where
  "quote_step c (q, True) = (q, False)"
| "quote_step c (None, False) = (if c = single_quote \<or> c = double_quote then Some c else None, False)"
| "quote_step c (Some d, False) =
     (if c = backslash then (Some d, True) else (if c = d then None else Some d, False))"

definition outside :: "string \<Rightarrow> nat \<Rightarrow> bool" where
  "outside s i \<longleftrightarrow> fold quote_step (take i s) (None, False) = (None, False)"

lemma closing_offset_loop_Cons:
  assumes "marker \<noteq> []" "hd marker \<noteq> single_quote" "hd marker \<noteq> double_quote"
  shows "closing_offset_loop marker q e (c # cs) =
    (if (q, e) = (None, False) \<and> prefix marker (c # cs) then Some 0
     else (case quote_step c (q, e) of (q, e) \<Rightarrow> map_option Suc (closing_offset_loop marker q e cs)))"
proof -
  have "prefix marker (c # cs) \<Longrightarrow> hd marker = c" using assms(1) by (cases marker) auto
  with assms show ?thesis by (cases e; cases q) auto
qed

lemma closing_offset_loop_iff:
  assumes m: "marker \<noteq> []" "hd marker \<noteq> single_quote" "hd marker \<noteq> double_quote"
  shows "closing_offset_loop marker q e s = Some i \<longleftrightarrow>
    occurs_at marker s i \<and> fold quote_step (take i s) (q, e) = (None, False) \<and>
    (\<forall>j < i. \<not> (occurs_at marker s j \<and> fold quote_step (take j s) (q, e) = (None, False)))"
proof (induction s arbitrary: q e i)
  case Nil
  with m(1) show ?case by (auto simp: occurs_at_def)
next
  case (Cons c cs)
  obtain q' e' where step: "quote_step c (q, e) = (q', e')" by (cases "quote_step c (q, e)")
  show ?case
  proof (cases i)
    case 0
    then show ?thesis
      unfolding closing_offset_loop_Cons [OF m] by (auto split: prod.split)
  next
    case (Suc k)
    then show ?thesis
      using Cons.IH [of q' e' k]
      unfolding closing_offset_loop_Cons [OF m] by (auto simp: step All_less_Suc2)
  qed
qed

text \<open>The closing marker of an LFM2 tool call is the first one outside the quoted strings of the
  body: one inside a string argument, also after an escaped quote, is part of the argument. The
  result is this position exactly.\<close>

theorem closing_offset_correct:
  assumes "marker \<noteq> []" "hd marker \<noteq> single_quote" "hd marker \<noteq> double_quote"
  shows "closing_offset body marker = Some i \<longleftrightarrow>
    occurs_at marker body i \<and> outside body i \<and>
    (\<forall>j < i. \<not> (occurs_at marker body j \<and> outside body j))"
  using closing_offset_loop_iff [OF assms, of None False body i]
  by (simp add: closing_offset_def outside_def)

theorem closing_offset_correct_witness:
  "closing_offset (''f('' @ [single_quote] @ ''<e>'' @ [single_quote] @ '')<e>'') ''<e>'' = Some 8 \<and>
   outside (''f('' @ [single_quote] @ ''<e>'' @ [single_quote] @ '')<e>'') 8 \<and>
   \<not> outside (''f('' @ [single_quote] @ ''<e>'' @ [single_quote] @ '')<e>'') 3"
proof -
  let ?body = "''f('' @ [single_quote] @ ''<e>'' @ [single_quote] @ '')<e>''"
  have run: "closing_offset ?body ''<e>'' = Some 8" by code_simp
  with closing_offset_correct [of "''<e>''" ?body 8] have "outside ?body 8" by simp
  moreover have "\<not> outside ?body 3" by code_simp
  ultimately show ?thesis using run by simp
qed

section \<open>Printing and parsing a call\<close>

text \<open>The canonical form of a call in angle brackets, with one parameter per line.\<close>

definition print_parameter :: "string \<times> string \<Rightarrow> string" where
  "print_parameter kv =
     ''<parameter='' @ fst kv @ ''>'' @ [newline] @ snd kv @ [newline] @ ''</parameter>'' @ [newline]"

definition print_function_call :: "string \<Rightarrow> (string \<times> string) list \<Rightarrow> string" where
  "print_function_call n args =
     ''<function='' @ n @ ''>'' @ [newline] @ concat (map print_parameter args) @ ''</function>''"

lemma white_space_heads:
  "list_all (\<lambda>w. w \<noteq> [] \<and> hd w \<noteq> CHR ''<'' \<and> (hd w = newline \<longrightarrow> w = [newline])) white_space"
  "[newline] \<in> set white_space"
  by code_simp+

lemma prefix_hd: "prefix w (c # s) \<Longrightarrow> w \<noteq> [] \<Longrightarrow> hd w = c"
  by (cases w) auto

lemma trim_start_lt [simp]: "trim_start (CHR ''<'' # s) = CHR ''<'' # s"
proof -
  have "find (\<lambda>w. w \<noteq> [] \<and> prefix w (CHR ''<'' # s)) white_space = None"
    using white_space_heads(1) prefix_hd by (fastforce simp: find_None_iff list_all_iff)
  then show ?thesis unfolding trim_start_def by (subst trim_with.simps) simp
qed

lemma trim_start_newline [simp]: "trim_start (newline # s) = trim_start s"
proof -
  let ?p = "\<lambda>w. w \<noteq> [] \<and> prefix w (newline # s)"
  obtain w where w: "find ?p white_space = Some w"
    using white_space_heads(2) by (cases "find ?p white_space") (auto simp: find_None_iff)
  then have "w \<in> set white_space" "w \<noteq> []" "prefix w (newline # s)"
    by (auto simp: find_Some_iff)
  with white_space_heads(1) prefix_hd [of w newline s] have "w = [newline]"
    by (auto simp: list_all_iff)
  with w show ?thesis unfolding trim_start_def by (subst trim_with.simps) simp
qed

lemma trim_start_Nil [simp]: "trim_start [] = []"
  using trim_start_length [of "[]"] by simp

lemma trim_Nil [simp]: "trim [] = []"
  using trim_length [of "[]"] by simp

lemma split_onceI:
  assumes "\<And>j. j < length a \<Longrightarrow> \<not> occurs_at p (a @ p @ b) j"
  shows "split_once p (a @ p @ b) = Some (a, b)"
proof -
  have "occurs_at p (a @ p @ b) (length a)"
    using occurs_at_shift [of p a "p @ b" 0] by simp
  with assms have "find_sub p (a @ p @ b) = Some (length a)" by (simp add: find_sub_eq_Some)
  then show ?thesis by (simp add: split_once_def)
qed

lemma split_once_tag:
  assumes "tag p" "find_sub p a = None"
  shows "split_once p (a @ p @ b) = Some (a, b)"
proof (rule split_onceI, rule notI)
  fix j
  assume j: "j < length a" and occ: "occurs_at p (a @ p @ b) j"
  have "occurs_at p (a @ p @ b) (length a)"
    using occurs_at_shift [of p a "p @ b" 0] by simp
  from tags_disjoint [OF assms(1,1) this occ j] occurs_at_appendD [OF occ] assms(2) show False
    by (auto simp: find_sub_None)
qed

lemma split_once_char:
  assumes "c \<notin> set a"
  shows "split_once [c] (a @ c # b) = Some (a, b)"
proof -
  have "\<not> occurs_at [c] (a @ [c] @ b) j" if "j < length a" for j
    using occurs_at_nth [of "[c]" "a @ [c] @ b" j 0] assms that nth_mem [OF that]
    by (auto simp: nth_append)
  from split_onceI [of a "[c]", OF this] show ?thesis by simp
qed

lemma valid_name_chars: "valid_name n \<Longrightarrow> \<not> protocol_name_char c \<Longrightarrow> c \<notin> set n"
  by (auto simp: valid_name_def list_all_iff)

lemma find_sub_newlines:
  assumes "tag p" "find_sub p v = None"
  shows "find_sub p ([newline] @ v @ [newline]) = None"
proof -
  have "False" if occ: "occurs_at p ([newline] @ v @ [newline]) j" for j
  proof -
    let ?s = "[newline] @ v @ [newline]"
    have "p \<noteq> []" "hd p = CHR ''<''" "last p = CHR ''>''" using assms(1) by (auto simp: tag_def)
    then have p: "0 < length p" "p ! 0 = CHR ''<''" "p ! (length p - 1) = CHR ''>''"
      by (metis length_greater_0_conv, metis hd_conv_nth, metis last_conv_nth)
    have len: "j + length p \<le> length v + 2" using occurs_at_length [OF occ] by simp
    have "?s ! j = CHR ''<''" using occurs_at_nth [OF occ p(1)] p(2) by simp
    then obtain k where k: "j = Suc k" by (cases j) auto
    have "?s ! (k + length p) = CHR ''>''" using occurs_at_nth [OF occ, of "length p - 1"] p k by simp
    then have "k + length p \<noteq> Suc (length v)" by (auto simp: nth_append)
    with len k have "k + length p \<le> length v" by simp
    moreover have "occurs_at p (v @ [newline]) k" using occ k by simp
    ultimately show False using occurs_at_appendD assms(2) by (metis find_sub_None)
  qed
  then show ?thesis unfolding find_sub_None by blast
qed

lemma strip_protocol_newlines_lines:
  assumes "v = [] \<or> last v \<noteq> carriage_return"
  shows "strip_protocol_newlines ([newline] @ v @ [newline]) = v"
proof -
  have "\<not> suffix [carriage_return, newline] (v @ [newline])"
    using assms by (cases v rule: rev_cases) (auto simp: suffix_def)
  then show ?thesis
    by (simp add: strip_protocol_newlines_def strip_prefix_def strip_suffix_def suffix_def)
qed

text \<open>What a parameter may look like for the printed form to be read back.\<close>

definition printable :: "ToolParameters \<Rightarrow> string \<times> string \<Rightarrow> bool" where
  "printable parameters kv \<longleftrightarrow>
     valid_name (fst kv) \<and> fst kv \<in> set (param_names parameters) \<and>
     find_sub ''</parameter>'' (snd kv) = None \<and>
     (snd kv = [] \<or> last (snd kv) \<noteq> carriage_return)"

definition decoded :: "'n from_str \<Rightarrow> (string \<times> string list) list \<Rightarrow> string \<Rightarrow> string \<times> string \<Rightarrow>
    string \<times> 'n Value" where
  "decoded from_str string_arguments n kv =
     (fst kv, decode_argument from_str n (fst kv) (snd kv) string_arguments)"

lemma tag_parameter_close: "tag ''</parameter>''"
  by code_simp

lemma parse_printed_parameters:
  assumes "list_all (printable parameters) args" "distinct (map fst args)"
    and "\<forall>k \<in> fst ` set args. map_of acc k = None"
  shows "parse_function_parameters from_str string_arguments n parameters
      (concat (map print_parameter args)) acc =
    Ok (fold (\<lambda>kv m. case decoded from_str string_arguments n kv of (k, v) \<Rightarrow> btree_insert k v m) args acc)"
  using assms
proof (induction args arbitrary: acc)
  case Nil
  then show ?case by (subst parse_function_parameters.simps) simp
next
  case (Cons kv args)
  obtain k v where kv: "kv = (k, v)" by (cases kv)
  let ?rest = "newline # concat (map print_parameter args)"
  from Cons.prems(1) have ok: "valid_name k" "k \<in> set (param_names parameters)"
    "find_sub ''</parameter>'' v = None" "v = [] \<or> last v \<noteq> carriage_return"
    by (auto simp: kv printable_def)
  have gt: "CHR ''>'' \<notin> set k" using ok(1) by (rule valid_name_chars) code_simp
  let ?body = "[newline] @ v @ [newline]"
  have printed: "concat (map print_parameter (kv # args)) =
      ''<parameter='' @ k @ CHR ''>'' # ?body @ ''</parameter>'' @ ?rest"
    by (simp add: kv print_parameter_def)
  have close: "split_once ''</parameter>'' (?body @ ''</parameter>'' @ ?rest) = Some (?body, ?rest)"
    by (intro split_once_tag tag_parameter_close find_sub_newlines ok(3))
  have strip: "strip_prefix ''<parameter='' (''<parameter='' @ s) = Some s" for s
    by (simp add: strip_prefix_Some)
  have skip: "parse_function_parameters from_str string_arguments n parameters ?rest m =
      parse_function_parameters from_str string_arguments n parameters (concat (map print_parameter args)) m" for m
    by (subst (1 2) parse_function_parameters.simps) simp
  have new: "map_of acc k = None" using Cons.prems(3) by (simp add: kv)
  let ?acc = "btree_insert k (decode_argument from_str n k v string_arguments) acc"
  have "parse_function_parameters from_str string_arguments n parameters
      (''<parameter='' @ k @ CHR ''>'' # ?body @ ''</parameter>'' @ ?rest) acc =
    parse_function_parameters from_str string_arguments n parameters ?rest ?acc"
    by (subst parse_function_parameters.simps)
      (simp add: strip [simplified] split_once_char [OF gt] validate_protocol_name_def ok
        close [simplified] strip_protocol_newlines_lines [OF ok(4), simplified] insert_new_def new)
  also have "\<dots> = Ok (fold (\<lambda>kv m. case decoded from_str string_arguments n kv of (k, v) \<Rightarrow> btree_insert k v m)
      args ?acc)"
    unfolding skip using Cons.prems by (intro Cons.IH) (auto simp: kv)
  finally show ?case unfolding printed by (simp add: kv decoded_def)
qed

lemma rsplit_once_end: "rsplit_once p (a @ p) = Some (a, [])"
  using split_onceI [of "[]" "rev p" "rev a"] by (simp add: rsplit_once_def)

lemma trim_matches_lines:
  assumes "s \<noteq> []" "hd s \<notin> set cs" "last s \<notin> set cs" "c \<in> set cs"
  shows "trim_matches cs ([c] @ s @ [c]) = s"
proof -
  obtain x s1 where s: "s = x # s1" using assms(1) by (cases s) auto
  have "trim_start_matches cs ([c] @ s @ [c]) = s @ [c]"
    using assms(2,4) by (simp add: trim_start_matches_def s)
  moreover have "dropWhile (\<lambda>c. c \<in> set cs) (rev s) = rev s"
    using assms(1,3) by (cases s rule: rev_cases) auto
  ultimately show ?thesis using assms(4) by (simp add: trim_matches_def)
qed

lemma map_of_fold_insert:
  "map_of (fold (\<lambda>kv m. case f kv of (k, v) \<Rightarrow> btree_insert k v m) xs m) k = None \<longleftrightarrow>
   map_of m k = None \<and> k \<notin> fst ` f ` set xs"
  by (induction xs arbitrary: m) (auto split: prod.split simp: image_iff)

text \<open>C20: A call printed in angle brackets, as it stands between the opening and the closing marker of
  a tool call, is read back: the function and its arguments, each decoded by its type in the schema.
  The values may contain anything but the closing tag of a parameter, the closing tag of the function
  included, and must not end in a carriage return, which would be taken for part of the line break.\<close>

theorem function_call_roundtrip:
  assumes "valid_name n" and "map_of tool_parameters n = Some parameters"
    and "list_all (printable parameters) args" "distinct (map fst args)"
    and "set (param_required parameters) \<subseteq> fst ` set args"
  shows "parse_function_call from_str ([newline] @ print_function_call n args @ [newline])
      string_arguments tool_parameters =
    Ok \<lparr>call_name = n, call_arguments = btree_of (map (decoded from_str string_arguments n) args)\<rparr>"
proof -
  let ?inside = "[newline] @ concat (map print_parameter args)"
  let ?s = "print_function_call n args"
  have s: "?s = ''<function='' @ n @ CHR ''>'' # ?inside @ ''</function>''"
    by (simp add: print_function_call_def)
  have trim: "trim_matches [carriage_return, newline] ([newline] @ ?s @ [newline]) = ?s"
    by (rule trim_matches_lines) (simp_all add: s)
  have gt: "CHR ''>'' \<notin> set n" using assms(1) by (rule valid_name_chars) code_simp
  have strip: "strip_prefix ''<function='' (''<function='' @ r) = Some r" for r
    by (simp add: strip_prefix_Some)
  let ?args = "fold (\<lambda>kv m. case decoded from_str string_arguments n kv of (k, v) \<Rightarrow> btree_insert k v m) args []"
  have "parse_function_parameters from_str string_arguments n parameters ?inside [] =
      parse_function_parameters from_str string_arguments n parameters (concat (map print_parameter args)) []"
    by (subst (1 2) parse_function_parameters.simps) simp
  also have "\<dots> = Ok ?args"
    using assms(3,4) by (intro parse_printed_parameters) auto
  finally have inner: "parse_function_parameters from_str string_arguments n parameters ?inside [] = Ok ?args" .
  have keys: "fst ` decoded from_str string_arguments n ` set args = fst ` set args"
    by (simp add: image_image decoded_def)
  have required: "\<not> list_ex (\<lambda>k. map_of ?args k = None) (param_required parameters)"
    using assms(5) unfolding map_of_fold_insert keys by (auto simp: list_ex_iff)
  have "?args = btree_of (map (decoded from_str string_arguments n) args)"
    by (simp add: btree_of_def fold_map comp_def split_beta)
  then show ?thesis
    unfolding parse_function_call_def trim Let_def
    using rsplit_once_end [of "''</function>''" ?inside] inner required assms(1,2)
    by (simp add: s strip [simplified] split_once_char [OF gt] validate_protocol_name_def prefix_def)
qed

theorem function_call_roundtrip_witness:
  "parse_function_call (\<lambda>_. None :: unit Value option)
     ([newline] @ print_function_call ''run'' [(''path'', ''a</function>'')] @ [newline])
     [(''run'', [''path''])] [(''run'', \<lparr>param_names = [''path''], param_required = [''path'']\<rparr>)] =
   Ok \<lparr>call_name = ''run'', call_arguments = [(''path'', JString ''a</function>'')]\<rparr>"
proof -
  let ?ps = "\<lparr>param_names = [''path''], param_required = [''path'']\<rparr>"
  have "btree_of (map (decoded (\<lambda>_. None :: unit Value option) [(''run'', [''path''])] ''run'')
      [(''path'', ''a</function>'')]) = [(''path'', JString ''a</function>'')]"
    by code_simp
  moreover have "valid_name ''run''" "list_all (printable ?ps) [(''path'', ''a</function>'')]"
    by code_simp+
  ultimately show ?thesis
    using function_call_roundtrip [of "''run''" "[(''run'', ?ps)]" ?ps "[(''path'', ''a</function>'')]"
        "\<lambda>_. None :: unit Value option" "[(''run'', [''path''])]"]
    by simp
qed

lemma parse_function_parameters_conform:
  assumes "parse_function_parameters from_str string_arguments n parameters body acc = Ok args"
    and "btree_ok acc" "fst ` set acc \<subseteq> set (param_names parameters)"
  shows "btree_ok args" "fst ` set args \<subseteq> set (param_names parameters)"
proof -
  have "btree_ok args \<and> fst ` set args \<subseteq> set (param_names parameters)"
    using assms
  proof (induction from_str string_arguments n parameters body acc rule: parse_function_parameters.induct)
    case (1 from_str string_arguments n parameters body acc)
    show ?case
    proof (cases "trim_start body = []")
      case True
      with "1.prems" show ?thesis by (subst (asm) parse_function_parameters.simps) simp
    next
      case False
      from "1.prems"(1) False obtain parameter k s inside rest v where
        "strip_prefix ''<parameter='' (trim_start body) = Some parameter"
        "split_once ''>'' parameter = Some (k, s)" "validate_protocol_name k = Ok ()"
        "k \<in> set (param_names parameters)" "split_once ''</parameter>'' s = Some (inside, rest)"
        and new: "insert_new tool_call_error k v acc = Ok (btree_insert k v acc)"
          "v = decode_argument from_str n k (strip_protocol_newlines inside) string_arguments"
        and rec: "parse_function_parameters from_str string_arguments n parameters rest (btree_insert k v acc) = Ok args"
        by (subst (asm) parse_function_parameters.simps)
          (auto simp: Let_def result_simps split: if_splits)
      then show ?thesis
        using "1.IH" [OF refl False, of parameter "(k, s)" k s "()" "(inside, rest)" inside rest] "1.prems"(2,3)
        by auto
    qed
  qed
  then show "btree_ok args" "fst ` set args \<subseteq> set (param_names parameters)" by auto
qed

text \<open>C21: A call in angle brackets that is accepted names a declared function, its arguments are
  declared parameters, each given once, and every required parameter is among them.\<close>

theorem function_call_conforms:
  assumes "prefix ''<function='' (trim_matches [carriage_return, newline] body)"
    and "parse_function_call from_str body string_arguments tool_parameters = Ok call"
  shows "\<exists>parameters. map_of tool_parameters (call_name call) = Some parameters \<and>
    valid_name (call_name call) \<and> btree_ok (call_arguments call) \<and>
    set (param_required parameters) \<subseteq> fst ` set (call_arguments call) \<and>
    fst ` set (call_arguments call) \<subseteq> set (param_names parameters)"
proof -
  let ?s = "trim_matches [carriage_return, newline] body"
  have "\<not> prefix ''{'' ?s" using assms(1) by (auto simp: prefix_def)
  with assms obtain n parameters inside args where
    "validate_protocol_name n = Ok ()" "map_of tool_parameters n = Some parameters"
    and args: "parse_function_parameters from_str string_arguments n parameters inside [] = Ok args"
    and req: "\<not> list_ex (\<lambda>k. map_of args k = None) (param_required parameters)"
    and call: "call = \<lparr>call_name = n, call_arguments = args\<rparr>"
    by (auto simp: parse_function_call_def Let_def result_simps split: if_splits)
  moreover have "set (param_required parameters) \<subseteq> fst ` set args"
    using req by (auto simp: list_ex_iff map_of_eq_None_iff)
  ultimately show ?thesis
    using parse_function_parameters_conform [OF args]
    by (auto simp: validate_protocol_name_def split: if_splits)
qed

theorem function_call_conforms_witness:
  "\<exists>parameters.
     map_of [(''run'', \<lparr>param_names = [''path''], param_required = [''path'']\<rparr>)] ''run'' = Some parameters \<and>
     valid_name ''run'' \<and> btree_ok [(''path'', JString ''a'' :: unit Value)] \<and>
     set (param_required parameters) \<subseteq> {''path''} \<and> {''path''} \<subseteq> set (param_names parameters)"
proof -
  let ?body = "print_function_call ''run'' [(''path'', ''a'')]"
  have open_tag: "prefix ''<function='' (trim_matches [carriage_return, newline] ?body)" by code_simp
  have run: "parse_function_call (\<lambda>_. None :: unit Value option) ?body [(''run'', [''path''])]
      [(''run'', \<lparr>param_names = [''path''], param_required = [''path'']\<rparr>)] =
    Ok \<lparr>call_name = ''run'', call_arguments = [(''path'', JString ''a'')]\<rparr>" by code_simp
  from function_call_conforms [OF open_tag run] show ?thesis by simp
qed

end
