(* ===== verification/Chat_Output.thy ===== *)
theory Chat_Output
  imports Tool_Protocols
begin

text \<open>
  The incremental decoder of generated chat output, the first half of
  \<open>crates/eider-runtime/src/chat_output.rs\<close>. Text arrives in chunks of any length; the parser
  separates reasoning, visible text and tool calls at the protocol markers, shows what cannot be
  part of a marker any more and withholds the rest.

  \<^item> \<open>ChatOutputParser\<close> is the parser's struct. \<open>parse_reasoning\<close>, \<open>parse_text\<close>, \<open>parse_tool_call\<close> and
    \<open>parse_direct_tool_call\<close> are one round of its loop in the four modes, \<open>parse_step\<close> the \<open>match\<close>
    on the mode, \<open>push_loop\<close> the loop and \<open>push_text\<close> the method. \<open>ChatOutputCodec\<close> and \<open>push_token\<close>
    put the tokenizer in front of it.
  \<^item> A method returns its result and the new parser; an \<open>Err\<close> drops the events collected so far, as
    the code does. \<open>None\<close> is a panic: an \<open>expect\<close> on \<open>None\<close> or an index out of range.
  \<^item> \<open>NEXT_TOOL_CALL_ID\<close> is the process-wide counter of tool call identities: an argument and a
    result of the functions that draw from it.
  \<^item> The tokenizer is a third-party crate. \<open>token_to_id\<close> and the decode stream are arguments.
\<close>

section \<open>Markers, events and modes\<close>

definition LFM_TOOL_CALL_OPEN :: string where "LFM_TOOL_CALL_OPEN = ''<|tool_call_start|>''"
definition LFM_TOOL_CALL_CLOSE :: string where "LFM_TOOL_CALL_CLOSE = ''<|tool_call_end|>''"
definition TOOL_CALL_OPEN :: string where "TOOL_CALL_OPEN = ''<tool_call>''"
definition TOOL_CALL_CLOSE :: string where "TOOL_CALL_CLOSE = ''</tool_call>''"
definition GEMMA_TOOL_CALL_OPEN :: string where "GEMMA_TOOL_CALL_OPEN = ''<|tool_call>''"
definition GEMMA_TOOL_CALL_CLOSE :: string where "GEMMA_TOOL_CALL_CLOSE = ''<tool_call|>''"
definition DSML_TOOL_CALLS_OPEN :: string where "DSML_TOOL_CALLS_OPEN = ''<'' @ dsml @ ''tool_calls>''"
definition DSML_TOOL_CALLS_CLOSE :: string where "DSML_TOOL_CALLS_CLOSE = ''</'' @ dsml @ ''tool_calls>''"
definition ATEM_TOOL_CALLS_OPEN :: string where "ATEM_TOOL_CALLS_OPEN = ''<atem:function_calls>''"
definition ATEM_TOOL_CALLS_CLOSE :: string where "ATEM_TOOL_CALLS_CLOSE = ''</atem:function_calls>''"
definition GEMMA_CHANNEL_OPEN :: string where "GEMMA_CHANNEL_OPEN = ''<|channel>''"
definition GEMMA_THINK_CHANNEL :: string where "GEMMA_THINK_CHANNEL = ''thought'' @ [newline]"
definition GEMMA_THINK_CLOSE :: string where "GEMMA_THINK_CLOSE = ''<channel|>''"
definition THINK_CLOSE :: string where "THINK_CLOSE = ''</think>''"

lemmas markers =
  LFM_TOOL_CALL_OPEN_def LFM_TOOL_CALL_CLOSE_def TOOL_CALL_OPEN_def TOOL_CALL_CLOSE_def
  GEMMA_TOOL_CALL_OPEN_def GEMMA_TOOL_CALL_CLOSE_def DSML_TOOL_CALLS_OPEN_def
  DSML_TOOL_CALLS_CLOSE_def ATEM_TOOL_CALLS_OPEN_def ATEM_TOOL_CALLS_CLOSE_def
  GEMMA_CHANNEL_OPEN_def GEMMA_THINK_CHANNEL_def GEMMA_THINK_CLOSE_def THINK_CLOSE_def
  dsml_def fullwidth_bar_def byte_def

record 'n ChatToolCall =
  call_id :: string
  call_function :: "'n ChatFunctionCall"

datatype 'n ChatOutputEvent =
    Reasoning string
  | Text string
  | ToolCall "'n ChatToolCall"

datatype OutputMode = ReasoningMode | TextMode | ToolCallMode | DirectToolCallMode

datatype ToolCallProtocol = Lfm2 | Standard | Gemma | Dsml | Atem

fun protocol_close :: "ToolCallProtocol \<Rightarrow> string" where
  "protocol_close Lfm2 = LFM_TOOL_CALL_CLOSE"
| "protocol_close Standard = TOOL_CALL_CLOSE"
| "protocol_close Gemma = GEMMA_TOOL_CALL_CLOSE"
| "protocol_close Dsml = DSML_TOOL_CALLS_CLOSE"
| "protocol_close Atem = ATEM_TOOL_CALLS_CLOSE"

record DirectTool =
  direct_name :: string
  direct_parameter :: string
  direct_open :: string
  direct_close :: string

record ChatOutputParser =
  mode :: OutputMode
  pending :: string
  tool_call :: string
  tool_call_protocol :: ToolCallProtocol
  gemma_channel_header_pending :: bool
  trim_after_thinking :: bool
  trim_after_tool_call :: bool
  string_arguments :: "(string \<times> string list) list"
  tool_parameters :: "(string \<times> ToolParameters) list"
  direct_tools :: "DirectTool list"
  active_direct_tool :: "nat option"
  finished :: bool

section \<open>Construction\<close>

record 'n ChatTool =
  tool_name :: string
  tool_schema :: "'n Value"

text \<open>Indexing a \<open>serde_json::Value\<close> with a key: \<open>Null\<close> when there is nothing.\<close>

definition json_index :: "'n Value \<Rightarrow> string \<Rightarrow> 'n Value" where
  "json_index v key =
     (case v of
        JObject kvs \<Rightarrow> (case map_of kvs key of Some x \<Rightarrow> x | None \<Rightarrow> JNull)
      | _ \<Rightarrow> JNull)"

definition as_array :: "'n Value \<Rightarrow> 'n Value list option" where
  "as_array v = (case v of JArray vs \<Rightarrow> Some vs | _ \<Rightarrow> None)"

definition btree_set :: "string list \<Rightarrow> string list" where
  "btree_set xs = sort (remdups xs)"

definition schema_properties :: "'n Value \<Rightarrow> (string \<times> 'n Value) list" where
  "schema_properties schema =
     (case as_object (json_index schema ''properties'') of Some ps \<Rightarrow> ps | None \<Rightarrow> [])"

definition schema_strings :: "'n Value \<Rightarrow> string list" where
  "schema_strings schema =
     btree_set (map fst
       (filter (\<lambda>(_, s). as_str (json_index s ''type'') = Some ''string'') (schema_properties schema)))"

definition schema_required :: "'n Value \<Rightarrow> string list" where
  "schema_required schema =
     (case as_array (json_index schema ''required'') of
        Some vs \<Rightarrow> btree_set (List.map_filter as_str vs)
      | None \<Rightarrow> [])"

fun new_tools ::
  "'n ChatTool list \<Rightarrow> (string \<times> string list) list \<Rightarrow> (string \<times> ToolParameters) list \<Rightarrow>
   DirectTool list \<Rightarrow>
   ((string \<times> string list) list \<times> (string \<times> ToolParameters) list \<times> DirectTool list) result" where
  "new_tools [] strings params direct = Ok (strings, params, direct)"
| "new_tools (tool # tools) strings params direct =
     (let n = tool_name tool;
          string_parameters = schema_strings (tool_schema tool);
          required = schema_required (tool_schema tool) in
      if map_of strings n \<noteq> None then Err (Format ''chat output tools'')
      else
        new_tools tools
          (btree_insert n string_parameters strings)
          (btree_insert n
             \<lparr>param_names = btree_set (map fst (schema_properties (tool_schema tool))),
              param_required = required\<rparr> params)
          (case required of
             [parameter] \<Rightarrow>
               if parameter \<in> set string_parameters
               then direct @ [\<lparr>direct_name = n, direct_parameter = parameter,
                               direct_open = ''<'' @ n @ ''>'', direct_close = ''</'' @ n @ ''>''\<rparr>]
               else direct
           | _ \<Rightarrow> direct))"

definition parser_new :: "'n ChatTool list \<Rightarrow> bool \<Rightarrow> ChatOutputParser result" where
  "parser_new tools starts_in_reasoning =
     bind_result (new_tools tools [] [] []) (\<lambda>(strings, params, direct).
       Ok \<lparr>mode = if starts_in_reasoning then ReasoningMode else TextMode,
           pending = [], tool_call = [], tool_call_protocol = Standard,
           gemma_channel_header_pending = False, trim_after_thinking = False,
           trim_after_tool_call = False, string_arguments = strings, tool_parameters = params,
           direct_tools = direct, active_direct_tool = None, finished = False\<rparr>)"

section \<open>Looking for markers\<close>

text \<open>
  \<open>filter_map\<close> of \<open>find\<close> over a table of markers, then \<open>min_by_key\<close> of the index: the marker that
  occurs first in the text, and of several at the same index the first of the table.
\<close>

definition marker_hits :: "(string \<times> 'b) list \<Rightarrow> string \<Rightarrow> (nat \<times> string \<times> 'b) list" where
  "marker_hits table text =
     List.map_filter (\<lambda>(marker, x). map_option (\<lambda>i. (i, marker, x)) (find_sub marker text)) table"

definition first_marker :: "(string \<times> 'b) list \<Rightarrow> string \<Rightarrow> (nat \<times> string \<times> 'b) option" where
  "first_marker table text = min_by (\<lambda>a b. fst a < fst b) (marker_hits table text)"

definition longest_marker_prefix_suffix :: "string \<Rightarrow> string \<Rightarrow> nat" where
  "longest_marker_prefix_suffix text marker =
     (case find (\<lambda>l. suffix (take l marker) text)
             (rev (filter (\<lambda>l. l \<noteq> 0) (filter (char_boundary marker) [0..<length marker]))) of
        Some l \<Rightarrow> l
      | None \<Rightarrow> 0)"

definition push_nonempty :: "'n ChatOutputEvent list \<Rightarrow> 'n ChatOutputEvent \<Rightarrow> 'n ChatOutputEvent list" where
  "push_nonempty events event =
     (case event of
        Reasoning text \<Rightarrow> if text = [] then events else events @ [event]
      | Text text \<Rightarrow> if text = [] then events else events @ [event]
      | ToolCall _ \<Rightarrow> events @ [event])"

definition held_bytes :: "string \<Rightarrow> string list \<Rightarrow> nat" where
  "held_bytes text marker_list = fold max (map (longest_marker_prefix_suffix text) marker_list) 0"

definition flush_safe_prefix_with_markers ::
  "string \<Rightarrow> string list \<Rightarrow> (string \<Rightarrow> 'n ChatOutputEvent) \<Rightarrow>
   bool \<times> 'n ChatOutputEvent list \<times> string" where
  "flush_safe_prefix_with_markers text marker_list make_event =
     (let emit_bytes = length text - held_bytes text marker_list in
      if emit_bytes = 0 then (False, [], text)
      else (True, push_nonempty [] (make_event (take emit_bytes text)), drop emit_bytes text))"

definition take_event ::
  "string \<Rightarrow> (string \<Rightarrow> 'n ChatOutputEvent) \<Rightarrow> 'n ChatOutputEvent list \<times> string" where
  "take_event text make_event = (if text = [] then ([], text) else ([make_event text], []))"

text \<open>\<open>{value:016x}\<close>.\<close>

definition hex16 :: "u64 \<Rightarrow> string" where
  "hex16 v = map (\<lambda>i. ''0123456789abcdef'' ! (unat v div 16 ^ (15 - i) mod 16)) [0..<16]"

definition next_tool_call_id :: "u64 \<Rightarrow> string result \<times> u64" where
  "next_tool_call_id ids =
     (if ids = - 1 then (Err (Format ''chat tool call ID''), ids)
      else (Ok (''call_'' @ hex16 ids), ids + 1))"

section \<open>One round in each mode\<close>

type_synonym 'n events = "'n ChatOutputEvent list"

definition reasoning_markers :: "(string \<times> bool) list" where
  "reasoning_markers =
     [(GEMMA_CHANNEL_OPEN, True), (THINK_CLOSE, False), (GEMMA_THINK_CLOSE, False)]"

definition parse_reasoning_control ::
  "ChatOutputParser \<Rightarrow> bool \<times> 'n events \<times> ChatOutputParser" where
  "parse_reasoning_control p =
     (case first_marker reasoning_markers (pending p) of
        Some (index, marker, opens_channel) \<Rightarrow>
          let events = push_nonempty [] (Reasoning (take index (pending p)));
              p = p\<lparr>pending := drop (index + length marker) (pending p)\<rparr> in
          (True, events,
           if opens_channel then p\<lparr>gemma_channel_header_pending := True\<rparr>
           else p\<lparr>mode := TextMode, trim_after_thinking := True\<rparr>)
      | None \<Rightarrow>
          (case flush_safe_prefix_with_markers (pending p) (map fst reasoning_markers) Reasoning of
             (progressed, events, rest) \<Rightarrow> (progressed, events, p\<lparr>pending := rest\<rparr>)))"

definition parse_reasoning :: "ChatOutputParser \<Rightarrow> bool \<times> 'n events \<times> ChatOutputParser" where
  "parse_reasoning p =
     (if prefix GEMMA_CHANNEL_OPEN (pending p) then
        (True, [], p\<lparr>pending := drop (length GEMMA_CHANNEL_OPEN) (pending p),
                     gemma_channel_header_pending := True\<rparr>)
      else if prefix (pending p) GEMMA_CHANNEL_OPEN then (False, [], p)
      else if gemma_channel_header_pending p \<and> prefix GEMMA_THINK_CHANNEL (pending p) then
        (True, [], p\<lparr>pending := drop (length GEMMA_THINK_CHANNEL) (pending p),
                     gemma_channel_header_pending := False\<rparr>)
      else if gemma_channel_header_pending p \<and> prefix (pending p) GEMMA_THINK_CHANNEL then
        (False, [], p)
      else parse_reasoning_control (p\<lparr>gemma_channel_header_pending := False\<rparr>))"

definition protocol_markers :: "(string \<times> ToolCallProtocol) list" where
  "protocol_markers =
     [(LFM_TOOL_CALL_OPEN, Lfm2), (TOOL_CALL_OPEN, Standard), (GEMMA_TOOL_CALL_OPEN, Gemma),
      (DSML_TOOL_CALLS_OPEN, Dsml), (ATEM_TOOL_CALLS_OPEN, Atem)]"

definition channel_markers :: "(string \<times> bool) list" where
  "channel_markers =
     [(GEMMA_CHANNEL_OPEN, True), (GEMMA_THINK_CLOSE, False), (''<think>'', True)]"

definition direct_markers :: "ChatOutputParser \<Rightarrow> (string \<times> nat) list" where
  "direct_markers p = zip (map direct_open (direct_tools p)) [0..<length (direct_tools p)]"

definition text_markers :: "ChatOutputParser \<Rightarrow> string list" where
  "text_markers p =
     map fst protocol_markers @ map fst channel_markers @ map direct_open (direct_tools p)"

text \<open>\<open>is_none_or(|x| index <= x.0)\<close>.\<close>

definition not_after :: "nat \<Rightarrow> (nat \<times> 'b) option \<Rightarrow> bool" where
  "not_after index hit = (case hit of None \<Rightarrow> True | Some (i, _) \<Rightarrow> index \<le> i)"

definition parse_text_flush :: "ChatOutputParser \<Rightarrow> bool \<times> 'n events \<times> ChatOutputParser" where
  "parse_text_flush p =
     (case flush_safe_prefix_with_markers (pending p) (text_markers p) Text of
        (progressed, events, rest) \<Rightarrow> (progressed, events, p\<lparr>pending := rest\<rparr>))"

definition parse_text_direct :: "ChatOutputParser \<Rightarrow> bool \<times> 'n events \<times> ChatOutputParser" where
  "parse_text_direct p =
     (case first_marker (direct_markers p) (pending p) of
        Some (index, open, tool) \<Rightarrow>
          (True, push_nonempty [] (Text (take index (pending p))),
           p\<lparr>pending := drop (index + length open) (pending p), active_direct_tool := Some tool,
              mode := DirectToolCallMode\<rparr>)
      | None \<Rightarrow> parse_text_flush p)"

definition parse_text_protocol :: "ChatOutputParser \<Rightarrow> bool \<times> 'n events \<times> ChatOutputParser" where
  "parse_text_protocol p =
     (case first_marker protocol_markers (pending p) of
        Some (index, open, protocol) \<Rightarrow>
          if not_after index (first_marker (direct_markers p) (pending p)) then
            (True, push_nonempty [] (Text (take index (pending p))),
             p\<lparr>pending := drop (index + length open) (pending p), tool_call_protocol := protocol,
                mode := ToolCallMode\<rparr>)
          else parse_text_direct p
      | None \<Rightarrow> parse_text_direct p)"

definition parse_text_markers :: "ChatOutputParser \<Rightarrow> bool \<times> 'n events \<times> ChatOutputParser" where
  "parse_text_markers p =
     (case first_marker channel_markers (pending p) of
        Some (index, marker, opens_channel) \<Rightarrow>
          if not_after index (first_marker protocol_markers (pending p)) \<and>
             not_after index (first_marker (direct_markers p) (pending p)) then
            (let events = push_nonempty [] (Text (take index (pending p)));
                 p = p\<lparr>pending := drop (index + length marker) (pending p)\<rparr> in
             (True, events,
              if opens_channel
              then p\<lparr>mode := ReasoningMode,
                     gemma_channel_header_pending := (marker = GEMMA_CHANNEL_OPEN)\<rparr>
              else p\<lparr>trim_after_thinking := True\<rparr>))
          else parse_text_protocol p
      | None \<Rightarrow> parse_text_protocol p)"

definition parse_text :: "ChatOutputParser \<Rightarrow> bool \<times> 'n events \<times> ChatOutputParser" where
  "parse_text p =
     (if trim_after_thinking p \<or> trim_after_tool_call p then
        (let p = p\<lparr>pending := trim_start_matches [carriage_return, newline] (pending p)\<rparr> in
         if pending p = [] then (False, [], p)
         else parse_text_markers (p\<lparr>trim_after_thinking := False, trim_after_tool_call := False\<rparr>))
      else parse_text_markers p)"

text \<open>Each call gets an identity; an exhausted counter stops the calls that follow.\<close>

fun identify_calls :: "'n ChatFunctionCall list \<Rightarrow> u64 \<Rightarrow> 'n events result \<times> u64" where
  "identify_calls [] ids = (Ok [], ids)"
| "identify_calls (f # fs) ids =
     (case next_tool_call_id ids of
        (Inl e, ids) \<Rightarrow> (Err e, ids)
      | (Inr i, ids) \<Rightarrow>
          (case identify_calls fs ids of
             (Inl e, ids) \<Rightarrow> (Err e, ids)
           | (Inr events, ids) \<Rightarrow>
               (Ok (ToolCall \<lparr>call_id = i, call_function = f\<rparr> # events), ids)))"

definition close_index :: "ToolCallProtocol \<Rightarrow> string \<Rightarrow> nat option" where
  "close_index protocol text =
     (if protocol = Lfm2 then closing_offset text (protocol_close protocol)
      else find_sub (protocol_close protocol) text)"

definition parse_body :: "'n from_str \<Rightarrow> ChatOutputParser \<Rightarrow> string \<Rightarrow> 'n ChatFunctionCall list result" where
  "parse_body from_str p body =
     (case tool_call_protocol p of
        Lfm2 \<Rightarrow>
          bind_result (lfm2_parse from_str body) (\<lambda>calls.
            if list_ex (\<lambda>call. map_of (tool_parameters p) (call_name call) = None) calls
            then Err lfm2_error else Ok calls)
      | Standard \<Rightarrow>
          bind_result (parse_function_call from_str body (string_arguments p) (tool_parameters p))
            (\<lambda>call. Ok [call])
      | Gemma \<Rightarrow>
          bind_result (parse_gemma_function_call from_str body (string_arguments p) (tool_parameters p))
            (\<lambda>call. Ok [call])
      | Dsml \<Rightarrow> parse_dsml_function_calls from_str body (tool_parameters p)
      | Atem \<Rightarrow> parse_atem_function_calls from_str body (string_arguments p) (tool_parameters p))"

definition parse_tool_call ::
  "'n from_str \<Rightarrow> ChatOutputParser \<Rightarrow> u64 \<Rightarrow> (bool \<times> 'n events) result \<times> ChatOutputParser \<times> u64" where
  "parse_tool_call from_str p ids =
     (let p = p\<lparr>tool_call := tool_call p @ pending p, pending := []\<rparr>;
          close = protocol_close (tool_call_protocol p) in
      case close_index (tool_call_protocol p) (tool_call p) of
        None \<Rightarrow> (Ok (False, []), p, ids)
      | Some index \<Rightarrow>
          let body = take index (tool_call p);
              p = p\<lparr>tool_call := [], pending := drop (index + length close) (tool_call p)\<rparr> in
          try_result (parse_body from_str p body) (p, ids) (\<lambda>calls.
            case identify_calls calls ids of
              (Inl e, ids) \<Rightarrow> (Err e, p, ids)
            | (Inr events, ids) \<Rightarrow>
                (Ok (True, events), p\<lparr>mode := TextMode, trim_after_tool_call := True\<rparr>, ids)))"

definition parse_direct_tool_call ::
  "ChatOutputParser \<Rightarrow> u64 \<Rightarrow> ((bool \<times> 'n events) result \<times> ChatOutputParser \<times> u64) option" where
  "parse_direct_tool_call p ids =
     (let p = p\<lparr>tool_call := tool_call p @ pending p, pending := []\<rparr> in
      Option.bind (Option.bind (active_direct_tool p) (get (direct_tools p))) (\<lambda>definition.
        Some (case find_sub (direct_close definition) (tool_call p) of
          None \<Rightarrow> (Ok (False, []), p, ids)
        | Some index \<Rightarrow>
            let argument = strip_protocol_newlines (take index (tool_call p));
                function = \<lparr>call_name = direct_name definition,
                            call_arguments = [(direct_parameter definition, JString argument)]\<rparr>;
                p = p\<lparr>tool_call := [],
                      pending := drop (index + length (direct_close definition)) (tool_call p),
                      active_direct_tool := None\<rparr> in
            case identify_calls [function] ids of
              (Inl e, ids) \<Rightarrow> (Err e, p, ids)
            | (Inr events, ids) \<Rightarrow>
                (Ok (True, events), p\<lparr>mode := TextMode, trim_after_tool_call := True\<rparr>, ids))))"

text \<open>The \<open>match\<close> on the mode.\<close>

definition parse_step ::
  "'n from_str \<Rightarrow> ChatOutputParser \<Rightarrow> u64 \<Rightarrow>
   ((bool \<times> 'n events) result \<times> ChatOutputParser \<times> u64) option" where
  "parse_step from_str p ids =
     (case mode p of
        ReasoningMode \<Rightarrow>
          (case parse_reasoning p of (progressed, events, p) \<Rightarrow> Some (Ok (progressed, events), p, ids))
      | TextMode \<Rightarrow>
          (case parse_text p of (progressed, events, p) \<Rightarrow> Some (Ok (progressed, events), p, ids))
      | ToolCallMode \<Rightarrow> Some (parse_tool_call from_str p ids)
      | DirectToolCallMode \<Rightarrow> parse_direct_tool_call p ids)"

section \<open>The parser's methods\<close>

text \<open>The \<open>loop\<close> of \<open>push_text\<close>: \<open>None\<close> is a panic or a loop that does not end.\<close>

partial_function (option) push_loop ::
  "'n from_str \<Rightarrow> ChatOutputParser \<Rightarrow> u64 \<Rightarrow> 'n events \<Rightarrow>
   ('n events result \<times> ChatOutputParser \<times> u64) option" where
  "push_loop from_str p ids events =
     Option.bind (parse_step from_str p ids) (\<lambda>(r, p, ids).
       case r of
         Inl e \<Rightarrow> Some (Err e, p, ids)
       | Inr (progressed, new_events) \<Rightarrow>
           if progressed then push_loop from_str p ids (events @ new_events)
           else Some (Ok (events @ new_events), p, ids))"

declare push_loop.simps [code]

definition push_text ::
  "'n from_str \<Rightarrow> ChatOutputParser \<Rightarrow> u64 \<Rightarrow> string \<Rightarrow>
   ('n events result \<times> ChatOutputParser \<times> u64) option" where
  "push_text from_str p ids text =
     (if finished p then Some (Err (Format ''chat output parser''), p, ids)
      else push_loop from_str (p\<lparr>pending := pending p @ text\<rparr>) ids [])"

definition begin_muse_segment :: "ChatOutputParser \<Rightarrow> string \<Rightarrow> unit result \<times> ChatOutputParser" where
  "begin_muse_segment p header =
     try_result
       (ok_or (map_option trim (Option.bind (map_option trim (strip_prefix ''assistant'' (trim header)))
          (strip_prefix ''to=''))) (Format ''Muse Glimmer output'')) p (\<lambda>recipient.
       if recipient = [] then (Err (Format ''Muse Glimmer output''), p)
       else (Ok (), p\<lparr>mode := (if recipient = ''self'' then ReasoningMode else TextMode),
                      trim_after_thinking := False, trim_after_tool_call := False\<rparr>))"

definition end_muse_segment :: "ChatOutputParser \<Rightarrow> 'n events result \<times> ChatOutputParser" where
  "end_muse_segment p =
     (case mode p of
        ReasoningMode \<Rightarrow>
          (case take_event (pending p) Reasoning of
             (events, rest) \<Rightarrow> (Ok events, p\<lparr>pending := rest, mode := TextMode\<rparr>))
      | TextMode \<Rightarrow>
          (case take_event (pending p) Text of
             (events, rest) \<Rightarrow> (Ok events, p\<lparr>pending := rest, mode := TextMode\<rparr>))
      | _ \<Rightarrow> (Err (Format ''Muse Glimmer tool call''), p))"

definition finish_with_truncation ::
  "ChatOutputParser \<Rightarrow> bool \<Rightarrow> 'n events result \<times> ChatOutputParser" where
  "finish_with_truncation p truncated =
     (if finished p then (Ok [], p)
      else
        let p = p\<lparr>finished := True\<rparr> in
        case mode p of
          ReasoningMode \<Rightarrow>
            (case take_event (pending p) Reasoning of (events, rest) \<Rightarrow> (Ok events, p\<lparr>pending := rest\<rparr>))
        | TextMode \<Rightarrow>
            (case take_event (pending p) Text of (events, rest) \<Rightarrow> (Ok events, p\<lparr>pending := rest\<rparr>))
        | _ \<Rightarrow> if truncated then (Ok [], p) else (Err (Format ''chat tool call''), p))"

section \<open>The codec\<close>

record GemmaSpecialTokens =
  channel_open :: u32
  channel_close :: u32
  tool_call_open :: u32
  tool_call_close :: u32

record MuseSpecialTokens =
  muse_start :: u32
  muse_message :: u32
  muse_end_message :: u32
  muse_end_turn :: u32

text \<open>\<open>'d\<close> is the state of the tokenizer's decode stream.\<close>

record 'd ChatOutputCodec =
  decode_stream :: 'd
  parser :: ChatOutputParser
  gemma_special_tokens :: "GemmaSpecialTokens option"
  protocol_special_tokens :: "(u32 \<times> string) list"
  muse_special_tokens :: "MuseSpecialTokens option"
  muse_header :: "string option"
  codec_finished :: bool

definition protocol_token_texts :: "string list" where
  "protocol_token_texts =
     [LFM_TOOL_CALL_OPEN, LFM_TOOL_CALL_CLOSE, ''<think>'', THINK_CLOSE, TOOL_CALL_OPEN,
      TOOL_CALL_CLOSE, ''<arg_key>'', ''</arg_key>'', ''<arg_value>'', ''</arg_value>'']"

definition codec_new ::
  "(string \<Rightarrow> u32 option) \<Rightarrow> 'd \<Rightarrow> 'n ChatTool list \<Rightarrow> bool \<Rightarrow> 'd ChatOutputCodec result" where
  "codec_new token_to_id stream tools starts_in_reasoning =
     (let gemma =
        (case (token_to_id ''<|channel>'', token_to_id GEMMA_THINK_CLOSE,
               token_to_id GEMMA_TOOL_CALL_OPEN, token_to_id GEMMA_TOOL_CALL_CLOSE) of
           (Some a, Some b, Some c, Some d) \<Rightarrow>
             Some \<lparr>channel_open = a, channel_close = b, tool_call_open = c, tool_call_close = d\<rparr>
         | _ \<Rightarrow> None);
          muse =
        (case (token_to_id ''<|start|>'', token_to_id ''<|message|>'',
               token_to_id ''<|eom|>'', token_to_id ''<|eot|>'') of
           (Some a, Some b, Some c, Some d) \<Rightarrow>
             Some \<lparr>muse_start = a, muse_message = b, muse_end_message = c, muse_end_turn = d\<rparr>
         | _ \<Rightarrow> None) in
      bind_result (parser_new tools starts_in_reasoning) (\<lambda>p.
        Ok \<lparr>decode_stream = stream, parser = p, gemma_special_tokens = gemma,
            protocol_special_tokens =
              (if token_to_id LFM_TOOL_CALL_OPEN \<noteq> None \<or> token_to_id ''<arg_key>'' \<noteq> None
               then List.map_filter (\<lambda>m. map_option (\<lambda>i. (i, m)) (token_to_id m)) protocol_token_texts
               else []),
            muse_special_tokens = muse,
            muse_header = map_option (\<lambda>_. ''assistant'') muse,
            codec_finished = False\<rparr>))"

text \<open>\<open>self.parser.push_text(text)\<close> as the last action of \<open>push_token\<close>.\<close>

definition codec_push_text ::
  "'n from_str \<Rightarrow> 'd ChatOutputCodec \<Rightarrow> u64 \<Rightarrow> string \<Rightarrow>
   ('n events result \<times> 'd ChatOutputCodec \<times> u64) option" where
  "codec_push_text from_str c ids text =
     map_option (\<lambda>(r, p, ids). (r, c\<lparr>parser := p\<rparr>, ids)) (push_text from_str (parser c) ids text)"

definition gemma_marker :: "GemmaSpecialTokens \<Rightarrow> u32 \<Rightarrow> string option" where
  "gemma_marker tokens token_id =
     (if token_id = channel_open tokens then Some ''<|channel>''
      else if token_id = channel_close tokens then Some GEMMA_THINK_CLOSE
      else if token_id = tool_call_open tokens then Some GEMMA_TOOL_CALL_OPEN
      else if token_id = tool_call_close tokens then Some GEMMA_TOOL_CALL_CLOSE
      else None)"

definition push_decoded ::
  "'n from_str \<Rightarrow> ('d \<Rightarrow> u32 \<Rightarrow> string option result \<times> 'd) \<Rightarrow> 'd ChatOutputCodec \<Rightarrow> u64 \<Rightarrow> u32 \<Rightarrow>
   ('n events result \<times> 'd ChatOutputCodec \<times> u64) option" where
  "push_decoded from_str stream_step c ids token_id =
     (case Option.bind (gemma_special_tokens c) (\<lambda>tokens. gemma_marker tokens token_id) of
        Some marker \<Rightarrow> codec_push_text from_str c ids marker
      | None \<Rightarrow>
      case stream_step (decode_stream c) token_id of
        (Inl e, stream) \<Rightarrow>
          Some (Err (Format ''tokenizer decode stream''), c\<lparr>decode_stream := stream\<rparr>, ids)
      | (Inr None, stream) \<Rightarrow> Some (Ok [], c\<lparr>decode_stream := stream\<rparr>, ids)
      | (Inr (Some text), stream) \<Rightarrow>
          let c = c\<lparr>decode_stream := stream\<rparr> in
          case muse_header c of
            Some header \<Rightarrow> Some (Ok [], c\<lparr>muse_header := Some (header @ text)\<rparr>, ids)
          | None \<Rightarrow> codec_push_text from_str c ids text)"

definition push_token ::
  "'n from_str \<Rightarrow> ('d \<Rightarrow> u32 \<Rightarrow> string option result \<times> 'd) \<Rightarrow> 'd ChatOutputCodec \<Rightarrow> u64 \<Rightarrow> u32 \<Rightarrow>
   ('n events result \<times> 'd ChatOutputCodec \<times> u64) option" where
  "push_token from_str stream_step c ids token_id =
     (if codec_finished c then Some (Err (Format ''chat output stream''), c, ids)
      else case find (\<lambda>(i, _). i = token_id) (protocol_special_tokens c) of
        Some (_, marker) \<Rightarrow> codec_push_text from_str c ids marker
      | None \<Rightarrow>
      case muse_special_tokens c of
        None \<Rightarrow> push_decoded from_str stream_step c ids token_id
      | Some tokens \<Rightarrow>
          if token_id = muse_start tokens then Some (Ok [], c\<lparr>muse_header := Some []\<rparr>, ids)
          else if token_id = muse_message tokens then
            (case muse_header c of
               None \<Rightarrow> Some (Err (Format ''Muse Glimmer output''), c, ids)
             | Some header \<Rightarrow>
                 (case begin_muse_segment (parser c) header of
                    (r, p) \<Rightarrow>
                      Some (bind_result r (\<lambda>_. Ok []), c\<lparr>muse_header := None, parser := p\<rparr>, ids)))
          else if token_id = muse_end_message tokens \<or> token_id = muse_end_turn tokens then
            (case end_muse_segment (parser c) of
               (Inl e, p) \<Rightarrow> Some (Err e, c\<lparr>parser := p\<rparr>, ids)
             | (Inr events, p) \<Rightarrow> Some (Ok events, c\<lparr>parser := p, muse_header := Some []\<rparr>, ids))
          else push_decoded from_str stream_step c ids token_id)"

definition is_reasoning :: "'d ChatOutputCodec \<Rightarrow> bool" where
  "is_reasoning c = (mode (parser c) = ReasoningMode)"

definition codec_finish ::
  "'d ChatOutputCodec \<Rightarrow> bool \<Rightarrow> 'n events result \<times> 'd ChatOutputCodec" where
  "codec_finish c truncated =
     (if codec_finished c then (Ok [], c)
      else case finish_with_truncation (parser c) truncated of
        (r, p) \<Rightarrow> (r, c\<lparr>codec_finished := True, parser := p\<rparr>))"

end
