(* ===== verification/Chat_Stream.thy ===== *)
theory Chat_Stream
  imports Chat_Output
begin

text \<open>
  What the chat output parser guarantees of a stream of chunks. The proofs see a round of the parser
  in text or reasoning mode as one search: the first marker of a table is found and acted on, or
  the safe part of the text is shown (\<open>scan_step\<close>). Markers are tags, so two of them never overlap,
  and what is found in a text is found in every extension of it.
\<close>

section \<open>The first marker\<close>

lemma marker_hits_iff:
  "(i, m, x) \<in> set (marker_hits table s) \<longleftrightarrow> (m, x) \<in> set table \<and> find_sub m s = Some i"
  by (force simp: marker_hits_def List.map_filter_def)

lemma first_marker_None:
  "first_marker table s = None \<longleftrightarrow> (\<forall>(m, x) \<in> set table. \<forall>i. \<not> occurs_at m s i)"
  by (auto simp: first_marker_def marker_hits_def List.map_filter_def filter_empty_conv
      find_sub_None [symmetric])

lemma first_marker_Some:
  assumes "first_marker table s = Some (i, m, x)"
  shows "(m, x) \<in> set table" and "occurs_at m s i"
    and "\<And>m' x' j. (m', x') \<in> set table \<Longrightarrow> occurs_at m' s j \<Longrightarrow> i \<le> j"
proof -
  have min: "(i, m, x) \<in> set (marker_hits table s) \<and>
      (\<forall>y \<in> set (marker_hits table s). \<not> fst y < fst (i, m, x))"
    using assms unfolding first_marker_def by (rule min_by_Some) auto
  then show "(m, x) \<in> set table" and "occurs_at m s i"
    by (auto simp: marker_hits_iff dest: find_sub_Some)
  fix m' x' j
  assume m': "(m', x') \<in> set table" "occurs_at m' s j"
  then obtain k where k: "find_sub m' s = Some k"
    using find_sub_None [of m' s] by auto
  with m'(1) have "(k, m', x') \<in> set (marker_hits table s)" by (simp add: marker_hits_iff)
  with min have "i \<le> k" by fastforce
  also have "k \<le> j" using find_sub_Some [OF k] m'(2) by (meson not_le_imp_less)
  finally show "i \<le> j" .
qed

lemma min_by_map:
  assumes "\<And>a b. lt (f a) (f b) \<longleftrightarrow> lt' a b"
  shows "min_by lt (map f xs) = map_option f (min_by lt' xs)"
  by (induction xs) (auto simp: assms split: option.splits)

lemma min_by_append:
  assumes "\<And>a b. lt a b \<Longrightarrow> \<not> lt b a" "\<And>a b c. lt c a \<Longrightarrow> lt c b \<or> lt b a"
  shows "min_by lt (xs @ ys) =
    (case min_by lt xs of
       None \<Rightarrow> min_by lt ys
     | Some a \<Rightarrow> (case min_by lt ys of None \<Rightarrow> Some a | Some b \<Rightarrow> Some (if lt b a then b else a)))"
  by (induction xs) (auto split: option.splits dest: assms)

lemma less_linear_or: "c < a \<Longrightarrow> c < b \<or> b < (a :: nat)"
  by linarith

text \<open>Searching two tables one after the other is searching their concatenation.\<close>

lemma first_marker_append:
  "first_marker (t1 @ t2) s =
    (case first_marker t1 s of
       Some a \<Rightarrow> if not_after (fst a) (first_marker t2 s) then Some a else first_marker t2 s
     | None \<Rightarrow> first_marker t2 s)"
proof -
  have "marker_hits (t1 @ t2) s = marker_hits t1 s @ marker_hits t2 s"
    by (simp add: marker_hits_def List.map_filter_def)
  then show ?thesis
    unfolding first_marker_def
    by (simp add: min_by_append [where lt = "\<lambda>a b. fst a < fst b", OF less_not_sym less_linear_or])
      (auto simp: not_after_def split: option.splits prod.splits)
qed

lemma first_marker_map:
  "first_marker (map (\<lambda>(m, x). (m, f m x)) table) s =
   map_option (\<lambda>(i, m, x). (i, m, f m x)) (first_marker table s)"
proof -
  have "marker_hits (map (\<lambda>(m, x). (m, f m x)) table) s =
      map (\<lambda>(i, m, x). (i, m, f m x)) (marker_hits table s)"
    by (induction table)
      (auto simp: marker_hits_def List.map_filter_def split: option.splits)
  then show ?thesis
    unfolding first_marker_def
    by (simp add: min_by_map [where lt' = "\<lambda>a b. fst a < fst b"] split_beta)
qed

text \<open>Of the entries of one marker the first is found.\<close>

lemma marker_hits_simps:
  "marker_hits [] s = []"
  "marker_hits ((m, x) # table) s =
     (case find_sub m s of Some i \<Rightarrow> [(i, m, x)] | None \<Rightarrow> []) @ marker_hits table s"
  by (auto simp: marker_hits_def List.map_filter_def split: option.split)

lemma first_marker_map_of:
  "first_marker table s = Some (i, m, x) \<Longrightarrow> map_of table m = Some x"
proof (induction table arbitrary: i m x)
  case (Cons mx table)
  obtain m0 x0 where mx: "mx = (m0, x0)" by (cases mx)
  show ?case
  proof (cases "find_sub m0 s")
    case None
    with Cons.prems have hit: "first_marker table s = Some (i, m, x)"
      by (simp add: mx first_marker_def marker_hits_simps)
    moreover have "m \<noteq> m0"
      using first_marker_Some(2) [OF hit] None by (auto simp: find_sub_None)
    ultimately show ?thesis using Cons.IH by (simp add: mx)
  next
    case (Some i0)
    show ?thesis
    proof (cases "(i, m, x) = (i0, m0, x0)")
      case True
      then show ?thesis by (simp add: mx)
    next
      case False
      with Cons.prems Some have hit: "first_marker table s = Some (i, m, x)" and lt: "i < i0"
        by (auto simp: mx first_marker_def marker_hits_simps split: option.splits if_splits)
      have "m \<noteq> m0"
        using first_marker_Some(2) [OF hit] find_sub_Some [OF Some] lt by auto
      with Cons.IH [OF hit] show ?thesis by (simp add: mx)
    qed
  qed
qed (simp add: first_marker_def marker_hits_simps)

lemma first_marker_at_0: "prefix m s \<Longrightarrow> first_marker ((m, x) # table) s = Some (0, m, x)"
proof -
  assume "prefix m s"
  then have "find_sub m s = Some 0" by (simp add: find_sub_eq_Some)
  then show ?thesis by (simp add: first_marker_def marker_hits_simps split: option.split)
qed

definition tag_table :: "(string \<times> 'b) list \<Rightarrow> bool" where
  "tag_table table \<longleftrightarrow> list_all (tag \<circ> fst) table"

lemma first_marker_extend:
  assumes table: "tag_table table" and hit: "first_marker table s = Some (i, m, x)"
  shows "first_marker table (s @ t) = Some (i, m, x)"
proof -
  note h = first_marker_Some [OF hit]
  have tags: "tag m'" if "(m', x') \<in> set table" for m' x'
    using table that by (auto simp: tag_table_def list_all_iff)
  have occ: "occurs_at m (s @ t) i" using h(2) by (rule occurs_at_append)
  then obtain i' m' x' where hit': "first_marker table (s @ t) = Some (i', m', x')"
    using h(1) first_marker_None [of table "s @ t"] by (cases "first_marker table (s @ t)") auto
  note h' = first_marker_Some [OF hit']
  have "\<not> i' < i"
  proof
    assume lt: "i' < i"
    from tags_disjoint [OF tags [OF h(1)] tags [OF h'(1)] occ h'(2) lt]
    have "i' + length m' \<le> length s" using occurs_at_length [OF h(2)] by simp
    with h'(2) have "occurs_at m' s i'" by (rule occurs_at_appendD)
    from h(3) [OF h'(1) this] lt show False by simp
  qed
  with h'(3) [OF h(1) occ] have i: "i' = i" by simp
  with tags_same_place [OF tags [OF h(1)] tags [OF h'(1)] occ] h'(2) have "m' = m" by simp
  with first_marker_map_of [OF hit] first_marker_map_of [OF hit'] have "x' = x" by simp
  with i \<open>m' = m\<close> hit' show ?thesis by simp
qed

section \<open>The withheld tail\<close>

text \<open>\<open>partial_at s m l\<close>: the text ends with the first \<open>l\<close> bytes of the marker \<open>m\<close>.\<close>

definition partial_at :: "string \<Rightarrow> string \<Rightarrow> nat \<Rightarrow> bool" where
  "partial_at s m l \<longleftrightarrow> 0 < l \<and> l < length m \<and> char_boundary m l \<and> suffix (take l m) s"

lemma longest_marker_prefix_suffix_mem:
  "longest_marker_prefix_suffix s m = 0 \<or> partial_at s m (longest_marker_prefix_suffix s m)"
proof (cases "find (\<lambda>l. suffix (take l m) s)
    (rev (filter (\<lambda>l. l \<noteq> 0) (filter (char_boundary m) [0..<length m])))")
  case (Some l)
  then have "suffix (take l m) s \<and> l \<in> set (filter (\<lambda>l. l \<noteq> 0) (filter (char_boundary m) [0..<length m]))"
    by (metis (no_types, lifting) find_Some_iff nth_mem set_rev)
  with Some show ?thesis by (simp add: longest_marker_prefix_suffix_def partial_at_def)
qed (simp add: longest_marker_prefix_suffix_def)

lemma find_rev_upt_ge:
  assumes "l \<in> set (filter P [0..<n])" "Q l"
  shows "\<exists>k. find Q (rev (filter P [0..<n])) = Some k \<and> l \<le> k"
  using assms
proof (induction n)
  case (Suc n)
  show ?case
  proof (cases "P n \<and> Q n")
    case True
    with Suc.prems show ?thesis by auto
  next
    case False
    with Suc.prems have "l \<in> set (filter P [0..<n])" by (auto simp: less_Suc_eq split: if_splits)
    with Suc.IH Suc.prems(2) False show ?thesis by auto
  qed
qed simp

lemma longest_marker_prefix_suffix_ge:
  assumes "partial_at s m l"
  shows "l \<le> longest_marker_prefix_suffix s m"
proof -
  have "l \<in> set (filter (\<lambda>l. l \<noteq> 0 \<and> char_boundary m l) [0..<length m])"
    "suffix (take l m) s"
    using assms by (auto simp: partial_at_def)
  from find_rev_upt_ge [where Q = "\<lambda>l. suffix (take l m) s", OF this] show ?thesis
    by (auto simp: longest_marker_prefix_suffix_def conj_commute)
qed

lemma fold_max_bounds:
  "(a :: nat) \<le> fold max xs a" "x \<in> set xs \<Longrightarrow> x \<le> fold max xs a" "fold max xs a \<in> insert a (set xs)"
proof (induction xs arbitrary: a)
  case (Cons y ys)
  { case 1 show ?case using Cons(1) [of "max y a"] by simp }
  { case 2 then show ?case using Cons(1) [of "max y a"] Cons(2) [of "max y a"] by auto }
  { case 3 show ?case using Cons(3) [of "max y a"] by (auto simp: max_def split: if_splits) }
qed simp_all

lemma held_bytes_ge: "m \<in> set ms \<Longrightarrow> partial_at s m l \<Longrightarrow> l \<le> held_bytes s ms"
  unfolding held_bytes_def
  by (rule order_trans [OF longest_marker_prefix_suffix_ge fold_max_bounds(2)]) auto

lemma held_bytes_mem:
  "held_bytes s ms = 0 \<or> (\<exists>m \<in> set ms. partial_at s m (held_bytes s ms))"
proof -
  consider "held_bytes s ms = 0"
    | m where "m \<in> set ms" "held_bytes s ms = longest_marker_prefix_suffix s m"
    using fold_max_bounds(3) [of "map (longest_marker_prefix_suffix s) ms" 0]
    by (auto simp: held_bytes_def)
  then show ?thesis
    by cases (use longest_marker_prefix_suffix_mem [of s] in auto)
qed

lemma partial_at_length: "partial_at s m l \<Longrightarrow> l \<le> length s"
  using suffix_length_le by (force simp: partial_at_def)

lemma held_bytes_le: "held_bytes s ms \<le> length s"
  using held_bytes_mem [of s ms] partial_at_length by auto

text \<open>The part of the text that is shown, and the part that is kept.\<close>

definition shown :: "string \<Rightarrow> string list \<Rightarrow> nat" where
  "shown s ms = length s - held_bytes s ms"

lemma shown_le: "shown s ms \<le> length s"
  by (simp add: shown_def)

lemma length_kept: "length (drop (shown s ms) s) = held_bytes s ms"
  using held_bytes_le [of s ms] by (simp add: shown_def)

text \<open>
  A marker whose last bytes are in \<open>t\<close> and whose first bytes are in \<open>s\<close> is partly in the kept
  tail. \<open>t\<close> is what follows, so it starts a character.
\<close>

lemma partial_boundary:
  assumes t: "utf8_start t" and m: "occurs_at m (s @ t) j" and l: "length s - j < length m"
    and j: "j \<le> length s" and ne: "t \<noteq> []"
  shows "char_boundary m (length s - j)"
proof -
  have "m ! (length s - j) = t ! 0"
    using occurs_at_nth [OF m l] j by (simp add: nth_append)
  with t ne l show ?thesis by (cases t) (auto simp: char_boundary_def utf8_start_def)
qed

lemma partial_at_crossing:
  assumes t: "utf8_start t" and m: "occurs_at m (s @ t) j"
    and j: "j < length s" "length s < j + length m"
  shows "partial_at s m (length s - j)"
proof -
  have "t \<noteq> []" using occurs_at_length [OF m] j by auto
  then have b: "char_boundary m (length s - j)"
    using j by (intro partial_boundary [OF t m]) auto
  have "prefix m (drop j s @ t)" using m j by (simp add: occurs_at_def)
  then have "drop j s = take (length s - j) m"
    using j by (auto simp: prefix_def append_eq_append_conv_if split: if_splits)
  then have "suffix (take (length s - j) m) s"
    by (metis suffix_drop)
  with b j show ?thesis by (simp add: partial_at_def)
qed

lemma occurrence_not_shown:
  assumes ms: "m \<in> set ms" and none: "\<And>i. \<not> occurs_at m s i"
    and t: "utf8_start t" and m: "occurs_at m (s @ t) j"
  shows "shown s ms \<le> j"
proof (cases "j < length s \<and> length s < j + length m")
  case True
  with partial_at_crossing [OF t m] held_bytes_ge [OF ms] show ?thesis
    by (fastforce simp: shown_def)
next
  case False
  with none occurs_at_appendD [OF m] have "length s \<le> j" by force
  then show ?thesis by (simp add: shown_def)
qed

lemma find_sub_kept:
  assumes "m \<in> set ms" "\<And>i. \<not> occurs_at m s i" "utf8_start t"
  shows "find_sub m (s @ t) =
    map_option (\<lambda>i. i + shown s ms) (find_sub m (drop (shown s ms) s @ t))"
    (is "_ = map_option _ (find_sub m ?rest)")
proof -
  let ?k = "shown s ms"
  have split: "s @ t = take ?k s @ ?rest" by simp
  have len: "length (take ?k s) = ?k" using shown_le by simp
  have occ: "occurs_at m (s @ t) (i + ?k) \<longleftrightarrow> occurs_at m ?rest i" for i
    using occurs_at_shift [of m "take ?k s" ?rest i] len by (metis split add.commute)
  have ge: "?k \<le> j" if "occurs_at m (s @ t) j" for j
    using occurrence_not_shown [OF assms that] .
  show ?thesis
  proof (cases "find_sub m ?rest")
    case None
    then have "\<not> occurs_at m (s @ t) j" for j
      using occ [of "j - ?k"] ge [of j] by (auto simp: find_sub_None)
    then show ?thesis by (simp add: None find_sub_None)
  next
    case (Some i)
    have "\<not> occurs_at m (s @ t) j" if "j < i + ?k" for j
      using occ [of "j - ?k"] ge [of j] find_sub_Some [OF Some] that by auto
    with find_sub_Some [OF Some] occ [of i] show ?thesis
      by (simp add: Some find_sub_eq_Some)
  qed
qed

lemma marker_hits_shift:
  assumes "\<forall>(m, x) \<in> set table. find_sub m u = map_option (\<lambda>i. i + k) (find_sub m v)"
  shows "marker_hits table u = map (\<lambda>(i, y). (i + k, y)) (marker_hits table v)"
  using assms
proof (induction table)
  case (Cons mx table)
  then show ?case by (cases mx, cases "find_sub (fst mx) v") (simp_all add: marker_hits_simps)
qed (simp add: marker_hits_simps)

lemma first_marker_kept:
  assumes none: "first_marker table s = None" and t: "utf8_start t"
    and k: "k = shown s (map fst table)"
  shows "first_marker table (s @ t) =
    map_option (\<lambda>(i, y). (i + k, y)) (first_marker table (drop k s @ t))"
proof -
  have "find_sub m (s @ t) = map_option (\<lambda>i. i + k) (find_sub m (drop k s @ t))"
    if "(m, x) \<in> set table" for m x
    unfolding k using that none t by (intro find_sub_kept) (force simp: first_marker_None)+
  then have "marker_hits table (s @ t) =
      map (\<lambda>(i, y). (i + k, y)) (marker_hits table (drop k s @ t))"
    by (intro marker_hits_shift) auto
  then show ?thesis
    unfolding first_marker_def
    by (simp add: min_by_map [where lt' = "\<lambda>a b. fst a < fst b"] split_beta)
qed

lemma held_bytes_kept:
  assumes t: "utf8_start t"
  shows "held_bytes (s @ t) ms = held_bytes (drop (shown s ms) s @ t) ms" (is "?h1 = ?h2")
proof (rule antisym)
  let ?rest = "drop (shown s ms) s"
  show "?h2 \<le> ?h1"
    using held_bytes_mem [of "?rest @ t" ms]
  proof
    assume "\<exists>m \<in> set ms. partial_at (?rest @ t) m ?h2"
    then obtain m where m: "m \<in> set ms" "partial_at (?rest @ t) m ?h2" by blast
    have "suffix (?rest @ t) (s @ t)" by (simp add: suffix_drop)
    with m(2) have "partial_at (s @ t) m ?h2"
      unfolding partial_at_def by (blast intro: suffix_order.trans)
    with m(1) show ?thesis by (rule held_bytes_ge)
  qed simp
  show "?h1 \<le> ?h2"
    using held_bytes_mem [of "s @ t" ms]
  proof
    assume "\<exists>m \<in> set ms. partial_at (s @ t) m ?h1"
    then obtain m where m: "m \<in> set ms" "partial_at (s @ t) m ?h1" by blast
    then have suf: "suffix (take ?h1 m) (s @ t)" and lt: "?h1 < length m"
      by (auto simp: partial_at_def)
    have "?h1 \<le> length (?rest @ t)"
    proof (cases "t = [] \<or> ?h1 \<le> length t")
      case True
      then show ?thesis by (auto simp: length_kept [of s ms, symmetric])
    next
      case False
      then obtain u where u: "take ?h1 m = u @ t" "suffix u s"
        using suf lt suffix_length_le [of "take ?h1 m" t] by (auto simp: suffix_append)
      then have len: "length u + length t = ?h1" "u = take (length u) m"
        using lt by (metis length_append length_take min.absorb4, metis append_eq_conv_conj take_take min.absorb1 length_append length_take min.absorb4 le_add1)
      have "occurs_at m (u @ t @ drop ?h1 m) 0"
        by (metis u(1) append_assoc append_take_drop_id occurs_at_0 prefix_order.refl)
      then have "char_boundary m (length u)"
        using partial_boundary [of "t @ drop ?h1 m" m u 0] t False len lt
        by (cases t) (auto simp: utf8_start_def)
      with u len False lt have "partial_at s m (length u)"
        by (cases u) (auto simp: partial_at_def)
      from held_bytes_ge [OF m(1) this] len show ?thesis
        by (simp add: length_kept [of s ms, symmetric])
    qed
    with suf have "suffix (take ?h1 m) (?rest @ t)"
      using suffix_length_suffix [OF suf, of "?rest @ t"] lt by (simp add: suffix_drop)
    with m have "partial_at (?rest @ t) m ?h1" by (simp add: partial_at_def)
    with m(1) show ?thesis by (rule held_bytes_ge)
  qed simp
qed

lemma held_bytes_set:
  assumes "set ms = set ms'"
  shows "held_bytes s ms = held_bytes s ms'"
proof -
  have "held_bytes s ms \<le> held_bytes s ms'" if "set ms = set ms'" for ms ms'
    using held_bytes_mem [of s ms] held_bytes_ge [of _ ms' s] that by fastforce
  from this [OF assms] this [OF assms [symmetric]] show ?thesis by simp
qed

section \<open>A round as a search\<close>

definition reasoning_action :: "bool \<Rightarrow> ChatOutputParser \<Rightarrow> ChatOutputParser" where
  "reasoning_action opens p =
     (if opens then p\<lparr>gemma_channel_header_pending := True\<rparr>
      else p\<lparr>mode := TextMode, trim_after_thinking := True\<rparr>)"

definition channel_action :: "string \<Rightarrow> bool \<Rightarrow> ChatOutputParser \<Rightarrow> ChatOutputParser" where
  "channel_action marker opens p =
     (if opens then p\<lparr>mode := ReasoningMode,
                       gemma_channel_header_pending := (marker = GEMMA_CHANNEL_OPEN)\<rparr>
      else p\<lparr>trim_after_thinking := True\<rparr>)"

definition protocol_action :: "ToolCallProtocol \<Rightarrow> ChatOutputParser \<Rightarrow> ChatOutputParser" where
  "protocol_action protocol p = p\<lparr>tool_call_protocol := protocol, mode := ToolCallMode\<rparr>"

definition direct_action :: "nat \<Rightarrow> ChatOutputParser \<Rightarrow> ChatOutputParser" where
  "direct_action tool p = p\<lparr>active_direct_tool := Some tool, mode := DirectToolCallMode\<rparr>"

lemmas action_defs = reasoning_action_def channel_action_def protocol_action_def direct_action_def

type_synonym action_table = "(string \<times> (ChatOutputParser \<Rightarrow> ChatOutputParser)) list"

definition reasoning_table :: action_table where
  "reasoning_table = map (\<lambda>(m, x). (m, reasoning_action x)) reasoning_markers"

definition text_table :: "DirectTool list \<Rightarrow> action_table" where
  "text_table tools =
     map (\<lambda>(m, x). (m, channel_action m x)) channel_markers @
     map (\<lambda>(m, x). (m, protocol_action x)) protocol_markers @
     map (\<lambda>(m, x). (m, direct_action x)) (zip (map direct_open tools) [0..<length tools])"

definition scan_table :: "ChatOutputParser \<Rightarrow> action_table" where
  "scan_table p = (if mode p = ReasoningMode then reasoning_table else text_table (direct_tools p))"

definition label :: "ChatOutputParser \<Rightarrow> string \<Rightarrow> 'n ChatOutputEvent" where
  "label p = (if mode p = ReasoningMode then Reasoning else Text)"

definition scan_step :: "ChatOutputParser \<Rightarrow> bool \<times> 'n events \<times> ChatOutputParser" where
  "scan_step p =
     (case first_marker (scan_table p) (pending p) of
        Some (i, m, act) \<Rightarrow>
          (True, push_nonempty [] (label p (take i (pending p))),
           act (p\<lparr>pending := drop (i + length m) (pending p)\<rparr>))
      | None \<Rightarrow>
          (case flush_safe_prefix_with_markers (pending p) (map fst (scan_table p)) (label p) of
             (progressed, events, rest) \<Rightarrow> (progressed, events, p\<lparr>pending := rest\<rparr>)))"

lemma fst_table [simp]: "fst \<circ> (\<lambda>(m, x). (m, f m x)) = fst"
  by auto

lemma map_fst_text_table:
  "map fst (text_table tools) =
   map fst channel_markers @ map fst protocol_markers @ map direct_open tools"
  by (simp add: text_table_def)

lemma set_text_table: "set (map fst (text_table (direct_tools p))) = set (text_markers p)"
  unfolding map_fst_text_table text_markers_def by auto

lemma flush_text_table:
  "flush_safe_prefix_with_markers s (map fst (text_table (direct_tools p))) f =
   flush_safe_prefix_with_markers s (text_markers p) f"
  using held_bytes_set [OF set_text_table, of s p] by (simp add: flush_safe_prefix_with_markers_def)

lemma parse_reasoning_control_scan:
  "mode p = ReasoningMode \<Longrightarrow> parse_reasoning_control p = scan_step p"
  by (auto simp: parse_reasoning_control_def scan_step_def scan_table_def reasoning_table_def
      first_marker_map label_def reasoning_action_def Let_def split: option.split prod.split)

lemma parse_text_markers_scan:
  assumes "mode p = TextMode"
  shows "parse_text_markers p = scan_step p"
proof -
  have t: "scan_table p = text_table (direct_tools p)" "label p = Text"
    using assms by (auto simp: scan_table_def label_def)
  show ?thesis
    unfolding parse_text_markers_def parse_text_protocol_def parse_text_direct_def parse_text_flush_def
      scan_step_def t flush_text_table
    unfolding text_table_def first_marker_append first_marker_map direct_markers_def [symmetric]
    by (auto simp: channel_action_def protocol_action_def direct_action_def not_after_def Let_def
        split: option.splits prod.splits)
qed

section \<open>Rounds that make no progress\<close>

lemma marker_tags: "list_all tag (map fst reasoning_markers @ map fst channel_markers @ map fst protocol_markers)"
  by (simp add: reasoning_markers_def channel_markers_def protocol_markers_def) code_simp

lemma tag_table_reasoning: "tag_table reasoning_table"
  using marker_tags by (force simp: tag_table_def reasoning_table_def list_all_iff)

definition tagged :: "ChatOutputParser \<Rightarrow> bool" where
  "tagged p \<longleftrightarrow> list_all (tag \<circ> direct_open) (direct_tools p)"

lemma tag_table_scan: "tagged p \<Longrightarrow> tag_table (scan_table p)"
proof -
  assume p: "tagged p"
  have "list_all tag (map fst (text_table (direct_tools p)))"
    using p marker_tags unfolding map_fst_text_table tagged_def by (auto simp: list_all_iff)
  with tag_table_reasoning show ?thesis
    by (auto simp: scan_table_def tag_table_def list_all_iff)
qed

lemma no_marker_in_prefix:
  assumes table: "tag_table table" and m: "m \<in> fst ` set table" and s: "prefix s m" "s \<noteq> m"
  shows "first_marker table s = None"
proof -
  have "\<not> occurs_at m' s j" if "(m', x) \<in> set table" for m' x j
  proof
    assume occ: "occurs_at m' s j"
    have tags: "tag m" "tag m'" using table m that by (auto simp: tag_table_def list_all_iff)
    have occ': "occurs_at m' m j" using occ s(1) by (auto simp: prefix_def intro: occurs_at_append)
    have "j = 0"
      using tags_disjoint [OF tags(2,1) occ', of 0] occurs_at_length [OF occ'] tag_nonempty [OF tags(2)]
      by (cases "j = 0"; cases m') auto
    with tags_same_place [OF tags, of m 0] occ' have "m' = m" by simp
    with occurs_at_length [OF occ] s show False by (auto simp: prefix_def)
  qed
  then show ?thesis by (auto simp: first_marker_None)
qed

lemma flush_nothing:
  "held_bytes s ms = length s \<Longrightarrow> flush_safe_prefix_with_markers s ms f = (False, [], s)"
  by (simp add: flush_safe_prefix_with_markers_def)

lemma scan_step_stall:
  assumes "first_marker (scan_table p) (pending p) = None"
    and "held_bytes (pending p) (map fst (scan_table p)) = length (pending p)"
  shows "scan_step p = (False, [], p)"
  using assms by (simp add: scan_step_def flush_nothing)

lemma reasoning_scan:
  assumes p: "mode p = ReasoningMode" "\<not> gemma_channel_header_pending p"
  shows "parse_reasoning p = scan_step p"
proof -
  have table: "scan_table p = (GEMMA_CHANNEL_OPEN, reasoning_action True) # tl reasoning_table"
    using p by (simp add: scan_table_def reasoning_table_def reasoning_markers_def)
  consider (whole) "prefix GEMMA_CHANNEL_OPEN (pending p)"
    | (part) "prefix (pending p) GEMMA_CHANNEL_OPEN" "pending p \<noteq> GEMMA_CHANNEL_OPEN"
    | (other) "\<not> prefix GEMMA_CHANNEL_OPEN (pending p)" "\<not> prefix (pending p) GEMMA_CHANNEL_OPEN"
    by (cases "pending p = GEMMA_CHANNEL_OPEN") auto
  then show ?thesis
  proof cases
    case whole
    with p show ?thesis
      by (simp add: parse_reasoning_def scan_step_def table first_marker_at_0 label_def
          push_nonempty_def reasoning_action_def)
  next
    case part
    then have "\<not> prefix GEMMA_CHANNEL_OPEN (pending p)" using prefix_order.antisym by blast
    with part have step: "parse_reasoning p = (False, [], p)" by (simp add: parse_reasoning_def)
    have hit: "first_marker (scan_table p) (pending p) = None"
      by (rule no_marker_in_prefix [where m = GEMMA_CHANNEL_OPEN])
        (use part p tag_table_reasoning in
          \<open>auto simp: scan_table_def reasoning_table_def reasoning_markers_def\<close>)
    have "held_bytes (pending p) (map fst (scan_table p)) = length (pending p)"
    proof (cases "pending p = []")
      case False
      let ?l = "length (pending p)"
      have l: "?l < length GEMMA_CHANNEL_OPEN" "pending p = take ?l GEMMA_CHANNEL_OPEN"
        using part by (simp add: prefix_length_less strict_prefix_def)
          (metis part(1) append_eq_conv_conj prefixE)
      have "char_boundary GEMMA_CHANNEL_OPEN i" if "i < length GEMMA_CHANNEL_OPEN" for i
      proof -
        have "list_all (char_boundary GEMMA_CHANNEL_OPEN) [0..<length GEMMA_CHANNEL_OPEN]"
          by code_simp
        with that show ?thesis by (simp add: list_all_iff)
      qed
      with l False have "partial_at (pending p) GEMMA_CHANNEL_OPEN ?l"
        by (auto simp: partial_at_def)
      then have "?l \<le> held_bytes (pending p) (map fst (scan_table p))"
        by (rule held_bytes_ge [rotated]) (simp add: table)
      with held_bytes_le show ?thesis by (metis antisym)
    qed (use held_bytes_le [of "[]"] in simp)
    with hit step show ?thesis by (simp add: scan_step_stall)
  next
    case other
    have eq: "p\<lparr>gemma_channel_header_pending := False\<rparr> = p" using p by (cases p) simp
    from other p have "parse_reasoning p = parse_reasoning_control p"
      by (simp add: parse_reasoning_def eq)
    with p show ?thesis by (simp add: parse_reasoning_control_scan)
  qed
qed

section \<open>Every push returns\<close>

text \<open>
  The invariant: the markers of the direct tools are not empty, and in a direct tool call the active
  tool is one of them. It holds of a new parser and of every parser that an operation returns with \<open>Ok\<close>.
\<close>

definition parser_ok :: "ChatOutputParser \<Rightarrow> bool" where
  "parser_ok p \<longleftrightarrow>
     list_all (\<lambda>d. direct_open d \<noteq> [] \<and> direct_close d \<noteq> []) (direct_tools p) \<and>
     (mode p = DirectToolCallMode \<longrightarrow>
        (case active_direct_tool p of Some i \<Rightarrow> i < length (direct_tools p) | None \<Rightarrow> False))"

lemma parser_ok_simps [simp]:
  "parser_ok (p\<lparr>pending := s\<rparr>) = parser_ok p" "parser_ok (p\<lparr>tool_call := s\<rparr>) = parser_ok p"
  "parser_ok (p\<lparr>gemma_channel_header_pending := b\<rparr>) = parser_ok p"
  "parser_ok (p\<lparr>trim_after_thinking := b\<rparr>) = parser_ok p"
  "parser_ok (p\<lparr>trim_after_tool_call := b\<rparr>) = parser_ok p"
  "parser_ok (p\<lparr>finished := b\<rparr>) = parser_ok p"
  by (simp_all add: parser_ok_def cong: option.case_cong)

text \<open>What no operation changes after construction.\<close>

definition config :: "ChatOutputParser \<Rightarrow>
    (string \<times> string list) list \<times> (string \<times> ToolParameters) list \<times> DirectTool list" where
  "config p = (string_arguments p, tool_parameters p, direct_tools p)"

text \<open>The number of bytes a parser still has to decide on.\<close>

definition undecided :: "ChatOutputParser \<Rightarrow> nat" where
  "undecided p = length (pending p) + length (tool_call p)"

lemma scan_table_action:
  assumes "(m, act) \<in> set (scan_table p)"
  shows "pending (act q) = pending q" "tool_call (act q) = tool_call q" "config (act q) = config q"
    "finished (act q) = finished q" "act (q\<lparr>pending := s\<rparr>) = (act q)\<lparr>pending := s\<rparr>"
  using assms
  by (auto simp: scan_table_def reasoning_table_def text_table_def action_defs config_def
      split: if_splits)

lemma scan_table_action_ok:
  assumes "(m, act) \<in> set (scan_table p)" "parser_ok q" "mode q \<noteq> DirectToolCallMode"
    "direct_tools q = direct_tools p"
  shows "parser_ok (act q)"
  using assms
  by (auto simp: scan_table_def reasoning_table_def text_table_def action_defs parser_ok_def
      split: if_splits dest: set_zip_rightD)

lemma scan_table_nonempty:
  assumes "parser_ok p" "(m, act) \<in> set (scan_table p)"
  shows "m \<noteq> []"
proof -
  have "m \<in> set (map fst reasoning_markers @ map fst channel_markers @ map fst protocol_markers) \<or>
      m \<in> direct_open ` set (direct_tools p)"
    using assms(2)
    by (auto simp: scan_table_def reasoning_table_def text_table_def dest: set_zip_leftD
        split: if_splits intro: rev_image_eqI)
  then show ?thesis
    using marker_tags assms(1) by (auto simp: list_all_iff parser_ok_def dest: tag_nonempty)
qed

lemma push_nonempty_label:
  "push_nonempty [] (label p s) = (if s = [] then [] else [label p s])"
  by (simp add: push_nonempty_def label_def)

lemma scan_step_cases:
  obtains (hit) i m act where "first_marker (scan_table p) (pending p) = Some (i, m, act)"
      "(scan_step p :: bool \<times> 'n events \<times> _) = (True, push_nonempty [] (label p (take i (pending p))),
         act (p\<lparr>pending := drop (i + length m) (pending p)\<rparr>))"
  | (flush) k where "first_marker (scan_table p) (pending p) = None"
      "k = shown (pending p) (map fst (scan_table p))" "0 < k"
      "(scan_step p :: bool \<times> 'n events \<times> _) = (True, [label p (take k (pending p))], p\<lparr>pending := drop k (pending p)\<rparr>)"
  | (stall) "first_marker (scan_table p) (pending p) = None"
      "shown (pending p) (map fst (scan_table p)) = 0" "(scan_step p :: bool \<times> 'n events \<times> _) = (False, [], p)"
proof (cases "first_marker (scan_table p) (pending p)")
  case None
  let ?k = "shown (pending p) (map fst (scan_table p))"
  show thesis
  proof (cases "?k = 0")
    case True
    with None show thesis
      by (intro stall) (simp_all add: scan_step_def flush_safe_prefix_with_markers_def shown_def)
  next
    case False
    then have "take ?k (pending p) \<noteq> []" by (auto simp: shown_def)
    with None False show thesis
      by (intro flush [of ?k])
        (simp_all add: scan_step_def flush_safe_prefix_with_markers_def shown_def push_nonempty_label
          Let_def)
  qed
next
  case (Some a)
  then show thesis
    by (cases a) (auto intro!: hit simp: scan_step_def)
qed

lemma scan_step_progress:
  assumes ok: "parser_ok p" "mode p \<noteq> DirectToolCallMode" and step: "scan_step p = (b, ev, p')"
  shows "parser_ok p'" "config p' = config p" "finished p' = finished p"
    "undecided p' \<le> undecided p" "b \<Longrightarrow> undecided p' < undecided p" "\<not> b \<Longrightarrow> ev = []"
proof -
  have "parser_ok p' \<and> config p' = config p \<and> finished p' = finished p \<and>
      undecided p' \<le> undecided p \<and> (b \<longrightarrow> undecided p' < undecided p) \<and> (\<not> b \<longrightarrow> ev = [])"
  proof (cases p rule: scan_step_cases [where 'n = 'a])
    case (hit i m act)
    note m = first_marker_Some(1,2) [OF hit(1)]
    obtain c cs where "m = c # cs" using scan_table_nonempty [OF ok(1) m(1)] by (cases m) auto
    moreover have "parser_ok (p\<lparr>pending := drop (i + length m) (pending p)\<rparr>)"
      using ok(1) by simp
    ultimately show ?thesis
      using step hit(2) ok occurs_at_length [OF m(2)] scan_table_action [OF m(1)]
        scan_table_action_ok [OF m(1)]
      by (auto simp: undecided_def config_def)
  next
    case (flush k)
    with step ok shown_le [of "pending p" "map fst (scan_table p)"] show ?thesis
      by (auto simp: undecided_def config_def)
  next
    case stall
    with step ok show ?thesis by auto
  qed
  then show "parser_ok p'" "config p' = config p" "finished p' = finished p"
    "undecided p' \<le> undecided p" "b \<Longrightarrow> undecided p' < undecided p" "\<not> b \<Longrightarrow> ev = []"
    by auto
qed

lemma trim_start_matches_append:
  "trim_start_matches cs (s @ t) =
   (if trim_start_matches cs s = [] then trim_start_matches cs t else trim_start_matches cs s @ t)"
  by (auto simp: trim_start_matches_def dropWhile_append dropWhile_eq_Nil_conv)

text \<open>
  The rounds that only prepare a search: the newlines trimmed after a section, and the channel
  header in reasoning. \<open>settle p\<close> is the parser on which the search runs.
\<close>

definition scanning :: "ChatOutputParser \<Rightarrow> bool" where
  "scanning p \<longleftrightarrow>
     (mode p = TextMode \<and> \<not> trim_after_thinking p \<and> \<not> trim_after_tool_call p) \<or>
     (mode p = ReasoningMode \<and> \<not> gemma_channel_header_pending p)"

definition text_settled :: "ChatOutputParser \<Rightarrow> ChatOutputParser" where
  "text_settled p =
     p\<lparr>pending := trim_start_matches [carriage_return, newline] (pending p),
       trim_after_thinking := False, trim_after_tool_call := False\<rparr>"

lemma scanning_step:
  "scanning p \<Longrightarrow> parse_step from_str p ids =
     (case scan_step p of (b, ev, p') \<Rightarrow> Some (Ok (b, ev), p', ids))"
  by (auto simp: scanning_def parse_step_def reasoning_scan parse_text_def parse_text_markers_scan
      split: prod.split)

lemma text_step:
  assumes "mode p = TextMode" "trim_after_thinking p \<or> trim_after_tool_call p"
  shows "parse_step from_str p ids =
    (if pending (text_settled p) = [] then Some (Ok (False, []), p\<lparr>pending := []\<rparr>, ids)
     else parse_step from_str (text_settled p) ids)"
  using assms by (auto simp: parse_step_def parse_text_def text_settled_def Let_def)

lemma reasoning_header_step:
  assumes "mode p = ReasoningMode" "gemma_channel_header_pending p"
  shows "parse_step from_str p ids =
    (if prefix GEMMA_CHANNEL_OPEN (pending p) then
       Some (Ok (True, []), p\<lparr>pending := drop (length GEMMA_CHANNEL_OPEN) (pending p)\<rparr>, ids)
     else if prefix (pending p) GEMMA_CHANNEL_OPEN then Some (Ok (False, []), p, ids)
     else if prefix GEMMA_THINK_CHANNEL (pending p) then
       Some (Ok (True, []), p\<lparr>pending := drop (length GEMMA_THINK_CHANNEL) (pending p),
                              gemma_channel_header_pending := False\<rparr>, ids)
     else if prefix (pending p) GEMMA_THINK_CHANNEL then Some (Ok (False, []), p, ids)
     else parse_step from_str (p\<lparr>gemma_channel_header_pending := False\<rparr>) ids)"
proof -
  have "p\<lparr>gemma_channel_header_pending := True\<rparr> = p" using assms by (cases p) simp
  moreover have "p\<lparr>pending := s, gemma_channel_header_pending := True\<rparr> = p\<lparr>pending := s\<rparr>" for s
    using assms by (cases p) simp
  ultimately show ?thesis
    using assms by (auto simp: parse_step_def parse_reasoning_def)
qed

text \<open>The outcome of one round.\<close>

definition step_ok :: "ChatOutputParser \<Rightarrow> ((bool \<times> 'n events) result \<times> ChatOutputParser \<times> u64) option \<Rightarrow> bool" where
  "step_ok p s =
     (case s of
        None \<Rightarrow> False
      | Some (r, p', _) \<Rightarrow>
          config p' = config p \<and> finished p' = finished p \<and> undecided p' \<le> undecided p \<and>
          (case r of
             Inl _ \<Rightarrow> True
           | Inr (b, ev) \<Rightarrow> parser_ok p' \<and> (b \<longrightarrow> undecided p' < undecided p) \<and> (\<not> b \<longrightarrow> ev = [])))"

lemma step_ok_scanning:
  "parser_ok p \<Longrightarrow> scanning p \<Longrightarrow> step_ok p (parse_step (from_str :: 'a from_str) p ids)"
proof -
  assume p: "parser_ok p" "scanning p"
  obtain b ev p' where step: "(scan_step p :: bool \<times> 'a events \<times> _) = (b, ev, p')"
    by (cases "scan_step p :: bool \<times> 'a events \<times> _")
  have "mode p \<noteq> DirectToolCallMode" using p(2) by (auto simp: scanning_def)
  from scan_step_progress [OF p(1) this step] show ?thesis
    by (simp add: scanning_step [OF p(2)] step step_ok_def)
qed

lemma step_ok_text:
  assumes p: "parser_ok p" "mode p = TextMode"
  shows "step_ok p (parse_step from_str p ids)"
proof (cases "trim_after_thinking p \<or> trim_after_tool_call p")
  case True
  let ?q = "text_settled p"
  have q: "parser_ok ?q" "scanning ?q" "config ?q = config p" "finished ?q = finished p"
    "undecided ?q \<le> undecided p"
    using p by (auto simp: text_settled_def scanning_def config_def undecided_def trim_start_matches_length)
  have "step_ok p (parse_step from_str ?q ids)"
    using step_ok_scanning [OF q(1,2), of from_str ids] q(3-)
    by (auto simp: step_ok_def split: option.splits sum.splits)
  then show ?thesis
    using True p by (auto simp: text_step step_ok_def config_def undecided_def)
next
  case False
  with p show ?thesis by (intro step_ok_scanning) (auto simp: scanning_def)
qed

lemma step_ok_reasoning:
  assumes p: "parser_ok p" "mode p = ReasoningMode"
  shows "step_ok p (parse_step (from_str :: 'a from_str) p ids)"
proof (cases "gemma_channel_header_pending p")
  case True
  let ?q = "p\<lparr>gemma_channel_header_pending := False\<rparr>"
  have q: "step_ok p (parse_step from_str ?q ids)"
    using step_ok_scanning [of ?q from_str ids] p
    by (auto simp: step_ok_def scanning_def config_def undecided_def split: option.splits sum.splits)
  have drain: "step_ok p (Some (Ok (True, [] :: 'a events), p\<lparr>pending := drop (length m) (pending p), gemma_channel_header_pending := b\<rparr>, ids))"
    if "prefix m (pending p)" "m \<noteq> []" for m b
    using that p by (cases m) (auto simp: prefix_def step_ok_def config_def undecided_def)
  have stay: "step_ok p (Some (Ok (False, [] :: 'a events), p, ids))"
    using p by (simp add: step_ok_def)
  have "GEMMA_CHANNEL_OPEN \<noteq> []" "GEMMA_THINK_CHANNEL \<noteq> []" by (simp_all add: markers)
  moreover have "p\<lparr>pending := s, gemma_channel_header_pending := True\<rparr> = p\<lparr>pending := s\<rparr>" for s
    using True by (cases p) simp
  ultimately show ?thesis
    unfolding reasoning_header_step [OF p(2) True]
    using q drain [of GEMMA_CHANNEL_OPEN True] drain [of GEMMA_THINK_CHANNEL False] stay by simp
next
  case False
  with p show ?thesis by (intro step_ok_scanning) (auto simp: scanning_def)
qed

lemma closing_offset_loop_Some:
  "closing_offset_loop marker quote escaped s = Some i \<Longrightarrow> occurs_at marker s i"
proof (induction s arbitrary: quote escaped i)
  case (Cons c cs)
  show ?case
  proof (cases "closing_offset_loop marker quote escaped (c # cs) = Some 0 \<and> i = 0")
    case True
    then have "prefix marker (c # cs)"
      by (cases quote) (simp_all split: if_splits)
    with True show ?thesis by simp
  next
    case False
    with Cons.prems obtain quote' escaped' k where
      "closing_offset_loop marker quote' escaped' cs = Some k" "i = Suc k"
      by (cases quote) (fastforce split: if_splits)+
    with Cons.IH show ?thesis by simp
  qed
qed simp

lemma drained_length:
  "i + length c \<le> length s \<Longrightarrow> c \<noteq> [] \<Longrightarrow> length (drop (i + length c) s) < length s"
  by (cases c) auto

lemma close_index_Some:
  "close_index protocol s = Some i \<Longrightarrow> i + length (protocol_close protocol) \<le> length s"
  by (auto simp: close_index_def closing_offset_def dest!: closing_offset_loop_Some find_sub_Some
      intro: occurs_at_length split: if_splits)

lemma protocol_close_nonempty: "protocol_close protocol \<noteq> []"
  by (cases protocol) (simp_all add: markers)

lemma step_ok_tool_call:
  assumes p: "parser_ok p" "mode p = ToolCallMode"
  shows "step_ok p (parse_step from_str p ids)"
proof (cases "close_index (tool_call_protocol p) (tool_call p @ pending p)")
  case None
  with p show ?thesis
    by (simp add: parse_step_def parse_tool_call_def step_ok_def config_def undecided_def)
next
  case (Some i)
  from drained_length [OF close_index_Some [OF Some] protocol_close_nonempty]
  have "length (drop (i + length (protocol_close (tool_call_protocol p))) (tool_call p @ pending p))
      < length (pending p) + length (tool_call p)"
    by (simp del: length_drop drop_append)
  with p Some show ?thesis
    by (auto simp: parse_step_def parse_tool_call_def Let_def step_ok_def config_def undecided_def
        try_result_def parser_ok_def simp del: length_drop drop_append split: sum.split prod.split)
qed

lemma step_ok_direct:
  assumes p: "parser_ok p" "mode p = DirectToolCallMode"
  shows "step_ok p (parse_step from_str p ids)"
proof -
  from p obtain t where t: "active_direct_tool p = Some t" "t < length (direct_tools p)"
    by (auto simp: parser_ok_def split: option.splits)
  let ?d = "direct_tools p ! t" and ?s = "tool_call p @ pending p"
  have d: "direct_close ?d \<noteq> []" using p(1) t(2) by (auto simp: parser_ok_def list_all_iff)
  show ?thesis
  proof (cases "find_sub (direct_close ?d) ?s")
    case None
    with p t show ?thesis
      by (simp add: parse_step_def parse_direct_tool_call_def step_ok_def config_def undecided_def get_def)
  next
    case (Some i)
    with drained_length [OF _ d, of i ?s] occurs_at_length [of "direct_close ?d" ?s i] find_sub_Some [OF Some]
    have "length (drop (i + length (direct_close ?d)) ?s) < length (pending p) + length (tool_call p)"
      by (simp del: length_drop drop_append)
    with p t Some show ?thesis
      by (auto simp: parse_step_def parse_direct_tool_call_def Let_def step_ok_def config_def
          undecided_def get_def parser_ok_def simp del: length_drop drop_append
          split: sum.split prod.split)
  qed
qed

lemma step_ok_parse_step: "parser_ok p \<Longrightarrow> step_ok p (parse_step from_str p ids)"
  by (cases "mode p")
    (simp_all add: step_ok_text step_ok_reasoning step_ok_tool_call step_ok_direct)

text \<open>What a round of the loop leaves of a good parser.\<close>

lemma parse_step_cases:
  assumes "parser_ok p"
  obtains (error) e p' ids' where "parse_step from_str p ids = Some (Err e, p', ids')"
      "config p' = config p" "finished p' = finished p"
  | (stop) p' ids' where "parse_step from_str p ids = Some (Ok (False, []), p', ids')"
      "parser_ok p'" "config p' = config p" "finished p' = finished p"
  | (again) ev p' ids' where "parse_step from_str p ids = Some (Ok (True, ev), p', ids')"
      "parser_ok p'" "config p' = config p" "finished p' = finished p" "undecided p' < undecided p"
proof -
  note ok = step_ok_parse_step [OF assms, of from_str ids]
  then obtain r p' ids' where step: "parse_step from_str p ids = Some (r, p', ids')"
    by (cases "parse_step from_str p ids") (auto simp: step_ok_def)
  show thesis
  proof (cases r)
    case (Inl e)
    with step ok show thesis by (intro error [of e p' ids']) (auto simp: step_ok_def)
  next
    case (Inr be)
    obtain b ev where "be = (b, ev)" by (cases be)
    with Inr step ok show thesis
      by (cases b) (auto simp: step_ok_def intro: stop again)
  qed
qed

lemma push_loop_total:
  assumes "parser_ok p"
  shows "\<exists>r p' ids'. push_loop from_str p ids ev = Some (r, p', ids') \<and>
    config p' = config p \<and> finished p' = finished p \<and> (is_ok r \<longrightarrow> parser_ok p')"
  using assms
proof (induction "undecided p" arbitrary: p ids ev rule: less_induct)
  case less
  from less.prems show ?case
  proof (cases rule: parse_step_cases [where from_str = from_str and ids = ids])
    case (again ev' p' ids')
    with less.hyps [of p' ids' "ev @ ev'"] show ?thesis
      by (subst push_loop.simps) auto
  qed (subst push_loop.simps; simp)+
qed

section \<open>More text\<close>

definition feed :: "ChatOutputParser \<Rightarrow> string \<Rightarrow> ChatOutputParser" where
  "feed p t = p\<lparr>pending := pending p @ t\<rparr>"

lemma feed_simps [simp]:
  "pending (feed p t) = pending p @ t" "mode (feed p t) = mode p" "tool_call (feed p t) = tool_call p"
  "direct_tools (feed p t) = direct_tools p" "finished (feed p t) = finished p"
  "scan_table (feed p t) = scan_table p" "label (feed p t) = label p" "scanning (feed p t) = scanning p"
  "trim_after_thinking (feed p t) = trim_after_thinking p"
  "trim_after_tool_call (feed p t) = trim_after_tool_call p"
  "gemma_channel_header_pending (feed p t) = gemma_channel_header_pending p"
  "tool_call_protocol (feed p t) = tool_call_protocol p"
  "active_direct_tool (feed p t) = active_direct_tool p"
  "feed (feed p s) t = feed p (s @ t)" "(feed p t)\<lparr>pending := s\<rparr> = p\<lparr>pending := s\<rparr>"
  by (simp_all add: feed_def scan_table_def label_def scanning_def)

lemma pending_update_simps [simp]:
  "scan_table (p\<lparr>pending := s\<rparr>) = scan_table p" "label (p\<lparr>pending := s\<rparr>) = label p"
  "feed (p\<lparr>pending := s\<rparr>) t = p\<lparr>pending := s @ t\<rparr>"
  by (simp_all add: feed_def scan_table_def label_def)

lemma parser_ok_feed [simp]: "parser_ok (feed p t) = parser_ok p"
  by (simp add: feed_def)

lemma tagged_simps [simp]:
  "tagged (feed p t) = tagged p" "tagged (p\<lparr>pending := s\<rparr>) = tagged p"
  by (simp_all add: tagged_def)

text \<open>
  Events of one kind in a row are one piece of text to the reader. \<open>coalesce\<close> joins them: the way a
  text was cut into chunks shows only in where the pieces are cut.
\<close>

fun join_event :: "'n ChatOutputEvent \<Rightarrow> 'n ChatOutputEvent \<Rightarrow> 'n ChatOutputEvent option" where
  "join_event (Reasoning a) (Reasoning b) = Some (Reasoning (a @ b))"
| "join_event (Text a) (Text b) = Some (Text (a @ b))"
| "join_event _ _ = None"

definition add_event :: "'n events \<Rightarrow> 'n ChatOutputEvent \<Rightarrow> 'n events" where
  "add_event acc e =
     (if acc = [] then [e]
      else case join_event (last acc) e of
        Some e' \<Rightarrow> butlast acc @ [e']
      | None \<Rightarrow> acc @ [e])"

definition coalesce :: "'n events \<Rightarrow> 'n events" where
  "coalesce ev = fold (\<lambda>e acc. add_event acc e) ev []"

lemma coalesce_append: "coalesce (a @ b) = fold (\<lambda>e acc. add_event acc e) b (coalesce a)"
  by (simp add: coalesce_def)

lemma coalesce_cong: "coalesce a = coalesce b \<Longrightarrow> coalesce (a @ c) = coalesce (b @ c)"
  by (simp add: coalesce_append)

lemma add_event_label:
  "add_event (add_event acc (label p a)) (label p b) = add_event acc (label p (a @ b))"
  by (cases "last acc") (auto simp: add_event_def label_def)

lemma add_event_join:
  "join_event l e = Some e' \<Longrightarrow> add_event (add_event acc l) e = add_event acc e'"
  by (cases "(l, e)" rule: join_event.cases; cases "last acc") (auto simp: add_event_def)

lemma coalesce_right: "coalesce (a @ b) = coalesce (a @ coalesce b)"
proof (induction b rule: rev_induct)
  case (snoc e b)
  have snoc_b: "coalesce (a @ b @ [e]) = add_event (coalesce (a @ coalesce b)) e"
    using snoc coalesce_append [of "a @ b" "[e]"] by simp
  have "coalesce (b @ [e]) = add_event (coalesce b) e"
    by (simp add: coalesce_append)
  moreover have "add_event (coalesce (a @ c)) e = coalesce (a @ add_event c e)" for c
  proof (cases c rule: rev_cases)
    case (snoc c' l)
    then show ?thesis
      by (cases "join_event l e")
        (simp_all add: add_event_def [of "c' @ [l]"] coalesce_append add_event_join)
  qed (simp add: coalesce_append add_event_def [of "[]"])
  ultimately show ?case using snoc_b by simp
qed (simp add: coalesce_def)

lemma coalesce_label:
  assumes "a \<noteq> []"
  shows "coalesce (pre @ push_nonempty [] (label p (a @ b))) =
    coalesce (pre @ [label p a] @ push_nonempty [] (label p b))"
  using assms by (simp add: push_nonempty_label coalesce_append add_event_label)

text \<open>
  \<open>absorbs ev a b\<close>: round \<open>a\<close> does what round \<open>b\<close> does after the events \<open>ev\<close>; when \<open>b\<close> ends the loop
  the round after \<open>a\<close> ends it.
\<close>

definition absorbs ::
  "'n from_str \<Rightarrow> 'n events \<Rightarrow>
   ((bool \<times> 'n events) result \<times> ChatOutputParser \<times> u64) option \<Rightarrow>
   ((bool \<times> 'n events) result \<times> ChatOutputParser \<times> u64) option \<Rightarrow> bool" where
  "absorbs from_str ev a b \<longleftrightarrow>
     (\<exists>x y c q ids. a = Some (Ok (True, x), q, ids) \<and> b = Some (Ok (c, y), q, ids) \<and>
        (\<forall>pre. coalesce (pre @ x) = coalesce (pre @ ev @ y)) \<and>
        (c \<or> parse_step from_str q ids = Some (Ok (False, []), q, ids)))"

lemma scan_step_feed_hit:
  assumes p: "tagged p" and hit: "first_marker (scan_table p) (pending p) = Some (i, m, act)"
    and step: "scan_step p = (True, ev, p')"
  shows "scan_step (feed p t) = (True, ev, feed p' t)"
proof -
  from first_marker_extend [OF tag_table_scan [OF p] hit]
  have hit': "first_marker (scan_table p) (pending p @ t) = Some (i, m, act)" .
  note m = first_marker_Some(1,2) [OF hit]
  have len: "i + length m \<le> length (pending p)" using occurs_at_length [OF m(2)] .
  have "act (p\<lparr>pending := drop (i + length m) (pending p) @ t\<rparr>) =
      feed (act (p\<lparr>pending := drop (i + length m) (pending p)\<rparr>)) t"
    by (simp add: feed_def scan_table_action [OF m(1)])
  with step hit hit' len show ?thesis by (auto simp: scan_step_def)
qed

lemma scan_step_flush:
  assumes "first_marker (scan_table p) (pending p) = None"
    and "shown (pending p) (map fst (scan_table p)) = k" "0 < k"
  shows "scan_step p = (True, push_nonempty [] (label p (take k (pending p))), p\<lparr>pending := drop k (pending p)\<rparr>)"
  using assms by (auto simp: scan_step_def flush_safe_prefix_with_markers_def Let_def shown_def)

lemma scan_step_feed_flush:
  assumes none: "first_marker (scan_table p) (pending p) = None" and t: "utf8_start t"
    and k: "k = shown (pending p) (map fst (scan_table p))" "0 < k"
    and p': "p' = p\<lparr>pending := drop k (pending p)\<rparr>"
  obtains x y c q where "(scan_step (feed p t) :: bool \<times> 'n events \<times> _) = (True, x, q)"
    "(scan_step (feed p' t) :: bool \<times> 'n events \<times> _) = (c, y, q)"
    "\<And>pre. coalesce (pre @ x) = coalesce (pre @ [label p (take k (pending p))] @ y)"
    "c \<or> (scan_step q :: bool \<times> 'n events \<times> _) = (False, [], q)"
proof -
  let ?s = "pending p" and ?rest = "drop k (pending p)" and ?table = "scan_table p"
  have le: "k \<le> length ?s" using k(1) shown_le by simp
  with k(2) have ne: "take k ?s \<noteq> []" by auto
  have split: "take (j + k) (?s @ t) = take k ?s @ take j (?rest @ t)"
    "drop (j + k) (?s @ t) = drop j (?rest @ t)" for j
    using le take_add [of k j "?s @ t"] by (simp_all add: add.commute)
  note first = first_marker_kept [OF none t k(1)]
  note held = held_bytes_kept [OF t, of ?s "map fst ?table", folded k(1)]
  show thesis
  proof (cases "first_marker ?table (?rest @ t)")
    case (Some a)
    obtain j m act where a: "a = (j, m, act)" by (cases a)
    let ?q = "act (p\<lparr>pending := drop (j + length m) (?rest @ t)\<rparr>)"
    have "drop (j + k + length m) (?s @ t) = drop (j + length m) (?rest @ t)"
      using split(2) [of "j + length m"] by (simp add: ac_simps)
    then have a1: "scan_step (feed p t) =
        (True, push_nonempty [] (label p (take k ?s @ take j (?rest @ t)) :: 'n ChatOutputEvent), ?q)"
      using first Some a split(1) [of j] by (simp add: scan_step_def ac_simps)
    have a2: "scan_step (feed p' t) =
        (True, push_nonempty [] (label p (take j (?rest @ t)) :: 'n ChatOutputEvent), ?q)"
      using Some a by (simp add: scan_step_def p')
    show thesis by (rule that [OF a1 a2 coalesce_label [OF ne]]) simp
  next
    case None
    let ?l = "shown (?rest @ t) (map fst ?table)"
    have l: "shown (?s @ t) (map fst ?table) = ?l + k"
      using held held_bytes_le [of "?rest @ t" "map fst ?table"] le by (simp add: shown_def)
    let ?q = "p\<lparr>pending := drop ?l (?rest @ t)\<rparr>"
    have flush: "scan_step (feed p t) = (True, push_nonempty [] (label p (take k ?s @ take ?l (?rest @ t)) :: 'n ChatOutputEvent), ?q)"
      using scan_step_flush [of "feed p t" "?l + k"] first None k(2) l
      by (simp only: split feed_simps) simp
    show thesis
    proof (cases "?l = 0")
      case True
      then have q: "?q = feed p' t" by (simp add: p')
      have stall: "(scan_step ?q :: bool \<times> 'n events \<times> _) = (False, [], ?q)"
        unfolding q
        using None True by (intro scan_step_stall)
          (simp_all add: p' shown_def le_antisym held_bytes_le del: length_append)
      have "coalesce (pre @ push_nonempty [] (label p (take k ?s @ take ?l (?rest @ t)) :: 'n ChatOutputEvent)) =
          coalesce (pre @ [label p (take k ?s)] @ [])" for pre
        using ne True by (simp add: push_nonempty_label)
      moreover have "scan_step (feed p' t) = (False, [] :: 'n events, ?q)"
        using stall by (simp only: q)
      ultimately show thesis using stall by (intro that [OF flush]) blast+
    next
      case False
      then have b2: "scan_step (feed p' t) = (True, push_nonempty [] (label p (take ?l (?rest @ t)) :: 'n ChatOutputEvent), ?q)"
        using scan_step_flush [of "feed p' t" ?l] None by (simp add: p')
      show thesis by (rule that [OF flush b2 coalesce_label [OF ne]]) simp
    qed
  qed
qed

lemma scanning_parse_step_feed:
  assumes p: "tagged p" "scanning p" and t: "utf8_start t"
    and step: "parse_step from_str p ids = Some (Ok (b, ev), p', ids')"
  shows "if b then parse_step from_str (feed p t) ids = Some (Ok (True, ev), feed p' t, ids') \<or>
      absorbs from_str ev (parse_step from_str (feed p t) ids) (parse_step from_str (feed p' t) ids')
    else parse_step from_str (feed p t) ids = parse_step from_str (feed p' t) ids'"
proof -
  let ?scan = "scan_step :: ChatOutputParser \<Rightarrow> bool \<times> 'a events \<times> ChatOutputParser"
  have scan: "?scan p = (b, ev, p')" and ids: "ids' = ids"
    using step p(2) by (auto simp: scanning_step split: prod.splits)
  show ?thesis
  proof (cases p rule: scan_step_cases [where 'n = 'a])
    case (hit i m act)
    with scan have "b" by simp
    with scan_step_feed_hit [OF p(1) hit(1), of ev p' t] scan p(2) ids show ?thesis
      by (simp add: scanning_step)
  next
    case (flush k)
    with scan have b: "b" "ev = [label p (take k (pending p))]"
      and p': "p' = p\<lparr>pending := drop k (pending p)\<rparr>" by auto
    from p' p(2) have sc: "scanning (feed p' t)" by (simp add: scanning_def)
    obtain x y c q where q: "?scan (feed p t) = (True, x, q)" "?scan (feed p' t) = (c, y, q)"
      "\<And>pre. coalesce (pre @ x) = coalesce (pre @ ev @ y)" "c \<or> ?scan q = (False, [], q)"
      unfolding b(2) using scan_step_feed_flush [OF flush(1) t flush(2,3) p'] by metis
    have "c \<or> q = feed p' t"
      by (cases "feed p' t" rule: scan_step_cases [where 'n = 'a]) (use q(2) in auto)
    then have "c \<or> parse_step from_str q ids = Some (Ok (False, []), q, ids)"
      using q(4) sc by (auto simp: scanning_step)
    with q b(1) sc p(2) ids show ?thesis
      by (fastforce simp: absorbs_def scanning_step)
  next
    case stall
    with scan ids show ?thesis by auto
  qed
qed

text \<open>The same of every mode.\<close>

lemma text_settled_feed:
  "pending (text_settled p) \<noteq> [] \<Longrightarrow> text_settled (feed p t) = feed (text_settled p) t"
  by (simp add: text_settled_def feed_def trim_start_matches_append)

lemma parse_step_feed_text:
  assumes p: "parser_ok p" "tagged p" "mode p = TextMode" and t: "utf8_start t"
    and step: "parse_step from_str p ids = Some (Ok (b, ev), p', ids')"
  shows "if b then parse_step from_str (feed p t) ids = Some (Ok (True, ev), feed p' t, ids') \<or>
      absorbs from_str ev (parse_step from_str (feed p t) ids) (parse_step from_str (feed p' t) ids')
    else parse_step from_str (feed p t) ids = parse_step from_str (feed p' t) ids'"
proof (cases "trim_after_thinking p \<or> trim_after_tool_call p")
  case True
  let ?q = "text_settled p"
  have feed_step: "parse_step from_str (feed p t) ids =
      (if pending (text_settled (feed p t)) = [] then Some (Ok (False, []), (feed p t)\<lparr>pending := []\<rparr>, ids)
       else parse_step from_str (text_settled (feed p t)) ids)"
    using text_step [of "feed p t" from_str ids] True p(3) by simp
  show ?thesis
  proof (cases "pending ?q = []")
    case empty: True
    with step True p(3) have p': "p' = p\<lparr>pending := []\<rparr>" "b = False" "ids' = ids"
      by (auto simp: text_step)
    have trim: "trim_start_matches [carriage_return, newline] (pending p @ t) =
        trim_start_matches [carriage_return, newline] t"
      using empty by (simp add: trim_start_matches_append text_settled_def)
    have "parse_step from_str (p\<lparr>pending := t\<rparr>) ids = parse_step from_str (feed p t) ids"
      unfolding feed_step using text_step [of "p\<lparr>pending := t\<rparr>" from_str ids] True p(3) trim
      by (simp add: text_settled_def feed_def)
    with p' show ?thesis by simp
  next
    case ne: False
    have "parse_step from_str (feed p t) ids = parse_step from_str (feed ?q t) ids"
      using feed_step text_settled_feed [OF ne, of t] ne by simp
    moreover have "parse_step from_str ?q ids = Some (Ok (b, ev), p', ids')"
      using step True p(3) ne by (simp add: text_step)
    moreover have "tagged ?q" "scanning ?q"
      using p by (simp_all add: tagged_def scanning_def text_settled_def)
    ultimately show ?thesis
      using scanning_parse_step_feed [of ?q t from_str ids b ev p' ids'] t by simp
  qed
next
  case False
  with p have "scanning p" by (simp add: scanning_def)
  from scanning_parse_step_feed [OF p(2) this t step] show ?thesis .
qed

lemma parse_step_feed_reasoning:
  assumes p: "parser_ok p" "tagged p" "mode p = ReasoningMode" and t: "utf8_start t"
    and step: "parse_step from_str p ids = Some (Ok (b, ev), p', ids')"
  shows "if b then parse_step from_str (feed p t) ids = Some (Ok (True, ev), feed p' t, ids') \<or>
      absorbs from_str ev (parse_step from_str (feed p t) ids) (parse_step from_str (feed p' t) ids')
    else parse_step from_str (feed p t) ids = parse_step from_str (feed p' t) ids'"
proof (cases "gemma_channel_header_pending p")
  case True
  let ?open = "prefix GEMMA_CHANNEL_OPEN (pending p)" and ?opening = "prefix (pending p) GEMMA_CHANNEL_OPEN"
  let ?think = "prefix GEMMA_THINK_CHANNEL (pending p)" and ?thinking = "prefix (pending p) GEMMA_THINK_CHANNEL"
  note step_p = reasoning_header_step [OF p(3) True, of from_str ids]
  have step_feed: "parse_step from_str (feed p t) ids =
      (if prefix GEMMA_CHANNEL_OPEN (pending p @ t) then
         Some (Ok (True, []), p\<lparr>pending := drop (length GEMMA_CHANNEL_OPEN) (pending p @ t)\<rparr>, ids)
       else if prefix (pending p @ t) GEMMA_CHANNEL_OPEN then Some (Ok (False, []), feed p t, ids)
       else if prefix GEMMA_THINK_CHANNEL (pending p @ t) then
         Some (Ok (True, []), p\<lparr>pending := drop (length GEMMA_THINK_CHANNEL) (pending p @ t),
                                gemma_channel_header_pending := False\<rparr>, ids)
       else if prefix (pending p @ t) GEMMA_THINK_CHANNEL then Some (Ok (False, []), feed p t, ids)
       else parse_step from_str ((feed p t)\<lparr>gemma_channel_header_pending := False\<rparr>) ids)"
    using reasoning_header_step [of "feed p t" from_str ids] p(3) True by simp
  have ext: "prefix m (pending p) \<Longrightarrow> prefix m (pending p @ t) \<and>
      drop (length m) (pending p @ t) = drop (length m) (pending p) @ t" for m
    by (auto simp: prefix_def)
  have apart: "\<not> prefix m (pending p @ t)" "\<not> prefix (pending p @ t) m"
    if "\<not> prefix m (pending p)" "\<not> prefix (pending p) m" for m
    using that prefix_same_cases [of m "pending p @ t" "pending p"] append_prefixD by auto
  consider (o) ?open | (oing) "\<not> ?open" ?opening | (th) "\<not> ?open" "\<not> ?opening" ?think
    | (thing) "\<not> ?open" "\<not> ?opening" "\<not> ?think" ?thinking
    | (none) "\<not> ?open" "\<not> ?opening" "\<not> ?think" "\<not> ?thinking" by blast
  then show ?thesis
  proof cases
    case o
    with step step_p step_feed ext show ?thesis by (auto simp: feed_def)
  next
    case oing
    with step step_p show ?thesis by auto
  next
    case th
    with step step_p step_feed ext [OF th(3)] apart show ?thesis by (auto simp: feed_def)
  next
    case thing
    with step step_p show ?thesis by auto
  next
    case none
    let ?q = "p\<lparr>gemma_channel_header_pending := False\<rparr>"
    have "(feed p t)\<lparr>gemma_channel_header_pending := False\<rparr> = feed ?q t" by (simp add: feed_def)
    with none step_feed apart [OF none(1,2)] apart [OF none(3,4)]
    have "parse_step from_str (feed p t) ids = parse_step from_str (feed ?q t) ids" by simp
    moreover have "parse_step from_str ?q ids = Some (Ok (b, ev), p', ids')"
      using none step step_p by simp
    moreover have "tagged ?q" "scanning ?q"
      using p by (simp_all add: tagged_def scanning_def)
    ultimately show ?thesis
      using scanning_parse_step_feed [of ?q t from_str ids b ev p' ids'] t by simp
  qed
next
  case False
  with p have "scanning p" by (simp add: scanning_def)
  from scanning_parse_step_feed [OF p(2) this t step] show ?thesis .
qed

lemma closing_offset_loop_append:
  "closing_offset_loop marker quote escaped s = Some i \<Longrightarrow>
   closing_offset_loop marker quote escaped (s @ t) = Some i"
proof (induction s arbitrary: quote escaped i)
  case (Cons c cs)
  have ext: "prefix marker (c # cs) \<Longrightarrow> prefix marker (c # cs @ t)"
    using prefix_prefix [of marker "c # cs" t] by simp
  have pre: "prefix marker (c # cs @ t) = prefix marker (c # cs)"
    if "closing_offset_loop marker None False cs = Some k" for k
  proof
    assume long: "prefix marker (c # cs @ t)"
    have "k + length marker \<le> length cs"
      using closing_offset_loop_Some [OF that] by (rule occurs_at_length)
    then show "prefix marker (c # cs)"
      using long by (intro prefix_length_prefix [OF long]) auto
  qed (rule ext)
  with Cons ext show ?case
    by (cases quote) (auto split: if_splits)
qed simp

lemma close_index_append: "close_index protocol s = Some i \<Longrightarrow> close_index protocol (s @ t) = Some i"
  by (auto simp: close_index_def closing_offset_def closing_offset_loop_append find_sub_append
      protocol_close_nonempty split: if_splits)

lemma parse_body_simps [simp]:
  "parse_body from_str (p\<lparr>pending := s\<rparr>) body = parse_body from_str p body"
  "parse_body from_str (p\<lparr>tool_call := s\<rparr>) body = parse_body from_str p body"
  by (simp_all add: parse_body_def cong: ToolCallProtocol.case_cong)

lemma parse_step_feed_tool_call:
  assumes "mode p = ToolCallMode" "parse_step from_str p ids = Some (Ok (b, ev), p', ids')"
  shows "if b then parse_step from_str (feed p t) ids = Some (Ok (True, ev), feed p' t, ids')
    else parse_step from_str (feed p t) ids = parse_step from_str (feed p' t) ids'"
proof (cases "close_index (tool_call_protocol p) (tool_call p @ pending p)")
  case None
  with assms show ?thesis
    by (auto simp: parse_step_def parse_tool_call_def feed_def)
next
  case (Some i)
  from close_index_append [OF Some, of t]
  have ext: "close_index (tool_call_protocol p) (tool_call p @ pending p @ t) = Some i" by simp
  have len: "i + length (protocol_close (tool_call_protocol p)) \<le> length (tool_call p @ pending p)"
    using close_index_Some [OF Some] .
  then have "take i (tool_call p @ pending p @ t) = take i (tool_call p @ pending p)"
    and "drop (i + length (protocol_close (tool_call_protocol p))) (tool_call p @ pending p @ t) =
      drop (i + length (protocol_close (tool_call_protocol p))) (tool_call p @ pending p) @ t"
    by (simp_all add: append_assoc [symmetric] del: append_assoc)
  with assms Some ext show ?thesis
    by (auto simp: parse_step_def parse_tool_call_def Let_def feed_def try_result_def
        simp del: take_append drop_append split: sum.splits prod.splits)
qed

lemma parse_step_feed_direct:
  assumes p: "parser_ok p" "mode p = DirectToolCallMode"
    and step: "parse_step from_str p ids = Some (Ok (b, ev), p', ids')"
  shows "if b then parse_step from_str (feed p t) ids = Some (Ok (True, ev), feed p' t, ids')
    else parse_step from_str (feed p t) ids = parse_step from_str (feed p' t) ids'"
proof -
  from p obtain i where i: "active_direct_tool p = Some i" "i < length (direct_tools p)"
    by (auto simp: parser_ok_def split: option.splits)
  let ?d = "direct_tools p ! i" and ?s = "tool_call p @ pending p"
  have d: "direct_close ?d \<noteq> []" using p(1) i(2) by (auto simp: parser_ok_def list_all_iff)
  show ?thesis
  proof (cases "find_sub (direct_close ?d) ?s")
    case None
    with step p(2) i show ?thesis
      by (auto simp: parse_step_def parse_direct_tool_call_def feed_def get_def)
  next
    case (Some j)
    from find_sub_append [OF Some d, of t]
    have ext: "find_sub (direct_close ?d) (tool_call p @ pending p @ t) = Some j" by simp
    have "j + length (direct_close ?d) \<le> length ?s"
      using find_sub_Some [OF Some] occurs_at_length by blast
    then have "take j (tool_call p @ pending p @ t) = take j ?s"
      and "drop (j + length (direct_close ?d)) (tool_call p @ pending p @ t) =
        drop (j + length (direct_close ?d)) ?s @ t"
      by (simp_all add: append_assoc [symmetric] del: append_assoc)
    with step p(2) i Some ext show ?thesis
      by (auto simp: parse_step_def parse_direct_tool_call_def Let_def feed_def get_def
          simp del: take_append drop_append split: sum.splits prod.splits)
  qed
qed

lemma parse_step_feed:
  assumes "parser_ok p" "tagged p" "utf8_start t"
    and "parse_step from_str p ids = Some (Ok (b, ev), p', ids')"
  shows "if b then parse_step from_str (feed p t) ids = Some (Ok (True, ev), feed p' t, ids') \<or>
      absorbs from_str ev (parse_step from_str (feed p t) ids) (parse_step from_str (feed p' t) ids')
    else parse_step from_str (feed p t) ids = parse_step from_str (feed p' t) ids'"
proof (cases "mode p")
  case ToolCallMode
  from parse_step_feed_tool_call [OF this assms(4), of t] show ?thesis by auto
next
  case DirectToolCallMode
  from parse_step_feed_direct [OF assms(1) this assms(4), of t] show ?thesis by auto
qed (use assms parse_step_feed_text parse_step_feed_reasoning in blast)+

text \<open>What a run shows, up to the cutting of its text.\<close>

definition observed ::
  "('n events result \<times> ChatOutputParser \<times> u64) option \<Rightarrow>
   ('n events result \<times> ChatOutputParser \<times> u64) option" where
  "observed = map_option (\<lambda>(r, p, ids). (map_sum id coalesce r, p, ids))"

lemma observed_push_loop_cong:
  assumes "parser_ok p" "coalesce a = coalesce b"
  shows "observed (push_loop from_str p ids a) = observed (push_loop from_str p ids b)"
  using assms
proof (induction "undecided p" arbitrary: p ids a b rule: less_induct)
  case less
  from less.prems(1) show ?case
  proof (cases rule: parse_step_cases [where from_str = from_str and ids = ids])
    case (again ev p' ids')
    with less.hyps [of p' "a @ ev" "b @ ev"] coalesce_cong [OF less.prems(2)] show ?thesis
      by (subst (1 2) push_loop.simps) simp
  qed (use less.prems in \<open>subst (1 2) push_loop.simps; simp add: observed_def\<close>)+
qed

lemma absorbs_push_loop:
  assumes "absorbs from_str ev (parse_step from_str p ids) (parse_step from_str q ids2)" "parser_ok p"
  shows "observed (push_loop from_str p ids pre) = observed (push_loop from_str q ids2 (pre @ ev))"
proof -
  from assms(1) obtain x y c p' ids' where
    a: "parse_step from_str p ids = Some (Ok (True, x), p', ids')" and
    b: "parse_step from_str q ids2 = Some (Ok (c, y), p', ids')" and
    xy: "coalesce (pre @ x) = coalesce (pre @ ev @ y)" and
    c: "c \<or> parse_step from_str p' ids' = Some (Ok (False, []), p', ids')"
    by (auto simp: absorbs_def)
  have ok: "parser_ok p'"
    using assms(2) by (cases rule: parse_step_cases [where from_str = from_str and ids = ids])
      (use a in auto)
  have "observed (push_loop from_str p ids pre) = observed (push_loop from_str p' ids' (pre @ x))"
    by (subst push_loop.simps) (simp add: a)
  also have "\<dots> = observed (push_loop from_str p' ids' (pre @ ev @ y))"
    by (rule observed_push_loop_cong [OF ok xy])
  also have "\<dots> = observed (push_loop from_str q ids2 (pre @ ev))"
  proof (cases c)
    case True
    show ?thesis by (subst (2) push_loop.simps) (simp add: b True)
  next
    case False
    with c show ?thesis by (subst (1 2) push_loop.simps) (simp add: b)
  qed
  finally show ?thesis .
qed

text \<open>The loop on a text and then on the rest does what the loop on all of it does.\<close>

lemma push_loop_feed:
  assumes "parser_ok p" "tagged p" "utf8_start t"
    and "push_loop from_str p ids pre = Some (Ok ev, p', ids')"
  shows "observed (push_loop from_str (feed p t) ids pre) =
    observed (push_loop from_str (feed p' t) ids' ev)"
  using assms
proof (induction "undecided p" arbitrary: p ids pre rule: less_induct)
  case less
  note run = less.prems(4)
  from less.prems(1) show ?case
  proof (cases rule: parse_step_cases [where from_str = from_str and ids = ids])
    case (error e q ids2)
    with run show ?thesis by (subst (asm) push_loop.simps) simp
  next
    case (stop q ids2)
    with run have q: "ev = pre" "p' = q" "ids' = ids2"
      by (subst (asm) push_loop.simps, simp)+
    from parse_step_feed [OF less.prems(1,2,3) stop(1)]
    have "parse_step from_str (feed p t) ids = parse_step from_str (feed q t) ids2" by simp
    then show ?thesis unfolding q by (subst (1 2) push_loop.simps) simp
  next
    case (again ev' q ids2)
    with run have run': "push_loop from_str q ids2 (pre @ ev') = Some (Ok ev, p', ids')"
      by (subst (asm) push_loop.simps) simp
    have "tagged q" using less.prems(2) again(3) by (simp add: tagged_def config_def)
    with less.hyps [OF again(5,2) _ less.prems(3) run']
    have ih: "observed (push_loop from_str (feed q t) ids2 (pre @ ev')) =
        observed (push_loop from_str (feed p' t) ids' ev)" by simp
    from parse_step_feed [OF less.prems(1,2,3) again(1)]
    consider "parse_step from_str (feed p t) ids = Some (Ok (True, ev'), feed q t, ids2)"
      | "absorbs from_str ev' (parse_step from_str (feed p t) ids) (parse_step from_str (feed q t) ids2)"
      by auto
    then show ?thesis
    proof cases
      case 1
      have "push_loop from_str (feed p t) ids pre = push_loop from_str (feed q t) ids2 (pre @ ev')"
        by (subst push_loop.simps) (simp add: 1)
      with ih show ?thesis by simp
    next
      case 2
      from absorbs_push_loop [OF this] less.prems(1) ih show ?thesis by simp
    qed
  qed
qed

lemma map_sum_Ok: "map_sum f g r = Ok y \<longleftrightarrow> (\<exists>x. r = Ok x \<and> y = g x)"
  by (cases r) auto

lemma map_sum_Err: "map_sum id g r = Err e \<longleftrightarrow> r = Err e"
  by (cases r) auto

lemma tagged_config: "config p' = config p \<Longrightarrow> tagged p' = tagged p"
  by (simp add: tagged_def config_def)

text \<open>An error does not depend on the text that follows either.\<close>

lemma scanning_step_not_Err: "scanning p \<Longrightarrow> parse_step from_str p ids \<noteq> Some (Err e, p', ids')"
  by (auto simp: scanning_step split: prod.splits)

lemma parse_step_Err_mode:
  assumes "parse_step from_str p ids = Some (Err e, p', ids')"
  shows "mode p = ToolCallMode \<or> mode p = DirectToolCallMode"
  using assms by (cases "mode p") (auto simp: parse_step_def split: prod.splits)

lemma parse_step_feed_Err:
  assumes p: "parser_ok p" and step: "parse_step from_str p ids = Some (Err e, p', ids')"
  shows "\<exists>q. parse_step from_str (feed p t) ids = Some (Err e, q, ids')"
  using parse_step_Err_mode [OF step]
proof
  assume m: "mode p = ToolCallMode"
  let ?s = "tool_call p @ pending p" and ?c = "protocol_close (tool_call_protocol p)"
  from step m obtain i where i: "close_index (tool_call_protocol p) ?s = Some i"
    by (cases "close_index (tool_call_protocol p) ?s")
      (auto simp: parse_step_def parse_tool_call_def Let_def)
  have "take i (?s @ t) = take i ?s" using close_index_Some [OF i] by simp
  with step m i close_index_append [OF i, of t] show ?thesis
    by (auto simp: parse_step_def parse_tool_call_def Let_def feed_def try_result_def
        simp del: take_append drop_append split: sum.splits prod.splits)
next
  assume m: "mode p = DirectToolCallMode"
  with p obtain k where k: "active_direct_tool p = Some k" "k < length (direct_tools p)"
    by (auto simp: parser_ok_def split: option.splits)
  let ?s = "tool_call p @ pending p" and ?c = "direct_close (direct_tools p ! k)"
  from step m k obtain i where i: "find_sub ?c ?s = Some i"
    by (cases "find_sub ?c ?s")
      (auto simp: parse_step_def parse_direct_tool_call_def get_def Let_def)
  have "?c \<noteq> []" using p k(2) by (auto simp: parser_ok_def list_all_iff)
  note ext = find_sub_append [OF i this, of t]
  have "take i (?s @ t) = take i ?s"
    using find_sub_Some [OF i] occurs_at_length [of ?c ?s i] by simp
  with step m k i ext show ?thesis
    by (auto simp: parse_step_def parse_direct_tool_call_def Let_def feed_def get_def
        simp del: take_append drop_append split: sum.splits prod.splits)
qed

lemma push_loop_feed_Err:
  assumes "parser_ok p" "tagged p" "utf8_start t"
    and "push_loop from_str p ids pre = Some (Err e, p', ids')"
  shows "\<exists>q. push_loop from_str (feed p t) ids pre = Some (Err e, q, ids')"
  using assms
proof (induction "undecided p" arbitrary: p ids pre rule: less_induct)
  case less
  note run = less.prems(4)
  from less.prems(1) show ?case
  proof (cases rule: parse_step_cases [where from_str = from_str and ids = ids])
    case (error e' q ids2)
    have "e' = e" "ids2 = ids'"
      using run by (subst (asm) push_loop.simps, simp add: error(1))+
    moreover obtain q2 where "parse_step from_str (feed p t) ids = Some (Err e', q2, ids2)"
      using parse_step_feed_Err [OF less.prems(1) error(1), of t] by blast
    ultimately show ?thesis by (subst push_loop.simps) simp
  next
    case (stop q ids2)
    with run show ?thesis by (subst (asm) push_loop.simps) simp
  next
    case (again ev q ids2)
    with run have run': "push_loop from_str q ids2 (pre @ ev) = Some (Err e, p', ids')"
      by (subst (asm) push_loop.simps) simp
    have "tagged q" using less.prems(2) tagged_config [OF again(3)] by simp
    with less.hyps [OF again(5,2) _ less.prems(3) run'] obtain q2 where
      ih: "push_loop from_str (feed q t) ids2 (pre @ ev) = Some (Err e, q2, ids')" by auto
    from parse_step_feed [OF less.prems(1,2,3) again(1)]
    consider "parse_step from_str (feed p t) ids = Some (Ok (True, ev), feed q t, ids2)"
      | "absorbs from_str ev (parse_step from_str (feed p t) ids) (parse_step from_str (feed q t) ids2)"
      by auto
    then show ?thesis
    proof cases
      case 1
      then have "push_loop from_str (feed p t) ids pre = push_loop from_str (feed q t) ids2 (pre @ ev)"
        by (subst push_loop.simps) simp
      with ih show ?thesis by simp
    next
      case 2
      from absorbs_push_loop [OF this, of pre] less.prems(1) ih show ?thesis
        by (auto simp: observed_def map_sum_Err)
    qed
  qed
qed

section \<open>Streams of chunks\<close>

text \<open>The client's loop: it pushes chunk after chunk until one fails.\<close>

fun push_chunks ::
  "'n from_str \<Rightarrow> ChatOutputParser \<Rightarrow> u64 \<Rightarrow> string list \<Rightarrow>
   ('n events result \<times> ChatOutputParser \<times> u64) option" where
  "push_chunks from_str p ids [] = Some (Ok [], p, ids)"
| "push_chunks from_str p ids (c # cs) =
     Option.bind (push_text from_str p ids c) (\<lambda>(r, p, ids).
       case r of
         Inl e \<Rightarrow> Some (Err e, p, ids)
       | Inr ev \<Rightarrow>
           Option.bind (push_chunks from_str p ids cs) (\<lambda>(r, p, ids).
             Some (map_sum id ((@) ev) r, p, ids)))"

lemma push_text_total:
  assumes "parser_ok p"
  shows "\<exists>r p' ids'. push_text from_str p ids s = Some (r, p', ids') \<and>
    config p' = config p \<and> finished p' = finished p \<and> (is_ok r \<longrightarrow> parser_ok p')"
  using push_loop_total [of "feed p s" from_str ids "[]"] assms
  by (auto simp: push_text_def feed_def config_def)

lemma push_text_Ok:
  assumes "parser_ok p" "push_text from_str p ids s = Some (Ok ev, p', ids')"
  shows "parser_ok p'" "config p' = config p" "finished p' = finished p" "\<not> finished p"
    "push_loop from_str (feed p s) ids [] = Some (Ok ev, p', ids')"
  using push_text_total [OF assms(1), of from_str ids s] assms(2)
  by (auto simp: push_text_def feed_def split: if_splits)

lemma utf8_start_concat: "list_all utf8_start cs \<Longrightarrow> utf8_start (concat cs)"
proof (induction cs)
  case (Cons c cs)
  then show ?case by (cases c) (auto simp: utf8_start_def)
qed (simp add: utf8_start_def)

lemma push_loop_prefix:
  assumes "parser_ok p"
  shows "push_loop from_str p ids (a @ b) =
    map_option (\<lambda>(r, q). (map_sum id ((@) a) r, q)) (push_loop from_str p ids b)"
  using assms
proof (induction "undecided p" arbitrary: p ids b rule: less_induct)
  case less
  from less.prems show ?case
  proof (cases rule: parse_step_cases [where from_str = from_str and ids = ids])
    case (again ev p' ids')
    with less.hyps [of p' ids' "b @ ev"] show ?thesis
      by (subst (1 2) push_loop.simps) simp
  qed (subst (1 2) push_loop.simps; simp)+
qed

lemma push_loop_accumulates:
  assumes "parser_ok p" "push_loop from_str p ids [] = Some (Ok ev, p', ids')"
  shows "push_loop from_str p ids pre = Some (Ok (pre @ ev), p', ids')"
  using push_loop_prefix [OF assms(1), of from_str ids pre "[]"] assms(2) by simp

lemma push_chunks_Ok:
  assumes "push_chunks from_str p ids (c # cs) = Some (Ok ev, p', ids')"
  obtains ev1 p1 ids1 ev2 where "push_text from_str p ids c = Some (Ok ev1, p1, ids1)"
    "push_chunks from_str p1 ids1 cs = Some (Ok ev2, p', ids')" "ev = ev1 @ ev2"
proof -
  from assms obtain r p1 ids1 where first: "push_text from_str p ids c = Some (r, p1, ids1)"
    by (cases "push_text from_str p ids c") auto
  show thesis
  proof (cases r)
    case (Inl e)
    with assms first show thesis by simp
  next
    case (Inr ev1)
    with assms first show thesis by (auto simp: bind_eq_Some_conv map_sum_Ok intro: that)
  qed
qed

lemma push_chunks_concat:
  assumes "parser_ok p" "tagged p" "list_all utf8_start cs" "cs \<noteq> []"
    and "push_chunks from_str p ids cs = Some (Ok ev, p', ids')"
  shows "\<exists>ev'. push_text from_str p ids (concat cs) = Some (Ok ev', p', ids') \<and>
    coalesce ev' = coalesce ev"
  using assms
proof (induction cs arbitrary: p ids ev)
  case (Cons c cs)
  from Cons.prems(5) obtain ev1 p1 ids1 ev2 where
    first: "push_text from_str p ids c = Some (Ok ev1, p1, ids1)" and
    rest: "push_chunks from_str p1 ids1 cs = Some (Ok ev2, p', ids')" and ev: "ev = ev1 @ ev2"
    by (rule push_chunks_Ok)
  note p1 = push_text_Ok [OF Cons.prems(1) first]
  show ?case
  proof (cases "cs = []")
    case True
    with first rest ev show ?thesis by simp
  next
    case False
    with Cons.IH [OF p1(1) _ _ False rest] Cons.prems(2,3) tagged_config [OF p1(2)]
    obtain ev2' where tail: "push_text from_str p1 ids1 (concat cs) = Some (Ok ev2', p', ids')"
      "coalesce ev2' = coalesce ev2" by auto
    note p2 = push_text_Ok [OF p1(1) tail(1)]
    have "observed (push_loop from_str (feed p (concat (c # cs))) ids []) =
        observed (push_loop from_str (feed p1 (concat cs)) ids1 ev1)"
      using push_loop_feed [of "feed p c" "concat cs" from_str ids "[]" ev1 p1 ids1]
        Cons.prems(1-3) p1(5) utf8_start_concat [of cs] by simp
    also have "\<dots> = Some (Ok (coalesce (ev1 @ ev2')), p', ids')"
      using push_loop_accumulates [of "feed p1 (concat cs)" from_str ids1 ev2' p' ids' ev1] p1(1) p2(5)
      by (simp add: observed_def)
    finally obtain ev' where run: "push_loop from_str (feed p (concat (c # cs))) ids [] = Some (Ok ev', p', ids')"
      "coalesce ev' = coalesce (ev1 @ ev2')"
      by (auto simp: observed_def map_sum_Ok)
    moreover have "coalesce (ev1 @ ev2') = coalesce ev"
      using tail(2) coalesce_right [of ev1 ev2'] coalesce_right [of ev1 ev2] by (simp add: ev)
    ultimately show ?thesis using p1(4) by (auto simp: push_text_def feed_def)
  qed
qed simp

lemma push_chunks_concat_Err:
  assumes "parser_ok p" "tagged p" "list_all utf8_start cs"
    and "push_chunks from_str p ids cs = Some (Err e, p', ids')"
  shows "\<exists>q. push_text from_str p ids (concat cs) = Some (Err e, q, ids')"
  using assms
proof (induction cs arbitrary: p ids)
  case (Cons c cs)
  show ?case
  proof (cases "finished p")
    case True
    with Cons.prems(4) show ?thesis by (simp add: push_text_def)
  next
    case False
    have eq: "push_text from_str p ids s = push_loop from_str (feed p s) ids []" for s
      using False by (simp add: push_text_def feed_def)
    have start: "utf8_start (concat cs)" using Cons.prems(3) by (intro utf8_start_concat) simp
    obtain r p1 ids1 where first: "push_text from_str p ids c = Some (r, p1, ids1)"
      using push_text_total [OF Cons.prems(1)] by blast
    show ?thesis
    proof (cases r)
      case (Inl e')
      with Cons.prems(4) first have "e' = e" "ids1 = ids'" by auto
      with push_loop_feed_Err [of "feed p c" "concat cs" from_str ids "[]" e p1 ids'] first Inl
        Cons.prems(1,2) start eq show ?thesis by simp
    next
      case (Inr ev1)
      note p1 = push_text_Ok [OF Cons.prems(1) first [unfolded Inr]]
      from Cons.prems(4) first Inr have "push_chunks from_str p1 ids1 cs = Some (Err e, p', ids')"
        by (auto simp: bind_eq_Some_conv map_sum_Err)
      with Cons.IH [OF p1(1)] Cons.prems(2,3) tagged_config [OF p1(2)] obtain q where
        "push_text from_str p1 ids1 (concat cs) = Some (Err e, q, ids')" by auto
      then have tail: "push_loop from_str (feed p1 (concat cs)) ids1 [] = Some (Err e, q, ids')"
        using p1(3,4) by (simp add: push_text_def feed_def)
      have "observed (push_loop from_str (feed p (concat (c # cs))) ids []) =
          observed (push_loop from_str (feed p1 (concat cs)) ids1 ev1)"
        using push_loop_feed [of "feed p c" "concat cs" from_str ids "[]" ev1 p1 ids1]
          Cons.prems(1,2) p1(5) start by simp
      also have "push_loop from_str (feed p1 (concat cs)) ids1 ev1 = Some (Err e, q, ids')"
        using push_loop_prefix [of "feed p1 (concat cs)" from_str ids1 ev1 "[]"] p1(1) tail by simp
      finally show ?thesis
        by (auto simp: observed_def map_sum_Err eq)
    qed
  qed
qed simp

text \<open>A new parser.\<close>

definition angle_free :: "string \<Rightarrow> bool" where
  "angle_free n \<longleftrightarrow> CHR ''<'' \<notin> set n \<and> CHR ''>'' \<notin> set n"

lemma new_tools_direct:
  assumes "new_tools tools strings params direct = Ok (strings', params', direct')"
    and "d \<in> set direct'"
  shows "d \<in> set direct \<or> (\<exists>n \<in> tool_name ` set tools.
    direct_open d = ''<'' @ n @ ''>'' \<and> direct_close d = ''</'' @ n @ ''>'')"
  using assms
proof (induction tools arbitrary: strings params direct)
  case (Cons tool tools)
  from Cons.prems show ?case
    by (auto simp: Let_def split: if_splits list.splits dest!: Cons.IH)
qed simp

lemma parser_new_facts:
  assumes "parser_new tools starts_in_reasoning = Ok p"
  shows "parser_ok p" "\<not> finished p" "pending p = []" "tool_call p = []"
    "mode p = (if starts_in_reasoning then ReasoningMode else TextMode)"
    "\<not> trim_after_thinking p" "\<not> trim_after_tool_call p" "\<not> gemma_channel_header_pending p"
    "list_all (angle_free \<circ> tool_name) tools \<Longrightarrow> tagged p"
proof -
  from assms obtain strings params direct where
    new: "new_tools tools [] [] [] = Ok (strings, params, direct)" and
    p: "p = \<lparr>mode = if starts_in_reasoning then ReasoningMode else TextMode,
           pending = [], tool_call = [], tool_call_protocol = Standard,
           gemma_channel_header_pending = False, trim_after_thinking = False,
           trim_after_tool_call = False, string_arguments = strings, tool_parameters = params,
           direct_tools = direct, active_direct_tool = None, finished = False\<rparr>"
    by (auto simp: parser_new_def result_simps)
  note direct = new_tools_direct [OF new]
  show "parser_ok p" using direct by (fastforce simp: p parser_ok_def list_all_iff)
  show "\<not> finished p" "pending p = []" "tool_call p = []"
    "mode p = (if starts_in_reasoning then ReasoningMode else TextMode)"
    "\<not> trim_after_thinking p" "\<not> trim_after_tool_call p" "\<not> gemma_channel_header_pending p"
    by (simp_all add: p)
  show "tagged p" if "list_all (angle_free \<circ> tool_name) tools"
    using direct that by (fastforce simp: p tagged_def list_all_iff tag_def angle_free_def butlast_append)
qed

section \<open>What a chat output stream guarantees\<close>

text \<open>C4: However the generated text is cut into chunks, at character boundaries, the parser does the
  same: the events of the chunks are the events of the whole text up to where text and reasoning are
  cut into pieces, the parser and the identity counter end in the same state, and an error is the
  same error. The names of the tools must not contain angle brackets.\<close>

theorem chat_chunks_independent:
  assumes "parser_new tools starts_in_reasoning = Ok p"
    and "list_all (angle_free \<circ> tool_name) tools"
    and "list_all utf8_start chunks" "chunks \<noteq> []"
    and "push_chunks from_str p ids chunks = Some (r, p', ids')"
  shows "case r of
      Inr ev \<Rightarrow> \<exists>ev'. push_text from_str p ids (concat chunks) = Some (Ok ev', p', ids') \<and>
        coalesce ev' = coalesce ev
    | Inl e \<Rightarrow> \<exists>q. push_text from_str p ids (concat chunks) = Some (Err e, q, ids')"
  using push_chunks_concat [of p chunks from_str ids _ p' ids']
    push_chunks_concat_Err [of p chunks from_str ids _ p' ids'] parser_new_facts [OF assms(1)] assms(2-)
  by (auto split: sum.split)

abbreviation reasoning_parser :: ChatOutputParser where
  "reasoning_parser \<equiv> \<lparr>mode = ReasoningMode, pending = [], tool_call = [],
     tool_call_protocol = Standard, gemma_channel_header_pending = False,
     trim_after_thinking = False, trim_after_tool_call = False, string_arguments = [],
     tool_parameters = [], direct_tools = [], active_direct_tool = None, finished = False\<rparr>"

theorem chat_chunks_independent_witness:
  "\<exists>ev'. push_text (\<lambda>_. None :: unit Value option) reasoning_parser 1 ''hm</think>so<t'' =
     Some (Ok ev', reasoning_parser\<lparr>mode := TextMode, pending := ''<t''\<rparr>, 1) \<and>
   coalesce ev' = [Reasoning ''hm'', Text ''so'']"
proof -
  have new: "parser_new ([] :: unit ChatTool list) True = Ok reasoning_parser" by code_simp
  have run: "push_chunks (\<lambda>_. None :: unit Value option) reasoning_parser 1
      [''h'', ''m</th'', ''ink>'', ''s'', ''o<t''] =
    Some (Ok [Reasoning ''h'', Reasoning ''m'', Text ''s'', Text ''o''],
      reasoning_parser\<lparr>mode := TextMode, pending := ''<t''\<rparr>, 1)"
    by code_simp
  have start: "list_all utf8_start [''h'', ''m</th'', ''ink>'', ''s'', ''o<t'']" by code_simp
  have ev: "coalesce [Reasoning ''h'', Reasoning ''m'', Text ''s'', Text ''o''] =
      [Reasoning ''hm'', Text ''so'' :: unit ChatOutputEvent]" by code_simp
  from chat_chunks_independent [OF new _ start _ run] ev show ?thesis by simp
qed

text \<open>C18: Pushing any chunks into a new parser returns: no chunk panics and the loop over the
  pending text ends.\<close>

theorem chat_stream_returns:
  assumes "parser_new tools starts_in_reasoning = Ok p"
  shows "\<exists>r p' ids'. push_chunks from_str p ids chunks = Some (r, p', ids')"
proof -
  have "\<exists>r p' ids'. push_chunks from_str p ids chunks = Some (r, p', ids')" if "parser_ok p" for p ids
    using that
  proof (induction chunks arbitrary: p ids)
    case (Cons c cs)
    from push_text_total [OF Cons.prems, of from_str ids c] obtain r p1 ids1 where
      first: "push_text from_str p ids c = Some (r, p1, ids1)" "is_ok r \<longrightarrow> parser_ok p1" by blast
    then show ?case
      using Cons.IH [of p1 ids1] by (cases r) auto
  qed simp
  with parser_new_facts(1) [OF assms] show ?thesis by blast
qed

theorem chat_stream_returns_witness:
  "\<exists>r p' ids'. push_chunks (\<lambda>_. None :: unit Value option) reasoning_parser 1 [''a<'', ''b''] =
     Some (r, p', ids')"
  by (rule chat_stream_returns [where tools = "[] :: unit ChatTool list" and starts_in_reasoning = True])
    code_simp

lemma no_marker_iff:
  "first_marker table s = None \<longleftrightarrow> list_all (\<lambda>m. find_sub m s = None) (map fst table)"
  by (auto simp: first_marker_None find_sub_None list_all_iff)

lemma scan_text_table:
  "mode p = TextMode \<Longrightarrow> first_marker (scan_table p) s = None \<longleftrightarrow>
     list_all (\<lambda>m. find_sub m s = None) (text_markers p)"
  using set_text_table [of p] unfolding no_marker_iff list_all_iff by (simp add: scan_table_def)

lemma no_marker_infix:
  assumes "list_all (\<lambda>m. find_sub m (a @ s @ b) = None) ms"
  shows "list_all (\<lambda>m. find_sub m s = None) ms"
proof -
  have "occurs_at m (a @ s @ b) (length a + i)" if "occurs_at m s i" for m i
    using occurs_at_append [OF that, of b] occurs_at_shift [of m a "s @ b" i] by simp
  with assms show ?thesis by (auto simp: list_all_iff find_sub_None)
qed

text \<open>A text chunk that completes no marker is shown up to the kept tail.\<close>

lemma push_text_plain:
  assumes p: "parser_ok p" "mode p = TextMode" "scanning p" "\<not> finished p"
    and none: "first_marker (scan_table p) (pending p @ c) = None"
    and k: "k = shown (pending p @ c) (map fst (scan_table p))"
  shows "push_text (from_str :: 'a from_str) p ids c =
    Some (Ok (if k = 0 then [] else [Text (take k (pending p @ c))]),
      p\<lparr>pending := drop k (pending p @ c)\<rparr>, ids)"
proof -
  let ?s = "pending p @ c" and ?q = "p\<lparr>pending := drop k (pending p @ c)\<rparr>"
  have q: "scanning ?q" "mode ?q = TextMode" using p(2,3) by (simp_all add: scanning_def)
  have "first_marker (scan_table p) (drop k ?s) = None"
    using first_marker_kept [OF none _ k, of "[]"] none by (simp add: utf8_start_def)
  moreover have "held_bytes (drop k ?s) (map fst (scan_table p)) = length (drop k ?s)"
    using held_bytes_kept [of "[]" ?s "map fst (scan_table p)", folded k]
      length_kept [of ?s "map fst (scan_table p)", folded k]
    by (simp add: utf8_start_def)
  ultimately have "scan_step ?q = (False, [] :: 'a events, ?q)" by (intro scan_step_stall) simp_all
  then have stop: "parse_step from_str ?q ids = Some (Ok (False, []), ?q, ids)"
    using scanning_step [OF q(1), of from_str ids] by simp
  show ?thesis
  proof (cases "k = 0")
    case True
    then have "?q = feed p c" by (simp add: feed_def)
    with stop p(4) True show ?thesis
      by (simp add: push_text_def feed_def) (subst push_loop.simps, simp)
  next
    case False
    then have "take k ?s \<noteq> []" using k by (auto simp: shown_def)
    with False have "scan_step (feed p c) = (True, [Text (take k ?s)] :: 'a events, ?q)"
      by (subst scan_step_flush [of "feed p c" k])
        (use none k p(2) in \<open>simp_all add: push_nonempty_def label_def del: take_append drop_append take_eq_Nil\<close>)
    then have "parse_step from_str (feed p c) ids = Some (Ok (True, [Text (take k ?s)]), ?q, ids)"
      using p(3) by (simp add: scanning_step)
    then have "push_loop from_str (feed p c) ids [] = push_loop from_str ?q ids [Text (take k ?s)]"
      by (subst push_loop.simps) simp
    also have "\<dots> = Some (Ok [Text (take k ?s)], ?q, ids)"
      using stop by (subst push_loop.simps) simp
    finally show ?thesis using False p(4) by (simp add: push_text_def feed_def)
  qed
qed

lemma push_chunks_plain:
  assumes "parser_ok p" "mode p = TextMode" "scanning p" "\<not> finished p"
    and "list_all (\<lambda>m. find_sub m (pending p @ concat chunks) = None) (text_markers p)"
  shows "\<exists>texts rest. push_chunks from_str p ids chunks =
      Some (Ok (map Text texts), p\<lparr>pending := rest\<rparr>, ids) \<and>
    concat texts @ rest = pending p @ concat chunks"
  using assms
proof (induction chunks arbitrary: p)
  case Nil
  show ?case by (rule exI [of _ "[]"], rule exI [of _ "pending p"]) simp
next
  case (Cons c cs)
  let ?s = "pending p @ c" and ?k = "shown (pending p @ c) (map fst (scan_table p))"
  let ?q = "p\<lparr>pending := drop ?k (pending p @ c)\<rparr>"
  have "list_all (\<lambda>m. find_sub m ?s = None) (text_markers p)"
    using no_marker_infix [of "[]" ?s "concat cs"] Cons.prems(5) by simp
  then have "first_marker (scan_table p) ?s = None" by (simp add: scan_text_table Cons.prems(2))
  note first = push_text_plain [OF Cons.prems(1-4) this refl, of from_str ids]
  have "list_all (\<lambda>m. find_sub m (drop ?k ?s @ concat cs) = None) (text_markers p)"
    using no_marker_infix [of "take ?k ?s" "drop ?k ?s @ concat cs" "[]"] Cons.prems(5)
    by (simp del: take_append drop_append flip: append_assoc)
  then obtain texts rest where "push_chunks from_str ?q ids cs =
      Some (Ok (map Text texts), p\<lparr>pending := rest\<rparr>, ids)"
    and split: "concat texts @ rest = drop ?k ?s @ concat cs"
    using Cons.IH [of ?q] Cons.prems(1-4) by (auto simp: scanning_def text_markers_def)
  with first have "push_chunks from_str p ids (c # cs) =
      Some (Ok (map Text ((if ?k = 0 then [] else [take ?k ?s]) @ texts)), p\<lparr>pending := rest\<rparr>, ids)"
    by simp
  moreover have "concat ((if ?k = 0 then [] else [take ?k ?s]) @ texts) @ rest = pending p @ concat (c # cs)"
    using split append_take_drop_id [of ?k ?s] by auto
  ultimately show ?case by blast
qed

text \<open>Generated text in which no marker occurs reaches the client byte for byte: the chunks and the
  final flush give text events only, and together they are the text that was pushed.\<close>

theorem chat_plain_text:
  assumes new: "parser_new tools False = Ok p"
    and none: "list_all (\<lambda>m. find_sub m (concat chunks) = None) (text_markers p)"
  shows "\<exists>ev p' fin p'' texts.
    push_chunks from_str p ids chunks = Some (Ok ev, p', ids) \<and>
    finish_with_truncation p' truncated = (Ok fin, p'') \<and>
    ev @ fin = map Text texts \<and> concat texts = concat chunks"
proof -
  note p = parser_new_facts [OF new]
  obtain texts rest where run: "push_chunks from_str p ids chunks =
      Some (Ok (map Text texts), p\<lparr>pending := rest\<rparr>, ids)" "concat texts @ rest = concat chunks"
    using push_chunks_plain [of p chunks from_str ids] p none by (auto simp: scanning_def)
  define fin where "fin = (if rest = [] then [] else [rest])"
  have "finish_with_truncation (p\<lparr>pending := rest\<rparr>) truncated =
      (Ok (map Text fin), p\<lparr>pending := [], finished := True\<rparr>)"
    using p by (auto simp: finish_with_truncation_def take_event_def fin_def)
  moreover have "map Text texts @ map Text fin = map Text (texts @ fin)" "concat (texts @ fin) = concat chunks"
    using run(2) by (auto simp: fin_def)
  ultimately show ?thesis using run(1) by blast
qed

theorem chat_plain_text_witness:
  "\<exists>ev p' fin p'' texts.
    push_chunks (\<lambda>_. None :: unit Value option) (reasoning_parser\<lparr>mode := TextMode\<rparr>) 1 [''a <'', ''b''] =
      Some (Ok ev, p', 1) \<and>
    finish_with_truncation p' False = (Ok fin, p'') \<and>
    ev @ fin = map Text texts \<and> concat texts = ''a <b''"
proof -
  have new: "parser_new ([] :: unit ChatTool list) False = Ok (reasoning_parser\<lparr>mode := TextMode\<rparr>)"
    by code_simp
  have "list_all (\<lambda>m. find_sub m (concat [''a <'', ''b'']) = None)
      (text_markers (reasoning_parser\<lparr>mode := TextMode\<rparr>))"
    by code_simp
  from chat_plain_text [OF new this] show ?thesis by simp
qed

text \<open>
  A shown event is clean when it contains no complete marker: reasoning no end of reasoning, text no
  opening of a tool call or of a channel.
\<close>

definition event_clean :: "ChatOutputParser \<Rightarrow> 'n ChatOutputEvent \<Rightarrow> bool" where
  "event_clean p e =
     (case e of
        Reasoning s \<Rightarrow> list_all (\<lambda>m. find_sub m s = None) (map fst reasoning_markers)
      | Text s \<Rightarrow> list_all (\<lambda>m. find_sub m s = None) (text_markers p)
      | ToolCall _ \<Rightarrow> True)"

lemma event_clean_config: "config q = config p \<Longrightarrow> event_clean q = event_clean p"
  by (auto simp: event_clean_def text_markers_def config_def fun_eq_iff split: ChatOutputEvent.split)

lemma event_clean_label:
  assumes "first_marker (scan_table p) s = None" "mode p = TextMode \<or> mode p = ReasoningMode"
  shows "event_clean p (label p s)"
  using assms no_marker_iff [of "scan_table p" s] scan_text_table [of p s]
  by (auto simp: event_clean_def label_def scan_table_def reasoning_table_def)

lemma scan_step_clean:
  assumes "parser_ok p" "mode p = TextMode \<or> mode p = ReasoningMode" "scan_step p = (b, ev, p')"
  shows "list_all (event_clean p) ev"
proof (cases p rule: scan_step_cases [where 'n = 'a])
  case (hit i m act)
  note m = first_marker_Some [OF hit(1)]
  have "\<not> occurs_at m' (take i (pending p)) j" if "(m', x) \<in> set (scan_table p)" for m' x j
  proof
    assume occ: "occurs_at m' (take i (pending p)) j"
    then have "occurs_at m' (pending p) j"
      using occurs_at_append [OF occ, of "drop i (pending p)"] by simp
    from m(3) [OF that this] occurs_at_length [OF occ] scan_table_nonempty [OF assms(1) that]
    show False by (cases m') auto
  qed
  then have "first_marker (scan_table p) (take i (pending p)) = None"
    by (auto simp: first_marker_None)
  from event_clean_label [OF this assms(2)] hit(2) assms(3) show ?thesis
    by (auto simp: push_nonempty_label)
next
  case (flush k)
  have "first_marker (scan_table p) (take k (pending p)) = None"
    using flush(1) no_marker_infix [of "[]" "take k (pending p)" "drop k (pending p)"]
    by (simp add: no_marker_iff)
  from event_clean_label [OF this assms(2)] flush(4) assms(3) show ?thesis by auto
qed (use assms in auto)

lemma parse_step_clean:
  assumes "parser_ok p" "parse_step from_str p ids = Some (Ok (b, ev), p', ids')"
  shows "list_all (event_clean p) ev"
proof -
  have scan: "list_all (event_clean q) ev"
    if "scanning q" "parser_ok q" "parse_step from_str q ids = Some (Ok (b, ev), p', ids')" for q
    using that scan_step_clean [of q b ev p'] by (auto simp: scanning_step scanning_def split: prod.splits)
  have calls: "list_all (event_clean p) evs" if "identify_calls cs i = (Ok evs, j)" for cs i evs j
    using that by (induction cs arbitrary: i evs j)
      (auto simp: event_clean_def split: prod.splits sum.splits)
  show ?thesis
  proof (cases "mode p")
    case ReasoningMode
    show ?thesis
    proof (cases "gemma_channel_header_pending p")
      case True
      let ?q = "p\<lparr>gemma_channel_header_pending := False\<rparr>"
      have "event_clean ?q = (event_clean p :: 'a ChatOutputEvent \<Rightarrow> bool)"
        by (rule event_clean_config) (simp add: config_def)
      with scan [of ?q] assms ReasoningMode True show ?thesis
        by (auto simp: reasoning_header_step scanning_def split: if_splits)
    qed (use scan [of p] assms ReasoningMode in \<open>auto simp: scanning_def\<close>)
  next
    case TextMode
    show ?thesis
    proof (cases "trim_after_thinking p \<or> trim_after_tool_call p")
      case True
      have "event_clean (text_settled p) = (event_clean p :: 'a ChatOutputEvent \<Rightarrow> bool)"
        by (rule event_clean_config) (simp add: config_def text_settled_def)
      with scan [of "text_settled p"] assms TextMode True show ?thesis
        by (auto simp: text_step scanning_def text_settled_def split: if_splits)
    qed (use scan [of p] assms TextMode in \<open>auto simp: scanning_def\<close>)
  next
    case ToolCallMode
    with assms(2) calls show ?thesis
      by (auto simp: parse_step_def parse_tool_call_def Let_def try_result_def
          split: option.splits sum.splits prod.splits)
  next
    case DirectToolCallMode
    with assms(2) show ?thesis
      by (auto simp: parse_step_def parse_direct_tool_call_def Let_def bind_eq_Some_conv
          event_clean_def next_tool_call_id_def split: option.splits if_splits)
  qed
qed

lemma push_loop_clean:
  assumes "parser_ok p" "list_all (event_clean p) pre"
    and "push_loop from_str p ids pre = Some (Ok ev, p', ids')"
  shows "list_all (event_clean p) ev"
  using assms
proof (induction "undecided p" arbitrary: p ids pre rule: less_induct)
  case less
  note run = less.prems(3)
  from less.prems(1) show ?case
  proof (cases rule: parse_step_cases [where from_str = from_str and ids = ids])
    case (error e q ids2)
    with run show ?thesis by (subst (asm) push_loop.simps) simp
  next
    case (stop q ids2)
    with run less.prems(2) show ?thesis by (subst (asm) push_loop.simps) simp
  next
    case (again ev' q ids2)
    with run have run': "push_loop from_str q ids2 (pre @ ev') = Some (Ok ev, p', ids')"
      by (subst (asm) push_loop.simps) simp
    have clean: "event_clean q = (event_clean p :: 'a ChatOutputEvent \<Rightarrow> bool)"
      using again(3) by (rule event_clean_config)
    from less.hyps [OF again(5,2) _ run'] less.prems(2) parse_step_clean [OF less.prems(1) again(1)]
    show ?thesis by (simp add: clean)
  qed
qed



end
