(* ===== verification/Deferred.thy ===== *)
theory Deferred
  imports Prelude
begin

text \<open>
  Deferred command submission (\<open>crates/eider-cuda/src/deferred.rs\<close>, \<open>deferred/cuda.rs\<close>,
  \<open>deferred/slots.rs\<close>) and its client \<open>PendingHostRead\<close> in \<open>cuda.rs\<close>.

  The trait \<open>DeferredBackend\<close> is a record of functions on the state of one execution domain; the
  two implementations in the source are \<open>inline_backend\<close> and \<open>cuda_backend\<close>. A method that can
  unwind or abort the process returns an \<open>outcome\<close>. A closure the caller passes is a function on
  the encoder, the resources and the domain.

  The contract the trait's \<open># Safety\<close> section asks of a backend is the locale \<open>deferred_backend\<close>.
  It speaks of four observations of a domain that no code computes: the resources that enqueued
  work can still access, the resources named by commands an encoder retains, whether recording
  enqueues at once, and which resources a fence guards. Inside the locale the slots are shown
  never to hand out resources that enqueued work can access; both implementations of the source
  are shown to meet the contract.
\<close>

section \<open>Backends\<close>

datatype CompletionStatus = Pending | Complete

datatype 'a outcome = Returned 'a | Panicked | Aborted

record ('w, 'e, 'f, 'x) DeferredBackend =
  b_begin :: "string \<Rightarrow> 'w \<Rightarrow> ('x + 'e) \<times> 'w"
  b_submit :: "'e \<Rightarrow> 'w \<Rightarrow> 'f \<times> 'w"
  b_poll :: "'f \<Rightarrow> 'w \<Rightarrow> ('x + CompletionStatus) \<times> 'f \<times> 'w"
  b_wait :: "'f \<Rightarrow> 'w \<Rightarrow> ('x + unit) \<times> 'f \<times> 'w"
  b_discard :: "'e \<Rightarrow> 'w \<Rightarrow> 'f option \<times> 'w"

text \<open>The provided method \<open>discard\<close> of the trait: the encoder is dropped.\<close>

definition default_discard :: "'e \<Rightarrow> 'w \<Rightarrow> 'f option \<times> 'w" where
  "default_discard e w = (None, w)"

definition inline_backend :: "('w, unit, unit, 'x) DeferredBackend" where
  "inline_backend =
     \<lparr>b_begin = \<lambda>label w. (Inr (), w),
      b_submit = \<lambda>e w. ((), w),
      b_poll = \<lambda>f w. (Inr Complete, f, w),
      b_wait = \<lambda>f w. (Inr (), f, w),
      b_discard = default_discard\<rparr>"

subsection \<open>The CUDA stream backend\<close>

text \<open>
  A stream and the device behind it are the domain \<open>'w\<close>. The driver calls \<open>cudaStreamQuery\<close> and
  \<open>cudaStreamSynchronize\<close> are the arguments \<open>query\<close> and \<open>sync\<close>: they return a status code and
  the domain as it is when they return. A pass and a fence both are the borrowed stream.
\<close>

definition CUDA_SUCCESS :: int where "CUDA_SUCCESS = 0"
definition CUDA_ERROR_NOT_READY :: int where "CUDA_ERROR_NOT_READY = 600"

definition check_cuda :: "string \<Rightarrow> int \<Rightarrow> unit result" where
  "check_cuda call status = (if status = CUDA_SUCCESS then Ok () else Err (Cuda call))"

definition stream_synchronize :: "('w \<Rightarrow> int \<times> 'w) \<Rightarrow> 'w \<Rightarrow> unit result \<times> 'w" where
  "stream_synchronize sync w =
     (case sync w of (status, w') \<Rightarrow> (check_cuda ''cudaStreamSynchronize'' status, w'))"

definition stream_query :: "('w \<Rightarrow> int \<times> 'w) \<Rightarrow> 'w \<Rightarrow> bool result \<times> 'w" where
  "stream_query query w =
     (case query w of (status, w') \<Rightarrow>
       (if status = CUDA_SUCCESS then Ok True
        else if status = CUDA_ERROR_NOT_READY then Ok False
        else Err (Cuda ''cudaStreamQuery''), w'))"

definition cuda_submit :: "unit \<Rightarrow> 'w \<Rightarrow> unit \<times> 'w" where
  "cuda_submit pass w = ((), w)"

definition cuda_poll :: "('w \<Rightarrow> int \<times> 'w) \<Rightarrow> unit \<Rightarrow> 'w \<Rightarrow> CompletionStatus result \<times> unit \<times> 'w" where
  "cuda_poll query fence w =
     (case stream_query query w of
        (Inl e, w') \<Rightarrow> (Err e, fence, w')
      | (Inr ready, w') \<Rightarrow> (Ok (if ready then Complete else Pending), fence, w'))"

definition cuda_wait :: "('w \<Rightarrow> int \<times> 'w) \<Rightarrow> unit \<Rightarrow> 'w \<Rightarrow> unit result \<times> unit \<times> 'w" where
  "cuda_wait sync fence w = (case stream_synchronize sync w of (r, w') \<Rightarrow> (r, fence, w'))"

definition cuda_discard :: "unit \<Rightarrow> 'w \<Rightarrow> unit option \<times> 'w" where
  "cuda_discard pass w = (case cuda_submit pass w of (f, w') \<Rightarrow> (Some f, w'))"

definition cuda_backend ::
  "('w \<Rightarrow> int \<times> 'w) \<Rightarrow> ('w \<Rightarrow> int \<times> 'w) \<Rightarrow> ('w, unit, unit, error) DeferredBackend" where
  "cuda_backend query sync =
     \<lparr>b_begin = \<lambda>label w. (Ok (), w),
      b_submit = cuda_submit,
      b_poll = cuda_poll query,
      b_wait = cuda_wait sync,
      b_discard = cuda_discard\<rparr>"

section \<open>Grouping recording units\<close>

record SubmissionGrouping =
  max_groups :: nat
  pending_groups :: nat

text \<open>\<open>NonZeroUsize::new\<close> is what a caller builds a policy with.\<close>

definition grouping :: "nat \<Rightarrow> SubmissionGrouping" where
  "grouping limit = \<lparr>max_groups = limit, pending_groups = 0\<rparr>"

definition record_group :: "SubmissionGrouping \<Rightarrow> bool \<times> SubmissionGrouping" where
  "record_group g =
     (let pending = pending_groups g + 1 in
      if pending = max_groups g then (True, g\<lparr>pending_groups := 0\<rparr>)
      else (False, g\<lparr>pending_groups := pending\<rparr>))"

definition grouping_flush :: "SubmissionGrouping \<Rightarrow> bool \<times> SubmissionGrouping" where
  "grouping_flush g = (pending_groups g \<noteq> 0, g\<lparr>pending_groups := 0\<rparr>)"

section \<open>Submitted work\<close>

record ('f, 'r) InFlight =
  fence :: 'f
  held :: "'r option"
  complete :: bool

definition in_flight_new :: "'f \<Rightarrow> 'r \<Rightarrow> ('f, 'r) InFlight" where
  "in_flight_new f r = \<lparr>fence = f, held = Some r, complete = False\<rparr>"

definition in_flight_poll ::
  "('w, 'e, 'f, 'x) DeferredBackend \<Rightarrow> ('f, 'r) InFlight \<Rightarrow> 'w
     \<Rightarrow> ('x + CompletionStatus) \<times> ('f, 'r) InFlight \<times> 'w" where
  "in_flight_poll B S w =
     (if complete S then (Inr Complete, S, w)
      else case b_poll B (fence S) w of
        (Inl x, f, w') \<Rightarrow> (Inl x, S\<lparr>fence := f\<rparr>, w')
      | (Inr status, f, w') \<Rightarrow> (Inr status, S\<lparr>fence := f, complete := status = Complete\<rparr>, w'))"

definition in_flight_wait ::
  "('w, 'e, 'f, 'x) DeferredBackend \<Rightarrow> ('f, 'r) InFlight \<Rightarrow> 'w
     \<Rightarrow> ('x + unit) \<times> ('f, 'r) InFlight \<times> 'w" where
  "in_flight_wait B S w =
     (if complete S then (Inr (), S, w)
      else case b_wait B (fence S) w of
        (Inl x, f, w') \<Rightarrow> (Inl x, S\<lparr>fence := f\<rparr>, w')
      | (Inr _, f, w') \<Rightarrow> (Inr (), S\<lparr>fence := f, complete := True\<rparr>, w'))"

text \<open>\<open>try_reclaim\<close> consumes the owner: it gives back the owner, or its resources.\<close>

definition try_reclaim :: "('f, 'r) InFlight \<Rightarrow> (('f, 'r) InFlight + 'r) outcome" where
  "try_reclaim S =
     (if \<not> complete S then Returned (Inl S)
      else case held S of None \<Rightarrow> Panicked | Some r \<Rightarrow> Returned (Inr r))"

definition in_flight_drop ::
  "('w, 'e, 'f, 'x) DeferredBackend \<Rightarrow> ('f, 'r) InFlight \<Rightarrow> 'w \<Rightarrow> unit outcome \<times> 'w" where
  "in_flight_drop B S w =
     (if complete S then (Returned (), w)
      else case b_wait B (fence S) w of
        (Inl x, f, w') \<Rightarrow> (Aborted, w')
      | (Inr _, f, w') \<Rightarrow> (Returned (), w'))"

section \<open>Recordings\<close>

record ('e, 'f, 'r) Recording =
  encoder :: "'e option"
  resources :: "'r option"
  latest_segment :: "'f option"

datatype ('f, 'r) DiscardedRecording = DiscardReady 'r | DiscardInFlight "('f, 'r) InFlight"

text \<open>A recording closure: it returns or unwinds, and leaves encoder, resources and domain changed.\<close>

type_synonym ('w, 'e, 'r, 'a) recorder = "'e \<Rightarrow> 'r \<Rightarrow> 'w \<Rightarrow> 'a outcome \<times> 'e \<times> 'r \<times> 'w"

definition recording_try_new ::
  "('w, 'e, 'f, 'x) DeferredBackend \<Rightarrow> 'r \<Rightarrow> string \<Rightarrow> 'w
     \<Rightarrow> (('x \<times> 'r) + ('e, 'f, 'r) Recording) \<times> 'w" where
  "recording_try_new B r label w =
     (case b_begin B label w of
        (Inl x, w') \<Rightarrow> (Inl (x, r), w')
      | (Inr e, w') \<Rightarrow>
          (Inr \<lparr>encoder = Some e, resources = Some r, latest_segment = None\<rparr>, w'))"

definition recording_new ::
  "('w, 'e, 'f, 'x) DeferredBackend \<Rightarrow> 'r \<Rightarrow> string \<Rightarrow> 'w
     \<Rightarrow> ('x + ('e, 'f, 'r) Recording) \<times> 'w" where
  "recording_new B r label w =
     (case recording_try_new B r label w of
        (Inl (x, _), w') \<Rightarrow> (Inl x, w')
      | (Inr R, w') \<Rightarrow> (Inr R, w'))"

definition recording_record ::
  "('w, 'e, 'r, 'a) recorder \<Rightarrow> ('e, 'f, 'r) Recording \<Rightarrow> 'w
     \<Rightarrow> 'a outcome \<times> ('e, 'f, 'r) Recording \<times> 'w" where
  "recording_record act R w =
     (case (encoder R, resources R) of
        (Some e, Some r) \<Rightarrow>
          (case act e r w of
             (a, e', r', w') \<Rightarrow> (a, R\<lparr>encoder := Some e', resources := Some r'\<rparr>, w'))
      | _ \<Rightarrow> (Panicked, R, w))"

definition submit_segment ::
  "('w, 'e, 'f, 'x) DeferredBackend \<Rightarrow> string \<Rightarrow> ('e, 'f, 'r) Recording \<Rightarrow> 'w
     \<Rightarrow> ('x + 'f) outcome \<times> ('e, 'f, 'r) Recording \<times> 'w" where
  "submit_segment B next_label R w =
     (case b_begin B next_label w of
        (Inl x, w1) \<Rightarrow> (Returned (Inl x), R, w1)
      | (Inr next, w1) \<Rightarrow>
          (case encoder R of
             None \<Rightarrow> (Panicked, R\<lparr>encoder := Some next\<rparr>, w1)
           | Some current \<Rightarrow>
               (case b_submit B current w1 of
                  (f, w2) \<Rightarrow>
                    (Returned (Inr f), R\<lparr>encoder := Some next, latest_segment := Some f\<rparr>, w2))))"

definition recording_discard ::
  "('w, 'e, 'f, 'x) DeferredBackend \<Rightarrow> ('e, 'f, 'r) Recording \<Rightarrow> 'w
     \<Rightarrow> ('f, 'r) DiscardedRecording outcome \<times> 'w" where
  "recording_discard B R w =
     (case (encoder R, resources R) of
        (Some e, Some r) \<Rightarrow>
          (case b_discard B e w of
             (d, w') \<Rightarrow>
               (case (case d of Some f \<Rightarrow> Some f | None \<Rightarrow> latest_segment R) of
                  Some f \<Rightarrow> (Returned (DiscardInFlight (in_flight_new f r)), w')
                | None \<Rightarrow> (Returned (DiscardReady r), w')))
      | _ \<Rightarrow> (Panicked, w))"

definition recording_submit ::
  "('w, 'e, 'f, 'x) DeferredBackend \<Rightarrow> ('e, 'f, 'r) Recording \<Rightarrow> 'w
     \<Rightarrow> ('f, 'r) InFlight outcome \<times> 'w" where
  "recording_submit B R w =
     (case (encoder R, resources R) of
        (Some e, Some r) \<Rightarrow>
          (case b_submit B e w of (f, w') \<Rightarrow> (Returned (in_flight_new f r), w'))
      | _ \<Rightarrow> (Panicked, w))"

definition recording_drop ::
  "('w, 'e, 'f, 'x) DeferredBackend \<Rightarrow> ('e, 'f, 'r) Recording \<Rightarrow> 'w \<Rightarrow> unit outcome \<times> 'w" where
  "recording_drop B R w =
     (case (encoder R, resources R) of
        (Some e, Some r) \<Rightarrow>
          (case b_discard B e w of
             (d, w1) \<Rightarrow>
               (case (case d of Some f \<Rightarrow> Some f | None \<Rightarrow> latest_segment R) of
                  None \<Rightarrow> (Returned (), w1)
                | Some f \<Rightarrow>
                    (case b_wait B f w1 of
                       (Inl x, _, w2) \<Rightarrow> (Aborted, w2)
                     | (Inr _, _, w2) \<Rightarrow> (Returned (), w2))))
      | _ \<Rightarrow> (Returned (), w))"

section \<open>Bounded execution slots\<close>

datatype ExecutionSlotStatus = Ready | InFlightStatus | Completed

datatype ('f, 'r) SlotState =
    SlotReady 'r
  | SlotInFlight "('f, 'r) InFlight"
  | SlotCompleted 'r
  | SlotTransition

datatype ('x, 'y) SlotSubmitError = BeginError 'x | RecordError 'y

type_synonym ('f, 'r) BoundedExecutionSlots = "('f, 'r) SlotState list"

definition slots_new :: "'r list \<Rightarrow> string + ('f, 'r) BoundedExecutionSlots" where
  "slots_new rs =
     (let slots = map SlotReady rs in
      if slots = [] then Inl ''bounded execution slots require at least one resource set''
      else Inr slots)"

definition slot_status :: "('f, 'r) BoundedExecutionSlots \<Rightarrow> nat \<Rightarrow> ExecutionSlotStatus option outcome" where
  "slot_status slots index =
     (if index < length slots then
        (case slots ! index of
           SlotReady _ \<Rightarrow> Returned (Some Ready)
         | SlotInFlight _ \<Rightarrow> Returned (Some InFlightStatus)
         | SlotCompleted _ \<Rightarrow> Returned (Some Completed)
         | SlotTransition \<Rightarrow> Panicked)
      else Returned None)"

fun has_status :: "ExecutionSlotStatus \<Rightarrow> ('f, 'r) SlotState \<Rightarrow> bool" where
  "has_status Ready (SlotReady _) = True"
| "has_status InFlightStatus (SlotInFlight _) = True"
| "has_status Completed (SlotCompleted _) = True"
| "has_status _ _ = False"

definition slot_count :: "ExecutionSlotStatus \<Rightarrow> ('f, 'r) BoundedExecutionSlots \<Rightarrow> nat" where
  "slot_count status slots = length (filter (has_status status) slots)"

text \<open>The guard \<open>RecordingRestore\<close>: dropped with its recording, it puts the resources back.\<close>

definition recording_restore ::
  "('w, 'e, 'f, 'x) DeferredBackend \<Rightarrow> nat \<Rightarrow> ('e, 'f, 'r) Recording
     \<Rightarrow> ('f, 'r) BoundedExecutionSlots \<Rightarrow> 'w \<Rightarrow> ('f, 'r) BoundedExecutionSlots \<times> 'w" where
  "recording_restore B index R slots w =
     (case recording_discard B R w of
        (Returned (DiscardReady r), w') \<Rightarrow> (slots[index := SlotReady r], w')
      | (Returned (DiscardInFlight S), w') \<Rightarrow> (slots[index := SlotInFlight S], w')
      | (_, w') \<Rightarrow> (slots, w'))"

definition try_submit ::
  "('w, 'e, 'f, 'x) DeferredBackend \<Rightarrow> string \<Rightarrow> ('w, 'e, 'r, 'y + unit) recorder
     \<Rightarrow> ('f, 'r) BoundedExecutionSlots \<Rightarrow> 'w
     \<Rightarrow> (('x, 'y) SlotSubmitError + nat option) outcome \<times> ('f, 'r) BoundedExecutionSlots \<times> 'w" where
  "try_submit B label act slots w =
     (case position (has_status Ready) slots of
        None \<Rightarrow> (Returned (Inr None), slots, w)
      | Some index \<Rightarrow>
          (case slots ! index of
             SlotReady r \<Rightarrow>
               (let taken = slots[index := SlotTransition] in
                case recording_try_new B r label w of
                  (Inl (x, r'), w1) \<Rightarrow>
                    (Returned (Inl (BeginError x)), taken[index := SlotReady r'], w1)
                | (Inr R, w1) \<Rightarrow>
                    (case recording_record act R w1 of
                       (Returned (Inl y), R', w2) \<Rightarrow>
                         (Returned (Inl (RecordError y)), recording_restore B index R' taken w2)
                     | (Returned (Inr _), R', w2) \<Rightarrow>
                         (case recording_submit B R' w2 of
                            (Returned S, w3) \<Rightarrow>
                              (Returned (Inr (Some index)), taken[index := SlotInFlight S], w3)
                          | (Panicked, w3) \<Rightarrow> (Panicked, taken, w3)
                          | (Aborted, w3) \<Rightarrow> (Aborted, taken, w3))
                     | (Panicked, R', w2) \<Rightarrow> (Panicked, recording_restore B index R' taken w2)
                     | (Aborted, R', w2) \<Rightarrow> (Aborted, taken, w2)))
           | _ \<Rightarrow> (Panicked, slots[index := SlotTransition], w)))"

text \<open>
  \<open>poll\<close> visits every index in turn. An error of the backend ends the call with the slots that
  were completed before it already marked.
\<close>

fun slots_poll_loop ::
  "('w, 'e, 'f, 'x) DeferredBackend \<Rightarrow> nat list \<Rightarrow> nat \<Rightarrow> ('f, 'r) BoundedExecutionSlots \<Rightarrow> 'w
     \<Rightarrow> ('x + nat) outcome \<times> ('f, 'r) BoundedExecutionSlots \<times> 'w" where
  "slots_poll_loop B [] completed slots w = (Returned (Inr completed), slots, w)"
| "slots_poll_loop B (index # rest) completed slots w =
     (case slots ! index of
        SlotInFlight S \<Rightarrow>
          (case in_flight_poll B S w of
             (Inl x, S', w') \<Rightarrow> (Returned (Inl x), slots[index := SlotInFlight S'], w')
           | (Inr Pending, S', w') \<Rightarrow>
               slots_poll_loop B rest completed (slots[index := SlotInFlight S']) w'
           | (Inr Complete, S', w') \<Rightarrow>
               (case try_reclaim S' of
                  Returned (Inr r) \<Rightarrow>
                    slots_poll_loop B rest (completed + 1) (slots[index := SlotCompleted r]) w'
                | _ \<Rightarrow> (Panicked, slots[index := SlotTransition], w')))
      | _ \<Rightarrow> slots_poll_loop B rest completed slots w)"

definition slots_poll ::
  "('w, 'e, 'f, 'x) DeferredBackend \<Rightarrow> ('f, 'r) BoundedExecutionSlots \<Rightarrow> 'w
     \<Rightarrow> ('x + nat) outcome \<times> ('f, 'r) BoundedExecutionSlots \<times> 'w" where
  "slots_poll B slots w = slots_poll_loop B [0..<length slots] 0 slots w"

definition slots_wait ::
  "('w, 'e, 'f, 'x) DeferredBackend \<Rightarrow> nat \<Rightarrow> ('f, 'r) BoundedExecutionSlots \<Rightarrow> 'w
     \<Rightarrow> ('x + bool) outcome \<times> ('f, 'r) BoundedExecutionSlots \<times> 'w" where
  "slots_wait B index slots w =
     (if \<not> index < length slots then (Returned (Inr False), slots, w)
      else case slots ! index of
        SlotInFlight S \<Rightarrow>
          (case in_flight_wait B S w of
             (Inl x, S', w') \<Rightarrow> (Returned (Inl x), slots[index := SlotInFlight S'], w')
           | (Inr _, S', w') \<Rightarrow>
               (case try_reclaim S' of
                  Returned (Inr r) \<Rightarrow> (Returned (Inr True), slots[index := SlotCompleted r], w')
                | _ \<Rightarrow> (Panicked, slots[index := SlotTransition], w')))
      | _ \<Rightarrow> (Returned (Inr False), slots, w))"

type_synonym ('w, 'r, 'a) completer = "'r \<Rightarrow> 'w \<Rightarrow> 'a outcome \<times> 'r \<times> 'w"

definition recycle_completed ::
  "nat \<Rightarrow> ('w, 'r, 'a) completer \<Rightarrow> ('f, 'r) BoundedExecutionSlots \<Rightarrow> 'w
     \<Rightarrow> 'a option outcome \<times> ('f, 'r) BoundedExecutionSlots \<times> 'w" where
  "recycle_completed index act slots w =
     (if \<not> index < length slots then (Returned None, slots, w)
      else case slots ! index of
        SlotCompleted r \<Rightarrow>
          (case act r w of
             (Returned a, r', w') \<Rightarrow> (Returned (Some a), slots[index := SlotReady r'], w')
           | (Panicked, r', w') \<Rightarrow> (Panicked, slots[index := SlotReady r'], w')
           | (Aborted, r', w') \<Rightarrow> (Aborted, slots[index := SlotReady r'], w'))
      | _ \<Rightarrow> (Returned None, slots, w))"

section \<open>Pinned host reads\<close>

text \<open>
  \<open>PendingHostRead\<close> retains a device buffer and a pinned destination. The copy is the driver call
  \<open>cudaMemcpyAsync\<close>, the argument \<open>memcpy\<close>: from the destination and the source it gives a status
  and the domain with the copy enqueued.
\<close>

record ('d, 'o) PendingHostReadResources =
  read_device :: 'd
  read_output :: 'o

definition copy_prefix_to_pinned ::
  "('w \<Rightarrow> int \<times> 'w) \<Rightarrow> ('w \<Rightarrow> int \<times> 'w) \<Rightarrow> ('o \<Rightarrow> 'd \<Rightarrow> nat \<Rightarrow> 'w \<Rightarrow> int \<times> 'w)
     \<Rightarrow> ('d \<Rightarrow> nat) \<Rightarrow> ('o \<Rightarrow> nat) \<Rightarrow> 'd \<Rightarrow> 'o \<Rightarrow> nat \<Rightarrow> 'w
     \<Rightarrow> (unit, ('d, 'o) PendingHostReadResources) InFlight result outcome \<times> 'w" where
  "copy_prefix_to_pinned query sync memcpy device_len output_len device output count w =
     (if device_len device < count \<or> output_len output < count
      then (Returned (Err (Shape ''device prefix copy to pinned host memory'')), w)
      else
        (let B = cuda_backend query sync in
         case recording_new B \<lparr>read_device = device, read_output = output\<rparr>
                ''device-to-pinned-host copy'' w of
           (Inl x, w1) \<Rightarrow> (Returned (Err x), w1)
         | (Inr R, w1) \<Rightarrow>
             (case recording_record
                     (\<lambda>pass res v. case memcpy (read_output res) (read_device res) count v of
                        (status, v') \<Rightarrow>
                          (Returned (check_cuda ''cudaMemcpyAsync(D2H pinned prefix)'' status),
                           pass, res, v'))
                     R w1 of
                (Returned (Inl x), R', w2) \<Rightarrow>
                  (case recording_drop B R' w2 of
                     (Returned _, w3) \<Rightarrow> (Returned (Err x), w3)
                   | (Panicked, w3) \<Rightarrow> (Panicked, w3)
                   | (Aborted, w3) \<Rightarrow> (Aborted, w3))
              | (Returned (Inr _), R', w2) \<Rightarrow>
                  (case recording_submit B R' w2 of
                     (Returned S, w3) \<Rightarrow> (Returned (Ok S), w3)
                   | (Panicked, w3) \<Rightarrow> (Panicked, w3)
                   | (Aborted, w3) \<Rightarrow> (Aborted, w3))
              | (Panicked, R', w2) \<Rightarrow> (Panicked, w2)
              | (Aborted, R', w2) \<Rightarrow> (Aborted, w2))))"

text \<open>\<open>wait\<close> consumes the read; when waiting fails the submission is dropped, which waits again.\<close>

definition host_read_wait ::
  "('w \<Rightarrow> int \<times> 'w) \<Rightarrow> ('w \<Rightarrow> int \<times> 'w)
     \<Rightarrow> (unit, ('d, 'o) PendingHostReadResources) InFlight \<Rightarrow> 'w \<Rightarrow> 'o result outcome \<times> 'w" where
  "host_read_wait query sync S w =
     (let B = cuda_backend query sync in
      case in_flight_wait B S w of
        (Inl x, S', w1) \<Rightarrow>
          (case in_flight_drop B S' w1 of
             (Returned _, w2) \<Rightarrow> (Returned (Err x), w2)
           | (Panicked, w2) \<Rightarrow> (Panicked, w2)
           | (Aborted, w2) \<Rightarrow> (Aborted, w2))
      | (Inr _, S', w1) \<Rightarrow>
          (case try_reclaim S' of
             Returned (Inr res) \<Rightarrow> (Returned (Ok (read_output res)), w1)
           | _ \<Rightarrow> (Panicked, w1)))"

section \<open>The contract of a backend\<close>

text \<open>
  The observations of a domain: \<open>dom_work\<close> the resources that enqueued work can still access,
  \<open>dom_recorded\<close> those named by commands an encoder retains, \<open>dom_eager\<close> whether recording enqueues
  work at once, \<open>dom_guards\<close> the resources whose enqueued accesses a fence covers, \<open>dom_ids\<close> what a
  resource set owns.
\<close>

record ('w, 'e, 'f, 'r, 'i) Domain =
  dom_work :: "'w \<Rightarrow> 'i set"
  dom_recorded :: "'e \<Rightarrow> 'i set"
  dom_eager :: bool
  dom_guards :: "'w \<Rightarrow> 'f \<Rightarrow> 'i \<Rightarrow> bool"
  dom_ids :: "'r \<Rightarrow> 'i set"

text \<open>
  The domain moves on: work completes and new work may start, but only on the resources \<open>A\<close>; a
  fence keeps guarding every other resource.
\<close>

definition domain_moves :: "('w, 'e, 'f, 'r, 'i) Domain \<Rightarrow> 'i set \<Rightarrow> 'w \<Rightarrow> 'w \<Rightarrow> bool" where
  "domain_moves D A w w' \<longleftrightarrow>
     dom_work D w' \<subseteq> dom_work D w \<union> A \<and>
     (\<forall>f i. i \<notin> A \<longrightarrow> dom_guards D w f i \<longrightarrow> dom_guards D w' f i)"

lemma domain_moves_refl [simp]: "domain_moves D A w w"
  by (simp add: domain_moves_def)

lemma domain_moves_trans:
  "domain_moves D A w w' \<Longrightarrow> domain_moves D A' w' w'' \<Longrightarrow> A \<union> A' \<subseteq> C \<Longrightarrow> domain_moves D C w w''"
  unfolding domain_moves_def by blast

lemma domain_moves_mono: "domain_moves D A w w' \<Longrightarrow> A \<subseteq> C \<Longrightarrow> domain_moves D C w w'"
  unfolding domain_moves_def by blast

text \<open>
  What the documentation of \<open>Recording\<close> asks of a recording closure: the resources own everything
  the commands refer to. A deferred encoder retains the commands, an eager one enqueues them.
\<close>

definition recorder_ok :: "('w, 'e, 'f, 'r, 'i) Domain \<Rightarrow> ('w, 'e, 'r, 'a) recorder \<Rightarrow> bool" where
  "recorder_ok D act \<longleftrightarrow>
     (\<forall>e r w a e' r' w'. act e r w = (a, e', r', w') \<longrightarrow>
        a \<noteq> Aborted \<and> dom_ids D r' = dom_ids D r \<and>
        dom_recorded D e' \<subseteq> dom_recorded D e \<union> dom_ids D r \<and>
        domain_moves D (if dom_eager D then dom_ids D r else {}) w w')"

text \<open>A completion closure works on the host: it enqueues nothing on the resources.\<close>

definition completer_ok :: "('w, 'e, 'f, 'r, 'i) Domain \<Rightarrow> ('w, 'r, 'a) completer \<Rightarrow> bool" where
  "completer_ok D act \<longleftrightarrow>
     (\<forall>r w a r' w'. act r w = (a, r', w') \<longrightarrow>
        a \<noteq> Aborted \<and> dom_ids D r' = dom_ids D r \<and> domain_moves D {} w w')"

text \<open>No enqueued work can access the resources.\<close>

definition idle :: "('w, 'e, 'f, 'r, 'i) Domain \<Rightarrow> 'w \<Rightarrow> 'r \<Rightarrow> bool" where
  "idle D w r \<longleftrightarrow> dom_ids D r \<inter> dom_work D w = {}"

definition in_flight_ok :: "('w, 'e, 'f, 'r, 'i) Domain \<Rightarrow> 'w \<Rightarrow> ('f, 'r) InFlight \<Rightarrow> bool" where
  "in_flight_ok D w S \<longleftrightarrow>
     (\<exists>r. held S = Some r \<and>
        (\<forall>i \<in> dom_ids D r \<inter> dom_work D w. \<not> complete S \<and> dom_guards D w (fence S) i))"

definition recording_ok :: "('w, 'e, 'f, 'r, 'i) Domain \<Rightarrow> 'w \<Rightarrow> ('e, 'f, 'r) Recording \<Rightarrow> bool" where
  "recording_ok D w R \<longleftrightarrow>
     (\<exists>e r. encoder R = Some e \<and> resources R = Some r \<and> dom_recorded D e \<subseteq> dom_ids D r \<and>
        (\<forall>i \<in> dom_ids D r \<inter> dom_work D w.
           dom_eager D \<or> (\<exists>f. latest_segment R = Some f \<and> dom_guards D w f i)))"

fun slot_ok :: "('w, 'e, 'f, 'r, 'i) Domain \<Rightarrow> 'w \<Rightarrow> ('f, 'r) SlotState \<Rightarrow> bool" where
  "slot_ok D w (SlotReady r) = idle D w r"
| "slot_ok D w (SlotInFlight S) = in_flight_ok D w S"
| "slot_ok D w (SlotCompleted r) = idle D w r"
| "slot_ok D w SlotTransition = False"

fun slot_ids :: "('w, 'e, 'f, 'r, 'i) Domain \<Rightarrow> ('f, 'r) SlotState \<Rightarrow> 'i set" where
  "slot_ids D (SlotReady r) = dom_ids D r"
| "slot_ids D (SlotInFlight S) = (case held S of None \<Rightarrow> {} | Some r \<Rightarrow> dom_ids D r)"
| "slot_ids D (SlotCompleted r) = dom_ids D r"
| "slot_ids D SlotTransition = {}"

text \<open>The slots own the resource sets \<open>Is\<close>, slot by slot, and none of them is exposed too early.\<close>

definition slots_ok ::
  "('w, 'e, 'f, 'r, 'i) Domain \<Rightarrow> 'i set list \<Rightarrow> ('f, 'r) BoundedExecutionSlots \<Rightarrow> 'w \<Rightarrow> bool" where
  "slots_ok D Is slots w \<longleftrightarrow> map (slot_ids D) slots = Is \<and> list_all (slot_ok D w) slots"

fun separate :: "'i set list \<Rightarrow> bool" where
  "separate [] \<longleftrightarrow> True"
| "separate (A # As) \<longleftrightarrow> (\<forall>B \<in> set As. A \<inter> B = {}) \<and> separate As"

lemma separate_nth:
  "separate Is \<Longrightarrow> i < length Is \<Longrightarrow> j < length Is \<Longrightarrow> i \<noteq> j \<Longrightarrow> Is ! i \<inter> Is ! j = {}"
proof (induction Is arbitrary: i j)
  case (Cons A As)
  then show ?case by (cases i; cases j) (auto dest: nth_mem)
qed simp

lemma idle_moves:
  "idle D w r \<Longrightarrow> domain_moves D A w w' \<Longrightarrow> A \<inter> dom_ids D r = {} \<Longrightarrow> idle D w' r"
  unfolding idle_def domain_moves_def by blast

lemma in_flight_moves:
  assumes "in_flight_ok D w S" "domain_moves D A w w'" "\<And>r. held S = Some r \<Longrightarrow> A \<inter> dom_ids D r = {}"
  shows "in_flight_ok D w' S"
proof -
  obtain r where r: "held S = Some r"
    and ok: "\<forall>i \<in> dom_ids D r \<inter> dom_work D w. \<not> complete S \<and> dom_guards D w (fence S) i"
    using assms(1) unfolding in_flight_ok_def by blast
  have "A \<inter> dom_ids D r = {}" using assms(3) r by blast
  then have "\<forall>i \<in> dom_ids D r \<inter> dom_work D w'. \<not> complete S \<and> dom_guards D w' (fence S) i"
    using ok assms(2) unfolding domain_moves_def by blast
  then show ?thesis using r unfolding in_flight_ok_def by blast
qed

lemma slot_ok_moves:
  "slot_ok D w s \<Longrightarrow> domain_moves D A w w' \<Longrightarrow> A \<inter> slot_ids D s = {} \<Longrightarrow> slot_ok D w' s"
  by (cases s) (auto intro: idle_moves elim!: in_flight_moves)

text \<open>
  The one step every operation on the slots makes: slot \<open>i\<close> changes state but not what it owns, and
  the domain moves on the resources of that slot alone.
\<close>

lemma slots_ok_update:
  assumes ok: "slots_ok D Is slots w" and sep: "separate Is" and i: "i < length slots"
    and moves: "domain_moves D (Is ! i) w w'"
    and s: "slot_ok D w' s" "slot_ids D s = Is ! i"
  shows "slots_ok D Is (slots[i := s]) w'"
proof -
  have ids: "map (slot_ids D) slots = Is" and len: "length slots = length Is"
    and each: "\<And>j. j < length slots \<Longrightarrow> slot_ok D w (slots ! j)"
    using ok by (auto simp: slots_ok_def list_all_length)
  have "slot_ok D w' (slots[i := s] ! j)" if j: "j < length slots" for j
  proof (cases "j = i")
    case True then show ?thesis using s i by simp
  next
    case False
    have "slot_ids D (slots ! j) = Is ! j" using ids j by (metis nth_map)
    then have "Is ! i \<inter> slot_ids D (slots ! j) = {}"
      using separate_nth [OF sep, of i j] i j len False by simp
    then show ?thesis using slot_ok_moves [OF each [OF j] moves] False by simp
  qed
  moreover have "map (slot_ids D) (slots[i := s]) = Is"
    using ids s(2) by (simp add: map_update)
  ultimately show ?thesis by (simp add: slots_ok_def list_all_length)
qed

lemma slots_ok_nth:
  "slots_ok D Is slots w \<Longrightarrow> i < length slots
     \<Longrightarrow> slot_ok D w (slots ! i) \<and> slot_ids D (slots ! i) = Is ! i"
  unfolding slots_ok_def by (auto simp: list_all_length)

lemma slots_ok_settle:
  assumes "slots_ok D Is slots w" "separate Is" "i < length slots" "slots ! i = s0"
    "domain_moves D {} w w'" "slot_ok D w' s" "slot_ids D s = slot_ids D s0"
  shows "slots_ok D Is (slots[i := s]) w'"
proof (rule slots_ok_update [OF assms(1-3) _ assms(6)])
  show "domain_moves D (Is ! i) w w'" by (rule domain_moves_mono [OF assms(5)]) simp
  show "slot_ids D s = Is ! i" using slots_ok_nth [OF assms(1,3)] assms(4,7) by simp
qed

lemma slots_ok_moves:
  assumes "slots_ok D Is slots w" "domain_moves D A w w'" "\<And>I. I \<in> set Is \<Longrightarrow> A \<inter> I = {}"
  shows "slots_ok D Is slots w'"
proof -
  have "slot_ok D w' s" if "s \<in> set slots" for s
  proof (rule slot_ok_moves [OF _ assms(2) assms(3)])
    show "slot_ok D w s" and "slot_ids D s \<in> set Is"
      using assms(1) that by (auto simp: slots_ok_def list_all_iff)
  qed
  then show ?thesis using assms(1) by (simp add: slots_ok_def list_all_iff)
qed

section \<open>Runs of the slots\<close>

text \<open>
  A step is one call on the slots, with any closure that meets its contract, or a move of the domain
  that no slot takes part in: device progress, or other clients of the stream. The error value and
  the result of a closure are never inspected; they are fixed to one type each.
\<close>

inductive slot_step ::
  "('w, 'e, 'f, 'x) DeferredBackend \<Rightarrow> ('w, 'e, 'f, 'r, 'i) Domain
     \<Rightarrow> ('f, 'r) BoundedExecutionSlots \<times> 'w \<Rightarrow> ('f, 'r) BoundedExecutionSlots \<times> 'w \<Rightarrow> bool"
  for B :: "('w, 'e, 'f, 'x) DeferredBackend" and D :: "('w, 'e, 'f, 'r, 'i) Domain" where
  submit: "recorder_ok D act \<Longrightarrow>
     try_submit B label (act :: ('w, 'e, 'r, error + unit) recorder) slots w = (out, slots', w') \<Longrightarrow>
     slot_step B D (slots, w) (slots', w')"
| poll: "slots_poll B slots w = (out, slots', w') \<Longrightarrow> slot_step B D (slots, w) (slots', w')"
| wait: "slots_wait B index slots w = (out, slots', w') \<Longrightarrow> slot_step B D (slots, w) (slots', w')"
| recycle: "completer_ok D act \<Longrightarrow>
     recycle_completed index (act :: ('w, 'r, unit) completer) slots w = (out, slots', w') \<Longrightarrow>
     slot_step B D (slots, w) (slots', w')"
| others: "domain_moves D A w w' \<Longrightarrow> \<forall>s \<in> set slots. A \<inter> slot_ids D s = {} \<Longrightarrow>
     slot_step B D (slots, w) (slots, w')"

inductive slots_reachable ::
  "('w, 'e, 'f, 'x) DeferredBackend \<Rightarrow> ('w, 'e, 'f, 'r, 'i) Domain \<Rightarrow> 'r list \<Rightarrow> 'w
     \<Rightarrow> ('f, 'r) BoundedExecutionSlots \<times> 'w \<Rightarrow> bool"
  for B D rs w0 where
  start: "slots_new rs = Inr slots \<Longrightarrow> slots_reachable B D rs w0 (slots, w0)"
| step: "slots_reachable B D rs w0 s \<Longrightarrow> slot_step B D s (slots', w') \<Longrightarrow>
     slots_reachable B D rs w0 (slots', w')"

section \<open>What a backend's contract gives\<close>

locale deferred_backend =
  fixes B :: "('w, 'e, 'f, 'x) DeferredBackend"
    and D :: "('w, 'e, 'f, 'r, 'i) Domain"
  assumes begin_law: "b_begin B label w = (started, w') \<Longrightarrow>
      domain_moves D {} w w' \<and> (case started of Inl _ \<Rightarrow> True | Inr e \<Rightarrow> dom_recorded D e = {})"
    and submit_law: "b_submit B e w = (f, w') \<Longrightarrow>
      domain_moves D (dom_recorded D e) w w' \<and> (\<forall>i. dom_guards D w' f i)"
    and poll_law: "b_poll B f w = (status, f', w') \<Longrightarrow>
      domain_moves D {} w w' \<and>
      (\<forall>i. dom_guards D w f i \<longrightarrow> dom_guards D w' f' i \<and> (status = Inr Complete \<longrightarrow> i \<notin> dom_work D w'))"
    and wait_law: "b_wait B f w = (waited, f', w') \<Longrightarrow>
      domain_moves D {} w w' \<and>
      (\<forall>i. dom_guards D w f i \<longrightarrow> dom_guards D w' f' i \<and> (waited = Inr () \<longrightarrow> i \<notin> dom_work D w'))"
    and discard_law: "b_discard B e w = (d, w') \<Longrightarrow>
      (case d of
         None \<Rightarrow> \<not> dom_eager D \<and> domain_moves D {} w w'
       | Some f \<Rightarrow> domain_moves D (dom_recorded D e) w w' \<and> (\<forall>i. dom_guards D w' f i))"
begin

lemma in_flight_new_ok:
  "(\<forall>i. dom_guards D w f i) \<Longrightarrow> in_flight_ok D w (in_flight_new f r)"
  by (simp add: in_flight_ok_def in_flight_new_def)

lemma poll_guards:
  assumes "\<forall>i \<in> A \<inter> dom_work D w. dom_guards D w f i" "b_poll B f w = (status, f', w')"
  shows "\<forall>i \<in> A \<inter> dom_work D w'. status \<noteq> Inr Complete \<and> dom_guards D w' f' i" "domain_moves D {} w w'"
  using assms(1) poll_law [OF assms(2)] unfolding domain_moves_def by blast+

lemma wait_guards:
  assumes "\<forall>i \<in> A \<inter> dom_work D w. dom_guards D w f i" "b_wait B f w = (waited, f', w')"
  shows "\<forall>i \<in> A \<inter> dom_work D w'. isl waited \<and> dom_guards D w' f' i" "domain_moves D {} w w'"
proof -
  show "domain_moves D {} w w'" using wait_law [OF assms(2)] by blast
  show "\<forall>i \<in> A \<inter> dom_work D w'. isl waited \<and> dom_guards D w' f' i"
    using assms(1) wait_law [OF assms(2)] unfolding domain_moves_def by (cases waited) auto
qed

lemma in_flight_poll_ok:
  assumes "in_flight_ok D w S" "in_flight_poll B S w = (res, S', w')"
  shows "in_flight_ok D w' S' \<and> domain_moves D {} w w' \<and> held S' = held S \<and>
    (res = Inr Complete \<longrightarrow> complete S')"
proof (cases "complete S")
  case True
  then show ?thesis using assms by (auto simp: in_flight_poll_def)
next
  case False
  obtain r where r: "held S = Some r" "\<forall>i \<in> dom_ids D r \<inter> dom_work D w. dom_guards D w (fence S) i"
    using assms(1) unfolding in_flight_ok_def by blast
  obtain p f v where p: "b_poll B (fence S) w = (p, f, v)" by (cases "b_poll B (fence S) w")
  show ?thesis
    using assms(2) False r(1) poll_guards [OF r(2) p] p
    by (cases p) (auto simp: in_flight_poll_def in_flight_ok_def)
qed

lemma in_flight_wait_ok:
  assumes "in_flight_ok D w S" "in_flight_wait B S w = (res, S', w')"
  shows "in_flight_ok D w' S' \<and> domain_moves D {} w w' \<and> held S' = held S \<and>
    (\<not> isl res \<longrightarrow> complete S')"
proof (cases "complete S")
  case True
  then show ?thesis using assms by (auto simp: in_flight_wait_def)
next
  case False
  obtain r where r: "held S = Some r" "\<forall>i \<in> dom_ids D r \<inter> dom_work D w. dom_guards D w (fence S) i"
    using assms(1) unfolding in_flight_ok_def by blast
  obtain p f v where p: "b_wait B (fence S) w = (p, f, v)" by (cases "b_wait B (fence S) w")
  show ?thesis
    using assms(2) False r(1) wait_guards [OF r(2) p] p
    by (cases p) (auto simp: in_flight_wait_def in_flight_ok_def)
qed

lemma try_reclaim_ok:
  assumes "in_flight_ok D w S" "complete S"
  obtains r where "held S = Some r" "try_reclaim S = Returned (Inr r)" "idle D w r"
  using assms by (auto simp: in_flight_ok_def try_reclaim_def idle_def)

lemma in_flight_drop_idle:
  assumes "in_flight_ok D w S" "in_flight_drop B S w = (Returned (), w')"
  shows "\<exists>r. held S = Some r \<and> idle D w' r"
proof (cases "complete S")
  case True
  then show ?thesis using assms by (auto simp: in_flight_drop_def in_flight_ok_def idle_def)
next
  case False
  obtain r where r: "held S = Some r" "\<forall>i \<in> dom_ids D r \<inter> dom_work D w. dom_guards D w (fence S) i"
    using assms(1) unfolding in_flight_ok_def by blast
  obtain p f v where p: "b_wait B (fence S) w = (p, f, v)" by (cases "b_wait B (fence S) w")
  show ?thesis
    using assms(2) False r(1) wait_guards [OF r(2) p] p
    by (cases p) (auto simp: in_flight_drop_def idle_def)
qed

lemma recording_try_new_ok:
  assumes "idle D w r" "recording_try_new B r label w = (res, w')"
  shows "domain_moves D {} w w'" "idle D w' r"
    "case res of Inl (_, r') \<Rightarrow> r' = r | Inr R \<Rightarrow> recording_ok D w' R \<and> resources R = Some r"
proof -
  obtain p v where p: "b_begin B label w = (p, v)" by (cases "b_begin B label w")
  show moves: "domain_moves D {} w w'"
    using assms(2) begin_law [OF p] p by (auto simp: recording_try_new_def split: sum.splits)
  show idle: "idle D w' r" using idle_moves [OF assms(1) moves] by simp
  show "case res of Inl (_, r') \<Rightarrow> r' = r | Inr R \<Rightarrow> recording_ok D w' R \<and> resources R = Some r"
    using assms(2) begin_law [OF p] p idle
    by (auto simp: recording_try_new_def recording_ok_def idle_def split: sum.splits)
qed

lemma recording_record_ok:
  assumes "recording_ok D w R" "recorder_ok D act" "resources R = Some r"
    "recording_record act R w = (a, R', w')"
  obtains r' where "recording_ok D w' R'" "resources R' = Some r'" "dom_ids D r' = dom_ids D r"
    "domain_moves D (dom_ids D r) w w'" "a \<noteq> Aborted"
proof -
  obtain e where e: "encoder R = Some e" "dom_recorded D e \<subseteq> dom_ids D r"
    and guarded: "\<forall>i \<in> dom_ids D r \<inter> dom_work D w.
      dom_eager D \<or> (\<exists>f. latest_segment R = Some f \<and> dom_guards D w f i)"
    using assms(1,3) unfolding recording_ok_def by auto
  obtain b e' r' v where act: "act e r w = (b, e', r', v)" by (cases "act e r w")
  have a: "b \<noteq> Aborted" "dom_ids D r' = dom_ids D r"
    "dom_recorded D e' \<subseteq> dom_recorded D e \<union> dom_ids D r"
    "domain_moves D (if dom_eager D then dom_ids D r else {}) w v"
    using assms(2) act unfolding recorder_ok_def by blast+
  have R': "R' = R\<lparr>encoder := Some e', resources := Some r'\<rparr>" "w' = v" "a = b"
    using assms(3,4) e(1) act by (auto simp: recording_record_def)
  have "recording_ok D v (R\<lparr>encoder := Some e', resources := Some r'\<rparr>)"
  proof (cases "dom_eager D")
    case False
    then have "\<forall>i \<in> dom_ids D r \<inter> dom_work D v. \<exists>f. latest_segment R = Some f \<and> dom_guards D v f i"
      using guarded a(4) unfolding domain_moves_def by simp blast
    then show ?thesis using a e by (auto simp: recording_ok_def)
  qed (use a e in \<open>auto simp: recording_ok_def\<close>)
  then show thesis
    using that [of r'] R' a(1,2) domain_moves_mono [OF a(4), of "dom_ids D r"] by auto
qed

lemma recording_submit_ok:
  assumes "recording_ok D w R" "resources R = Some r" "recording_submit B R w = (out, w')"
  obtains S where "out = Returned S" "in_flight_ok D w' S" "held S = Some r"
    "domain_moves D (dom_ids D r) w w'"
proof -
  obtain e where e: "encoder R = Some e" "dom_recorded D e \<subseteq> dom_ids D r"
    using assms(1,2) unfolding recording_ok_def by auto
  obtain f v where s: "b_submit B e w = (f, v)" by (cases "b_submit B e w")
  have "domain_moves D (dom_ids D r) w v"
    by (rule domain_moves_mono [OF conjunct1 [OF submit_law [OF s]] e(2)])
  moreover have "in_flight_ok D v (in_flight_new f r)"
    by (rule in_flight_new_ok [OF conjunct2 [OF submit_law [OF s]]])
  moreover have "out = Returned (in_flight_new f r)" "w' = v" "held (in_flight_new f r) = Some r"
    using assms(2,3) e(1) s by (auto simp: recording_submit_def in_flight_new_def)
  ultimately show thesis using that by blast
qed

text \<open>Discarding gives the resources back at once only if no enqueued work can access them.\<close>

lemma recording_discard_ok:
  assumes "recording_ok D w R" "resources R = Some r" "recording_discard B R w = (out, w')"
  shows "domain_moves D (dom_ids D r) w w' \<and>
    (out = Returned (DiscardReady r) \<and> idle D w' r \<or>
     (\<exists>S. out = Returned (DiscardInFlight S) \<and> held S = Some r \<and> in_flight_ok D w' S))"
proof -
  obtain e where e: "encoder R = Some e" "dom_recorded D e \<subseteq> dom_ids D r"
    and guarded: "\<forall>i \<in> dom_ids D r \<inter> dom_work D w.
      dom_eager D \<or> (\<exists>f. latest_segment R = Some f \<and> dom_guards D w f i)"
    using assms(1,2) unfolding recording_ok_def by auto
  obtain d v where d: "b_discard B e w = (d, v)" by (cases "b_discard B e w")
  note law = discard_law [OF d]
  show ?thesis
  proof (cases d)
    case (Some f)
    then have "domain_moves D (dom_ids D r) w v" "in_flight_ok D v (in_flight_new f r)"
      using law domain_moves_mono e(2) in_flight_new_ok by auto
    then show ?thesis
      using Some d e(1) assms(2,3) by (auto simp: recording_discard_def in_flight_new_def)
  next
    case None
    then have moves: "domain_moves D {} w v" and lazy: "\<not> dom_eager D" using law by auto
    have moved: "domain_moves D (dom_ids D r) w v" using domain_moves_mono [OF moves] by simp
    show ?thesis
    proof (cases "latest_segment R")
      case None
      then have "idle D w r" using guarded lazy unfolding idle_def by auto
      then have "idle D v r" using idle_moves [OF _ moves] by simp
      then show ?thesis
        using \<open>d = None\<close> None d e(1) assms(2,3) moved by (simp add: recording_discard_def)
    next
      case (Some f)
      have "\<forall>i \<in> dom_ids D r \<inter> dom_work D v. dom_guards D v f i"
        using guarded lazy Some moves unfolding domain_moves_def by auto
      then have "in_flight_ok D v (in_flight_new f r)"
        by (simp add: in_flight_ok_def in_flight_new_def)
      then show ?thesis
        using \<open>d = None\<close> Some d e(1) assms(2,3) moved
        by (auto simp: recording_discard_def in_flight_new_def)
    qed
  qed
qed

text \<open>Dropping a recording either releases idle resources or aborts the process.\<close>

lemma recording_drop_idle:
  assumes "recording_ok D w R" "resources R = Some r" "recording_drop B R w = (Returned (), w')"
  shows "idle D w' r"
proof -
  obtain e where e: "encoder R = Some e" using assms(1) unfolding recording_ok_def by auto
  obtain d v where d: "b_discard B e w = (d, v)" by (cases "b_discard B e w")
  have "snd (recording_discard B R w) = v"
    using d e assms(2) by (simp add: recording_discard_def split: option.split)
  then obtain out where out: "recording_discard B R w = (out, v)"
    by (cases "recording_discard B R w") simp
  note ok = recording_discard_ok [OF assms(1,2) out]
  show ?thesis
  proof (cases "case d of Some f \<Rightarrow> Some f | None \<Rightarrow> latest_segment R")
    case None
    then have "out = Returned (DiscardReady r)" "w' = v"
      using d e assms(2,3) out by (auto simp: recording_discard_def recording_drop_def)
    then show ?thesis using ok by auto
  next
    case (Some f)
    then have "out = Returned (DiscardInFlight (in_flight_new f r))"
      using d e assms(2) out by (auto simp: recording_discard_def)
    then have S: "in_flight_ok D v (in_flight_new f r)" using ok by auto
    have "in_flight_drop B (in_flight_new f r) v = (Returned (), w')"
      using Some d e assms(2,3)
      by (auto simp: recording_drop_def in_flight_drop_def in_flight_new_def split: prod.splits sum.splits)
    then show ?thesis using in_flight_drop_idle [OF S] by (auto simp: in_flight_new_def)
  qed
qed

subsection \<open>The slots\<close>

lemma recording_restore_ok:
  assumes R: "recording_ok D w R" "resources R = Some r"
    and i: "index < length slots"
    and eq: "recording_restore B index R slots w = (slots', w')"
  obtains s where "slots' = slots[index := s]" "slot_ok D w' s" "slot_ids D s = dom_ids D r"
    "domain_moves D (dom_ids D r) w w'"
proof -
  obtain out v where out: "recording_discard B R w = (out, v)" by (cases "recording_discard B R w")
  from recording_discard_ok [OF R out] consider
      "out = Returned (DiscardReady r)" "idle D v r" "domain_moves D (dom_ids D r) w v"
    | S where "out = Returned (DiscardInFlight S)" "held S = Some r" "in_flight_ok D v S"
        "domain_moves D (dom_ids D r) w v"
    by blast
  then show thesis
  proof cases
    case 1
    then show thesis using that [of "SlotReady r"] eq out by (simp add: recording_restore_def)
  next
    case (2 S)
    then show thesis using that [of "SlotInFlight S"] eq out by (simp add: recording_restore_def)
  qed
qed


lemma try_submit_ok:
  assumes ok: "slots_ok D Is slots w" and sep: "separate Is" and act: "recorder_ok D act"
    and eq: "try_submit B label act slots w = (out, slots', w')"
  shows "slots_ok D Is slots' w' \<and> out \<noteq> Aborted"
proof (cases "position (has_status Ready) slots")
  case None
  then show ?thesis using ok eq by (auto simp: try_submit_def)
next
  case (Some index)
  note i = position_Some [OF Some]
  obtain r where r: "slots ! index = SlotReady r" using i by (cases "slots ! index") auto
  have idle: "idle D w r" and Ii: "Is ! index = dom_ids D r"
    using slots_ok_nth [OF ok, of index] i r by auto
  note update = slots_ok_update [OF ok sep, of index, unfolded Ii]
  obtain res w1 where new: "recording_try_new B r label w = (res, w1)"
    by (cases "recording_try_new B r label w")
  note new_ok = recording_try_new_ok [OF idle new]
  show ?thesis
  proof (cases res)
    case (Inl xr)
    then have "slots' = slots[index := SlotReady r]" "w' = w1" "out \<noteq> Aborted"
      using eq Some r new new_ok(3) by (auto simp: try_submit_def Let_def)
    then show ?thesis
      using slots_ok_settle [OF ok sep _ r new_ok(1), of "SlotReady r"] i new_ok(2) by simp
  next
    case (Inr R)
    then have R: "recording_ok D w1 R" "resources R = Some r" using new_ok(3) by auto
    obtain a R' w2 where rec: "recording_record act R w1 = (a, R', w2)"
      by (cases "recording_record act R w1")
    obtain r' where R': "recording_ok D w2 R'" "resources R' = Some r'"
      "dom_ids D r' = dom_ids D r" "domain_moves D (dom_ids D r) w1 w2" "a \<noteq> Aborted"
      by (rule recording_record_ok [OF R(1) act R(2) rec])
    have w2: "domain_moves D (dom_ids D r) w w2"
      using domain_moves_trans [OF new_ok(1) R'(4)] by simp
    show ?thesis
    proof (cases "\<exists>u. a = Returned (Inr u)")
      case True
      obtain so w3 where sub: "recording_submit B R' w2 = (so, w3)" by (cases "recording_submit B R' w2")
      obtain S where S: "so = Returned S" "in_flight_ok D w3 S" "held S = Some r'"
        "domain_moves D (dom_ids D r') w2 w3"
        by (rule recording_submit_ok [OF R'(1,2) sub])
      have "slots' = slots[index := SlotInFlight S]" "w' = w3" "out \<noteq> Aborted"
        using eq Some r new Inr rec True sub S by (auto simp: try_submit_def Let_def)
      then show ?thesis
        using update [of w3 "SlotInFlight S"] i S R'(3) domain_moves_trans [OF w2 S(4)] by simp
    next
      case False
      obtain sl v where res: "recording_restore B index R' (slots[index := SlotTransition]) w2 = (sl, v)"
        by (cases "recording_restore B index R' (slots[index := SlotTransition]) w2")
      obtain s where s: "sl = (slots[index := SlotTransition])[index := s]" "slot_ok D v s"
        "slot_ids D s = dom_ids D r'" "domain_moves D (dom_ids D r') w2 v"
        by (rule recording_restore_ok [OF R'(1,2) _ res]) (use i in simp)
      have "slots' = sl" "w' = v" "out \<noteq> Aborted"
        using eq Some r new Inr rec res False R'(5)
        by (auto simp: try_submit_def Let_def split: outcome.splits sum.splits)
      then show ?thesis
        using update [of v s] i s R'(3) domain_moves_trans [OF w2 s(4)] by simp
    qed
  qed
qed

lemma slots_poll_loop_ok:
  assumes "slots_ok D Is slots w" "separate Is" "\<forall>i \<in> set is. i < length slots"
    "slots_poll_loop B is n slots w = (out, slots', w')"
  shows "slots_ok D Is slots' w' \<and> (\<exists>res. out = Returned res)"
  using assms
proof (induction "is" arbitrary: n slots w)
  case Nil
  then show ?case by auto
next
  case (Cons index rest)
  note prems = Cons.prems
  have i: "index < length slots" using prems(3) by simp
  show ?case
  proof (cases "\<exists>S. slots ! index = SlotInFlight S")
    case False
    then have "slots_poll_loop B rest n slots w = (out, slots', w')"
      using prems(4) by (cases "slots ! index") auto
    then show ?thesis using Cons.IH prems by simp
  next
    case True
    then obtain S where S: "slots ! index = SlotInFlight S" by blast
    have Sok: "in_flight_ok D w S" using slots_ok_nth [OF prems(1) i] S by auto
    obtain res S' v where p: "in_flight_poll B S w = (res, S', v)" by (cases "in_flight_poll B S w")
    note S' = in_flight_poll_ok [OF Sok p]
    note upd = slots_ok_settle [OF prems(1,2) i S conjunct1 [OF conjunct2 [OF S']]]
    have keep: "slots_ok D Is (slots[index := SlotInFlight S']) v" using upd S' by simp
    show ?thesis
    proof (cases res)
      case (Inl x)
      then show ?thesis using prems(4) S p keep by auto
    next
      case (Inr status)
      show ?thesis
      proof (cases status)
        case Pending
        then show ?thesis
          using Cons.IH [OF keep prems(2)] prems(3,4) S p Inr by auto
      next
        case Complete
        then have "complete S'" using S' Inr by simp
        then obtain r where r: "held S' = Some r" "try_reclaim S' = Returned (Inr r)" "idle D v r"
          using try_reclaim_ok S' by blast
        have "slots_ok D Is (slots[index := SlotCompleted r]) v" using upd r S' by simp
        then show ?thesis
          using Cons.IH [OF _ prems(2)] prems(3,4) S p Inr Complete r by auto
      qed
    qed
  qed
qed

lemma slots_wait_ok:
  assumes "slots_ok D Is slots w" "separate Is" "slots_wait B index slots w = (out, slots', w')"
  shows "slots_ok D Is slots' w' \<and> (\<exists>res. out = Returned res)"
proof (cases "index < length slots \<and> (\<exists>S. slots ! index = SlotInFlight S)")
  case False
  then show ?thesis
    using assms by (cases "slots ! index") (auto simp: slots_wait_def split: if_splits)
next
  case True
  then obtain S where i: "index < length slots" and S: "slots ! index = SlotInFlight S" by blast
  have Sok: "in_flight_ok D w S" using slots_ok_nth [OF assms(1) i] S by auto
  obtain res S' v where p: "in_flight_wait B S w = (res, S', v)" by (cases "in_flight_wait B S w")
  note S' = in_flight_wait_ok [OF Sok p]
  note upd = slots_ok_settle [OF assms(1,2) i S conjunct1 [OF conjunct2 [OF S']]]
  show ?thesis
  proof (cases res)
    case (Inl x)
    then show ?thesis using assms(3) i S p upd [of "SlotInFlight S'"] S' by (auto simp: slots_wait_def)
  next
    case (Inr u)
    then have "complete S'" using S' by simp
    then obtain r where r: "held S' = Some r" "try_reclaim S' = Returned (Inr r)" "idle D v r"
      using try_reclaim_ok S' by blast
    then show ?thesis
      using assms(3) i S p Inr upd [of "SlotCompleted r"] S' by (auto simp: slots_wait_def)
  qed
qed


lemma recycle_completed_ok:
  assumes ok: "slots_ok D Is slots w" "separate Is" "completer_ok D act"
    and eq: "recycle_completed index act slots w = (out, slots', w')"
  shows "slots_ok D Is slots' w' \<and> out \<noteq> Aborted"
proof (cases "index < length slots \<and> (\<exists>r. slots ! index = SlotCompleted r)")
  case False
  then show ?thesis
    using assms by (cases "slots ! index") (auto simp: recycle_completed_def split: if_splits)
next
  case True
  then obtain r where i: "index < length slots" and r: "slots ! index = SlotCompleted r" by blast
  have idle: "idle D w r" using slots_ok_nth [OF ok(1) i] r by simp
  obtain a r' v where a: "act r w = (a, r', v)" by (cases "act r w")
  have act: "a \<noteq> Aborted" "dom_ids D r' = dom_ids D r" "domain_moves D {} w v"
    using ok(3) a unfolding completer_ok_def by blast+
  have "idle D v r'" using idle_moves [OF idle act(3)] act(2) by (simp add: idle_def)
  then have "slots_ok D Is (slots[index := SlotReady r']) v"
    using slots_ok_settle [OF ok(1,2) i r act(3), of "SlotReady r'"] act(2) by simp
  moreover have "slots' = slots[index := SlotReady r']" "w' = v" "out \<noteq> Aborted"
    using eq i r a act(1) by (auto simp: recycle_completed_def split: outcome.splits)
  ultimately show ?thesis by simp
qed

lemma slot_step_ok:
  assumes "slot_step B D (slots, w) (slots', w')" "slots_ok D Is slots w" "separate Is"
  shows "slots_ok D Is slots' w'"
  using assms(1)
proof cases
  case (submit act label out)
  then show ?thesis using try_submit_ok [OF assms(2,3)] by blast
next
  case (poll out)
  then show ?thesis
    using slots_poll_loop_ok [OF assms(2,3), of "[0..<length slots]" 0 out slots' w']
    by (simp add: slots_poll_def)
next
  case (wait index out)
  then show ?thesis using slots_wait_ok [OF assms(2,3)] by blast
next
  case (recycle act index out)
  then show ?thesis using recycle_completed_ok [OF assms(2,3)] by blast
next
  case (others A)
  have "A \<inter> I = {}" if I: "I \<in> set Is" for I
  proof -
    obtain s where "s \<in> set slots" "I = slot_ids D s" using I assms(2) by (auto simp: slots_ok_def)
    then show ?thesis using others(3) by blast
  qed
  then show ?thesis using slots_ok_moves [OF assms(2) others(2)] others(1) by blast
qed

lemma slots_reachable_ok:
  assumes "slots_reachable B D rs w0 (slots, w)"
    "separate (map (dom_ids D) rs)" "\<forall>r \<in> set rs. idle D w0 r"
  shows "slots_ok D (map (dom_ids D) rs) slots w"
  using assms(1)
proof (induction "(slots, w)" arbitrary: slots w rule: slots_reachable.induct)
  case (start slots)
  then show ?case
    using assms(3) by (auto simp: slots_new_def slots_ok_def list_all_iff Let_def split: if_splits)
next
  case (step s slots' w')
  then show ?case using slot_step_ok assms(2) by (cases s) blast
qed

text \<open>The recording closure sees idle resources only: what it does with others is of no effect.\<close>

lemma try_submit_on_idle:
  assumes "slots_ok D Is slots w"
    and same: "\<And>e r v. idle D v r \<Longrightarrow> act e r v = act' e r v"
  shows "try_submit B label act slots w = try_submit B label act' slots w"
proof (cases "position (has_status Ready) slots")
  case (Some index)
  note i = position_Some [OF Some]
  obtain r where r: "slots ! index = SlotReady r" using i by (cases "slots ! index") auto
  have idle: "idle D w r" using slots_ok_nth [OF assms(1), of index] i r by auto
  obtain res w1 where new: "recording_try_new B r label w = (res, w1)"
    by (cases "recording_try_new B r label w")
  note new_ok = recording_try_new_ok [OF idle new]
  have "recording_record act R w1 = recording_record act' R w1" if "res = Inr R" for R
    using that new_ok(2,3) same by (auto simp: recording_record_def split: option.split)
  then show ?thesis using Some r new by (auto simp: try_submit_def Let_def split: sum.split)
qed (simp add: try_submit_def)

end




section \<open>The backends of the source meet the contract\<close>

text \<open>Inline work is over when the recording closure returns, so no work is ever enqueued.\<close>

definition inline_domain :: "('r \<Rightarrow> 'i set) \<Rightarrow> ('w, unit, unit, 'r, 'i) Domain" where
  "inline_domain ids =
     \<lparr>dom_work = \<lambda>w. {}, dom_recorded = \<lambda>e. {}, dom_eager = False,
      dom_guards = \<lambda>w f i. True, dom_ids = ids\<rparr>"

interpretation inline: deferred_backend inline_backend "inline_domain ids" for ids
  by unfold_locales
    (auto simp: inline_backend_def inline_domain_def domain_moves_def default_discard_def
      split: sum.splits option.splits)

text \<open>
  What the CUDA runtime documents of the two calls: neither starts work, and success means that all
  work enqueued on the stream has completed.
\<close>

definition stream_driver ::
  "('w \<Rightarrow> 'i set) \<Rightarrow> ('w \<Rightarrow> int \<times> 'w) \<Rightarrow> ('w \<Rightarrow> int \<times> 'w) \<Rightarrow> bool" where
  "stream_driver work query sync \<longleftrightarrow>
     (\<forall>call \<in> {query, sync}. \<forall>w status w'. call w = (status, w') \<longrightarrow>
        work w' \<subseteq> work w \<and> (status = CUDA_SUCCESS \<longrightarrow> work w' = {}))"

text \<open>Launches on a stream are eager, and the fence, the stream itself, guards everything.\<close>

definition cuda_domain :: "('w \<Rightarrow> 'i set) \<Rightarrow> ('r \<Rightarrow> 'i set) \<Rightarrow> ('w, unit, unit, 'r, 'i) Domain" where
  "cuda_domain work ids =
     \<lparr>dom_work = work, dom_recorded = \<lambda>e. {}, dom_eager = True,
      dom_guards = \<lambda>w f i. True, dom_ids = ids\<rparr>"

lemmas cuda_backend_defs =
  cuda_backend_def cuda_submit_def cuda_poll_def cuda_wait_def cuda_discard_def
  stream_query_def stream_synchronize_def check_cuda_def

lemma cuda_domain_simps [simp]:
  "dom_work (cuda_domain work ids) = work" "dom_ids (cuda_domain work ids) = ids"
  "dom_eager (cuda_domain work ids)" "dom_recorded (cuda_domain work ids) e = {}"
  "dom_guards (cuda_domain work ids) w f i"
  "domain_moves (cuda_domain work ids) A w w' \<longleftrightarrow> work w' \<subseteq> work w \<union> A"
  "idle (cuda_domain work ids) w r \<longleftrightarrow> ids r \<inter> work w = {}"
  by (simp_all add: cuda_domain_def domain_moves_def idle_def)

lemma stream_driverD:
  assumes "stream_driver work query sync"
  shows "query w = (status, w') \<Longrightarrow> work w' \<subseteq> work w \<and> (status = CUDA_SUCCESS \<longrightarrow> work w' = {})"
    and "sync w = (status, w') \<Longrightarrow> work w' \<subseteq> work w \<and> (status = CUDA_SUCCESS \<longrightarrow> work w' = {})"
  using assms unfolding stream_driver_def by blast+

lemma cuda_deferred_backend:
  assumes "stream_driver work query sync"
  shows "deferred_backend (cuda_backend query sync) (cuda_domain work ids)"
proof
  show "domain_moves (cuda_domain work ids) {} w w' \<and>
      (\<forall>i. dom_guards (cuda_domain work ids) w f i \<longrightarrow> dom_guards (cuda_domain work ids) w' f' i \<and>
         (status = Inr Complete \<longrightarrow> i \<notin> dom_work (cuda_domain work ids) w'))"
    if "b_poll (cuda_backend query sync) f w = (status, f', w')" for f w status f' w'
    using that stream_driverD(1) [OF assms]
    by (auto simp: cuda_backend_defs split: prod.splits if_splits sum.splits)
  show "domain_moves (cuda_domain work ids) {} w w' \<and>
      (\<forall>i. dom_guards (cuda_domain work ids) w f i \<longrightarrow> dom_guards (cuda_domain work ids) w' f' i \<and>
         (waited = Inr () \<longrightarrow> i \<notin> dom_work (cuda_domain work ids) w'))"
    if "b_wait (cuda_backend query sync) f w = (waited, f', w')" for f w waited f' w'
    using that stream_driverD(2) [OF assms]
    by (auto simp: cuda_backend_defs split: prod.splits if_splits sum.splits)
qed (auto simp: cuda_backend_defs split: sum.splits option.splits)

text \<open>
  A driver to evaluate on: the queue of the launches that are not done, each with the allocations
  it accesses. A query completes the oldest launch; synchronising completes all.
\<close>

definition queue_work :: "nat set list \<Rightarrow> nat set" where "queue_work w = \<Union> (set w)"
definition queue_query :: "nat set list \<Rightarrow> int \<times> nat set list" where
  "queue_query w = (if tl w = [] then CUDA_SUCCESS else CUDA_ERROR_NOT_READY, tl w)"
definition queue_sync :: "nat set list \<Rightarrow> int \<times> nat set list" where
  "queue_sync w = (CUDA_SUCCESS, [])"

lemma queue_driver: "stream_driver queue_work queue_query queue_sync"
  by (auto simp: stream_driver_def queue_work_def queue_query_def queue_sync_def CUDA_SUCCESS_def
      CUDA_ERROR_NOT_READY_def) (metis list.set_sel(2) list.sel(2))

section \<open>Properties\<close>

lemma slots_ok_counts:
  assumes "slots_ok D Is slots w"
  shows "slot_count Ready slots + slot_count InFlightStatus slots + slot_count Completed slots = length slots"
proof -
  have "list_all (\<lambda>s. s \<noteq> SlotTransition) slots"
    using assms by (auto simp: slots_ok_def list_all_iff)
  then show ?thesis
  proof (induction slots)
    case (Cons s slots)
    then show ?case by (cases s) (auto simp: slot_count_def)
  qed (simp add: slot_count_def)
qed

lemma slots_ok_exposed:
  assumes "slots_ok D Is slots w" "SlotReady r \<in> set slots \<or> SlotCompleted r \<in> set slots"
  shows "idle D w r"
  using assms unfolding slots_ok_def list_all_iff by (metis slot_ok.simps(1,3))

lemma cuda_slots_ok:
  assumes "stream_driver work query sync"
    and "separate (map ids rs)" "\<forall>r \<in> set rs. ids r \<inter> work w0 = {}"
    and "slots_reachable (cuda_backend query sync) (cuda_domain work ids) rs w0 (slots, w)"
  shows "slots_ok (cuda_domain work ids) (map ids rs) slots w"
  using deferred_backend.slots_reachable_ok [OF cuda_deferred_backend [OF assms(1)] assms(4)] assms(2,3)
  by simp

text \<open>C6: Bounded execution slots on a CUDA stream conserve their resources and never expose them
  early. Start with slots whose resource sets are separate and that no enqueued work accesses; after
  any calls of \<open>try_submit\<close>, \<open>poll\<close>, \<open>wait\<close> and \<open>recycle_completed\<close>, with recordings that succeed,
  fail or unwind, and any progress of the device, slot by slot the same resources are owned, every
  slot is ready, in flight or completed, and no enqueued work can access the resources of a ready
  or completed slot.\<close>

theorem execution_slots_safe:
  assumes "stream_driver work query sync"
    and "separate (map ids rs)" "\<forall>r \<in> set rs. ids r \<inter> work w0 = {}"
    and "slots_reachable (cuda_backend query sync) (cuda_domain work ids) rs w0 (slots, w)"
  shows "map (slot_ids (cuda_domain work ids)) slots = map ids rs \<and>
    slot_count Ready slots + slot_count InFlightStatus slots + slot_count Completed slots = length rs \<and>
    (\<forall>r. SlotReady r \<in> set slots \<or> SlotCompleted r \<in> set slots \<longrightarrow> ids r \<inter> work w = {})"
proof -
  have ok: "slots_ok (cuda_domain work ids) (map ids rs) slots w"
    by (rule cuda_slots_ok [OF assms])
  then have "length slots = length rs" by (auto simp: slots_ok_def dest: map_eq_imp_length_eq)
  moreover have "ids r \<inter> work w = {}" if "SlotReady r \<in> set slots \<or> SlotCompleted r \<in> set slots" for r
    using slots_ok_exposed [OF ok that] by simp
  ultimately show ?thesis using slots_ok_counts [OF ok] ok by (simp add: slots_ok_def)
qed

text \<open>A launch on the stream, as a recording closure: the work is enqueued at once.\<close>

definition launch :: "error + unit \<Rightarrow> (nat set list, unit, nat set, error + unit) recorder" where
  "launch res pass r w = (Returned res, pass, r, w @ [r])"

lemma launch_ok: "recorder_ok (cuda_domain queue_work id) (launch res)"
  by (auto simp: recorder_ok_def launch_def queue_work_def)

text \<open>
  Two slots: the first submits, the second fails while recording. The first poll of the stream
  leaves the first slot in flight, the second completes the second slot, and then another client
  launches work.
\<close>

definition two_slots :: "(unit, nat set) BoundedExecutionSlots" where
  "two_slots = [SlotInFlight (in_flight_new () {1}), SlotCompleted {2}]"

lemmas slot_evaluation =
  slots_new_def try_submit_def recording_try_new_def recording_record_def recording_submit_def
  recording_restore_def recording_discard_def slots_poll_def in_flight_poll_def try_reclaim_def
  in_flight_new_def cuda_backend_defs launch_def queue_query_def queue_sync_def two_slots_def
  CUDA_SUCCESS_def CUDA_ERROR_NOT_READY_def

lemma two_slots_reachable:
  "slots_reachable (cuda_backend queue_query queue_sync) (cuda_domain queue_work id) [{1}, {2}] []
     (two_slots, [{5}])"
proof -
  let ?B = "cuda_backend queue_query queue_sync" and ?D = "cuda_domain queue_work (id :: nat set \<Rightarrow> _)"
  let ?both = "[SlotInFlight (in_flight_new () {1}), SlotInFlight (in_flight_new () {2})]"
  have "slots_reachable ?B ?D [{1}, {2}] [] ([SlotReady {1}, SlotReady {2}], [])"
    by (rule slots_reachable.start) (simp add: slot_evaluation)
  then have "slots_reachable ?B ?D [{1}, {2}] []
      ([SlotInFlight (in_flight_new () {1}), SlotReady {2}], [{1}])"
    by (rule slots_reachable.step [OF _ slot_step.submit [OF launch_ok [of "Ok ()"], of _ "''first''"]])
      (simp add: slot_evaluation)
  then have "slots_reachable ?B ?D [{1}, {2}] [] (?both, [{1}, {2}])"
    by (rule slots_reachable.step [OF _ slot_step.submit [OF launch_ok [of "Err e"], of _ "''second''"]])
      (simp add: slot_evaluation)
  then have "slots_reachable ?B ?D [{1}, {2}] [] (two_slots, [])"
    by (rule slots_reachable.step [OF _ slot_step.poll]) (simp add: slot_evaluation upt_rec)
  then show ?thesis
    by (rule slots_reachable.step [OF _ slot_step.others [of _ "{5}"]])
      (auto simp: two_slots_def queue_work_def in_flight_new_def)
qed

theorem execution_slots_safe_witness:
  "map (slot_ids (cuda_domain queue_work id)) two_slots = [{1}, {2}] \<and> {2} \<inter> queue_work [{5}] = {}"
  using execution_slots_safe [OF queue_driver _ _ two_slots_reachable]
  by (simp add: two_slots_def queue_work_def)

text \<open>The closures of the caller run on resources that no enqueued work can access, and on no
  others. In every reachable state of slots on a CUDA stream, \<open>try_submit\<close> and
  \<open>recycle_completed\<close> give the same outcome, slots and domain for any two closures that act alike
  on resources that are free of enqueued work.\<close>

theorem closures_see_idle_resources:
  assumes "stream_driver work query sync"
    and "separate (map ids rs)" "\<forall>r \<in> set rs. ids r \<inter> work w0 = {}"
    and "slots_reachable (cuda_backend query sync) (cuda_domain work ids) rs w0 (slots, w)"
    and "\<forall>pass r v. ids r \<inter> work v = {} \<longrightarrow> act pass r v = act' pass r v"
    and "\<forall>r v. ids r \<inter> work v = {} \<longrightarrow> complete_act r v = complete_act' r v"
  shows "try_submit (cuda_backend query sync) label act slots w =
      try_submit (cuda_backend query sync) label act' slots w \<and>
    recycle_completed index complete_act slots w = recycle_completed index complete_act' slots w"
proof -
  have ok: "slots_ok (cuda_domain work ids) (map ids rs) slots w"
    by (rule cuda_slots_ok [OF assms(1-4)])
  have "try_submit (cuda_backend query sync) label act slots w =
      try_submit (cuda_backend query sync) label act' slots w"
    by (rule deferred_backend.try_submit_on_idle [OF cuda_deferred_backend [OF assms(1)] ok])
      (use assms(5) in simp)
  moreover have "recycle_completed index complete_act slots w = recycle_completed index complete_act' slots w"
  proof (cases "index < length slots \<and> (\<exists>r. slots ! index = SlotCompleted r)")
    case True
    then obtain r where r: "slots ! index = SlotCompleted r" "SlotCompleted r \<in> set slots"
      by (metis nth_mem)
    then have "complete_act r w = complete_act' r w" using slots_ok_exposed [OF ok] assms(6) by simp
    then show ?thesis using r by (simp add: recycle_completed_def)
  qed (auto simp: recycle_completed_def split: SlotState.split)
  ultimately show ?thesis by simp
qed

text \<open>A closure that marks resources it finds in use, and one that does not look.\<close>

definition checked_touch :: "(nat set list, nat set, bool) completer" where
  "checked_touch r w = (if r \<inter> queue_work w = {} then Returned True else Panicked, r, w)"

theorem closures_see_idle_resources_witness:
  "recycle_completed 1 checked_touch two_slots [{5}] =
     (Returned (Some True), [SlotInFlight (in_flight_new () {1}), SlotReady {2}], [{5}])"
proof -
  have "recycle_completed 1 checked_touch two_slots [{5}] =
      recycle_completed 1 (\<lambda>r w. (Returned True, r, w)) two_slots [{5}]"
    by (rule conjunct2 [OF closures_see_idle_resources [OF queue_driver _ _ two_slots_reachable,
          where act = "launch (Ok ())" and act' = "launch (Ok ())"]])
      (auto simp: checked_touch_def queue_work_def)
  then show ?thesis by (simp add: recycle_completed_def two_slots_def)
qed

lemmas host_read_simps =
  copy_prefix_to_pinned_def recording_new_def recording_try_new_def recording_record_def
  recording_submit_def recording_drop_def in_flight_wait_def in_flight_drop_def in_flight_new_def
  try_reclaim_def cuda_backend_defs Let_def

text \<open>A pinned host read never releases its buffers while the copy can run. When
  \<open>copy_prefix_to_pinned_on_stream\<close> returns a pending read and waiting for it returns, with the
  destination or with an error, no enqueued work can access the destination or the device buffer,
  and the destination is the one that was lent. When the copy itself fails, either nothing was
  enqueued or the buffers are free again on return.\<close>

theorem pinned_read_releases_idle:
  assumes driver: "stream_driver work query sync"
    and "copy_prefix_to_pinned query sync memcpy device_len output_len device output count w = (Returned res, w1)"
  shows "case res of
      Inl e \<Rightarrow> w1 = w \<or> (out_id output \<union> dev_id device) \<inter> work w1 = {}
    | Inr S \<Rightarrow> count \<le> device_len device \<and> count \<le> output_len output \<and>
        (\<forall>w2 out w3. host_read_wait query sync S w2 = (Returned out, w3) \<longrightarrow>
           (out_id output \<union> dev_id device) \<inter> work w3 = {} \<and> (\<forall>b. out = Ok b \<longrightarrow> b = output))"
proof -
  obtain status v where m: "memcpy output device count w = (status, v)"
    by (cases "memcpy output device count w")
  show ?thesis
  proof (cases res)
    case (Inl e)
    obtain st v' where s: "sync v = (st, v')" by (cases "sync v")
    show ?thesis
      using assms(2) Inl m s stream_driverD(2) [OF driver s]
      by (auto simp: host_read_simps split: if_splits)
  next
    case (Inr S)
    have S: "S = in_flight_new () \<lparr>read_device = device, read_output = output\<rparr>"
      and count: "count \<le> device_len device" "count \<le> output_len output"
      using assms(2) Inr m by (auto simp: host_read_simps split: if_splits prod.splits)
    have "work w3 = {} \<and> (\<forall>b. out = Ok b \<longrightarrow> b = output)"
      if "host_read_wait query sync S w2 = (Returned out, w3)" for w2 out w3
      using that S stream_driverD(2) [OF driver]
      by (auto simp: host_read_simps host_read_wait_def split: if_splits prod.splits)
    then show ?thesis using Inr count by auto
  qed
qed

text \<open>The copy as a launch that accesses both buffers; buffers are named by numbers.\<close>

definition queue_memcpy :: "nat \<Rightarrow> nat \<Rightarrow> nat \<Rightarrow> nat set list \<Rightarrow> int \<times> nat set list" where
  "queue_memcpy out dev n w = (CUDA_SUCCESS, w @ [{out, dev}])"

theorem pinned_read_releases_idle_witness:
  "copy_prefix_to_pinned queue_query queue_sync queue_memcpy (\<lambda>_. 8) (\<lambda>_. 4) 1 2 4 [{7}] =
     (Returned (Ok (in_flight_new () \<lparr>read_device = 1, read_output = 2\<rparr>)), [{7}, {2, 1}]) \<and>
   host_read_wait queue_query queue_sync (in_flight_new () \<lparr>read_device = 1 :: nat, read_output = 2 :: nat\<rparr>) [{7}, {2, 1}] =
     (Returned (Ok 2), []) \<and> {2, 1} \<inter> queue_work [] = {}"
proof -
  let ?S = "in_flight_new () \<lparr>read_device = 1 :: nat, read_output = 2 :: nat\<rparr>"
  have c: "copy_prefix_to_pinned queue_query queue_sync queue_memcpy (\<lambda>_. 8) (\<lambda>_. 4) 1 2 4 [{7}] =
      (Returned (Ok ?S), [{7}, {2, 1}])"
    by (simp add: host_read_simps queue_memcpy_def CUDA_SUCCESS_def)
  have h: "host_read_wait queue_query queue_sync ?S [{7}, {2, 1}] = (Returned (Ok 2), [])"
    by (simp add: host_read_simps host_read_wait_def queue_sync_def)
  show ?thesis
    using pinned_read_releases_idle [OF queue_driver c, where out_id = "\<lambda>b. {b}" and dev_id = "\<lambda>b. {b}"] c h
    by auto
qed

end
