(* ===== verification/Scheduler.thy ===== *)
theory Scheduler
  imports Prelude "HOL-Library.Finite_Map"
begin

text \<open>
  The continuous scheduler of \<open>crates/infer/src/execution/scheduler.rs\<close> with its policy types
  (\<open>crates/eider-runtime/src/scheduler.rs\<close>, \<open>cache.rs\<close>, \<open>sampling.rs\<close>) and the pool of execution
  sequences (\<open>crates/infer/src/qwen3/qwen36/execution.rs\<close>).

  The scheduler keeps requests in a map and their identities in three queues. A tick admits waiting
  requests, decodes one token for a batch and prefills a batch of prompt chunks; every phase takes
  requests out of the map and has to put them back. What the phases ask of the GPU is an argument:
  the outcome of an admission, of a decode batch, of a prefill batch. The CUDA state of a sequence
  is its size in bytes; a logit is its bit pattern. Decision groups are not part of this model: the
  decision phase returns at once when none is queued.

  A phase that panics is \<open>None\<close>; otherwise it returns its \<open>Result\<close> with the state it leaves.
\<close>

section \<open>Policy\<close>

datatype RequestState = Waiting | Prefilling | Decoding | Finished

datatype RequestFinishReason = Eos | Length | ToolCalls

record SchedulerConfig =
  decode_capacity :: nat
  decision_branch_capacity :: nat
  prefill_sequence_capacity :: nat
  prefill_token_capacity :: nat
  max_active_sequences :: nat
  max_context_tokens :: nat
  speculative_drafts :: nat

definition default_config :: SchedulerConfig where
  "default_config =
     \<lparr>decode_capacity = 8, decision_branch_capacity = 8, prefill_sequence_capacity = 8,
      prefill_token_capacity = 2048, max_active_sequences = 8, max_context_tokens = 32768,
      speculative_drafts = 0\<rparr>"

definition validate_config :: "SchedulerConfig \<Rightarrow> unit result" where
  "validate_config c =
     (if decode_capacity c = 0 \<or> decision_branch_capacity c = 0 \<or> prefill_sequence_capacity c = 0 \<or>
         prefill_token_capacity c = 0 \<or> max_active_sequences c = 0 \<or> max_context_tokens c = 0
      then Err (Shape ''scheduler configuration'') else Ok ())"

definition MAX_SPECULATIVE_DRAFTS :: nat where "MAX_SPECULATIVE_DRAFTS = 7"

definition validate_speculative_drafts :: "SchedulerConfig \<Rightarrow> unit result" where
  "validate_speculative_drafts c =
     (if speculative_drafts c > MAX_SPECULATIVE_DRAFTS
      then Err (Shape ''scheduler speculative drafts'') else Ok ())"

definition retained_prompt_prefix_tokens :: "nat \<Rightarrow> nat \<Rightarrow> nat" where
  "retained_prompt_prefix_tokens prompt_tokens page_tokens =
     (if page_tokens = 0 then 0 else (prompt_tokens - 1) div page_tokens * page_tokens)"

definition SM12X_KV_PAGE_TOKENS :: nat where "SM12X_KV_PAGE_TOKENS = 128"

definition speculative_draft_count :: "nat \<Rightarrow> nat \<Rightarrow> nat \<Rightarrow> bool \<Rightarrow> nat" where
  "speculative_draft_count configured max_new generated started =
     (let remaining = max_new - generated;
          draft_budget = (if started then remaining - 1 else remaining)
      in min configured draft_budget)"

definition prefill_chunk_tokens :: "nat \<Rightarrow> nat \<Rightarrow> nat \<Rightarrow> nat \<Rightarrow> bool \<Rightarrow> nat" where
  "prefill_chunk_tokens available fair_share pos checkpoint_target checkpointed =
     (let chunk = min available fair_share in
      if \<not> checkpointed \<and> pos < checkpoint_target \<and> pos + chunk > checkpoint_target
      then checkpoint_target - pos else chunk)"

section \<open>Token history\<close>

record TokenHistory =
  history_tokens :: "u32 list"
  history_counts :: "(u32, u32) fmap"

definition history_empty :: TokenHistory where
  "history_empty = \<lparr>history_tokens = [], history_counts = fmempty\<rparr>"

definition history_push :: "TokenHistory \<Rightarrow> u32 \<Rightarrow> TokenHistory" where
  "history_push h t =
     \<lparr>history_tokens = history_tokens h @ [t],
      history_counts = fmupd t ((case fmlookup (history_counts h) t of None \<Rightarrow> 0 | Some n \<Rightarrow> n) + 1)
        (history_counts h)\<rparr>"

definition history_extend :: "TokenHistory \<Rightarrow> u32 list \<Rightarrow> TokenHistory" where
  "history_extend h ts = foldl history_push h ts"

definition history_from_tokens :: "u32 list \<Rightarrow> TokenHistory" where
  "history_from_tokens ts = history_extend history_empty ts"

definition history_count :: "TokenHistory \<Rightarrow> u32 \<Rightarrow> u32" where
  "history_count h t = (case fmlookup (history_counts h) t of None \<Rightarrow> 0 | Some n \<Rightarrow> n)"

text \<open>The loop over the counts writes each at its own place, so the order of the map is of no matter.\<close>

definition dense_counts :: "TokenHistory \<Rightarrow> nat \<Rightarrow> u32 list" where
  "dense_counts h vocab =
     map (\<lambda>i. if i < 2 ^ 32 then history_count h (of_nat i) else 0) [0..<vocab]"

section \<open>Execution sequences\<close>

definition u64_max :: u64 where "u64_max = - 1"

record SequencePool =
  pool_sequences :: "(u64, nat) fmap"
  pool_next :: u64

definition pool_new :: SequencePool where
  "pool_new = \<lparr>pool_sequences = fmempty, pool_next = 0\<rparr>"

definition pool_insert :: "SequencePool \<Rightarrow> nat \<Rightarrow> nat \<Rightarrow> (u64 \<times> nat) result \<times> SequencePool" where
  "pool_insert p sequence_bytes count_bytes =
     (case checked_add sequence_bytes count_bytes of
        None \<Rightarrow> (Err (Shape ''Qwen3.6 admitted sequence bytes''), p)
      | Some bytes \<Rightarrow>
          (if pool_next p = u64_max then (Err (Format ''Qwen3.6 sequence ID''), p)
           else (Ok (pool_next p, bytes),
                 \<lparr>pool_sequences = fmupd (pool_next p) bytes (pool_sequences p),
                  pool_next = pool_next p + 1\<rparr>)))"

definition pool_release :: "SequencePool \<Rightarrow> u64 \<Rightarrow> nat result \<times> SequencePool" where
  "pool_release p q =
     (case fmlookup (pool_sequences p) q of
        None \<Rightarrow> (Err (Format ''Qwen3.6 execution sequence''), p)
      | Some bytes \<Rightarrow> (Ok bytes, p\<lparr>pool_sequences := fmdrop q (pool_sequences p)\<rparr>))"

text \<open>
  \<open>lease_many\<close> moves the entries out of the pool into the lease; an unknown identity puts back the
  ones taken so far. Dropping the lease puts all of them back.
\<close>

fun lease_entries ::
  "SequencePool \<Rightarrow> (u64 \<times> nat) list \<Rightarrow> u64 list \<Rightarrow> (u64 \<times> nat) list result \<times> SequencePool" where
  "lease_entries p entries [] = (Ok entries, p)"
| "lease_entries p entries (q # qs) =
     (case fmlookup (pool_sequences p) q of
        None \<Rightarrow>
          (Err (Format ''Qwen3.6 execution sequence lease''),
           p\<lparr>pool_sequences := foldl (\<lambda>m (i, b). fmupd i b m) (pool_sequences p) entries\<rparr>)
      | Some bytes \<Rightarrow>
          lease_entries (p\<lparr>pool_sequences := fmdrop q (pool_sequences p)\<rparr>) (entries @ [(q, bytes)]) qs)"

definition lease_many :: "SequencePool \<Rightarrow> u64 list \<Rightarrow> (u64 \<times> nat) list result \<times> SequencePool" where
  "lease_many p ids =
     (if card (set ids) \<noteq> length ids
      then (Err (Format ''Qwen3.6 execution sequence lease''), p)
      else lease_entries p [] ids)"

definition lease_drop :: "SequencePool \<Rightarrow> (u64 \<times> nat) list \<Rightarrow> SequencePool" where
  "lease_drop p entries = p\<lparr>pool_sequences := foldl (\<lambda>m (i, b). fmupd i b m) (pool_sequences p) entries\<rparr>"

section \<open>Requests\<close>

record SampledToken =
  sampled_id :: u32
  sampled_logit :: u32
  adjusted_logit :: u32

record ScheduledToken =
  token_request :: u64
  token_id :: u32
  token_logit :: u32
  token_finish :: "RequestFinishReason option"

text \<open>A device allocation is named by a number.\<close>

type_synonym device_state = nat

record SpeculativeFrontier =
  frontier_token :: u32
  frontier_logit :: u32
  prev_hidden :: device_state

text \<open>
  Of the sampling policy the scheduler uses \<open>uses_fast_argmax\<close>; its validation, on floating point
  parameters, is an argument of \<open>add_request\<close>.
\<close>

record RequestConfig =
  max_new_tokens :: nat
  eos_token_ids :: "u32 list"
  uses_fast_argmax :: bool

record 'g Request =
  request_id :: u64
  lifecycle :: RequestState
  request_config :: RequestConfig
  prompt_tokens :: "u32 list"
  prompt_position :: nat
  prefix_target :: nat
  prefix_retained :: bool
  sequence_id :: "u64 option"
  sequence_device_bytes :: nat
  tool_grammar :: "'g option"
  history :: TokenHistory
  last_token :: "u32 option"
  generated_tokens :: "ScheduledToken list"
  finish_reason :: "RequestFinishReason option"
  mtp_state :: "device_state option"
  dflash2_state :: "device_state option"
  spec_frontier :: "SpeculativeFrontier option"
  spec_ready :: bool
  spec_started :: bool

definition max_tokens :: "'g Request \<Rightarrow> nat" where
  "max_tokens r = length (prompt_tokens r) + max_new_tokens (request_config r)"

definition remaining_prompt_tokens :: "'g Request \<Rightarrow> nat" where
  "remaining_prompt_tokens r = length (prompt_tokens r) - prompt_position r"

definition prefillable_tokens :: "'g Request \<Rightarrow> nat" where
  "prefillable_tokens r = remaining_prompt_tokens r - 1"

definition decode_input_token :: "'g Request \<Rightarrow> u32 result" where
  "decode_input_token r =
     (if remaining_prompt_tokens r = 1 then Ok (prompt_tokens r ! prompt_position r)
      else if spec_ready r
      then ok_or (map_option frontier_token (spec_frontier r)) (Format ''Qwen3.8 speculative request'')
      else ok_or (last_token r) (Format ''Qwen3.6 scheduled request''))"

definition active_speculative_drafts :: "'g Request \<Rightarrow> nat \<Rightarrow> nat" where
  "active_speculative_drafts r configured =
     speculative_draft_count configured (max_new_tokens (request_config r))
       (length (generated_tokens r)) (spec_started r)"

definition apply_sample :: "'g Request \<Rightarrow> SampledToken \<Rightarrow> bool \<Rightarrow> ScheduledToken \<times> 'g Request" where
  "apply_sample r sampled grammar_complete =
     (let pos = (if remaining_prompt_tokens r = 1 then prompt_position r + 1 else prompt_position r);
          generated_count = length (generated_tokens r) + 1;
          reason =
            (if grammar_complete then Some ToolCalls
             else if sampled_id sampled \<in> set (eos_token_ids (request_config r)) then Some Eos
             else if generated_count = max_new_tokens (request_config r) then Some Length
             else None);
          token = \<lparr>token_request = request_id r, token_id = sampled_id sampled,
                   token_logit = sampled_logit sampled, token_finish = reason\<rparr>
      in (token,
          r\<lparr>prompt_position := pos, last_token := Some (sampled_id sampled),
            history := history_push (history r) (sampled_id sampled),
            lifecycle := (if reason \<noteq> None then Finished else Decoding),
            finish_reason := reason, generated_tokens := generated_tokens r @ [token]\<rparr>))"

section \<open>The scheduler\<close>

record Model =
  vocab :: nat
  dflash2_enabled :: bool
  mtp_weights :: bool

record 'g Scheduler =
  config :: SchedulerConfig
  model :: Model
  sequences :: SequencePool
  requests :: "(u64, 'g Request) fmap"
  waiting :: "u64 list"
  prefilling :: "u64 list"
  decoding :: "u64 list"
  next_id :: u64

definition scheduler_new :: "Model \<Rightarrow> SchedulerConfig \<Rightarrow> unit result \<Rightarrow> 'g Scheduler result" where
  "scheduler_new m c execution =
     bind_result (validate_config c) (\<lambda>_.
     bind_result (validate_speculative_drafts c) (\<lambda>_.
     bind_result execution (\<lambda>_.
       Ok \<lparr>config = c, model = m, sequences = pool_new, requests = fmempty, waiting = [],
           prefilling = [], decoding = [], next_id = 0\<rparr>)))"

definition active_sequence_count :: "'g Scheduler \<Rightarrow> nat" where
  "active_sequence_count s = fcard (fmdom (pool_sequences (sequences s)))"

definition new_request ::
  "u64 \<Rightarrow> RequestConfig \<Rightarrow> u32 list \<Rightarrow> 'g option \<Rightarrow> 'g Request" where
  "new_request rid c prompt grammar =
     \<lparr>request_id = rid, lifecycle = (if max_new_tokens c = 0 then Finished else Waiting),
      request_config = c, prompt_tokens = prompt, prompt_position = 0,
      prefix_target = retained_prompt_prefix_tokens (length prompt) SM12X_KV_PAGE_TOKENS,
      prefix_retained = False, sequence_id = None, sequence_device_bytes = 0,
      tool_grammar = grammar, history = history_from_tokens prompt, last_token = None,
      generated_tokens = [],
      finish_reason = (if max_new_tokens c = 0 then Some Length else None),
      mtp_state = None, dflash2_state = None, spec_frontier = None,
      spec_ready = False, spec_started = False\<rparr>"

definition add_request_with_grammar ::
  "unit result \<Rightarrow> 'g Scheduler \<Rightarrow> u32 list \<Rightarrow> RequestConfig \<Rightarrow> 'g option \<Rightarrow> u64 result \<times> 'g Scheduler" where
  "add_request_with_grammar valid s prompt c grammar =
     try_result valid s (\<lambda>_.
     if prompt = [] then (Err (Format ''Qwen3.6 scheduler prompt''), s)
     else if \<exists>t \<in> set prompt. vocab (model s) \<le> unat t
     then (Err (Shape ''Qwen3.6 scheduler prompt token''), s)
     else
       (case checked_add (length prompt) (max_new_tokens c) of
          None \<Rightarrow> (Err (Shape ''Qwen3.6 scheduler request capacity''), s)
        | Some all \<Rightarrow>
            (if all > max_context_tokens (config s)
             then (Err (Shape ''Qwen3.6 scheduler request capacity''), s)
             else if next_id s = u64_max then (Err (Format ''Qwen3.6 scheduler request ID''), s)
             else
               (let rid = next_id s;
                    s1 = s\<lparr>next_id := rid + 1\<rparr>;
                    r = new_request rid c prompt grammar;
                    s2 = s1\<lparr>requests := fmupd rid r (requests s1)\<rparr>
                in (Ok rid,
                    if lifecycle r = Waiting then s2\<lparr>waiting := waiting s2 @ [rid]\<rparr> else s2)))))"

definition add_request ::
  "unit result \<Rightarrow> 'g Scheduler \<Rightarrow> u32 list \<Rightarrow> RequestConfig \<Rightarrow> u64 result \<times> 'g Scheduler" where
  "add_request valid s prompt c = add_request_with_grammar valid s prompt c None"

section \<open>Admission\<close>

text \<open>
  What allocating and restoring the state of a request gives: an error of the model, the cache or
  the driver before the sequence enters the pool, a refusal for want of capacity, or the state with
  its restored position, its sizes, the outcome of allocating speculative state, and the status of
  the final synchronisation.
\<close>

record Admission =
  adm_position :: nat
  adm_sequence_bytes :: nat
  adm_count_bytes :: nat
  adm_speculation :: "(device_state option \<times> device_state option \<times> SpeculativeFrontier) option result"
  adm_sync :: cuda_status

datatype AdmissionOutcome = AdmissionError error | WouldBlock | Admitted Admission

record AdmissionProgress =
  progress_request :: u64
  progress_bytes :: nat
  progress_cached :: nat

definition admit_speculation ::
  "Model \<Rightarrow> SchedulerConfig \<Rightarrow> Admission \<Rightarrow> 'g Request \<Rightarrow> 'g Request" where
  "admit_speculation m c a r =
     (if (dflash2_enabled m \<or> mtp_weights m) \<and> speculative_drafts c > 0 \<and>
         uses_fast_argmax (request_config r)
      then
        (case adm_speculation a of
           Inr (Some (dflash2, mtp, frontier)) \<Rightarrow>
             r\<lparr>dflash2_state := dflash2, mtp_state := mtp, spec_frontier := Some frontier\<rparr>
         | _ \<Rightarrow> r)
      else r)"

definition admit_position :: "Admission \<Rightarrow> 'g Request \<Rightarrow> 'g Request" where
  "admit_position a r =
     r\<lparr>prompt_position := adm_position a,
       prefix_retained := (adm_position a = prefix_target r \<and> adm_position a \<noteq> 0)\<rparr>"

text \<open>One round of the loop on an admitted request; \<open>s\<close> has the request popped off the queue.\<close>

definition admit_sequence ::
  "'g Scheduler \<Rightarrow> u64 \<Rightarrow> 'g Request \<Rightarrow> Admission \<Rightarrow> AdmissionProgress result \<times> 'g Scheduler" where
  "admit_sequence s rid r a =
     (let r1 = admit_position a r in
      case pool_insert (sequences s) (adm_sequence_bytes a) (adm_count_bytes a) of
        (Inl e, pool) \<Rightarrow> (Err e, s\<lparr>sequences := pool, requests := fmupd rid r1 (requests s)\<rparr>)
      | (Inr (q, bytes), pool) \<Rightarrow>
          (let r2 = r1\<lparr>sequence_device_bytes := bytes, sequence_id := Some q\<rparr>;
               r3 = admit_speculation (model s) (config s) a r2;
               s1 = s\<lparr>sequences := pool\<rparr>
           in
           case adm_sync a of
             Inl e \<Rightarrow> (Err e, s1\<lparr>requests := fmupd rid r3 (requests s)\<rparr>)
           | Inr _ \<Rightarrow>
               (Ok \<lparr>progress_request = rid, progress_bytes = bytes, progress_cached = adm_position a\<rparr>,
                s1\<lparr>requests := fmupd rid (r3\<lparr>lifecycle := Prefilling\<rparr>) (requests s),
                  prefilling := prefilling s @ [rid]\<rparr>)))"

lemma admit_sequence_waiting: "waiting (snd (admit_sequence s rid r a)) = waiting s"
  by (simp add: admit_sequence_def Let_def split: prod.split sum.split)

function admit_waiting ::
  "('g Request \<Rightarrow> AdmissionOutcome) \<Rightarrow> 'g Scheduler \<Rightarrow> AdmissionProgress list
     \<Rightarrow> (unit result \<times> 'g Scheduler \<times> AdmissionProgress list) option" where
  "admit_waiting admit s admitted =
     (if \<not> active_sequence_count s < max_active_sequences (config s) then Some (Ok (), s, admitted)
      else
        (case waiting s of
           [] \<Rightarrow> Some (Ok (), s, admitted)
         | rid # rest \<Rightarrow>
             (case fmlookup (requests s) rid of
                None \<Rightarrow> None
              | Some r \<Rightarrow>
                  (case admit r of
                     AdmissionError e \<Rightarrow> Some (Err e, s\<lparr>waiting := rest\<rparr>, admitted)
                   | WouldBlock \<Rightarrow> Some (Ok (), s\<lparr>waiting := rid # rest\<rparr>, admitted)
                   | Admitted a \<Rightarrow>
                       (case admit_sequence (s\<lparr>waiting := rest\<rparr>) rid r a of
                          (Inl e, s') \<Rightarrow> Some (Err e, s', admitted)
                        | (Inr progress, s') \<Rightarrow> admit_waiting admit s' (admitted @ [progress]))))))"
  by pat_completeness auto
termination
  by (relation "measure (\<lambda>(_, s, _). length (waiting s))")
    (auto dest!: arg_cong [where f = snd] simp: admit_sequence_waiting dest: sym)

declare admit_waiting.simps [simp del]

section \<open>Decoding\<close>

type_synonym 'g request_map = "(u64, 'g Request) fmap"

fun pop_decoding ::
  "nat \<Rightarrow> u64 list \<Rightarrow> 'g request_map \<Rightarrow> 'g Request list
     \<Rightarrow> (u64 list \<times> 'g request_map \<times> 'g Request list) option" where
  "pop_decoding capacity [] reqs selected = Some ([], reqs, selected)"
| "pop_decoding capacity (rid # queue) reqs selected =
     (if length selected < capacity then
        (case fmlookup reqs rid of
           None \<Rightarrow> None
         | Some r \<Rightarrow> pop_decoding capacity queue (fmdrop rid reqs) (selected @ [r]))
      else Some (rid # queue, reqs, selected))"

text \<open>The scan rotates the queue once: what it does not take keeps its order.\<close>

fun scan_prefilling ::
  "nat \<Rightarrow> u64 list \<Rightarrow> u64 list \<Rightarrow> 'g request_map \<Rightarrow> 'g Request list
     \<Rightarrow> (u64 list \<times> 'g request_map \<times> 'g Request list) option" where
  "scan_prefilling capacity [] kept reqs selected = Some (kept, reqs, selected)"
| "scan_prefilling capacity (rid # queue) kept reqs selected =
     (if length selected < capacity then
        (case fmlookup reqs rid of
           None \<Rightarrow> None
         | Some r \<Rightarrow>
             (if remaining_prompt_tokens r = 1
              then scan_prefilling capacity queue kept (fmdrop rid reqs) (selected @ [r])
              else scan_prefilling capacity queue (kept @ [rid]) reqs selected))
      else scan_prefilling capacity queue (kept @ [rid]) reqs selected)"

definition spec_eligible :: "'g Scheduler \<Rightarrow> 'g Request \<Rightarrow> bool" where
  "spec_eligible s r \<longleftrightarrow>
     (dflash2_state r \<noteq> None \<or> mtp_weights (model s)) \<and>
     speculative_drafts (config s) > 0 \<and> spec_ready r \<and> spec_frontier r \<noteq> None \<and>
     (dflash2_state r \<noteq> None \<or> mtp_state r \<noteq> None) \<and>
     (tool_grammar r = None \<or> dflash2_state r \<noteq> None) \<and>
     uses_fast_argmax (request_config r) \<and>
     active_speculative_drafts r (speculative_drafts (config s)) > 0"

text \<open>\<open>requeue_selected\<close>: the batch goes back to the front of the queues it came from.\<close>

definition requeue_one :: "'g Request \<Rightarrow> 'g Scheduler \<Rightarrow> 'g Scheduler" where
  "requeue_one r s =
     (let s1 = (if lifecycle r = Decoding then s\<lparr>decoding := request_id r # decoding s\<rparr>
                else s\<lparr>prefilling := request_id r # prefilling s\<rparr>)
      in s1\<lparr>requests := fmupd (request_id r) r (requests s1)\<rparr>)"

definition requeue_selected :: "'g Request list \<Rightarrow> 'g Scheduler \<Rightarrow> 'g Scheduler" where
  "requeue_selected selected s = foldr requeue_one selected s"

text \<open>
  The grammar of a request comes from \<open>llguidance\<close>: committing a token advances it or fails, and it
  reports completion.
\<close>

record 'g grammar_ops =
  grammar_commit :: "'g \<Rightarrow> u32 \<Rightarrow> unit result \<times> 'g"
  grammar_is_complete :: "'g \<Rightarrow> bool"

fun apply_samples ::
  "'g grammar_ops \<Rightarrow> 'g Request \<Rightarrow> SampledToken list \<Rightarrow> ScheduledToken list
     \<Rightarrow> unit result \<times> 'g Request \<times> ScheduledToken list" where
  "apply_samples G r [] generated = (Ok (), r, generated)"
| "apply_samples G r (sample # samples) generated =
     (let (committed, complete, r1) =
        (case tool_grammar r of
           None \<Rightarrow> (Ok (), False, r)
         | Some g \<Rightarrow>
             (case grammar_commit G g (sampled_id sample) of
                (res, g') \<Rightarrow> (res, grammar_is_complete G g', r\<lparr>tool_grammar := Some g'\<rparr>)))
      in
      case committed of
        Inl e \<Rightarrow> (Err e, r1, generated)
      | Inr _ \<Rightarrow>
          (case apply_sample r1 sample complete of
             (token, r2) \<Rightarrow>
               (if lifecycle r2 = Finished then (Ok (), r2, generated @ [token])
                else apply_samples G r2 samples (generated @ [token]))))"

record Tick =
  tick_scheduled :: "u64 list"
  tick_generated :: "ScheduledToken list"
  tick_finished :: "u64 list"
  tick_speculative :: "(u64 \<times> nat) list"

text \<open>
  The loop over the batch after execution. \<open>finish\<close> is the status of returning a finished
  sequence's pages to the cache. An early return drops the request in hand and the rest of the batch.
\<close>

fun settle_batch ::
  "'g grammar_ops \<Rightarrow> ('g Request \<Rightarrow> unit result) \<Rightarrow> ('g Request \<times> SampledToken list) list
     \<Rightarrow> 'g Scheduler \<Rightarrow> Tick \<Rightarrow> (unit result \<times> 'g Scheduler \<times> Tick) option" where
  "settle_batch G finish [] s tick = Some (Ok (), s, tick)"
| "settle_batch G finish ((r, samples) # rest) s tick =
     (case apply_samples G r samples (tick_generated tick) of
        (Inl e, r', generated) \<Rightarrow> Some (Err e, s, tick\<lparr>tick_generated := generated\<rparr>)
      | (Inr _, r', generated) \<Rightarrow>
          (let tick1 = tick\<lparr>tick_generated := generated\<rparr> in
           if lifecycle r' = Finished then
             (case sequence_id r' of
                None \<Rightarrow> None
              | Some q \<Rightarrow>
                  (let r'' = r'\<lparr>sequence_id := None\<rparr> in
                   case pool_release (sequences s) q of
                     (Inl e, pool) \<Rightarrow> Some (Err e, s\<lparr>sequences := pool\<rparr>, tick1)
                   | (Inr _, pool) \<Rightarrow>
                       (let s1 = s\<lparr>sequences := pool\<rparr> in
                        case finish r'' of
                          Inl e \<Rightarrow> Some (Err e, s1, tick1)
                        | Inr _ \<Rightarrow>
                            settle_batch G finish rest
                              (s1\<lparr>requests := fmupd (request_id r'') r'' (requests s1)\<rparr>)
                              (tick1\<lparr>tick_finished := tick_finished tick1 @ [request_id r'']\<rparr>))))
           else
             settle_batch G finish rest
               (s\<lparr>decoding := decoding s @ [request_id r'],
                  requests := fmupd (request_id r') r' (requests s)\<rparr>) tick1))"

text \<open>
  Executing a batch is the GPU's part: \<open>speculate\<close> and \<open>decode\<close> give the samples, or an error, and
  the requests with their speculative state advanced.
\<close>

record 'g decode_execution =
  exec_speculative :: "'g Request \<Rightarrow> (SampledToken list \<times> nat) result \<times> 'g Request"
  exec_decode :: "'g Request list \<Rightarrow> SampledToken list result \<times> 'g Request list"
  exec_finish :: "'g Request \<Rightarrow> unit result"

definition run_decode_phase ::
  "'g grammar_ops \<Rightarrow> 'g decode_execution \<Rightarrow> 'g Scheduler \<Rightarrow> Tick
     \<Rightarrow> (unit result \<times> 'g Scheduler \<times> Tick) option" where
  "run_decode_phase G X s tick =
     (case pop_decoding (decode_capacity (config s)) (decoding s) (requests s) [] of
        None \<Rightarrow> None
      | Some (dec, reqs1, selected1) \<Rightarrow>
          (case scan_prefilling (decode_capacity (config s)) (prefilling s) [] reqs1 selected1 of
             None \<Rightarrow> None
           | Some (pre, reqs2, selected) \<Rightarrow>
               (let s1 = s\<lparr>decoding := dec, prefilling := pre, requests := reqs2\<rparr> in
                if selected = [] then Some (Ok (), s1, tick)
                else
                  (let tick1 = tick\<lparr>tick_scheduled := tick_scheduled tick @ map request_id selected\<rparr> in
                   if length selected = 1 \<and> spec_eligible s1 (hd selected) then
                     (case exec_speculative X (hd selected) of
                        (Inl e, r) \<Rightarrow> Some (Err e, requeue_selected [r] s1, tick1)
                      | (Inr (samples, accepted), r) \<Rightarrow>
                          settle_batch G (exec_finish X) [(r, samples)] s1
                            (tick1\<lparr>tick_speculative :=
                               tick_speculative tick1 @ [(request_id (hd selected), accepted)]\<rparr>))
                   else
                     (case exec_decode X selected of
                        (Inl e, batch) \<Rightarrow> Some (Err e, requeue_selected batch s1, tick1)
                      | (Inr samples, batch) \<Rightarrow>
                          settle_batch G (exec_finish X) (zip batch (map (\<lambda>x. [x]) samples))
                            s1 tick1)))))"

section \<open>Prefilling\<close>

text \<open>\<open>filter(..).take(capacity).count()\<close>: the filter looks no further than the last hit taken.\<close>

fun count_eligible :: "nat \<Rightarrow> u64 list \<Rightarrow> 'g request_map \<Rightarrow> nat option" where
  "count_eligible 0 queue reqs = Some 0"
| "count_eligible (Suc n) [] reqs = Some 0"
| "count_eligible (Suc n) (rid # queue) reqs =
     (case fmlookup reqs rid of
        None \<Rightarrow> None
      | Some r \<Rightarrow>
          (if prefillable_tokens r > 0 then map_option Suc (count_eligible n queue reqs)
           else count_eligible (Suc n) queue reqs))"

text \<open>
  The selection loop. \<open>queue\<close> is the part of the queue not yet visited and \<open>kept\<close> what was pushed to
  its back; the loop ends when the batch is full or the token budget is spent.
\<close>

fun select_prefill ::
  "nat \<Rightarrow> u64 list \<Rightarrow> u64 list \<Rightarrow> 'g request_map \<Rightarrow> nat \<Rightarrow> nat \<Rightarrow> ('g Request \<times> nat) list
     \<Rightarrow> (u64 list \<times> 'g request_map \<times> ('g Request \<times> nat) list) option" where
  "select_prefill eligible [] kept reqs budget slots selected = Some (kept, reqs, selected)"
| "select_prefill eligible (rid # queue) kept reqs budget slots selected =
     (if length selected = eligible \<or> budget = 0 then Some (rid # queue @ kept, reqs, selected)
      else
        (case fmlookup reqs rid of
           None \<Rightarrow> None
         | Some r \<Rightarrow>
             (let available = prefillable_tokens r in
              if available = 0
              then select_prefill eligible queue (kept @ [rid]) reqs budget slots selected
              else
                (let fair_share = div_ceil budget slots;
                     chunk = prefill_chunk_tokens available fair_share (prompt_position r)
                       (prefix_target r) (prefix_retained r)
                 in select_prefill eligible queue kept (fmdrop rid reqs) (budget - chunk) (slots - 1)
                      (selected @ [(r, chunk)])))))"

text \<open>
  \<open>retain_request_checkpoint\<close>: \<open>disabled\<close> tells that the cache keeps no prefixes, \<open>at\<close> is the
  position of the leased sequence. What it stores in the two prefix caches is not part of the
  scheduler's state; every path that reaches the target marks the prefix as retained.
\<close>

definition retain_request_checkpoint ::
  "bool \<Rightarrow> nat \<Rightarrow> SequencePool \<Rightarrow> 'g Request \<Rightarrow> 'g Request" where
  "retain_request_checkpoint disabled at pool r =
     (if prefix_retained r \<or> prefix_target r = 0 then r
      else if disabled then r\<lparr>prefix_retained := True\<rparr>
      else
        (case sequence_id r of
           None \<Rightarrow> r
         | Some q \<Rightarrow>
             (case fst (lease_many pool [q]) of
                Inl _ \<Rightarrow> r\<lparr>prefix_retained := True\<rparr>
              | Inr _ \<Rightarrow> if at \<noteq> prefix_target r then r else r\<lparr>prefix_retained := True\<rparr>)))"

text \<open>
  What the prefill phase asks of the execution state: that the workspaces for speculation are there
  or can be allocated, the prefill batch, extending the speculative state of a row, a final
  synchronisation, and the positions of the sequences.
\<close>

record 'g prefill_execution =
  exec_mtp_allocation :: "unit result"
  exec_dflash2_allocation :: "unit result"
  exec_prefill :: "('g Request \<times> nat) list \<Rightarrow> unit result"
  exec_append :: "'g Request \<Rightarrow> unit result"
  exec_warmup :: "'g Request \<Rightarrow> unit result"
  exec_prefill_sync :: cuda_status
  exec_retain_disabled :: bool
  exec_position :: "'g Request \<Rightarrow> nat"

definition disable_speculation :: "'g Request \<Rightarrow> 'g Request" where
  "disable_speculation r = r\<lparr>mtp_state := None, spec_frontier := None, spec_ready := False\<rparr>"

definition advance_speculation :: "'g prefill_execution \<Rightarrow> 'g Request \<Rightarrow> 'g Request" where
  "advance_speculation X r =
     (let r1 =
        (if dflash2_state r \<noteq> None \<and> \<not> is_ok (exec_append X r)
         then r\<lparr>dflash2_state := None, spec_frontier := None, spec_ready := False\<rparr> else r)
      in
      if mtp_state r1 \<noteq> None \<and> spec_frontier r1 \<noteq> None \<and> \<not> is_ok (exec_warmup X r1)
      then disable_speculation r1 else r1)"

record PrefillProgress =
  prefill_request :: u64
  prefill_tokens :: nat
  prefill_position :: nat

definition finish_chunk ::
  "'g prefill_execution \<Rightarrow> 'g Request \<Rightarrow> nat \<Rightarrow> 'g Scheduler \<Rightarrow> PrefillProgress \<times> 'g Scheduler" where
  "finish_chunk X r chunk s =
     (let r1 = r\<lparr>prompt_position := prompt_position r + chunk\<rparr>;
          r2 = retain_request_checkpoint (exec_retain_disabled X) (exec_position X r1) (sequences s) r1
      in (\<lparr>prefill_request = request_id r2, prefill_tokens = chunk, prefill_position = prompt_position r2\<rparr>,
          s\<lparr>prefilling := prefilling s @ [request_id r2],
            requests := fmupd (request_id r2) r2 (requests s)\<rparr>))"

fun finish_chunks ::
  "'g prefill_execution \<Rightarrow> ('g Request \<times> nat) list \<Rightarrow> 'g Scheduler \<Rightarrow> PrefillProgress list
     \<Rightarrow> 'g Scheduler \<times> PrefillProgress list" where
  "finish_chunks X [] s prefilled = (s, prefilled)"
| "finish_chunks X ((r, chunk) # rest) s prefilled =
     (case finish_chunk X r chunk s of
        (progress, s') \<Rightarrow> finish_chunks X rest s' (prefilled @ [progress]))"

definition requeue_prefill_one :: "'g Request \<Rightarrow> 'g Scheduler \<Rightarrow> 'g Scheduler" where
  "requeue_prefill_one r s =
     s\<lparr>prefilling := request_id r # prefilling s, requests := fmupd (request_id r) r (requests s)\<rparr>"

text \<open>The batch after selection: \<open>s\<close> has its requests taken out of queue and map.\<close>

definition execute_prefill ::
  "'g prefill_execution \<Rightarrow> 'g Scheduler \<Rightarrow> ('g Request \<times> nat) list
     \<Rightarrow> unit result \<times> 'g Scheduler \<times> PrefillProgress list" where
  "execute_prefill X s selected0 =
     (let warm = (\<exists>r \<in> set (map fst selected0). mtp_state r \<noteq> None \<and> spec_frontier r \<noteq> None);
          needs_mtp = (warm \<and> is_ok (exec_mtp_allocation X));
          selected = (if warm \<and> \<not> needs_mtp
                      then map (\<lambda>(r, c). (disable_speculation r, c)) selected0 else selected0);
          needs_dflash2 = (\<exists>r \<in> set (map fst selected). dflash2_state r \<noteq> None)
      in
      if needs_dflash2 \<and> \<not> is_ok (exec_dflash2_allocation X) then (exec_dflash2_allocation X, s, [])
      else
        (case map_result (\<lambda>r. ok_or (sequence_id r) (Format ''Qwen3.6 scheduled prefill'')) (map fst selected) of
           Inl e \<Rightarrow> (Err e, s, [])
         | Inr qs \<Rightarrow>
             (case lease_many (sequences s) qs of
                (Inl e, pool) \<Rightarrow> (Err e, s\<lparr>sequences := pool\<rparr>, [])
              | (Inr entries, pool) \<Rightarrow>
                  (let s1 = s\<lparr>sequences := lease_drop pool entries\<rparr> in
                   case exec_prefill X selected of
                     Inl e \<Rightarrow> (Err e, foldr requeue_prefill_one (map fst selected) s1, [])
                   | Inr _ \<Rightarrow>
                       (let advanced = map (\<lambda>(r, c). (advance_speculation X r, c)) selected in
                        if (needs_mtp \<or> needs_dflash2) \<and> \<not> is_ok (exec_prefill_sync X)
                        then (exec_prefill_sync X, s1, [])
                        else (case finish_chunks X advanced s1 [] of
                                (s2, prefilled) \<Rightarrow> (Ok (), s2, prefilled)))))))"

definition run_prefill_phase ::
  "'g prefill_execution \<Rightarrow> 'g Scheduler \<Rightarrow> Tick
     \<Rightarrow> (unit result \<times> 'g Scheduler \<times> Tick \<times> PrefillProgress list) option" where
  "run_prefill_phase X s tick =
     (case count_eligible (prefill_sequence_capacity (config s)) (prefilling s) (requests s) of
        None \<Rightarrow> None
      | Some eligible \<Rightarrow>
          (if eligible = 0 then Some (Ok (), s, tick, [])
           else
             (case select_prefill eligible (prefilling s) [] (requests s)
                     (prefill_token_capacity (config s)) eligible [] of
                None \<Rightarrow> None
              | Some (queue, reqs, selected) \<Rightarrow>
                  (let s1 = s\<lparr>prefilling := queue, requests := reqs\<rparr> in
                   if selected = [] then Some (Ok (), s1, tick, [])
                   else
                     (let tick1 = tick\<lparr>tick_scheduled :=
                                    tick_scheduled tick @ map (request_id \<circ> fst) selected\<rparr>
                      in case execute_prefill X s1 selected of
                           (res, s2, prefilled) \<Rightarrow> Some (res, s2, tick1, prefilled))))))"

section \<open>The tick and the requests' end\<close>

definition empty_tick :: Tick where
  "empty_tick = \<lparr>tick_scheduled = [], tick_generated = [], tick_finished = [], tick_speculative = []\<rparr>"

text \<open>One tick; the first phase that fails ends it.\<close>

definition run_tick ::
  "'g grammar_ops \<Rightarrow> ('g Request \<Rightarrow> AdmissionOutcome) \<Rightarrow> 'g decode_execution \<Rightarrow> 'g prefill_execution
     \<Rightarrow> 'g Scheduler
     \<Rightarrow> ((AdmissionProgress list \<times> Tick \<times> PrefillProgress list \<times> nat) result \<times> 'g Scheduler) option" where
  "run_tick G admit D P s =
     (case admit_waiting admit s [] of
        None \<Rightarrow> None
      | Some (Inl e, s1, _) \<Rightarrow> Some (Err e, s1)
      | Some (Inr _, s1, admitted) \<Rightarrow>
          (case run_decode_phase G D s1 empty_tick of
             None \<Rightarrow> None
           | Some (Inl e, s2, _) \<Rightarrow> Some (Err e, s2)
           | Some (Inr _, s2, tick) \<Rightarrow>
               (case run_prefill_phase P s2 tick of
                  None \<Rightarrow> None
                | Some (Inl e, s3, _) \<Rightarrow> Some (Err e, s3)
                | Some (Inr _, s3, tick', prefilled) \<Rightarrow>
                    Some (Ok (admitted, tick', prefilled, active_sequence_count s3), s3))))"

datatype CancelOutcome = Cancelled u64 "u32 list" "ScheduledToken list" nat | AlreadyFinished | NotFound

text \<open>
  The result of returning the pages to the cache is only logged, so it does not appear.
\<close>

definition cancel_request :: "'g Scheduler \<Rightarrow> u64 \<Rightarrow> CancelOutcome \<times> 'g Scheduler" where
  "cancel_request s rid =
     (case fmlookup (requests s) rid of
        None \<Rightarrow> (NotFound, s)
      | Some r \<Rightarrow>
          (if lifecycle r = Finished then (AlreadyFinished, s)
           else
             (let s1 = s\<lparr>waiting := filter (\<lambda>q. q \<noteq> rid) (waiting s),
                         prefilling := filter (\<lambda>q. q \<noteq> rid) (prefilling s),
                         decoding := filter (\<lambda>q. q \<noteq> rid) (decoding s),
                         requests := fmdrop rid (requests s)\<rparr>;
                  s2 = (case sequence_id r of
                          None \<Rightarrow> s1
                        | Some q \<Rightarrow> s1\<lparr>sequences := snd (pool_release (sequences s1) q)\<rparr>)
              in (Cancelled rid (prompt_tokens r) (generated_tokens r) (sequence_device_bytes r), s2))))"

definition request_state :: "'g Scheduler \<Rightarrow> u64 \<Rightarrow> RequestState option" where
  "request_state s rid = map_option lifecycle (fmlookup (requests s) rid)"

record FinishedRequest =
  finished_id :: u64
  finished_prompt :: "u32 list"
  finished_tokens :: "ScheduledToken list"
  finished_reason :: RequestFinishReason
  finished_bytes :: nat

definition remove_finished ::
  "'g Scheduler \<Rightarrow> u64 \<Rightarrow> FinishedRequest option option \<times> 'g Scheduler" where
  "remove_finished s rid =
     (case fmlookup (requests s) rid of
        None \<Rightarrow> (Some None, s)
      | Some r \<Rightarrow>
          (if lifecycle r \<noteq> Finished then (Some None, s)
           else
             (map_option (\<lambda>reason.
                Some \<lparr>finished_id = rid, finished_prompt = prompt_tokens r,
                      finished_tokens = generated_tokens r, finished_reason = reason,
                      finished_bytes = sequence_device_bytes r\<rparr>) (finish_reason r),
              s\<lparr>requests := fmdrop rid (requests s)\<rparr>)))"

end
