(* ===== verification/Scheduler_Invariant.thy ===== *)
theory Scheduler_Invariant
  imports Scheduler
begin

text \<open>
  Properties of the scheduler. Between two phases a batch of requests is in hand: taken out of the
  request map and of the queues. The invariant is stated on the map that holds both, so that taking
  requests out and putting them back leaves it alone:

  \<^item> \<open>queues_ok\<close>: each queue lists, once each, the retained requests of its lifecycle state;
  \<^item> \<open>batch_ok\<close>: the requests in hand are distinct from each other and from the retained ones;
  \<^item> \<open>store_ok\<close>: every request is well formed, and the sequences in the pool are exactly those the
    requests own, each owned by one request.
\<close>

section \<open>The invariant\<close>

definition request_ok :: "'g Request \<Rightarrow> bool" where
  "request_ok r \<longleftrightarrow>
     prompt_tokens r \<noteq> [] \<and>
     (case lifecycle r of
        Waiting \<Rightarrow> sequence_id r = None \<and> finish_reason r = None \<and> generated_tokens r = [] \<and>
          0 < max_new_tokens (request_config r)
      | Prefilling \<Rightarrow> sequence_id r \<noteq> None \<and> finish_reason r = None \<and> generated_tokens r = [] \<and>
          0 < max_new_tokens (request_config r) \<and> prompt_position r < length (prompt_tokens r)
      | Decoding \<Rightarrow> sequence_id r \<noteq> None \<and> finish_reason r = None \<and> generated_tokens r \<noteq> [] \<and>
          length (generated_tokens r) < max_new_tokens (request_config r) \<and>
          prompt_position r = length (prompt_tokens r) \<and>
          last_token r = Some (token_id (last (generated_tokens r)))
      | Finished \<Rightarrow> sequence_id r = None \<and> finish_reason r \<noteq> None \<and>
          length (generated_tokens r) \<le> max_new_tokens (request_config r))"

definition queue_ok :: "'g request_map \<Rightarrow> RequestState \<Rightarrow> u64 list \<Rightarrow> bool" where
  "queue_ok reqs st queue \<longleftrightarrow>
     distinct queue \<and>
     (\<forall>i. i \<in> set queue \<longleftrightarrow> (\<exists>r. fmlookup reqs i = Some r \<and> lifecycle r = st))"

definition queues_ok :: "'g request_map \<Rightarrow> u64 list \<Rightarrow> u64 list \<Rightarrow> u64 list \<Rightarrow> bool" where
  "queues_ok reqs W P D \<longleftrightarrow>
     queue_ok reqs Waiting W \<and> queue_ok reqs Prefilling P \<and> queue_ok reqs Decoding D"

definition batch_ok :: "'g request_map \<Rightarrow> 'g Request list \<Rightarrow> bool" where
  "batch_ok reqs sel \<longleftrightarrow>
     distinct (map request_id sel) \<and> (\<forall>r \<in> set sel. fmlookup reqs (request_id r) = None)"

definition everyone :: "'g request_map \<Rightarrow> 'g Request list \<Rightarrow> u64 \<rightharpoonup> 'g Request" where
  "everyone reqs sel = map_of (map (\<lambda>r. (request_id r, r)) sel) ++ fmlookup reqs"

definition sequence_of :: "(u64 \<rightharpoonup> 'g Request) \<Rightarrow> u64 \<rightharpoonup> u64" where
  "sequence_of m i = (case m i of None \<Rightarrow> None | Some r \<Rightarrow> sequence_id r)"

definition pool_ids :: "SequencePool \<Rightarrow> u64 set" where
  "pool_ids pool = fset (fmdom (pool_sequences pool))"

definition store_ok :: "(u64 \<rightharpoonup> 'g Request) \<Rightarrow> SequencePool \<Rightarrow> u64 \<Rightarrow> bool" where
  "store_ok m pool fresh \<longleftrightarrow>
     (\<forall>i r. m i = Some r \<longrightarrow> request_id r = i \<and> i < fresh \<and> request_ok r) \<and>
     pool_ids pool = ran (sequence_of m) \<and> inj_on (sequence_of m) (dom (sequence_of m)) \<and>
     (\<forall>q \<in> pool_ids pool. q < pool_next pool)"

definition sched_inv :: "'g Scheduler \<Rightarrow> 'g Request list \<Rightarrow> bool" where
  "sched_inv s sel \<longleftrightarrow>
     queues_ok (requests s) (waiting s) (prefilling s) (decoding s) \<and>
     batch_ok (requests s) sel \<and>
     store_ok (everyone (requests s) sel) (sequences s) (next_id s)"

section \<open>Taking requests out and putting them back\<close>

lemma everyone_Nil [simp]: "everyone reqs [] = fmlookup reqs"
  by (simp add: everyone_def)

lemma everyone_lookup:
  assumes "batch_ok reqs sel"
  shows "everyone reqs sel i = Some r \<longleftrightarrow>
    (fmlookup reqs i = Some r \<or> (r \<in> set sel \<and> request_id r = i))"
proof -
  have "map_of (map (\<lambda>r. (request_id r, r)) sel) i = Some r \<longleftrightarrow> r \<in> set sel \<and> request_id r = i"
    using assms by (auto simp: batch_ok_def o_def)
  then show ?thesis
    using assms by (auto simp: everyone_def batch_ok_def map_add_Some_iff)
qed

lemma everyone_eq:
  assumes "batch_ok reqs sel" "batch_ok reqs' sel'"
    and "\<And>i r. fmlookup reqs i = Some r \<or> (r \<in> set sel \<and> request_id r = i) \<longleftrightarrow>
      fmlookup reqs' i = Some r \<or> (r \<in> set sel' \<and> request_id r = i)"
  shows "everyone reqs sel = everyone reqs' sel'"
proof
  fix i
  have "everyone reqs sel i = Some r \<longleftrightarrow> everyone reqs' sel' i = Some r" for r
    using assms by (simp add: everyone_lookup)
  then show "everyone reqs sel i = everyone reqs' sel' i" by (metis not_Some_eq)
qed

lemma batch_ok_take:
  assumes "batch_ok reqs sel" "fmlookup reqs i = Some r" "request_id r = i"
  shows "batch_ok (fmdrop i reqs) (sel @ [r])" "everyone (fmdrop i reqs) (sel @ [r]) = everyone reqs sel"
proof -
  show ok: "batch_ok (fmdrop i reqs) (sel @ [r])" using assms by (auto simp: batch_ok_def)
  show "everyone (fmdrop i reqs) (sel @ [r]) = everyone reqs sel"
    by (rule everyone_eq [OF ok assms(1)]) (use assms in auto)
qed

lemma queue_ok_drop_other:
  "queue_ok reqs st queue \<Longrightarrow> fmlookup reqs i = Some r \<Longrightarrow> lifecycle r \<noteq> st \<Longrightarrow>
     queue_ok (fmdrop i reqs) st queue"
  unfolding queue_ok_def by auto

lemma queue_ok_drop:
  "queue_ok reqs st queue \<Longrightarrow> queue_ok (fmdrop i reqs) st (filter (\<lambda>j. j \<noteq> i) queue)"
  unfolding queue_ok_def by auto

lemma queue_ok_lookup:
  "queue_ok reqs st queue \<Longrightarrow> i \<in> set queue \<Longrightarrow> \<exists>r. fmlookup reqs i = Some r \<and> lifecycle r = st"
  unfolding queue_ok_def by blast

lemma queue_ok_perm:
  "queue_ok reqs st queue \<Longrightarrow> set queue' = set queue \<Longrightarrow> distinct queue' \<Longrightarrow> queue_ok reqs st queue'"
  unfolding queue_ok_def by simp

lemma queue_ok_put_other:
  "queue_ok reqs st queue \<Longrightarrow> fmlookup reqs i = None \<Longrightarrow> lifecycle r \<noteq> st \<Longrightarrow>
     queue_ok (fmupd i r reqs) st queue"
  unfolding queue_ok_def by auto

lemma queue_ok_distinct: "queue_ok reqs st queue \<Longrightarrow> distinct queue"
  by (simp add: queue_ok_def)

lemma queue_okI:
  "distinct queue \<Longrightarrow> (\<And>i. i \<in> set queue \<longleftrightarrow> (\<exists>r. fmlookup reqs i = Some r \<and> lifecycle r = st)) \<Longrightarrow>
     queue_ok reqs st queue"
  unfolding queue_ok_def by blast

lemma queue_ok_put_front:
  assumes "queue_ok reqs st queue" "fmlookup reqs i = None" "lifecycle r = st"
  shows "queue_ok (fmupd i r reqs) st (i # queue)"
proof (rule queue_okI)
  show "distinct (i # queue)"
    using queue_ok_distinct [OF assms(1)] queue_ok_lookup [OF assms(1), of i] assms(2) by auto
  show "j \<in> set (i # queue) \<longleftrightarrow> (\<exists>t. fmlookup (fmupd i r reqs) j = Some t \<and> lifecycle t = st)" for j
    using assms by (cases "j = i") (simp_all add: queue_ok_def)
qed

lemma queue_ok_put:
  assumes "queue_ok reqs st queue" "fmlookup reqs i = None" "lifecycle r = st"
  shows "queue_ok (fmupd i r reqs) st (queue @ [i])"
proof (rule queue_ok_perm [OF queue_ok_put_front [OF assms]])
  show "distinct (queue @ [i])"
    using queue_ok_distinct [OF queue_ok_put_front [OF assms]] by simp
qed simp

text \<open>How \<open>store_ok\<close> is kept when a request changes.\<close>

lemma sequence_of_upd: "sequence_of (m(i := x)) = (sequence_of m)(i := (case x of None \<Rightarrow> None | Some r \<Rightarrow> sequence_id r))"
  by (auto simp: sequence_of_def fun_eq_iff)

lemma ran_drop:
  assumes "inj_on f (dom f)" "f i = Some q"
  shows "ran (f(i := None)) = ran f - {q}"
proof -
  have "f j \<noteq> Some q" if "j \<noteq> i" for j
    using inj_onD [OF assms(1), of j i] that assms(2) by auto
  then show ?thesis using assms(2) by (auto simp: ran_def) (metis option.inject)
qed

lemma inj_drop: "inj_on f (dom f) \<Longrightarrow> inj_on (f(i := None)) (dom (f(i := None)))"
  by (auto simp: inj_on_def)

lemma store_okD:
  assumes "store_ok m pool fresh"
  shows "m i = Some r \<Longrightarrow> request_id r = i \<and> i < fresh \<and> request_ok r"
    and "pool_ids pool = ran (sequence_of m)" "inj_on (sequence_of m) (dom (sequence_of m))"
    and "q \<in> pool_ids pool \<Longrightarrow> q < pool_next pool"
  using assms unfolding store_ok_def by blast+

lemma store_ok_upd:
  assumes "store_ok m pool fresh" "\<And>r. x = Some r \<Longrightarrow> request_id r = i \<and> i < fresh \<and> request_ok r"
    and "sequence_of (m(i := x)) = f" "pool_ids pool' = ran f" "inj_on f (dom f)"
    and "\<And>q. q \<in> pool_ids pool' \<Longrightarrow> q < pool_next pool'"
  shows "store_ok (m(i := x)) pool' fresh"
  using assms(2-6) store_okD(1) [OF assms(1)] unfolding store_ok_def by (auto split: if_splits)

lemma sched_inv_request:
  assumes "store_ok (everyone reqs sel) pool fresh" "batch_ok reqs sel" "fmlookup reqs i = Some r"
  shows "request_id r = i \<and> i < fresh \<and> request_ok r"
  by (rule store_okD(1) [OF assms(1)]) (simp add: everyone_lookup [OF assms(2)] assms(3))

text \<open>A request may change as long as it keeps its identity and its sequence.\<close>

lemma store_ok_change:
  assumes ok: "store_ok m pool fresh" and "m i = Some r" "request_id r' = i"
    "sequence_id r' = sequence_id r" "request_ok r'"
  shows "store_ok (m(i \<mapsto> r')) pool fresh"
proof (rule store_ok_upd [OF ok])
  show "sequence_of (m(i \<mapsto> r')) = sequence_of m"
    using assms(2,4) by (auto simp: sequence_of_def fun_eq_iff)
  show "request_id t = i \<and> i < fresh \<and> request_ok t" if "Some r' = Some t" for t
    using that assms(2-5) store_okD(1) [OF ok] by blast
qed (use store_okD [OF ok] in auto)

text \<open>A request gives its sequence back to the pool, and stays or leaves.\<close>

lemma pool_ids_drop: "pool_ids (pool\<lparr>pool_sequences := fmdrop q (pool_sequences pool)\<rparr>) = pool_ids pool - {q}"
  by (simp add: pool_ids_def)

lemma store_ok_release:
  assumes ok: "store_ok m pool fresh" and "m i = Some r" "sequence_id r = Some q"
    and "\<And>r'. x = Some r' \<Longrightarrow> request_id r' = i \<and> sequence_id r' = None \<and> request_ok r'"
  shows "store_ok (m(i := x)) (pool\<lparr>pool_sequences := fmdrop q (pool_sequences pool)\<rparr>) fresh"
proof (rule store_ok_upd [OF ok])
  have q: "sequence_of m i = Some q" using assms(2,3) by (simp add: sequence_of_def)
  show "sequence_of (m(i := x)) = (sequence_of m)(i := None)"
    using assms(4) by (auto simp: sequence_of_upd split: option.splits)
  show "pool_ids (pool\<lparr>pool_sequences := fmdrop q (pool_sequences pool)\<rparr>) = ran ((sequence_of m)(i := None))"
    using ran_drop [OF store_okD(3) [OF ok] q] store_okD(2) [OF ok] by (simp add: pool_ids_drop)
  show "inj_on ((sequence_of m)(i := None)) (dom ((sequence_of m)(i := None)))"
    by (rule inj_drop [OF store_okD(3) [OF ok]])
  show "request_id t = i \<and> i < fresh \<and> request_ok t" if "x = Some t" for t
    using that assms(2,4) store_okD(1) [OF ok] by blast
qed (use store_okD(4) [OF ok] in \<open>auto simp: pool_ids_drop\<close>)

lemma store_ok_remove:
  assumes ok: "store_ok m pool fresh" and "\<And>r. m i = Some r \<Longrightarrow> sequence_id r = None"
  shows "store_ok (m(i := None)) pool fresh"
proof (rule store_ok_upd [OF ok])
  show "sequence_of (m(i := None)) = sequence_of m"
    using assms(2) by (auto simp: sequence_of_def fun_eq_iff split: option.splits)
qed (use store_okD [OF ok] in auto)

text \<open>A request obtains a new sequence of the pool.\<close>

lemma u64_succ:
  assumes "(n :: u64) \<noteq> u64_max"
  shows "n < n + 1" "x < n \<Longrightarrow> x < n + 1"
proof -
  have "1 + n \<noteq> 0"
    using assms eq_neg_iff_add_eq_0 [of n 1] by (simp add: u64_max_def add.commute)
  then have "unat (n + 1) = Suc (unat n)" using unatSuc [of n] by (simp add: add.commute)
  then show "n < n + 1" "x < n \<Longrightarrow> x < n + 1" by (simp_all add: word_less_nat_alt)
qed

lemma store_ok_insert:
  assumes ok: "store_ok m pool fresh" and ins: "pool_insert pool a b = (Inr (q, bytes), pool')"
    and "m i = Some r" "sequence_id r = None" "request_id r' = i" "sequence_id r' = Some q" "request_ok r'"
  shows "store_ok (m(i \<mapsto> r')) pool' fresh"
proof (rule store_ok_upd [OF ok])
  have q: "q = pool_next pool" "pool_next pool \<noteq> u64_max" "pool_next pool' = pool_next pool + 1"
    "pool_ids pool' = insert q (pool_ids pool)"
    using ins by (auto simp: pool_insert_def pool_ids_def split: option.splits if_splits)
  have fresh: "q \<notin> pool_ids pool" using store_okD(4) [OF ok, of q] q(1) by auto
  show "sequence_of (m(i \<mapsto> r')) = (sequence_of m)(i \<mapsto> q)" using assms(6) by (simp add: sequence_of_upd)
  have none: "sequence_of m i = None" using assms(3,4) by (simp add: sequence_of_def)
  then show "pool_ids pool' = ran ((sequence_of m)(i \<mapsto> q))"
    using q(4) store_okD(2) [OF ok] by simp
  show "inj_on ((sequence_of m)(i \<mapsto> q)) (dom ((sequence_of m)(i \<mapsto> q)))"
    using store_okD(3) [OF ok] fresh store_okD(2) [OF ok] none
    by (auto simp: inj_on_def ran_def)
  show "request_id t = i \<and> i < fresh \<and> request_ok t" if "Some r' = Some t" for t
    using that assms(3,5,7) store_okD(1) [OF ok] by blast
  show "p < pool_next pool'" if "p \<in> pool_ids pool'" for p
    using that q u64_succ [OF q(2)] store_okD(4) [OF ok] by auto
qed

section \<open>Selecting a decode batch\<close>

definition keyed :: "'g request_map \<Rightarrow> bool" where
  "keyed reqs \<longleftrightarrow> (\<forall>i r. fmlookup reqs i = Some r \<longrightarrow> request_id r = i)"

lemma keyed_drop: "keyed reqs \<Longrightarrow> keyed (fmdrop i reqs)"
  by (auto simp: keyed_def)

definition ready :: "'g Request \<Rightarrow> bool" where
  "ready r \<longleftrightarrow> lifecycle r = Decoding \<or> lifecycle r = Prefilling \<and> remaining_prompt_tokens r = 1"

lemma queue_ok_pop:
  assumes "queue_ok reqs st (i # queue)"
  shows "queue_ok (fmdrop i reqs) st queue"
proof -
  have "i \<notin> set queue" using queue_ok_distinct [OF assms] by simp
  then have "filter (\<lambda>j. j \<noteq> i) queue = queue" by (auto simp: filter_id_conv)
  then show ?thesis using queue_ok_drop [OF assms, of i] by simp
qed

text \<open>Taking the head of one queue keeps all three.\<close>

lemma queues_ok_pop:
  assumes "queues_ok reqs W P D"
  shows "D = i # rest \<Longrightarrow> queues_ok (fmdrop i reqs) W P rest"
    and "P = i # rest \<Longrightarrow> queues_ok (fmdrop i reqs) W rest D"
proof -
  have other: "queue_ok (fmdrop i reqs) st' Q"
    if "queue_ok reqs st (i # rest)" "queue_ok reqs st' Q" "st \<noteq> st'" for st st' Q
    using queue_ok_lookup [OF that(1), of i] queue_ok_drop_other [OF that(2)] that(3) by auto
  show "D = i # rest \<Longrightarrow> queues_ok (fmdrop i reqs) W P rest"
    using assms other queue_ok_pop unfolding queues_ok_def by blast
  show "P = i # rest \<Longrightarrow> queues_ok (fmdrop i reqs) W rest D"
    using assms other queue_ok_pop unfolding queues_ok_def by blast
qed

lemma queues_ok_rotate:
  assumes "queues_ok reqs W (i # rest @ kept) D"
  shows "queues_ok reqs W (rest @ kept @ [i]) D"
proof -
  have P: "queue_ok reqs Prefilling (i # rest @ kept)" using assms by (simp add: queues_ok_def)
  have "queue_ok reqs Prefilling (rest @ kept @ [i])"
    by (rule queue_ok_perm [OF P]) (use queue_ok_distinct [OF P] in auto)
  then show ?thesis using assms by (simp add: queues_ok_def)
qed

lemma pop_decoding_ok:
  assumes "queues_ok reqs W P D" "batch_ok reqs sel" "keyed reqs" "\<forall>r \<in> set sel. ready r"
  shows "\<exists>reqs' sel'. pop_decoding cap D reqs sel = Some (drop (cap - length sel) D, reqs', sel') \<and>
    queues_ok reqs' W P (drop (cap - length sel) D) \<and> batch_ok reqs' sel' \<and> keyed reqs' \<and>
    everyone reqs' sel' = everyone reqs sel \<and> (\<forall>r \<in> set sel'. ready r) \<and>
    map request_id sel' = map request_id sel @ take (cap - length sel) D"
  using assms
proof (induction D arbitrary: reqs sel)
  case (Cons i rest)
  show ?case
  proof (cases "length sel < cap")
    case True
    obtain r where r: "fmlookup reqs i = Some r" "lifecycle r = Decoding"
      using queue_ok_lookup [of reqs Decoding "i # rest" i] Cons.prems(1) by (auto simp: queues_ok_def)
    have ri: "request_id r = i" using Cons.prems(3) r(1) by (simp add: keyed_def)
    note take = batch_ok_take [OF Cons.prems(2) r(1) ri]
    have "\<forall>t \<in> set (sel @ [r]). ready t" using Cons.prems(4) r(2) by (simp add: ready_def)
    from Cons.IH [OF queues_ok_pop(1) [OF Cons.prems(1) refl] take(1) keyed_drop [OF Cons.prems(3)] this]
    moreover have "cap - length sel = Suc (cap - length (sel @ [r]))" using True by simp
    ultimately show ?thesis using True r(1) take(2) ri by auto
  next
    case False
    then show ?thesis using Cons.prems by simp
  qed
qed simp

lemma scan_prefilling_ok:
  assumes "queues_ok reqs W (P @ kept) D" "batch_ok reqs sel" "keyed reqs" "\<forall>r \<in> set sel. ready r"
  shows "\<exists>kept' reqs' sel'. scan_prefilling cap P kept reqs sel = Some (kept', reqs', sel') \<and>
    queues_ok reqs' W kept' D \<and> batch_ok reqs' sel' \<and> keyed reqs' \<and>
    everyone reqs' sel' = everyone reqs sel \<and> (\<forall>r \<in> set sel'. ready r) \<and>
    length sel \<le> length sel' \<and> (length sel \<le> cap \<longrightarrow> length sel' \<le> cap)"
  using assms
proof (induction P arbitrary: kept reqs sel)
  case (Cons i rest)
  have keep: "queues_ok reqs W (rest @ kept @ [i]) D" using queues_ok_rotate Cons.prems(1) by simp
  show ?case
  proof (cases "length sel < cap")
    case True
    obtain r where r: "fmlookup reqs i = Some r" "lifecycle r = Prefilling"
      using queue_ok_lookup [of reqs Prefilling "i # rest @ kept" i] Cons.prems(1)
      by (auto simp: queues_ok_def)
    have ri: "request_id r = i" using Cons.prems(3) r(1) by (simp add: keyed_def)
    note take = batch_ok_take [OF Cons.prems(2) r(1) ri]
    show ?thesis
    proof (cases "remaining_prompt_tokens r = 1")
      case last: True
      then have "\<forall>t \<in> set (sel @ [r]). ready t" using Cons.prems(4) r(2) by (simp add: ready_def)
      moreover have "queues_ok (fmdrop i reqs) W (rest @ kept) D"
        using queues_ok_pop(2) [OF Cons.prems(1)] by simp
      ultimately have "\<exists>kept' reqs' sel'.
          scan_prefilling cap rest kept (fmdrop i reqs) (sel @ [r]) = Some (kept', reqs', sel') \<and>
          queues_ok reqs' W kept' D \<and> batch_ok reqs' sel' \<and> keyed reqs' \<and>
          everyone reqs' sel' = everyone (fmdrop i reqs) (sel @ [r]) \<and> (\<forall>r \<in> set sel'. ready r) \<and>
          length (sel @ [r]) \<le> length sel' \<and> (length (sel @ [r]) \<le> cap \<longrightarrow> length sel' \<le> cap)"
        using Cons.IH take(1) keyed_drop [OF Cons.prems(3)] by blast
      then show ?thesis using True r(1) last take(2) by auto
    next
      case False
      then show ?thesis
        using Cons.IH [OF keep Cons.prems(2-4)] True r(1) by simp
    qed
  next
    case False
    then show ?thesis using Cons.IH [OF keep Cons.prems(2-4)] by simp
  qed
qed auto

section \<open>Putting a batch back\<close>

lemma queues_ok_put:
  assumes "queues_ok reqs W P D" "fmlookup reqs i = None"
  shows "lifecycle r = Decoding \<Longrightarrow> queues_ok (fmupd i r reqs) W P (D @ [i])"
    and "lifecycle r = Decoding \<Longrightarrow> queues_ok (fmupd i r reqs) W P (i # D)"
    and "lifecycle r = Prefilling \<Longrightarrow> queues_ok (fmupd i r reqs) W (P @ [i]) D"
    and "lifecycle r = Prefilling \<Longrightarrow> queues_ok (fmupd i r reqs) W (i # P) D"
    and "lifecycle r = Finished \<Longrightarrow> queues_ok (fmupd i r reqs) W P D"
    and "lifecycle r = Waiting \<Longrightarrow> queues_ok (fmupd i r reqs) (W @ [i]) P D"
  using assms unfolding queues_ok_def
  by (simp_all add: queue_ok_put queue_ok_put_front queue_ok_put_other)

lemma everyone_put:
  assumes "batch_ok reqs (r # sel)" "request_id r' = request_id r"
  shows "batch_ok (fmupd (request_id r) r' reqs) sel"
    and "everyone (fmupd (request_id r) r' reqs) sel = (everyone reqs (r # sel))(request_id r \<mapsto> r')"
proof -
  show ok: "batch_ok (fmupd (request_id r) r' reqs) sel" using assms by (auto simp: batch_ok_def)
  show "everyone (fmupd (request_id r) r' reqs) sel = (everyone reqs (r # sel))(request_id r \<mapsto> r')"
    by (auto simp: everyone_def fun_eq_iff map_add_def split: option.split)
qed

lemma everyone_Cons: "batch_ok reqs (r # sel) \<Longrightarrow> everyone reqs (r # sel) (request_id r) = Some r"
  by (simp add: everyone_lookup)

text \<open>A request in hand goes back changed, with its sequence.\<close>

lemma sched_inv_put:
  assumes inv: "sched_inv s (r # sel)"
    and r': "request_id r' = request_id r" "sequence_id r' = sequence_id r" "request_ok r'"
    and queues: "\<And>reqs W P D. queues_ok reqs W P D \<Longrightarrow> fmlookup reqs (request_id r) = None \<Longrightarrow>
      queues_ok (fmupd (request_id r) r' reqs) (fw W) (fp P) (fd D)"
  shows "sched_inv (s\<lparr>waiting := fw (waiting s), prefilling := fp (prefilling s),
    decoding := fd (decoding s), requests := fmupd (request_id r) r' (requests s)\<rparr>) sel"
proof -
  have ok: "queues_ok (requests s) (waiting s) (prefilling s) (decoding s)"
    "batch_ok (requests s) (r # sel)" "store_ok (everyone (requests s) (r # sel)) (sequences s) (next_id s)"
    using inv by (auto simp: sched_inv_def)
  have "fmlookup (requests s) (request_id r) = None" using ok(2) by (simp add: batch_ok_def)
  then show ?thesis
    using queues [OF ok(1)] everyone_put [OF ok(2) r'(1)]
      store_ok_change [OF ok(3) everyone_Cons [OF ok(2)] r'(1) r'(2) r'(3)]
    by (simp add: sched_inv_def)
qed

text \<open>A finished request goes back without its sequence, which is released.\<close>

lemma sched_inv_finish:
  assumes inv: "sched_inv s (r # sel)" and q: "sequence_id r = Some q"
    and r': "request_id r' = request_id r" "sequence_id r' = None" "request_ok r'" "lifecycle r' = Finished"
  shows "\<exists>bytes. pool_release (sequences s) q = (Inr bytes,
      (sequences s)\<lparr>pool_sequences := fmdrop q (pool_sequences (sequences s))\<rparr>)"
    and "sched_inv (s\<lparr>sequences := (sequences s)\<lparr>pool_sequences := fmdrop q (pool_sequences (sequences s))\<rparr>,
      requests := fmupd (request_id r) r' (requests s)\<rparr>) sel"
proof -
  have ok: "queues_ok (requests s) (waiting s) (prefilling s) (decoding s)"
    "batch_ok (requests s) (r # sel)" "store_ok (everyone (requests s) (r # sel)) (sequences s) (next_id s)"
    using inv by (auto simp: sched_inv_def)
  have none: "fmlookup (requests s) (request_id r) = None" using ok(2) by (simp add: batch_ok_def)
  have "sequence_of (everyone (requests s) (r # sel)) (request_id r) = Some q"
    using everyone_Cons [OF ok(2)] q by (simp add: sequence_of_def)
  then have "q \<in> pool_ids (sequences s)" using store_okD(2) [OF ok(3)] by (auto intro: ranI)
  then show "\<exists>bytes. pool_release (sequences s) q = (Inr bytes,
      (sequences s)\<lparr>pool_sequences := fmdrop q (pool_sequences (sequences s))\<rparr>)"
    by (auto simp: pool_ids_def pool_release_def fmdomE split: option.split)
  show "sched_inv (s\<lparr>sequences := (sequences s)\<lparr>pool_sequences := fmdrop q (pool_sequences (sequences s))\<rparr>,
      requests := fmupd (request_id r) r' (requests s)\<rparr>) sel"
    using queues_ok_put(5) [OF ok(1) none r'(4)] everyone_put [OF ok(2) r'(1)]
      store_ok_release [OF ok(3) everyone_Cons [OF ok(2)] q, of "Some r'"] r'
    by (simp add: sched_inv_def)
qed

section \<open>Samples\<close>

definition sampled_ok :: "'g Request \<Rightarrow> 'g Request \<Rightarrow> bool" where
  "sampled_ok r r' \<longleftrightarrow>
     request_id r' = request_id r \<and> sequence_id r' = sequence_id r \<and>
     (lifecycle r' = Decoding \<and> request_ok r' \<or>
      lifecycle r' = Finished \<and> request_ok (r'\<lparr>sequence_id := None\<rparr>))"

lemma apply_sample_ok:
  assumes "request_ok r" "ready r" "apply_sample r x c = (token, r')"
  shows "sampled_ok r r'" "lifecycle r' = Decoding \<Longrightarrow> ready r'"
  using assms
  by (auto simp: sampled_ok_def apply_sample_def request_ok_def ready_def remaining_prompt_tokens_def
      Let_def split: RequestState.splits if_splits)

lemma apply_samples_ok:
  assumes "apply_samples G r samples gen = (Inr u, r', gen')"
    "request_ok r" "ready r" "samples \<noteq> [] \<or> lifecycle r = Decoding"
  shows "sampled_ok r r'"
  using assms
proof (induction samples arbitrary: r gen)
  case Nil
  then show ?case by (simp add: sampled_ok_def)
next
  case (Cons x samples)
  define r1 where "r1 = (case tool_grammar r of None \<Rightarrow> r
    | Some g \<Rightarrow> r\<lparr>tool_grammar := Some (snd (grammar_commit G g (sampled_id x)))\<rparr>)"
  define c where "c = (case tool_grammar r of None \<Rightarrow> False
    | Some g \<Rightarrow> grammar_is_complete G (snd (grammar_commit G g (sampled_id x))))"
  obtain token r2 where a: "apply_sample r1 x c = (token, r2)" by (cases "apply_sample r1 x c")
  have r1: "request_ok r1" "ready r1" "request_id r1 = request_id r" "sequence_id r1 = sequence_id r"
    using Cons.prems(2,3)
    by (auto simp: r1_def request_ok_def ready_def remaining_prompt_tokens_def
        split: option.split RequestState.splits)
  note r2 = apply_sample_ok [OF r1(1,2) a]
  have step: "(if lifecycle r2 = Finished then (Inr (), r2, gen @ [token])
      else apply_samples G r2 samples (gen @ [token])) = (Inr u, r', gen')"
    using Cons.prems(1) a
    by (auto simp: r1_def c_def Let_def split: option.splits prod.splits sum.splits)
  show ?case
  proof (cases "lifecycle r2 = Finished")
    case True
    then show ?thesis using step r2(1) r1(3,4) by (simp add: sampled_ok_def)
  next
    case False
    then have "lifecycle r2 = Decoding" "request_ok r2" using r2(1) by (auto simp: sampled_ok_def)
    then have "sampled_ok r2 r'" using Cons.IH [of r2 "gen @ [token]"] step False r2(2) by simp
    then show ?thesis using r2(1) r1(3,4) by (simp add: sampled_ok_def)
  qed
qed

section \<open>The decode phase\<close>

definition rows_ok :: "('g Request \<times> SampledToken list) list \<Rightarrow> bool" where
  "rows_ok rows \<longleftrightarrow>
     (\<forall>(r, samples) \<in> set rows. ready r \<and> (samples \<noteq> [] \<or> lifecycle r = Decoding))"

lemma sched_inv_batch:
  assumes "sched_inv s (r # sel)"
  shows "request_ok r"
proof -
  have ok: "batch_ok (requests s) (r # sel)" "store_ok (everyone (requests s) (r # sel)) (sequences s) (next_id s)"
    using assms by (auto simp: sched_inv_def)
  show ?thesis using store_okD(1) [OF ok(2) everyone_Cons [OF ok(1)]] by blast
qed

lemma ready_sequence: "request_ok r \<Longrightarrow> ready r \<Longrightarrow> sequence_id r \<noteq> None"
  by (auto simp: request_ok_def ready_def)

text \<open>What no phase changes.\<close>

definition frame :: "'g Scheduler \<Rightarrow> SchedulerConfig \<times> Model \<times> u64 list \<times> u64" where
  "frame s = (config s, model s, waiting s, next_id s)"

text \<open>
  The bookkeeping after a batch that is not the GPU's: advancing the grammars and returning the
  pages of finished sequences.
\<close>

definition settles :: "'g grammar_ops \<Rightarrow> ('g Request \<Rightarrow> unit result) \<Rightarrow> bool" where
  "settles G fin \<longleftrightarrow> (\<forall>g t. is_ok (fst (grammar_commit G g t))) \<and> (\<forall>r. is_ok (fin r))"

lemma apply_samples_settles:
  assumes "settles G fin"
  shows "is_ok (fst (apply_samples G r samples gen))"
proof (induction samples arbitrary: r gen)
  case Nil
  then show ?case by (simp add: is_ok_def)
next
  case (Cons x xs)
  have "\<forall>g. is_ok (fst (grammar_commit G g (sampled_id x)))" using assms by (simp add: settles_def)
  then show ?case
    using Cons.IH
    by (auto simp: is_ok_def apply_sample_def Let_def split: option.split prod.split sum.split; metis fst_conv sum.simps)
qed

text \<open>
  After a batch has run, settling it never panics. When it succeeds every request of the batch is
  back, decoding or finished, and the sequences of the finished ones are released.
\<close>

lemma settle_batch_ok:
  assumes "sched_inv s (map fst rows)" "rows_ok rows"
  shows "\<exists>res s' tick'. settle_batch G fin rows s tick = Some (res, s', tick') \<and>
    frame s' = frame s \<and> pool_ids (sequences s') \<subseteq> pool_ids (sequences s) \<and>
    (settles G fin \<longrightarrow> res = Ok ()) \<and> (res = Ok () \<longrightarrow> sched_inv s' [])"
  using assms
proof (induction rows arbitrary: s tick)
  case (Cons row rest)
  obtain r samples where row: "row = (r, samples)" by (cases row)
  have inv: "sched_inv s (r # map fst rest)" using Cons.prems(1) row by simp
  have r: "ready r" "samples \<noteq> [] \<or> lifecycle r = Decoding" "rows_ok rest"
    using Cons.prems(2) row by (auto simp: rows_ok_def)
  obtain res r' gen where a: "apply_samples G r samples (tick_generated tick) = (res, r', gen)"
    by (cases "apply_samples G r samples (tick_generated tick)")
  show ?case
  proof (cases res)
    case (Inl e)
    have "\<not> settles G fin"
      using apply_samples_settles [of G fin r samples "tick_generated tick"] a Inl by (auto simp: is_ok_def)
    then show ?thesis using a row Inl by (simp add: frame_def)
  next
    case (Inr u)
    have s: "sampled_ok r r'"
      using apply_samples_ok a Inr sched_inv_batch [OF inv] r(1,2) by blast
    show ?thesis
    proof (cases "lifecycle r' = Finished")
      case False
      then have r': "lifecycle r' = Decoding" "request_ok r'" "request_id r' = request_id r"
        "sequence_id r' = sequence_id r" using s by (auto simp: sampled_ok_def)
      let ?s = "s\<lparr>decoding := decoding s @ [request_id r], requests := fmupd (request_id r) r' (requests s)\<rparr>"
      have "sched_inv ?s (map fst rest)"
        using sched_inv_put [where fw = "\<lambda>W. W" and fp = "\<lambda>P. P" and fd = "\<lambda>D. D @ [request_id r]",
            OF inv r'(3,4,2) queues_ok_put(1) [OF _ _ r'(1)]] by simp
      from Cons.IH [OF this r(3), of "tick\<lparr>tick_generated := gen\<rparr>"] show ?thesis
        using a Inr row False r'(3) by (simp add: frame_def)
    next
      case True
      obtain q where q: "sequence_id r = Some q" using ready_sequence [OF sched_inv_batch [OF inv] r(1)] by blast
      let ?r = "r'\<lparr>sequence_id := None\<rparr>"
      have r': "request_id ?r = request_id r" "sequence_id ?r = None" "request_ok ?r" "lifecycle ?r = Finished"
        "sequence_id r' = Some q"
        using s True q by (auto simp: sampled_ok_def)
      let ?pool = "(sequences s)\<lparr>pool_sequences := fmdrop q (pool_sequences (sequences s))\<rparr>"
      let ?s = "s\<lparr>sequences := ?pool, requests := fmupd (request_id r) ?r (requests s)\<rparr>"
      obtain bytes where rel: "pool_release (sequences s) q = (Inr bytes, ?pool)"
        using sched_inv_finish(1) [OF inv q r'(1-4)] by blast
      have sub: "pool_ids ?pool \<subseteq> pool_ids (sequences s)" by (auto simp: pool_ids_drop)
      show ?thesis
      proof (cases "fin ?r")
        case (Inl e)
        have "\<not> settles G fin" using Inl unfolding settles_def is_ok_def by (metis sum.simps(5))
        then show ?thesis
          using a \<open>res = Inr u\<close> row True rel r' sub Inl by (simp add: frame_def)
      next
        case (Inr v)
        have eq: "settle_batch G fin (row # rest) s tick = settle_batch G fin rest ?s
          (tick\<lparr>tick_generated := gen, tick_finished := tick_finished tick @ [request_id r]\<rparr>)"
          using a \<open>res = Inr u\<close> row True rel r' Inr by simp
        show ?thesis
          using Cons.IH [OF sched_inv_finish(2) [OF inv q r'(1-4)] r(3),
              of "tick\<lparr>tick_generated := gen, tick_finished := tick_finished tick @ [request_id r]\<rparr>"]
            eq sub
          by (auto simp: frame_def)
      qed
    qed
  qed
qed (simp add: rows_ok_def frame_def)

declare settle_batch.simps [simp del]

lemma settle_batch_inv:
  assumes "sched_inv s (map fst rows)" "rows_ok rows"
  shows "\<exists>res s' tick'. settle_batch G fin rows s tick = Some (res, s', tick') \<and>
    frame s' = frame s \<and> pool_ids (sequences s') \<subseteq> pool_ids (sequences s) \<and>
    (res = Ok () \<or> settles G fin \<longrightarrow> sched_inv s' [])"
  using settle_batch_ok [OF assms, of G fin tick] by blast

text \<open>
  What a batch execution may do to a request: advance its speculative state and the pending mask of
  its grammar. Samples come one per row; a verification may accept none for a request that already
  decodes.
\<close>

definition same_schedule :: "'g Request \<Rightarrow> 'g Request \<Rightarrow> bool" where
  "same_schedule r r' \<longleftrightarrow>
     r'\<lparr>tool_grammar := tool_grammar r, mtp_state := mtp_state r, dflash2_state := dflash2_state r,
        spec_frontier := spec_frontier r, spec_ready := spec_ready r, spec_started := spec_started r\<rparr> = r"

lemma same_scheduleD:
  assumes "same_schedule r r'"
  shows "request_id r' = request_id r" "lifecycle r' = lifecycle r" "sequence_id r' = sequence_id r"
    "request_ok r' = request_ok r" "ready r' = ready r" "prompt_position r' = prompt_position r"
    "prompt_tokens r' = prompt_tokens r" "request_config r' = request_config r"
    "generated_tokens r' = generated_tokens r" "finish_reason r' = finish_reason r"
    "last_token r' = last_token r" "prefix_target r' = prefix_target r" "prefix_retained r' = prefix_retained r"
proof -
  obtain g m d f x y where r: "r = r'\<lparr>tool_grammar := g, mtp_state := m, dflash2_state := d,
        spec_frontier := f, spec_ready := x, spec_started := y\<rparr>"
    using assms unfolding same_schedule_def by metis
  show "request_id r' = request_id r" "lifecycle r' = lifecycle r" "sequence_id r' = sequence_id r"
    "request_ok r' = request_ok r" "ready r' = ready r" "prompt_position r' = prompt_position r"
    "prompt_tokens r' = prompt_tokens r" "request_config r' = request_config r"
    "generated_tokens r' = generated_tokens r" "finish_reason r' = finish_reason r"
    "last_token r' = last_token r" "prefix_target r' = prefix_target r" "prefix_retained r' = prefix_retained r"
    unfolding r
    by (simp_all add: request_ok_def ready_def remaining_prompt_tokens_def split: RequestState.split)
qed

definition decode_execution_ok :: "'g decode_execution \<Rightarrow> bool" where
  "decode_execution_ok X \<longleftrightarrow>
     (\<forall>r res r'. exec_speculative X r = (res, r') \<longrightarrow>
        same_schedule r r' \<and> (\<forall>samples n. res = Ok (samples, n) \<longrightarrow> samples \<noteq> [] \<or> lifecycle r = Decoding)) \<and>
     (\<forall>sel res batch. exec_decode X sel = (res, batch) \<longrightarrow>
        list_all2 same_schedule sel batch \<and> (\<forall>xs. res = Ok xs \<longrightarrow> length xs = length sel))"

text \<open>The batch in hand may be exchanged for one with the same schedule.\<close>

lemma sched_inv_exchange:
  assumes inv: "sched_inv s sel" and same: "list_all2 same_schedule sel batch"
  shows "sched_inv s batch"
proof -
  have ids: "map request_id batch = map request_id sel"
    using same by (induction rule: list_all2_induct) (auto dest: same_scheduleD)
  have fst_eq: "map fst (map (\<lambda>r. (request_id r, r)) xs) = map request_id xs" for xs :: "'a Request list"
    by simp
  have ok: "batch_ok (requests s) sel" "store_ok (everyone (requests s) sel) (sequences s) (next_id s)"
    using inv by (auto simp: sched_inv_def)
  have batch: "batch_ok (requests s) batch"
    using ok(1) ids unfolding batch_ok_def
    by (metis (no_types, lifting) image_iff list.set_map)
  have rel: "rel_option same_schedule (everyone (requests s) sel i) (everyone (requests s) batch i)" for i
  proof (cases "fmlookup (requests s) i")
    case None
    have "rel_option same_schedule (map_of (map (\<lambda>r. (request_id r, r)) sel) i)
        (map_of (map (\<lambda>r. (request_id r, r)) batch) i)"
      using same by (induction rule: list_all2_induct) (auto dest: same_scheduleD(1))
    then show ?thesis using None by (simp add: everyone_def map_add_def)
  next
    case (Some r)
    then show ?thesis by (simp add: everyone_def map_add_def same_schedule_def)
  qed
  have "sequence_of (everyone (requests s) batch) = sequence_of (everyone (requests s) sel)"
  proof
    fix i show "sequence_of (everyone (requests s) batch) i = sequence_of (everyone (requests s) sel) i"
      using rel [of i] by (auto simp: sequence_of_def option_rel_Some1 split: option.splits dest: same_scheduleD)
  qed
  moreover have "request_id r = i \<and> i < next_id s \<and> request_ok r"
    if some: "everyone (requests s) batch i = Some r" for i r
  proof -
    obtain r0 where r0: "everyone (requests s) sel i = Some r0" "same_schedule r0 r"
      using rel [of i] some by (auto simp: option_rel_Some2)
    then show ?thesis using store_okD(1) [OF ok(2) r0(1)] same_scheduleD [OF r0(2)] by simp
  qed
  ultimately have "store_ok (everyone (requests s) batch) (sequences s) (next_id s)"
    using ok(2) unfolding store_ok_def by auto
  then show ?thesis using inv batch by (simp add: sched_inv_def)
qed

text \<open>A batch that failed to run goes back to the front of the queues, in its order.\<close>

lemma batch_ok_swap: "batch_ok reqs (sel @ [r]) \<longleftrightarrow> batch_ok reqs (r # sel)"
  by (auto simp: batch_ok_def)

lemma everyone_swap:
  assumes "batch_ok reqs (sel @ [r])"
  shows "everyone reqs (sel @ [r]) = everyone reqs (r # sel)"
  by (rule everyone_eq) (use assms batch_ok_swap in auto)

lemma sched_inv_swap: "sched_inv s (sel @ [r]) \<Longrightarrow> sched_inv s (r # sel)"
  using everyone_swap batch_ok_swap unfolding sched_inv_def by metis

lemma requeue_one_ok:
  assumes "sched_inv s (r # sel)" "lifecycle r = Decoding \<or> lifecycle r = Prefilling"
  shows "sched_inv (requeue_one r s) sel"
proof (cases "lifecycle r = Decoding")
  case True
  show ?thesis
    using sched_inv_put [where fw = "\<lambda>W. W" and fp = "\<lambda>P. P" and fd = "\<lambda>D. request_id r # D",
        OF assms(1) refl refl sched_inv_batch [OF assms(1)] queues_ok_put(2) [OF _ _ True]] True
    by (simp add: requeue_one_def)
next
  case False
  then have P: "lifecycle r = Prefilling" using assms(2) by simp
  show ?thesis
    using sched_inv_put [where fw = "\<lambda>W. W" and fp = "\<lambda>P. request_id r # P" and fd = "\<lambda>D. D",
        OF assms(1) refl refl sched_inv_batch [OF assms(1)] queues_ok_put(4) [OF _ _ P]] P
    by (simp add: requeue_one_def)
qed

lemma requeue_frame: "frame (requeue_one r s) = frame s" "sequences (requeue_one r s) = sequences s"
  by (simp_all add: requeue_one_def frame_def Let_def)

lemma requeue_selected_ok:
  assumes "sched_inv s sel" "\<forall>r \<in> set sel. lifecycle r = Decoding \<or> lifecycle r = Prefilling"
  shows "sched_inv (requeue_selected sel s) []" "frame (requeue_selected sel s) = frame s"
    "sequences (requeue_selected sel s) = sequences s"
  using assms unfolding requeue_selected_def
proof (induction sel arbitrary: s rule: rev_induct)
  case (snoc r sel)
  {
    case 1
    have "sched_inv (requeue_one r s) sel"
      using requeue_one_ok [OF sched_inv_swap [OF 1(1)]] 1(2) by simp
    then show ?case using snoc.IH(1) 1(2) by simp
  next
    case 2
    then show ?case
      using snoc.IH(2) [OF requeue_one_ok [OF sched_inv_swap [OF 2(1)]]] requeue_frame by simp
  next
    case 3
    then show ?case
      using snoc.IH(3) [OF requeue_one_ok [OF sched_inv_swap [OF 3(1)]]] requeue_frame by simp
  }
qed simp_all

text \<open>
  The decode phase never panics on a scheduler that meets the invariant. It keeps the invariant when
  it succeeds, and also when the batch fails to run.
\<close>

lemma sched_inv_keyed: "sched_inv s [] \<Longrightarrow> keyed (requests s)"
  unfolding keyed_def sched_inv_def using store_okD(1) by fastforce

lemma decode_selection_ok:
  assumes "sched_inv s []"
  obtains dec reqs1 sel1 pre reqs2 sel where
    "pop_decoding (decode_capacity (config s)) (decoding s) (requests s) [] = Some (dec, reqs1, sel1)"
    "scan_prefilling (decode_capacity (config s)) (prefilling s) [] reqs1 sel1 = Some (pre, reqs2, sel)"
    "sched_inv (s\<lparr>decoding := dec, prefilling := pre, requests := reqs2\<rparr>) sel"
    "\<forall>r \<in> set sel. ready r" "everyone reqs2 sel = fmlookup (requests s)"
    "length sel \<le> decode_capacity (config s)"
proof -
  let ?cap = "decode_capacity (config s)"
  have q: "queues_ok (requests s) (waiting s) (prefilling s) (decoding s)"
    and store: "store_ok (fmlookup (requests s)) (sequences s) (next_id s)"
    using assms by (auto simp: sched_inv_def)
  have none: "batch_ok (requests s) []" by (simp add: batch_ok_def)
  obtain reqs1 sel1 where pop:
    "pop_decoding ?cap (decoding s) (requests s) [] = Some (drop ?cap (decoding s), reqs1, sel1)"
    "queues_ok reqs1 (waiting s) (prefilling s) (drop ?cap (decoding s))" "batch_ok reqs1 sel1" "keyed reqs1"
    "everyone reqs1 sel1 = fmlookup (requests s)" "\<forall>r \<in> set sel1. ready r"
    "map request_id sel1 = take ?cap (decoding s)"
    using pop_decoding_ok [OF q none sched_inv_keyed [OF assms], of ?cap] by auto
  have len: "length sel1 \<le> ?cap" using arg_cong [OF pop(7), of length] by simp
  obtain pre reqs2 sel where scan:
    "scan_prefilling ?cap (prefilling s) [] reqs1 sel1 = Some (pre, reqs2, sel)"
    "queues_ok reqs2 (waiting s) pre (drop ?cap (decoding s))" "batch_ok reqs2 sel"
    "everyone reqs2 sel = everyone reqs1 sel1" "\<forall>r \<in> set sel. ready r" "length sel \<le> ?cap"
    using scan_prefilling_ok [of reqs1 "waiting s" "prefilling s" "[]" "drop ?cap (decoding s)" sel1 ?cap] pop(2-4,6) len by auto
  show thesis
    by (rule that [OF pop(1) scan(1)]) (use scan pop(5) store in \<open>simp_all add: sched_inv_def\<close>)
qed

definition batch_failed :: "'g decode_execution \<Rightarrow> 'g Scheduler \<Rightarrow> bool" where
  "batch_failed X s \<longleftrightarrow>
     (\<exists>dec reqs1 sel1 pre reqs2 sel.
        pop_decoding (decode_capacity (config s)) (decoding s) (requests s) [] = Some (dec, reqs1, sel1) \<and>
        scan_prefilling (decode_capacity (config s)) (prefilling s) [] reqs1 sel1 = Some (pre, reqs2, sel) \<and>
        sel \<noteq> [] \<and>
        (if length sel = 1 \<and> spec_eligible s (hd sel) then isl (fst (exec_speculative X (hd sel)))
         else isl (fst (exec_decode X sel))))"

lemma spec_eligible_queues [simp]:
  "spec_eligible (s\<lparr>decoding := dec, prefilling := pre, requests := reqs\<rparr>) r = spec_eligible s r"
  by (simp add: spec_eligible_def)

lemma ready_lifecycle: "ready r \<Longrightarrow> lifecycle r = Decoding \<or> lifecycle r = Prefilling"
  by (auto simp: ready_def)

lemma run_decode_phase_ok:
  assumes inv: "sched_inv s []" and X: "decode_execution_ok X"
  shows "\<exists>res s' tick'. run_decode_phase G X s tick = Some (res, s', tick') \<and> frame s' = frame s \<and>
    pool_ids (sequences s') \<subseteq> pool_ids (sequences s) \<and>
    (res = Ok () \<or> batch_failed X s \<or> settles G (exec_finish X) \<longrightarrow> sched_inv s' [])"
proof -
  obtain dec reqs1 sel1 pre reqs2 sel where
    pop: "pop_decoding (decode_capacity (config s)) (decoding s) (requests s) [] = Some (dec, reqs1, sel1)"
    and scan: "scan_prefilling (decode_capacity (config s)) (prefilling s) [] reqs1 sel1 = Some (pre, reqs2, sel)"
    and sel: "sched_inv (s\<lparr>decoding := dec, prefilling := pre, requests := reqs2\<rparr>) sel" "\<forall>r \<in> set sel. ready r"
    using decode_selection_ok [OF inv] by metis
  let ?s = "s\<lparr>decoding := dec, prefilling := pre, requests := reqs2\<rparr>"
  let ?tick = "tick\<lparr>tick_scheduled := tick_scheduled tick @ map request_id sel\<rparr>"
  have failed: "batch_failed X s \<longleftrightarrow> sel \<noteq> [] \<and>
      (if length sel = 1 \<and> spec_eligible s (hd sel) then isl (fst (exec_speculative X (hd sel)))
       else isl (fst (exec_decode X sel)))"
    using pop scan by (simp add: batch_failed_def)
  show ?thesis
  proof (cases "sel = []")
    case True
    then show ?thesis using pop scan sel by (simp add: run_decode_phase_def frame_def)
  next
    case False
    show ?thesis
    proof (cases "length sel = 1 \<and> spec_eligible s (hd sel)")
      case True
      then obtain r0 where r0: "sel = [r0]" by (cases sel) auto
      obtain res r where x: "exec_speculative X r0 = (res, r)" by (cases "exec_speculative X r0")
      have same: "same_schedule r0 r"
        and samples: "\<And>samples n. res = Ok (samples, n) \<Longrightarrow> samples \<noteq> [] \<or> lifecycle r0 = Decoding"
        using X x unfolding decode_execution_ok_def by blast+
      have inv': "sched_inv ?s [r]" using sched_inv_exchange [OF sel(1)] r0 same by simp
      have rr: "ready r" using same_scheduleD(5) [OF same] sel(2) r0 by simp
      show ?thesis
      proof (cases res)
        case (Inl e)
        then show ?thesis
          using requeue_selected_ok [OF inv'] ready_lifecycle [OF rr] pop scan True r0 x
          by (simp add: run_decode_phase_def frame_def)
      next
        case (Inr sn)
        obtain samples n where sn: "sn = (samples, n)" by (cases sn)
        have "samples \<noteq> [] \<or> lifecycle r = Decoding"
          using samples [of samples n] Inr sn same_scheduleD(2) [OF same] by simp
        then have "rows_ok [(r, samples)]" using rr by (simp add: rows_ok_def)
        moreover have "run_decode_phase G X s tick = settle_batch G (exec_finish X) [(r, samples)] ?s
            (?tick\<lparr>tick_speculative := tick_speculative ?tick @ [(request_id r0, n)]\<rparr>)"
          using pop scan True r0 x Inr sn
          by (simp add: run_decode_phase_def Let_def)
        ultimately show ?thesis
          using settle_batch_inv [of ?s "[(r, samples)]" G "exec_finish X"] inv' failed True r0 x Inr by (simp add: frame_def)
      qed
    next
      case plain: False
      obtain res batch where x: "exec_decode X sel = (res, batch)" by (cases "exec_decode X sel")
      have same: "list_all2 same_schedule sel batch" and len: "\<And>xs. res = Ok xs \<Longrightarrow> length xs = length sel"
        using X x unfolding decode_execution_ok_def by blast+
      have inv': "sched_inv ?s batch" by (rule sched_inv_exchange [OF sel(1) same])
      have rb: "\<forall>r \<in> set batch. ready r"
        using same sel(2) by (induction rule: list_all2_induct) (auto dest: same_scheduleD(5))
      have lc: "\<forall>r \<in> set batch. lifecycle r = Decoding \<or> lifecycle r = Prefilling"
        using rb ready_lifecycle by blast
      show ?thesis
      proof (cases res)
        case (Inl e)
        then show ?thesis
          using requeue_selected_ok [OF inv' lc] pop scan plain False x
          by (auto simp: run_decode_phase_def Let_def frame_def)
      next
        case (Inr xs)
        have l: "length batch = length xs" using len Inr list_all2_lengthD [OF same] by simp
        then have rows: "map fst (zip batch (map (\<lambda>x. [x]) xs)) = batch" by simp
        have "rows_ok (zip batch (map (\<lambda>x. [x]) xs))"
          using rb by (auto simp: rows_ok_def dest: set_zip_leftD set_zip_rightD)
        moreover have "run_decode_phase G X s tick =
            settle_batch G (exec_finish X) (zip batch (map (\<lambda>x. [x]) xs)) ?s ?tick"
          using pop scan plain False x Inr by (auto simp: run_decode_phase_def Let_def)
        moreover have "\<not> batch_failed X s" using failed plain x Inr by auto
        ultimately show ?thesis
          using settle_batch_inv [of ?s "zip batch (map (\<lambda>x. [x]) xs)" G "exec_finish X"] inv' rows
          by (simp add: frame_def)
      qed
    qed
  qed
qed

section \<open>The prefill phase\<close>

lemma count_eligible_ok:
  assumes "\<And>i. i \<in> set queue \<Longrightarrow> fmlookup reqs i \<noteq> None"
  shows "\<exists>k \<le> n. count_eligible n queue reqs = Some k"
  using assms
proof (induction n queue reqs rule: count_eligible.induct)
  case (3 n i queue reqs)
  obtain r where r: "fmlookup reqs i = Some r" using "3.prems" [of i] by auto
  show ?case
  proof (cases "prefillable_tokens r > 0")
    case True
    then obtain k where "k \<le> n" "count_eligible n queue reqs = Some k" using "3.IH"(1) [OF r] "3.prems" by auto
    then show ?thesis using True r by auto
  next
    case False
    then show ?thesis using "3.IH"(2) [OF r] "3.prems" r by auto
  qed
qed auto

text \<open>
  A chunk never exceeds what can be prefilled or the fair share, is never empty when both are
  positive, and stops at the checkpoint.
\<close>

lemma prefill_chunk_bounds:
  assumes "0 < available" "0 < share"
  shows "0 < prefill_chunk_tokens available share pos target retained"
    and "prefill_chunk_tokens available share pos target retained \<le> available"
    and "prefill_chunk_tokens available share pos target retained \<le> share"
    and "\<not> retained \<Longrightarrow> pos < target \<Longrightarrow> pos + prefill_chunk_tokens available share pos target retained \<le> target"
  using assms by (auto simp: prefill_chunk_tokens_def Let_def min_def)

lemma fair_share_bounds:
  assumes "0 < n" "0 < k"
  shows "0 < div_ceil n k" "div_ceil n k \<le> n"
proof -
  show "0 < div_ceil n k"
    using assms by (auto simp: div_ceil_def div_greater_zero_iff)
  have "n div k < n" if "n mod k \<noteq> 0"
    using that assms by (metis div_less_dividend less_one linorder_neqE_nat mod_by_1 not_less0)
  then show "div_ceil n k \<le> n" by (auto simp: div_ceil_def Suc_le_eq)
qed

text \<open>
  Rows of a prefill batch: each takes part of a prompt, leaves its last token, and stops at the
  prefix to be retained.
\<close>

definition chunk_ok :: "'g Request \<times> nat \<Rightarrow> bool" where
  "chunk_ok = (\<lambda>(r, c). lifecycle r = Prefilling \<and> 0 < c \<and> c \<le> prefillable_tokens r \<and>
     (\<not> prefix_retained r \<and> prompt_position r < prefix_target r \<longrightarrow> prompt_position r + c \<le> prefix_target r))"

lemma select_prefill_ok:
  assumes "queues_ok reqs W (P @ kept) D" "batch_ok reqs (map fst sel)" "keyed reqs"
    "\<forall>row \<in> set sel. chunk_ok row" "length sel + slots = eligible"
  shows "\<exists>P' reqs' sel'. select_prefill eligible P kept reqs budget slots sel = Some (P', reqs', sel') \<and>
    queues_ok reqs' W P' D \<and> batch_ok reqs' (map fst sel') \<and> keyed reqs' \<and>
    everyone reqs' (map fst sel') = everyone reqs (map fst sel) \<and> (\<forall>row \<in> set sel'. chunk_ok row) \<and>
    length sel' \<le> eligible \<and> (\<exists>new. sel' = sel @ new \<and> sum_list (map snd new) \<le> budget)"
  using assms
proof (induction P arbitrary: kept reqs budget slots sel)
  case (Cons i rest)
  show ?case
  proof (cases "length sel = eligible \<or> budget = 0")
    case True
    then show ?thesis using Cons.prems by auto
  next
    case False
    then have slots: "0 < slots" and budget: "0 < budget" using Cons.prems(5) by auto
    obtain r where r: "fmlookup reqs i = Some r" "lifecycle r = Prefilling"
      using queue_ok_lookup [of reqs Prefilling "i # rest @ kept" i] Cons.prems(1)
      by (auto simp: queues_ok_def)
    have ri: "request_id r = i" using Cons.prems(3) r(1) by (simp add: keyed_def)
    show ?thesis
    proof (cases "prefillable_tokens r = 0")
      case True
      have "queues_ok reqs W (rest @ kept @ [i]) D" using queues_ok_rotate Cons.prems(1) by simp
      from Cons.IH [OF this Cons.prems(2-5)] show ?thesis using False True r(1) by simp
    next
      case some: False
      define c where "c = prefill_chunk_tokens (prefillable_tokens r) (div_ceil budget slots)
        (prompt_position r) (prefix_target r) (prefix_retained r)"
      have c: "0 < c" "c \<le> prefillable_tokens r" "c \<le> budget"
        using prefill_chunk_bounds [of "prefillable_tokens r" "div_ceil budget slots"]
          fair_share_bounds [OF budget slots] some unfolding c_def by (simp_all add: order_trans [OF _ fair_share_bounds(2) [OF budget slots]])
      have stop: "prompt_position r + c \<le> prefix_target r"
        if "\<not> prefix_retained r" "prompt_position r < prefix_target r"
        unfolding c_def
        by (rule prefill_chunk_bounds(4) [OF _ fair_share_bounds(1) [OF budget slots] that]) (use some in simp)
      have take: "batch_ok (fmdrop i reqs) (map fst (sel @ [(r, c)]))"
        "everyone (fmdrop i reqs) (map fst (sel @ [(r, c)])) = everyone reqs (map fst sel)"
        using batch_ok_take [OF Cons.prems(2) r(1) ri] by simp_all
      have "queues_ok (fmdrop i reqs) W (rest @ kept) D"
        using queues_ok_pop(2) [OF Cons.prems(1)] by simp
      moreover have "\<forall>row \<in> set (sel @ [(r, c)]). chunk_ok row"
        using Cons.prems(4) c stop r(2) by (simp add: chunk_ok_def)
      moreover have "length (sel @ [(r, c)]) + (slots - 1) = eligible" using Cons.prems(5) slots by simp
      ultimately obtain P' reqs' sel' new where IH:
        "select_prefill eligible rest kept (fmdrop i reqs) (budget - c) (slots - 1) (sel @ [(r, c)]) =
          Some (P', reqs', sel')"
        "queues_ok reqs' W P' D" "batch_ok reqs' (map fst sel')" "keyed reqs'"
        "everyone reqs' (map fst sel') = everyone reqs (map fst sel)" "\<forall>row \<in> set sel'. chunk_ok row"
        "length sel' \<le> eligible" "sel' = (sel @ [(r, c)]) @ new" "sum_list (map snd new) \<le> budget - c"
        using Cons.IH [OF _ take(1) keyed_drop [OF Cons.prems(3)], of kept "slots - 1" "budget - c"] take(2)
        by metis
      moreover have "sel' = sel @ ((r, c) # new)" "sum_list (map snd ((r, c) # new)) \<le> budget"
        using IH(8,9) c(3) by simp_all
      moreover have "select_prefill eligible (i # rest) kept reqs budget slots sel = Some (P', reqs', sel')"
        using IH(1) False some r(1) by (simp add: c_def Let_def)
      ultimately show ?thesis by blast
    qed
  qed
qed auto

text \<open>Leasing sequences is all or nothing, and dropping the lease restores the pool.\<close>

lemma lookup_restore:
  "fmlookup (foldl (\<lambda>m (i, b). fmupd i b m) m es) j =
     (case map_of (rev es) j of None \<Rightarrow> fmlookup m j | Some b \<Rightarrow> Some b)"
  by (induction es rule: rev_induct) (auto split: prod.splits option.splits)

lemma restore_taken:
  assumes "fmlookup m q = Some b" "q \<notin> fst ` set es"
  shows "foldl (\<lambda>m (i, b). fmupd i b m) (fmdrop q m) (es @ [(q, b)]) = foldl (\<lambda>m (i, b). fmupd i b m) m es"
proof (rule fmap_ext)
  have "map_of (rev es) q = None" using assms(2) by (simp add: map_of_eq_None_iff)
  then show "fmlookup (foldl (\<lambda>m (i, b). fmupd i b m) (fmdrop q m) (es @ [(q, b)])) j =
      fmlookup (foldl (\<lambda>m (i, b). fmupd i b m) m es) j" for j
    using assms(1) by (auto simp: lookup_restore split: option.split)
qed

lemma lease_entries_restores:
  assumes "lease_entries p es qs = (res, p')" "fst ` set es \<inter> fset (fmdom (pool_sequences p)) = {}"
  shows "pool_next p' = pool_next p \<and>
    (case res of
       Inl _ \<Rightarrow> pool_sequences p' = foldl (\<lambda>m (i, b). fmupd i b m) (pool_sequences p) es
     | Inr es' \<Rightarrow> foldl (\<lambda>m (i, b). fmupd i b m) (pool_sequences p') es' =
         foldl (\<lambda>m (i, b). fmupd i b m) (pool_sequences p) es)"
  using assms
proof (induction qs arbitrary: p es)
  case (Cons q qs)
  show ?case
  proof (cases "fmlookup (pool_sequences p) q")
    case None
    then show ?thesis using Cons.prems(1) by auto
  next
    case (Some b)
    have q: "q \<notin> fst ` set es" using Some Cons.prems(2) by (auto dest: fmdomI)
    let ?p = "p\<lparr>pool_sequences := fmdrop q (pool_sequences p)\<rparr>"
    have "fst ` set (es @ [(q, b)]) \<inter> fset (fmdom (pool_sequences ?p)) = {}"
      using Cons.prems(2) by auto
    from Cons.IH [OF _ this] show ?thesis
      using Cons.prems(1) Some restore_taken [OF Some q] by (cases res) simp_all
  qed
qed auto

lemma lease_entries_succeeds:
  assumes "distinct qs" "\<forall>q \<in> set qs. q |\<in>| fmdom (pool_sequences p)"
  shows "\<exists>es' p'. lease_entries p es qs = (Inr es', p')"
  using assms
proof (induction qs arbitrary: p es)
  case (Cons q qs)
  obtain b where b: "fmlookup (pool_sequences p) q = Some b" using Cons.prems(2) by (auto elim: fmdomE)
  have "\<forall>i \<in> set qs. i |\<in>| fmdom (pool_sequences (p\<lparr>pool_sequences := fmdrop q (pool_sequences p)\<rparr>))"
    using Cons.prems by auto
  then show ?case using Cons.IH [of "p\<lparr>pool_sequences := fmdrop q (pool_sequences p)\<rparr>"] Cons.prems(1) b by simp
qed simp

lemma lease_many_ok:
  assumes "distinct qs" "set qs \<subseteq> pool_ids p"
  shows "\<exists>entries pool. lease_many p qs = (Inr entries, pool) \<and> lease_drop pool entries = p"
proof -
  obtain es p' where l: "lease_entries p [] qs = (Inr es, p')"
    using lease_entries_succeeds assms by (metis pool_ids_def subsetD)
  have "lease_drop p' es = p"
    using lease_entries_restores [OF l] by (simp add: lease_drop_def)
  then show ?thesis using l assms(1) by (simp add: lease_many_def distinct_card)
qed

text \<open>The sequences of a batch in hand can be leased.\<close>

lemma batch_sequences:
  assumes inv: "sched_inv s sel" and "list_all2 (\<lambda>r q. sequence_id r = Some q) sel qs"
  shows "distinct qs" "set qs \<subseteq> pool_ids (sequences s)"
proof -
  have ok: "batch_ok (requests s) sel" "store_ok (everyone (requests s) sel) (sequences s) (next_id s)"
    using inv by (auto simp: sched_inv_def)
  have owner: "sequence_of (everyone (requests s) sel) (request_id r) = Some q"
    if "r \<in> set sel" "sequence_id r = Some q" for r q
    using everyone_lookup [OF ok(1), of "request_id r" r] that by (simp add: sequence_of_def)
  have zip: "(r, q) \<in> set (zip sel qs) \<Longrightarrow> r \<in> set sel \<and> sequence_id r = Some q" for r q
    using assms(2) by (auto simp: list_all2_iff dest: set_zip_leftD)
  have len: "length sel = length qs" using assms(2) by (rule list_all2_lengthD)
  show "set qs \<subseteq> pool_ids (sequences s)"
  proof
    fix q assume "q \<in> set qs"
    then obtain r where "(r, q) \<in> set (zip sel qs)" using len by (metis in_set_impl_in_set_zip2)
    then show "q \<in> pool_ids (sequences s)"
      using zip owner store_okD(2) [OF ok(2)] by (metis ranI)
  qed
  have "map (sequence_of (everyone (requests s) sel)) (map request_id sel) = map Some qs"
  proof (rule nth_equalityI)
    fix i assume i: "i < length (map (sequence_of (everyone (requests s) sel)) (map request_id sel))"
    then have "sel ! i \<in> set sel" "sequence_id (sel ! i) = Some (qs ! i)"
      using assms(2) by (auto simp: list_all2_conv_all_nth)
    then show "map (sequence_of (everyone (requests s) sel)) (map request_id sel) ! i = map Some qs ! i"
      using owner i len by simp
  qed (simp add: len)
  moreover have "inj_on (sequence_of (everyone (requests s) sel)) (set (map request_id sel))"
  proof (rule inj_on_subset [OF store_okD(3) [OF ok(2)]])
    show "set (map request_id sel) \<subseteq> dom (sequence_of (everyone (requests s) sel))"
    proof
      fix i assume "i \<in> set (map request_id sel)"
      then obtain r where r: "r \<in> set sel" "i = request_id r" by auto
      then obtain q where "(r, q) \<in> set (zip sel qs)" using len by (metis in_set_impl_in_set_zip1)
      then show "i \<in> dom (sequence_of (everyone (requests s) sel))" using zip owner r(2) by blast
    qed
  qed
  moreover have "distinct (map request_id sel)" using ok(1) by (simp add: batch_ok_def)
  ultimately have "distinct (map Some qs)" by (metis distinct_map)
  then show "distinct qs" by (simp add: distinct_map)
qed

lemma same_schedule_refl [simp]: "same_schedule r r"
  by (simp add: same_schedule_def)

lemma disable_speculation_same: "same_schedule r (disable_speculation r)"
  by (simp add: same_schedule_def disable_speculation_def)

lemma advance_speculation_same: "same_schedule r (advance_speculation X r)"
  by (simp add: same_schedule_def advance_speculation_def disable_speculation_def Let_def)

lemma chunk_ok_same:
  "same_schedule r r' \<Longrightarrow> chunk_ok (r, c) \<Longrightarrow> chunk_ok (r', c)"
  by (simp add: chunk_ok_def prefillable_tokens_def remaining_prompt_tokens_def same_scheduleD)

text \<open>A batch of chunks whose requests are exchanged for ones with the same schedule.\<close>

lemma chunks_exchange:
  assumes "sched_inv s (map fst rows)" "\<forall>row \<in> set rows. chunk_ok row" "\<And>r. same_schedule r (f r)"
  shows "sched_inv s (map fst (map (\<lambda>(r, c). (f r, c)) rows))"
    "\<forall>row \<in> set (map (\<lambda>(r, c). (f r, c)) rows). chunk_ok row"
proof -
  have "list_all2 same_schedule (map fst rows) (map fst (map (\<lambda>(r, c). (f r, c)) rows))"
    using assms(3) by (auto simp: list_all2_conv_all_nth split: prod.splits)
  then show "sched_inv s (map fst (map (\<lambda>(r, c). (f r, c)) rows))"
    by (rule sched_inv_exchange [OF assms(1)])
  show "\<forall>row \<in> set (map (\<lambda>(r, c). (f r, c)) rows). chunk_ok row"
    using assms(2,3) chunk_ok_same by fastforce
qed

lemma retain_request_checkpoint_eq:
  "\<exists>b. retain_request_checkpoint disabled at pool r = r\<lparr>prefix_retained := b\<rparr>"
  by (auto simp: retain_request_checkpoint_def split: option.split sum.split intro: exI [of _ "prefix_retained r"])

lemma finish_chunk_ok:
  assumes inv: "sched_inv s (r # sel)" and c: "chunk_ok (r, c)" and eq: "finish_chunk X r c s = (p, s')"
  shows "sched_inv s' sel \<and> frame s' = frame s \<and> sequences s' = sequences s"
proof -
  let ?r = "r\<lparr>prompt_position := prompt_position r + c\<rparr>"
  obtain b where b: "retain_request_checkpoint (exec_retain_disabled X) (exec_position X ?r) (sequences s) ?r =
      ?r\<lparr>prefix_retained := b\<rparr>"
    using retain_request_checkpoint_eq by blast
  let ?r' = "?r\<lparr>prefix_retained := b\<rparr>"
  have P: "lifecycle ?r' = Prefilling" using c by (simp add: chunk_ok_def)
  have ok: "request_ok ?r'"
    using sched_inv_batch [OF inv] c
    by (auto simp: request_ok_def chunk_ok_def prefillable_tokens_def remaining_prompt_tokens_def)
  have s': "s' = s\<lparr>prefilling := prefilling s @ [request_id r], requests := fmupd (request_id r) ?r' (requests s)\<rparr>"
    using eq b by (simp add: finish_chunk_def Let_def)
  show ?thesis
    using sched_inv_put [where fw = "\<lambda>W. W" and fp = "\<lambda>P. P @ [request_id r]" and fd = "\<lambda>D. D",
        OF inv _ _ ok queues_ok_put(3) [OF _ _ P]] s'
    by (simp add: frame_def)
qed

lemma finish_chunks_ok:
  assumes "sched_inv s (map fst rows)" "\<forall>row \<in> set rows. chunk_ok row" "finish_chunks X rows s ps = (s', ps')"
  shows "sched_inv s' [] \<and> frame s' = frame s \<and> sequences s' = sequences s"
  using assms
proof (induction rows arbitrary: s ps)
  case (Cons row rows)
  obtain r c where row: "row = (r, c)" by (cases row)
  obtain p s1 where f: "finish_chunk X r c s = (p, s1)" by (cases "finish_chunk X r c s")
  have "sched_inv s1 (map fst rows) \<and> frame s1 = frame s \<and> sequences s1 = sequences s"
    by (rule finish_chunk_ok [OF _ _ f]) (use Cons.prems row in simp_all)
  then show ?case using Cons.IH [of s1 "ps @ [p]"] Cons.prems row f by simp
qed simp

lemma requeue_prefill_ok:
  assumes "sched_inv s sel" "\<forall>r \<in> set sel. lifecycle r = Prefilling"
  shows "sched_inv (foldr requeue_prefill_one sel s) [] \<and> frame (foldr requeue_prefill_one sel s) = frame s \<and>
    sequences (foldr requeue_prefill_one sel s) = sequences s"
proof -
  have "requeue_prefill_one r t = requeue_one r t" if "lifecycle r = Prefilling" for r t
    using that by (simp add: requeue_prefill_one_def requeue_one_def)
  then have "foldr requeue_prefill_one sel s = requeue_selected sel s"
    using assms(2) unfolding requeue_selected_def by (intro foldr_cong) auto
  then show ?thesis using requeue_selected_ok [of s sel] assms by simp
qed

text \<open>
  Running a prefill batch keeps the invariant when it succeeds, and also when it fails provided that
  the speculative workspace is there and the stream synchronises.
\<close>

definition prefill_housekeeping :: "'g prefill_execution \<Rightarrow> bool" where
  "prefill_housekeeping X \<longleftrightarrow> is_ok (exec_dflash2_allocation X) \<and> is_ok (exec_prefill_sync X)"

lemma execute_prefill_ok:
  assumes inv: "sched_inv s (map fst sel0)" and rows: "\<forall>row \<in> set sel0. chunk_ok row"
    and eq: "execute_prefill X s sel0 = (res, s', ps)"
  shows "frame s' = frame s \<and> sequences s' = sequences s \<and>
    (res = Ok () \<or> prefill_housekeeping X \<longrightarrow> sched_inv s' [])"
proof -
  define warm where "warm = (\<exists>r \<in> set (map fst sel0). mtp_state r \<noteq> None \<and> spec_frontier r \<noteq> None)"
  define needs_mtp where "needs_mtp = (warm \<and> is_ok (exec_mtp_allocation X))"
  define sel where "sel = (if warm \<and> \<not> needs_mtp
    then map (\<lambda>(r, c). (disable_speculation r, c)) sel0 else sel0)"
  define needs_dflash2 where "needs_dflash2 = (\<exists>r \<in> set (map fst sel). dflash2_state r \<noteq> None)"
  have sel: "sched_inv s (map fst sel)" "\<forall>row \<in> set sel. chunk_ok row"
    using chunks_exchange [OF inv rows disable_speculation_same] inv rows unfolding sel_def by auto
  have P: "\<forall>r \<in> set (map fst sel). lifecycle r = Prefilling" using sel(2) by (auto simp: chunk_ok_def)
  have some: "\<forall>r \<in> set (map fst sel). sequence_id r \<noteq> None"
  proof
    fix r assume r: "r \<in> set (map fst sel)"
    have ok: "batch_ok (requests s) (map fst sel)"
      "store_ok (everyone (requests s) (map fst sel)) (sequences s) (next_id s)"
      using sel(1) by (auto simp: sched_inv_def)
    have "request_ok r"
      using store_okD(1) [OF ok(2), of "request_id r" r] everyone_lookup [OF ok(1)] r by blast
    moreover have "lifecycle r = Prefilling" using P r by blast
    ultimately show "sequence_id r \<noteq> None" by (simp add: request_ok_def)
  qed
  define qs where "qs = map (\<lambda>r. the (sequence_id r)) (map fst sel)"
  have qs: "list_all2 (\<lambda>r q. sequence_id r = Some q) (map fst sel) qs"
    using some unfolding qs_def list_all2_map2 list_all2_same by force
  then have ids: "map_result (\<lambda>r. ok_or (sequence_id r) (Format ''Qwen3.6 scheduled prefill'')) (map fst sel) = Inr qs"
    by (simp add: map_result_eq_Ok)
  obtain entries pool where lease: "lease_many (sequences s) qs = (Inr entries, pool)"
    "lease_drop pool entries = sequences s"
    using lease_many_ok [OF batch_sequences [OF sel(1) qs]] by blast
  have same: "s\<lparr>sequences := sequences s\<rparr> = s" by simp
  have run: "(res, s', ps) =
    (if needs_dflash2 \<and> \<not> is_ok (exec_dflash2_allocation X) then (exec_dflash2_allocation X, s, [])
     else case exec_prefill X sel of
       Inl e \<Rightarrow> (Err e, foldr requeue_prefill_one (map fst sel) s, [])
     | Inr _ \<Rightarrow>
         if (needs_mtp \<or> needs_dflash2) \<and> \<not> is_ok (exec_prefill_sync X) then (exec_prefill_sync X, s, [])
         else (case finish_chunks X (map (\<lambda>(r, c). (advance_speculation X r, c)) sel) s [] of
                 (s2, prefilled) \<Rightarrow> (Ok (), s2, prefilled)))"
    unfolding eq [symmetric] execute_prefill_def Let_def warm_def [symmetric] needs_mtp_def [symmetric]
      sel_def [symmetric] needs_dflash2_def [symmetric]
    by (simp only: ids lease same sum.case prod.case)
  obtain s2 ps2 where fin: "finish_chunks X (map (\<lambda>(r, c). (advance_speculation X r, c)) sel) s [] = (s2, ps2)"
    by (cases "finish_chunks X (map (\<lambda>(r, c). (advance_speculation X r, c)) sel) s []")
  note s2 = finish_chunks_ok [OF chunks_exchange [OF sel advance_speculation_same] fin]
  show ?thesis
    using run fin s2 requeue_prefill_ok [OF sel(1) P]
    by (auto simp: prefill_housekeeping_def is_ok_def split: if_splits sum.splits)
qed

lemma run_prefill_phase_ok:
  assumes inv: "sched_inv s []"
  shows "\<exists>res s' tick' ps. run_prefill_phase X s tick = Some (res, s', tick', ps) \<and> frame s' = frame s \<and>
    sequences s' = sequences s \<and> (res = Ok () \<or> prefill_housekeeping X \<longrightarrow> sched_inv s' [])"
proof -
  have q: "queues_ok (requests s) (waiting s) (prefilling s) (decoding s)"
    and store: "store_ok (fmlookup (requests s)) (sequences s) (next_id s)"
    using inv by (auto simp: sched_inv_def)
  have "fmlookup (requests s) i \<noteq> None" if "i \<in> set (prefilling s)" for i
    using queue_ok_lookup [of "requests s" Prefilling "prefilling s" i] q that by (auto simp: queues_ok_def)
  then obtain n where n: "count_eligible (prefill_sequence_capacity (config s)) (prefilling s) (requests s) = Some n"
    using count_eligible_ok by blast
  show ?thesis
  proof (cases "n = 0")
    case True
    then show ?thesis using n inv by (simp add: run_prefill_phase_def)
  next
    case False
    obtain P' reqs' sel where sel:
      "select_prefill n (prefilling s) [] (requests s) (prefill_token_capacity (config s)) n [] =
        Some (P', reqs', sel)"
      "queues_ok reqs' (waiting s) P' (decoding s)" "batch_ok reqs' (map fst sel)"
      "everyone reqs' (map fst sel) = fmlookup (requests s)" "\<forall>row \<in> set sel. chunk_ok row"
      using select_prefill_ok [of "requests s" "waiting s" "prefilling s" "[]" "decoding s" "[]" n n
          "prefill_token_capacity (config s)"] q sched_inv_keyed [OF inv]
      by (auto simp: batch_ok_def)
    let ?s = "s\<lparr>prefilling := P', requests := reqs'\<rparr>"
    have inv': "sched_inv ?s (map fst sel)" using sel store by (simp add: sched_inv_def)
    show ?thesis
    proof (cases "sel = []")
      case True
      then show ?thesis using n False sel inv' by (simp add: run_prefill_phase_def frame_def)
    next
      case some: False
      obtain res s2 ps where x: "execute_prefill X ?s sel = (res, s2, ps)" by (cases "execute_prefill X ?s sel")
      show ?thesis
        using execute_prefill_ok [OF inv' sel(5) x] n False sel(1) some x
        by (simp add: run_prefill_phase_def frame_def Let_def)
    qed
  qed
qed

section \<open>Admission\<close>

text \<open>
  What the sequence cache documents of a restored prefix: it leaves at least the last prompt token.
\<close>

definition admission_ok :: "('g Request \<Rightarrow> AdmissionOutcome) \<Rightarrow> bool" where
  "admission_ok admit \<longleftrightarrow>
     (\<forall>r a. admit r = Admitted a \<longrightarrow> prompt_tokens r \<noteq> [] \<longrightarrow> adm_position a < length (prompt_tokens r))"

lemma admit_speculation_fields [simp]:
  "request_id (admit_speculation m c a r) = request_id r"
  "sequence_id (admit_speculation m c a r) = sequence_id r"
  "prompt_tokens (admit_speculation m c a r) = prompt_tokens r"
  "prompt_position (admit_speculation m c a r) = prompt_position r"
  "generated_tokens (admit_speculation m c a r) = generated_tokens r"
  "finish_reason (admit_speculation m c a r) = finish_reason r"
  "request_config (admit_speculation m c a r) = request_config r"
  "lifecycle (admit_speculation m c a r) = lifecycle r"
  by (simp_all add: admit_speculation_def split: sum.split option.split)

lemma queues_ok_admit:
  assumes "queues_ok reqs (i # W) P D" "lifecycle r = Prefilling"
  shows "queues_ok (fmupd i r reqs) W (P @ [i]) D"
proof -
  have other: "queue_ok (fmdrop i reqs) st' Q"
    if "queue_ok reqs st' Q" "st' \<noteq> Waiting" for st' Q
    using queue_ok_lookup [of reqs Waiting "i # W" i] assms(1) queue_ok_drop_other [OF that(1)] that(2)
    by (auto simp: queues_ok_def)
  have "queues_ok (fmdrop i reqs) W P D"
    using assms(1) other queue_ok_pop unfolding queues_ok_def by blast
  then have "queues_ok (fmupd i r (fmdrop i reqs)) W (P @ [i]) D"
    using queues_ok_put(3) assms(2) by (metis fmlookup_drop)
  moreover have "fmupd i r (fmdrop i reqs) = fmupd i r reqs" by (rule fmap_ext) simp
  ultimately show ?thesis by simp
qed

lemma fmlookup_fmupd_eq: "fmlookup (fmupd i r m) = (fmlookup m)(i \<mapsto> r)"
  by (auto simp: fun_eq_iff)

lemma pool_insert_ids:
  "pool_insert p a b = (Inr (q, bytes), p') \<Longrightarrow> pool_ids p' = insert q (pool_ids p)"
  by (auto simp: pool_insert_def pool_ids_def split: option.splits if_splits)

lemma active_count: "active_sequence_count s = card (pool_ids (sequences s))"
  by (simp add: active_sequence_count_def pool_ids_def fcard.rep_eq)

lemma pool_ids_finite [simp]: "finite (pool_ids p)"
  by (simp add: pool_ids_def)

lemma admit_sequence_ok:
  assumes inv: "sched_inv s []" and W: "waiting s = i # W" and r: "fmlookup (requests s) i = Some r"
    and pos: "adm_position a < length (prompt_tokens r)"
    and eq: "admit_sequence (s\<lparr>waiting := W\<rparr>) i r a = (Inr p, s')"
  shows "sched_inv s' [] \<and> config s' = config s \<and> model s' = model s \<and>
    active_sequence_count s' \<le> Suc (active_sequence_count s)"
proof -
  have q: "queues_ok (requests s) (i # W) (prefilling s) (decoding s)"
    and store: "store_ok (fmlookup (requests s)) (sequences s) (next_id s)"
    using inv W by (auto simp: sched_inv_def)
  obtain t bytes pool where ins:
    "pool_insert (sequences s) (adm_sequence_bytes a) (adm_count_bytes a) = (Inr (t, bytes), pool)"
    using eq by (auto simp: admit_sequence_def Let_def split: prod.splits sum.splits)
  define r' where "r' = (admit_speculation (model s) (config s) a
      ((admit_position a r)\<lparr>sequence_device_bytes := bytes, sequence_id := Some t\<rparr>))\<lparr>lifecycle := Prefilling\<rparr>"
  have s': "s' = s\<lparr>waiting := W, sequences := pool, requests := fmupd i r' (requests s),
      prefilling := prefilling s @ [i]\<rparr>"
    using eq ins unfolding r'_def by (auto simp: admit_sequence_def Let_def split: sum.splits)
  have wait: "lifecycle r = Waiting"
    using queue_ok_lookup [of "requests s" Waiting "i # W" i] q r by (auto simp: queues_ok_def)
  have rok: "request_id r = i" "request_ok r" using store_okD(1) [OF store r] by auto
  have r': "request_id r' = i" "sequence_id r' = Some t" "lifecycle r' = Prefilling" "request_ok r'"
    using rok wait pos by (auto simp: r'_def admit_position_def request_ok_def)
  have none: "sequence_id r = None" using rok(2) wait by (simp add: request_ok_def)
  have "store_ok ((fmlookup (requests s))(i \<mapsto> r')) pool (next_id s)"
    by (rule store_ok_insert [OF store ins r none r'(1,2,4)])
  then have "sched_inv s' []"
    using queues_ok_admit [OF q r'(3)] s' by (simp add: sched_inv_def batch_ok_def fmlookup_fmupd_eq)
  moreover have "active_sequence_count s' \<le> Suc (active_sequence_count s)"
    using pool_insert_ids [OF ins] s' card_insert_le_m1 [of "Suc (card (pool_ids (sequences s)))" "pool_ids (sequences s)" t]
    by (simp add: active_count card_insert_if)
  ultimately show ?thesis using s' by simp
qed

text \<open>
  Admission never panics, never takes more sequences than the limit, and keeps the invariant when it
  succeeds.
\<close>

lemma admit_waiting_ok:
  assumes "sched_inv s []" "admission_ok admit" "active_sequence_count s \<le> max_active_sequences (config s)"
  shows "\<exists>res s' ps'. admit_waiting admit s ps = Some (res, s', ps') \<and> config s' = config s \<and>
    (res = Ok () \<longrightarrow> sched_inv s' [] \<and> active_sequence_count s' \<le> max_active_sequences (config s'))"
  using assms
proof (induction admit s ps rule: admit_waiting.induct)
  case (1 admit s ps)
  show ?case
  proof (cases "active_sequence_count s < max_active_sequences (config s) \<and> waiting s \<noteq> []")
    case False
    then show ?thesis
      using "1.prems" by (auto simp: admit_waiting.simps [of admit s ps] split: list.split)
  next
    case True
    then obtain i W where W: "waiting s = i # W" by (cases "waiting s") auto
    have q: "queues_ok (requests s) (i # W) (prefilling s) (decoding s)"
      and store: "store_ok (fmlookup (requests s)) (sequences s) (next_id s)"
      using "1.prems"(1) W by (auto simp: sched_inv_def)
    obtain r where r: "fmlookup (requests s) i = Some r"
      using queue_ok_lookup [of "requests s" Waiting "i # W" i] q by (auto simp: queues_ok_def)
    have prompt: "prompt_tokens r \<noteq> []" using store_okD(1) [OF store r] by (simp add: request_ok_def)
    show ?thesis
    proof (cases "admit r")
      case (AdmissionError e)
      then show ?thesis using True W r by (simp add: admit_waiting.simps [of admit s ps])
    next
      case WouldBlock
      have same: "s\<lparr>waiting := i # W\<rparr> = s" unfolding W [symmetric] by simp
      have "admit_waiting admit s ps = Some (Ok (), s\<lparr>waiting := i # W\<rparr>, ps)"
        using WouldBlock True W r by (simp add: admit_waiting.simps [of admit s ps])
      then show ?thesis using "1.prems" unfolding same by simp
    next
      case (Admitted a)
      have pos: "adm_position a < length (prompt_tokens r)"
        using "1.prems"(2) Admitted prompt unfolding admission_ok_def by blast
      obtain res s1 where a: "admit_sequence (s\<lparr>waiting := W\<rparr>) i r a = (res, s1)"
        by (cases "admit_sequence (s\<lparr>waiting := W\<rparr>) i r a")
      show ?thesis
      proof (cases res)
        case (Inl e)
        have "config s1 = config s"
          using a Inl by (auto simp: admit_sequence_def Let_def split: prod.splits sum.splits)
        then show ?thesis using Inl a Admitted True W r by (simp add: admit_waiting.simps [of admit s ps])
      next
        case (Inr p)
        note ok = admit_sequence_ok [OF "1.prems"(1) W r pos a [unfolded Inr]]
        have "admit_waiting admit s ps = admit_waiting admit s1 (ps @ [p])"
          using Inr a Admitted True W r by (simp add: admit_waiting.simps [of admit s ps])
        then show ?thesis
          using "1.IH" [OF _ W r Admitted a [symmetric, unfolded Inr]] True ok "1.prems"(2)
          by (metis Suc_leI le_trans)
      qed
    qed
  qed
qed

end
