(* ===== verification/Scheduler_Safety.thy ===== *)
theory Scheduler_Safety
  imports Scheduler_Invariant "HOL-Library.Sublist"
begin

text \<open>
  What the scheduler guarantees, from the invariant of the previous theory: the operations outside the
  tick keep it too, so it holds in every reachable scheduler; decoding is a round robin; failed batches
  are put back; the prefill phase keeps its budgets; leases and cancellations give sequences back. The
  last section has the case in which the code does lose requests: an error between the batch and the
  point where its requests are stored again. A concrete run instantiates every property.
\<close>

section \<open>The operations outside the tick\<close>

lemma scheduler_new_ok:
  assumes "scheduler_new m c x = Ok s"
  shows "sched_inv s []" "active_sequence_count s = 0" "config s = c" "validate_config c = Ok ()"
proof -
  have s: "s = \<lparr>config = c, model = m, sequences = pool_new, requests = fmempty, waiting = [],
           prefilling = [], decoding = [], next_id = 0\<rparr>" and c: "validate_config c = Ok ()"
    using assms by (auto simp: scheduler_new_def bind_result_def split: sum.splits)
  then show "active_sequence_count s = 0" "config s = c" "validate_config c = Ok ()"
    by (simp_all add: active_sequence_count_def pool_new_def)
  have none: "sequence_of (fmlookup fmempty) = Map.empty" by (simp add: sequence_of_def fun_eq_iff)
  show "sched_inv s []"
    unfolding s sched_inv_def queues_ok_def store_ok_def
    by (simp add: queue_ok_def batch_ok_def none pool_ids_def pool_new_def)
qed

lemma store_ok_add:
  assumes ok: "store_ok m pool fresh" and max: "fresh \<noteq> u64_max"
    and r: "request_id r = fresh" "sequence_id r = None" "request_ok r"
  shows "store_ok (m(fresh \<mapsto> r)) pool (fresh + 1)" "m fresh = None"
proof -
  show none: "m fresh = None" using store_okD(1) [OF ok] by (cases "m fresh") auto
  have "sequence_of (m(fresh \<mapsto> r)) = sequence_of m"
    using r(2) none by (auto simp: sequence_of_def fun_eq_iff)
  moreover have "request_id t = i \<and> i < fresh + 1 \<and> request_ok t" if "(m(fresh \<mapsto> r)) i = Some t" for i t
  proof (cases "i = fresh")
    case True
    then show ?thesis using that r u64_succ(1) [OF max] by auto
  next
    case False
    then show ?thesis using that store_okD(1) [OF ok, of i t] u64_succ(2) [OF max] by auto
  qed
  ultimately show "store_ok (m(fresh \<mapsto> r)) pool (fresh + 1)"
    using store_okD(2,3,4) [OF ok] unfolding store_ok_def by simp
qed

lemma add_request_with_grammar_ok:
  assumes inv: "sched_inv s []" and eq: "add_request_with_grammar valid s prompt c g = (res, s')"
  shows "sched_inv s' [] \<and> config s' = config s \<and> sequences s' = sequences s"
proof (cases res)
  case (Inl e)
  then have "s' = s" using eq
    by (auto simp: add_request_with_grammar_def try_result_def Let_def split: sum.splits if_splits option.splits)
  then show ?thesis using inv by simp
next
  case (Inr i)
  define r where "r = new_request (next_id s) c prompt g"
  have prompt: "prompt \<noteq> []" and max: "next_id s \<noteq> u64_max"
    and s': "s' = (let t = s\<lparr>next_id := next_id s + 1, requests := fmupd (next_id s) r (requests s)\<rparr> in
      if lifecycle r = Waiting then t\<lparr>waiting := waiting s @ [next_id s]\<rparr> else t)"
    using eq Inr unfolding r_def
    by (auto simp: add_request_with_grammar_def try_result_def Let_def split: sum.splits if_splits option.splits)
  have q: "queues_ok (requests s) (waiting s) (prefilling s) (decoding s)"
    and store: "store_ok (fmlookup (requests s)) (sequences s) (next_id s)"
    using inv by (auto simp: sched_inv_def)
  have r: "request_id r = next_id s" "sequence_id r = None" "request_ok r"
    "lifecycle r = Waiting \<or> lifecycle r = Finished"
    using prompt by (auto simp: r_def new_request_def request_ok_def)
  note store' = store_ok_add [OF store max r(1-3)]
  show ?thesis
    using r(4) queues_ok_put [OF q store'(2)] store'(1) s' r(1)
    by (auto simp: sched_inv_def batch_ok_def Let_def fmlookup_fmupd_eq split: if_splits)
qed

text \<open>A request leaves the queues and the map.\<close>

lemma queues_ok_filter:
  assumes "queues_ok reqs W P D"
  shows "queues_ok (fmdrop i reqs) (filter (\<lambda>j. j \<noteq> i) W) (filter (\<lambda>j. j \<noteq> i) P) (filter (\<lambda>j. j \<noteq> i) D)"
  using assms by (simp add: queues_ok_def queue_ok_drop)

lemma fmlookup_fmdrop_eq: "fmlookup (fmdrop i m) = (fmlookup m)(i := None)"
  by (auto simp: fun_eq_iff)

lemma sequence_of_Some: "sequence_of m i = Some q \<longleftrightarrow> (\<exists>r. m i = Some r \<and> sequence_id r = Some q)"
  by (auto simp: sequence_of_def split: option.splits)

lemma owned_sequence_in_pool:
  assumes "store_ok m pool fresh" "m i = Some r" "sequence_id r = Some q"
  shows "q \<in> pool_ids pool"
proof -
  have "sequence_of m i = Some q" using assms(2,3) by (simp add: sequence_of_def)
  then show ?thesis using store_okD(2) [OF assms(1)] by (auto intro: ranI)
qed

lemma pool_release_eq:
  assumes "q \<in> pool_ids pool"
  shows "snd (pool_release pool q) = pool\<lparr>pool_sequences := fmdrop q (pool_sequences pool)\<rparr>"
  using assms by (auto simp: pool_ids_def pool_release_def fmdomE split: option.split)

lemma cancel_request_ok:
  assumes inv: "sched_inv s []" and eq: "cancel_request s i = (out, s')"
  shows "sched_inv s' [] \<and> config s' = config s \<and> pool_ids (sequences s') \<subseteq> pool_ids (sequences s)"
proof (cases "\<exists>r. fmlookup (requests s) i = Some r \<and> lifecycle r \<noteq> Finished")
  case False
  then have "s' = s" using eq by (auto simp: cancel_request_def split: option.splits if_splits)
  then show ?thesis using inv by simp
next
  case True
  then obtain r where r: "fmlookup (requests s) i = Some r" "lifecycle r \<noteq> Finished" by blast
  have q: "queues_ok (requests s) (waiting s) (prefilling s) (decoding s)"
    and store: "store_ok (fmlookup (requests s)) (sequences s) (next_id s)"
    using inv by (auto simp: sched_inv_def)
  let ?pool = "case sequence_id r of None \<Rightarrow> sequences s
    | Some p \<Rightarrow> (sequences s)\<lparr>pool_sequences := fmdrop p (pool_sequences (sequences s))\<rparr>"
  have s': "s' = s\<lparr>waiting := filter (\<lambda>j. j \<noteq> i) (waiting s), prefilling := filter (\<lambda>j. j \<noteq> i) (prefilling s),
      decoding := filter (\<lambda>j. j \<noteq> i) (decoding s), requests := fmdrop i (requests s), sequences := ?pool\<rparr>"
    using eq r pool_release_eq [OF owned_sequence_in_pool [OF store r(1)]]
    by (auto simp: cancel_request_def Let_def split: option.splits)
  have "store_ok ((fmlookup (requests s))(i := None)) ?pool (next_id s)"
  proof (cases "sequence_id r")
    case None
    then show ?thesis using store_ok_remove [OF store, of i] r(1) by simp
  next
    case (Some p)
    then show ?thesis using store_ok_release [OF store r(1) Some, of None] by simp
  qed
  moreover have "pool_ids ?pool \<subseteq> pool_ids (sequences s)"
    by (auto simp: pool_ids_drop split: option.splits)
  ultimately show ?thesis
    using queues_ok_filter [OF q] s' by (simp add: sched_inv_def batch_ok_def fmlookup_fmdrop_eq)
qed

lemma remove_finished_ok:
  assumes inv: "sched_inv s []" and eq: "remove_finished s i = (out, s')"
  shows "sched_inv s' [] \<and> config s' = config s \<and> sequences s' = sequences s \<and> out \<noteq> None"
proof (cases "\<exists>r. fmlookup (requests s) i = Some r \<and> lifecycle r = Finished")
  case False
  then have "s' = s \<and> out \<noteq> None" using eq by (auto simp: remove_finished_def split: option.splits if_splits)
  then show ?thesis using inv by simp
next
  case True
  then obtain r where r: "fmlookup (requests s) i = Some r" "lifecycle r = Finished" by blast
  have q: "queues_ok (requests s) (waiting s) (prefilling s) (decoding s)"
    and store: "store_ok (fmlookup (requests s)) (sequences s) (next_id s)"
    using inv by (auto simp: sched_inv_def)
  have rok: "sequence_id r = None" "finish_reason r \<noteq> None"
    using store_okD(1) [OF store r(1)] r(2) by (auto simp: request_ok_def)
  have s': "s' = s\<lparr>requests := fmdrop i (requests s)\<rparr>" "out \<noteq> None"
    using eq r rok(2) by (auto simp: remove_finished_def)
  have "queues_ok (fmdrop i (requests s)) (waiting s) (prefilling s) (decoding s)"
    using q r by (auto simp: queues_ok_def intro!: queue_ok_drop_other)
  then show ?thesis
    using s' store_ok_remove [OF store, of i] r(1) rok(1)
    by (simp add: sched_inv_def batch_ok_def fmlookup_fmdrop_eq)
qed

section \<open>The tick\<close>

text \<open>
  What the tick's environment promises: a restored prefix leaves a prompt token to decode, and a
  decode batch returns its rows with one sample each.
\<close>

definition environment_ok ::
  "('g Request \<Rightarrow> AdmissionOutcome) \<Rightarrow> 'g decode_execution \<Rightarrow> bool" where
  "environment_ok admit D \<longleftrightarrow> admission_ok admit \<and> decode_execution_ok D"

text \<open>
  A tick is orderly when nothing fails but the batches themselves: the admission loop does not
  return an error, grammars accept the sampled tokens, pages return to the cache, and the workspaces
  and the final synchronisation of a prefill batch are there.
\<close>

definition orderly ::
  "'g grammar_ops \<Rightarrow> ('g Request \<Rightarrow> AdmissionOutcome) \<Rightarrow> 'g decode_execution \<Rightarrow> 'g prefill_execution
     \<Rightarrow> 'g Scheduler \<Rightarrow> bool" where
  "orderly G admit D P s \<longleftrightarrow>
     (case admit_waiting admit s [] of Some (res, _, _) \<Rightarrow> is_ok res | None \<Rightarrow> False) \<and>
     settles G (exec_finish D) \<and> prefill_housekeeping P"

lemma active_mono: "pool_ids (sequences s') \<subseteq> pool_ids (sequences s) \<Longrightarrow> active_sequence_count s' \<le> active_sequence_count s"
  by (simp add: active_count card_mono)

lemma run_tick_ok:
  assumes inv: "sched_inv s []" and env: "environment_ok admit D"
    and cap: "active_sequence_count s \<le> max_active_sequences (config s)"
  shows "\<exists>res s'. run_tick G admit D P s = Some (res, s') \<and> config s' = config s \<and>
    (is_ok res \<or> orderly G admit D P s \<longrightarrow>
       sched_inv s' [] \<and> active_sequence_count s' \<le> max_active_sequences (config s'))"
proof -
  have A: "admission_ok admit" and D: "decode_execution_ok D" using env by (auto simp: environment_ok_def)
  obtain res1 s1 ps where one: "admit_waiting admit s [] = Some (res1, s1, ps)" "config s1 = config s"
    "res1 = Ok () \<Longrightarrow> sched_inv s1 [] \<and> active_sequence_count s1 \<le> max_active_sequences (config s1)"
    using admit_waiting_ok [OF inv A cap, of "[]"] by blast
  show ?thesis
  proof (cases res1)
    case (Inl e)
    then show ?thesis using one by (simp add: run_tick_def orderly_def)
  next
    case (Inr u)
    then have s1: "sched_inv s1 []" "active_sequence_count s1 \<le> max_active_sequences (config s1)"
      using one(3) by auto
    obtain res2 s2 tick where two: "run_decode_phase G D s1 empty_tick = Some (res2, s2, tick)"
      "frame s2 = frame s1" "pool_ids (sequences s2) \<subseteq> pool_ids (sequences s1)"
      "res2 = Ok () \<or> settles G (exec_finish D) \<Longrightarrow> sched_inv s2 []"
      using run_decode_phase_ok [OF s1(1) D, of G empty_tick] by blast
    have c2: "config s2 = config s1" "active_sequence_count s2 \<le> max_active_sequences (config s2)"
      using two(2) active_mono [OF two(3)] s1(2) by (auto simp: frame_def)
    show ?thesis
    proof (cases res2)
      case (Inl e)
      then show ?thesis using one two c2 Inr by (simp add: run_tick_def orderly_def)
    next
      case r2: (Inr v)
      then have s2: "sched_inv s2 []" using two(4) by simp
      obtain res3 s3 tick' ps3 where three: "run_prefill_phase P s2 tick = Some (res3, s3, tick', ps3)"
        "frame s3 = frame s2" "sequences s3 = sequences s2"
        "res3 = Ok () \<or> prefill_housekeeping P \<Longrightarrow> sched_inv s3 []"
        using run_prefill_phase_ok [OF s2, of P tick] by blast
      have c3: "config s3 = config s2" "active_sequence_count s3 = active_sequence_count s2"
        using three(2,3) by (auto simp: frame_def active_sequence_count_def)
      show ?thesis
        using one two three c2 c3 Inr r2
        by (cases res3) (simp_all add: run_tick_def orderly_def)
    qed
  qed
qed


section \<open>Reachable schedulers\<close>

text \<open>
  A server creates a scheduler and then adds requests, ticks, cancels and collects finished requests
  in any order. A tick counts when it succeeds or is orderly: batches and admissions may still fail
  or block.
\<close>

inductive reachable :: "Model \<Rightarrow> SchedulerConfig \<Rightarrow> 'g Scheduler \<Rightarrow> bool" for m c where
  reachable_new: "scheduler_new m c execution = Ok s \<Longrightarrow> reachable m c s"
| reachable_add: "reachable m c s \<Longrightarrow> add_request_with_grammar valid s prompt rc g = (res, s') \<Longrightarrow> reachable m c s'"
| reachable_tick: "reachable m c s \<Longrightarrow> environment_ok admit D \<Longrightarrow> run_tick G admit D P s = Some (out, s') \<Longrightarrow>
    is_ok out \<or> orderly G admit D P s \<Longrightarrow> reachable m c s'"
| reachable_cancel: "reachable m c s \<Longrightarrow> cancel_request s i = (outcome, s') \<Longrightarrow> reachable m c s'"
| reachable_remove: "reachable m c s \<Longrightarrow> remove_finished s i = (fin, s') \<Longrightarrow> reachable m c s'"

lemma reachable_inv:
  assumes "reachable m c s"
  shows "sched_inv s [] \<and> config s = c \<and> active_sequence_count s \<le> max_active_sequences c"
  using assms
proof (induction rule: reachable.induct)
  case (reachable_new x s)
  then show ?case using scheduler_new_ok [OF reachable_new] by simp
next
  case (reachable_add s valid prompt rc g res s')
  then show ?case
    using add_request_with_grammar_ok [of s valid prompt rc g res s'] by (auto simp: active_sequence_count_def)
next
  case (reachable_tick s admit D G P out s')
  then show ?case using run_tick_ok [of s admit D G P] by auto
next
  case (reachable_cancel s i outcome s')
  then show ?case using cancel_request_ok [of s i outcome s'] active_mono [of s' s] by auto
next
  case (reachable_remove s i fin s')
  then show ?case using remove_finished_ok [of s i fin s'] by (auto simp: active_sequence_count_def)
qed



section \<open>Fair decoding\<close>

text \<open>The requests that still decode after a batch go to the back of the queue, in batch order.\<close>

lemma settle_batch_queue:
  assumes "settle_batch G fin rows s tick = Some (Ok u, s', tick')"
    "rows_ok rows" "\<forall>r \<in> set (map fst rows). request_ok r"
  shows "\<exists>ys. decoding s' = decoding s @ ys \<and> subseq ys (map (request_id \<circ> fst) rows) \<and>
    prefilling s' = prefilling s \<and> tick_scheduled tick' = tick_scheduled tick"
  using assms
proof (induction rows arbitrary: s tick)
  case Nil
  then show ?case by (simp add: settle_batch.simps)
next
  case (Cons row rows)
  obtain r xs where row: "row = (r, xs)" by (cases row)
  obtain v r' gen where a: "apply_samples G r xs (tick_generated tick) = (Ok v, r', gen)"
    using Cons.prems(1) row by (auto simp: settle_batch.simps split: prod.splits sum.splits)
  have id: "request_id r' = request_id r"
    using apply_samples_ok [OF a] Cons.prems(2,3) row by (simp add: rows_ok_def sampled_ok_def)
  have rest: "rows_ok rows" "\<forall>r \<in> set (map fst rows). request_ok r"
    using Cons.prems(2,3) by (auto simp: rows_ok_def)
  let ?t = "tick\<lparr>tick_generated := gen\<rparr>"
  show ?case
  proof (cases "lifecycle r' = Finished")
    case False
    let ?s = "s\<lparr>decoding := decoding s @ [request_id r], requests := fmupd (request_id r) r' (requests s)\<rparr>"
    have "settle_batch G fin rows ?s ?t = Some (Ok u, s', tick')"
      using Cons.prems(1) row a False id by (simp add: settle_batch.simps)
    from Cons.IH [OF this rest] obtain ys where "decoding s' = decoding s @ request_id r # ys"
      "subseq ys (map (request_id \<circ> fst) rows)" "prefilling s' = prefilling s"
      "tick_scheduled tick' = tick_scheduled tick"
      by (auto simp: comp_def)
    then show ?thesis using row by (intro exI [of _ "request_id r # ys"]) (simp add: comp_def)
  next
    case True
    obtain q bytes pool where q: "sequence_id r' = Some q" "pool_release (sequences s) q = (Ok bytes, pool)"
      "is_ok (fin (r'\<lparr>sequence_id := None\<rparr>))"
      using Cons.prems(1) row a True
      by (auto simp: settle_batch.simps Let_def is_ok_def split: prod.splits sum.splits option.splits)
    let ?s = "s\<lparr>sequences := pool, requests := fmupd (request_id r) (r'\<lparr>sequence_id := None\<rparr>) (requests s)\<rparr>"
    have "settle_batch G fin rows ?s (?t\<lparr>tick_finished := tick_finished tick @ [request_id r]\<rparr>)
        = Some (Ok u, s', tick')"
      using Cons.prems(1) row a True id q by (auto simp: settle_batch.simps is_ok_iff)
    from Cons.IH [OF this rest] obtain ys where "decoding s' = decoding s @ ys"
      "subseq ys (map (request_id \<circ> fst) rows)" "prefilling s' = prefilling s"
      "tick_scheduled tick' = tick_scheduled tick"
      by (auto simp: comp_def)
    then show ?thesis using row by (intro exI [of _ ys]) (simp add: comp_def list_emb_Cons)
  qed
qed


text \<open>The requests with one prompt token left fill the batch, in queue order.\<close>

definition last_left :: "'g request_map \<Rightarrow> u64 \<Rightarrow> bool" where
  "last_left reqs i \<longleftrightarrow> (\<exists>r. fmlookup reqs i = Some r \<and> remaining_prompt_tokens r = 1)"

lemma last_left_drop: "j \<noteq> i \<Longrightarrow> last_left (fmdrop i reqs) j = last_left reqs j"
  by (simp add: last_left_def)

lemma scan_prefilling_ids:
  assumes "scan_prefilling cap P kept reqs sel = Some (kept', reqs', sel')" "distinct P" "keyed reqs"
  shows "kept' = kept @ filter (\<lambda>i. i \<notin> set (take (cap - length sel) (filter (last_left reqs) P))) P \<and>
    map request_id sel' = map request_id sel @ take (cap - length sel) (filter (last_left reqs) P)"
  using assms
proof (induction P arbitrary: kept reqs sel)
  case (Cons i P)
  have notin: "i \<notin> set P" "distinct P" using Cons.prems by auto
  have same: "filter (last_left (fmdrop i reqs)) P = filter (last_left reqs) P"
  proof (rule filter_cong [OF refl])
    fix x assume "x \<in> set P"
    then have "x \<noteq> i" using notin(1) by auto
    then show "last_left (fmdrop i reqs) x = last_left reqs x" by (rule last_left_drop)
  qed
  show ?case
  proof (cases "length sel < cap \<and> last_left reqs i")
    case True
    then obtain r where r: "fmlookup reqs i = Some r" "remaining_prompt_tokens r = 1" by (auto simp: last_left_def)
    let ?sel = "sel @ [r]"
    have "scan_prefilling cap P kept (fmdrop i reqs) ?sel = Some (kept', reqs', sel')"
      using Cons.prems(1) True r by simp
    from Cons.IH [OF this notin(2) keyed_drop [OF Cons.prems(3)]]
    have IH: "kept' = kept @ filter (\<lambda>i. i \<notin> set (take (cap - length ?sel) (filter (last_left reqs) P))) P"
      "map request_id sel' = map request_id ?sel @ take (cap - length ?sel) (filter (last_left reqs) P)"
      using same by simp_all
    have len: "cap - length sel = Suc (cap - length ?sel)" using True by (simp add: Suc_diff_Suc)
    have ri: "request_id r = i" using Cons.prems(3) r(1) by (simp add: keyed_def)
    have "filter (\<lambda>j. j \<notin> set (i # take (cap - length ?sel) (filter (last_left reqs) P))) P =
        filter (\<lambda>j. j \<notin> set (take (cap - length ?sel) (filter (last_left reqs) P))) P"
      using notin(1) by (intro filter_cong refl) auto
    then show ?thesis using IH len ri True by simp
  next
    case False
    then have "scan_prefilling cap P (kept @ [i]) reqs sel = Some (kept', reqs', sel')"
      using Cons.prems(1) by (auto simp: last_left_def split: if_splits option.splits)
    note IH = Cons.IH [OF this notin(2) Cons.prems(3)]
    have "i \<notin> set (take k (filter f P))" for k f using notin(1) in_set_takeD [of i k "filter f P"] by auto
    then show ?thesis using IH False by auto
  qed
qed auto


lemma pop_decoding_lookup:
  assumes "pop_decoding cap D reqs sel = Some (D', reqs', sel')" "i \<notin> set D"
  shows "fmlookup reqs' i = fmlookup reqs i"
  using assms
proof (induction D arbitrary: reqs sel)
  case (Cons j D)
  then have ij: "i \<noteq> j" "i \<notin> set D" by auto
  show ?case
  proof (cases "length sel < cap")
    case True
    then obtain r where "pop_decoding cap D (fmdrop j reqs) (sel @ [r]) = Some (D', reqs', sel')"
      using Cons.prems(1) by (auto split: option.splits)
    from Cons.IH [OF this ij(2)] show ?thesis using ij(1) by simp
  next
    case False
    then show ?thesis using Cons.prems(1) by simp
  qed
qed simp

lemma decode_selection_order:
  assumes inv: "sched_inv s []"
  defines "cap \<equiv> decode_capacity (config s)"
  defines "joined \<equiv> take (cap - length (decoding s)) (filter (last_left (requests s)) (prefilling s))"
  shows "\<exists>dec reqs1 sel1 pre reqs2 sel.
    pop_decoding cap (decoding s) (requests s) [] = Some (dec, reqs1, sel1) \<and>
    scan_prefilling cap (prefilling s) [] reqs1 sel1 = Some (pre, reqs2, sel) \<and>
    sched_inv (s\<lparr>decoding := dec, prefilling := pre, requests := reqs2\<rparr>) sel \<and> (\<forall>r \<in> set sel. ready r) \<and>
    everyone reqs2 sel = fmlookup (requests s) \<and>
    dec = drop cap (decoding s) \<and> map request_id sel = take cap (decoding s) @ joined \<and>
    pre = filter (\<lambda>i. i \<notin> set joined) (prefilling s)"
proof -
  obtain dec reqs1 sel1 pre reqs2 sel where sel:
    "pop_decoding cap (decoding s) (requests s) [] = Some (dec, reqs1, sel1)"
    "scan_prefilling cap (prefilling s) [] reqs1 sel1 = Some (pre, reqs2, sel)"
    "sched_inv (s\<lparr>decoding := dec, prefilling := pre, requests := reqs2\<rparr>) sel" "\<forall>r \<in> set sel. ready r"
    "everyone reqs2 sel = fmlookup (requests s)"
    using decode_selection_ok [OF inv] unfolding cap_def by metis
  have q: "queues_ok (requests s) (waiting s) (prefilling s) (decoding s)"
    using inv by (auto simp: sched_inv_def)
  have pop: "dec = drop cap (decoding s)" "keyed reqs1" "map request_id sel1 = take cap (decoding s)"
    using pop_decoding_ok [OF q _ sched_inv_keyed [OF inv], of "[]" cap] sel(1) by (auto simp: batch_ok_def)
  have P: "distinct (prefilling s)" "queue_ok (requests s) Decoding (decoding s)"
    "queue_ok (requests s) Prefilling (prefilling s)"
    using q queue_ok_distinct by (auto simp: queues_ok_def)
  have "filter (last_left reqs1) (prefilling s) = filter (last_left (requests s)) (prefilling s)"
  proof (rule filter_cong [OF refl])
    fix i assume i: "i \<in> set (prefilling s)"
    have "i \<notin> set (decoding s)" using queue_ok_lookup [OF P(3) i] queue_ok_lookup [OF P(2), of i] by auto
    then show "last_left reqs1 i = last_left (requests s) i"
      using pop_decoding_lookup [OF sel(1)] by (simp add: last_left_def)
  qed
  moreover have "cap - length sel1 = cap - length (decoding s)"
    using arg_cong [OF pop(3), of length] by auto
  ultimately have "pre = filter (\<lambda>i. i \<notin> set joined) (prefilling s)" "map request_id sel = take cap (decoding s) @ joined"
    using scan_prefilling_ids [OF sel(2) P(1) pop(2)] pop(3) by (simp_all add: joined_def)
  then show ?thesis using sel pop(1) by blast
qed

text \<open>The batch a successful decode phase settles.\<close>

lemma sched_inv_batch_all:
  assumes inv: "sched_inv s sel" and r: "r \<in> set sel"
  shows "request_ok r"
proof -
  have ok: "batch_ok (requests s) sel" "store_ok (everyone (requests s) sel) (sequences s) (next_id s)"
    using inv by (auto simp: sched_inv_def)
  have "everyone (requests s) sel (request_id r) = Some r" using everyone_lookup [OF ok(1)] r by blast
  then show ?thesis using store_okD(1) [OF ok(2)] by blast
qed

lemma same_schedule_ids: "list_all2 same_schedule sel batch \<Longrightarrow> map request_id batch = map request_id sel"
  by (induction rule: list_all2_induct) (auto dest: same_scheduleD(1))

lemma same_schedule_origin:
  "list_all2 same_schedule sel batch \<Longrightarrow> r \<in> set batch \<Longrightarrow> \<exists>r0 \<in> set sel. same_schedule r0 r"
  by (induction rule: list_all2_induct) auto

text \<open>An execution whose verifications accept at least one token.\<close>

definition productive :: "'g decode_execution \<Rightarrow> bool" where
  "productive X \<longleftrightarrow> (\<forall>r samples n r'. exec_speculative X r = (Ok (samples, n), r') \<longrightarrow> samples \<noteq> [])"

lemma decode_rows:
  assumes X: "decode_execution_ok X"
    and pop: "pop_decoding (decode_capacity (config s)) (decoding s) (requests s) [] = Some (dec, reqs1, sel1)"
    and scan: "scan_prefilling (decode_capacity (config s)) (prefilling s) [] reqs1 sel1 = Some (pre, reqs2, sel)"
    and inv: "sched_inv (s\<lparr>decoding := dec, prefilling := pre, requests := reqs2\<rparr>) sel"
    and ready: "\<forall>r \<in> set sel. ready r" and some: "sel \<noteq> []"
    and run: "run_decode_phase G X s tick = Some (Ok u, s', tick')"
  shows "\<exists>rows t. settle_batch G (exec_finish X) rows
        (s\<lparr>decoding := dec, prefilling := pre, requests := reqs2\<rparr>) t = Some (Ok u, s', tick') \<and>
      rows_ok rows \<and> (\<forall>r \<in> set (map fst rows). request_ok r) \<and>
      list_all2 same_schedule sel (map fst rows) \<and>
      tick_scheduled t = tick_scheduled tick @ map request_id sel \<and>
      (productive X \<longrightarrow> (\<forall>(r, xs) \<in> set rows. xs \<noteq> []))"
proof (cases "length sel = 1 \<and> spec_eligible s (hd sel)")
  case True
  then obtain r0 where r0: "sel = [r0]" by (cases sel) auto
  obtain samples n r where x: "exec_speculative X r0 = (Ok (samples, n), r)"
    using run pop scan some True r0
    by (auto simp: run_decode_phase_def Let_def split: prod.splits sum.splits)
  have same: "same_schedule r0 r" "samples \<noteq> [] \<or> lifecycle r0 = Decoding"
    using X x unfolding decode_execution_ok_def by blast+
  have some_token: "productive X \<Longrightarrow> samples \<noteq> []" using x unfolding productive_def by blast
  have "request_ok r" "ready r" "samples \<noteq> [] \<or> lifecycle r = Decoding"
    using same_scheduleD(2,4,5) [OF same(1)] sched_inv_batch_all [OF inv] ready r0 same(2) by auto
  then show ?thesis
    using run pop scan True r0 x same(1) some_token
    by (intro exI [of _ "[(r, samples)]"]) (auto simp: run_decode_phase_def Let_def rows_ok_def)
next
  case False
  obtain xs batch where x: "exec_decode X sel = (Ok xs, batch)"
    using run pop scan some False
    by (auto simp: run_decode_phase_def Let_def split: prod.splits sum.splits)
  have same: "list_all2 same_schedule sel batch" and len: "length xs = length sel"
    using X x unfolding decode_execution_ok_def by blast+
  let ?rows = "zip batch (map (\<lambda>x. [x]) xs)"
  have fst: "map fst ?rows = batch" using len list_all2_lengthD [OF same] by simp
  have batch: "ready r \<and> request_ok r" if "r \<in> set batch" for r
    using same_schedule_origin [OF same that] ready sched_inv_batch_all [OF inv] same_scheduleD(4,5) by blast
  have some_token: "\<forall>(r, ys) \<in> set ?rows. ys \<noteq> []" by (auto dest: set_zip_rightD)
  have "rows_ok ?rows" using batch by (auto simp: rows_ok_def dest: set_zip_leftD set_zip_rightD)
  then show ?thesis
    using run pop scan False x some batch fst same some_token
    by (intro exI [of _ ?rows]) (auto simp: run_decode_phase_def Let_def)
qed



section \<open>Failed batches\<close>

lemma requeue_selected_lookup:
  assumes "batch_ok (requests s) sel"
  shows "fmlookup (requests (requeue_selected sel s)) = everyone (requests s) sel"
  using assms
proof (induction sel)
  case Nil
  then show ?case by (simp add: requeue_selected_def)
next
  case (Cons r sel)
  have ok: "batch_ok (requests s) sel" and none: "fmlookup (requests s) (request_id r) = None"
    using Cons.prems by (auto simp: batch_ok_def)
  have step: "fmlookup (requests (requeue_selected (r # sel) s)) =
      (fmlookup (requests (requeue_selected sel s)))(request_id r \<mapsto> r)"
    by (auto simp: requeue_selected_def requeue_one_def Let_def fun_eq_iff)
  show ?case
    unfolding step Cons.IH [OF ok] using none by (auto simp: everyone_def fun_eq_iff map_add_def split: option.split)
qed

lemma requeue_selected_queue:
  "decoding (requeue_selected sel s) =
     map request_id (filter (\<lambda>r. lifecycle r = Decoding) sel) @ decoding s"
  "prefilling (requeue_selected sel s) =
     map request_id (filter (\<lambda>r. lifecycle r \<noteq> Decoding) sel) @ prefilling s"
  by (induction sel) (auto simp: requeue_selected_def requeue_one_def Let_def)

lemma requeue_keeps:
  assumes inv: "sched_inv s1 sel" and same: "list_all2 same_schedule sel batch"
    and ready: "\<forall>r \<in> set sel. ready r" and s: "everyone (requests s1) sel = fmlookup (requests s)"
    "queues_ok (requests s) (waiting s) (prefilling s) (decoding s)"
    and ids: "decoding s1 = drop cap (decoding s)" "map request_id sel = take cap (decoding s) @ joined"
      "set joined \<subseteq> set (prefilling s)"
  shows "decoding (requeue_selected batch s1) = decoding s \<and>
    (\<forall>i r. fmlookup (requests s) i = Some r \<longrightarrow>
       (\<exists>r'. fmlookup (requests (requeue_selected batch s1)) i = Some r' \<and> same_schedule r r'))"
proof -
  have ok: "batch_ok (requests s1) sel" "batch_ok (requests s1) batch"
    using inv sched_inv_exchange [OF inv same] by (auto simp: sched_inv_def)
  have dec: "lifecycle r = Decoding \<longleftrightarrow> request_id r \<in> set (decoding s)" if "r \<in> set sel" for r
  proof -
    have "fmlookup (requests s) (request_id r) = Some r"
      using everyone_lookup [OF ok(1), of "request_id r" r] that s(1) by simp
    then show ?thesis using s(2) by (auto simp: queues_ok_def queue_ok_def)
  qed
  have out: "i \<notin> set (decoding s)" if "i \<in> set joined" for i
    using s(2) ids(3) that unfolding queues_ok_def queue_ok_def by fastforce
  have "map request_id (filter (\<lambda>r. lifecycle r = Decoding) batch) =
      map request_id (filter (\<lambda>r. lifecycle r = Decoding) sel)"
    using same by (induction rule: list_all2_induct) (auto dest: same_scheduleD(1,2))
  also have "\<dots> = map request_id (filter (\<lambda>r. request_id r \<in> set (decoding s)) sel)"
    using dec by (intro arg_cong [of _ _ "map request_id"] filter_cong refl) blast
  also have "\<dots> = filter (\<lambda>i. i \<in> set (decoding s)) (map request_id sel)" by (simp add: filter_map o_def)
  also have "\<dots> = take cap (decoding s)"
    unfolding ids(2) using out by (auto simp: filter_id_conv filter_empty_conv dest: in_set_takeD)
  finally have "decoding (requeue_selected batch s1) = decoding s"
    using ids(1) by (simp add: requeue_selected_queue)
  moreover have "\<exists>r'. fmlookup (requests (requeue_selected batch s1)) i = Some r' \<and> same_schedule r r'"
    if "fmlookup (requests s) i = Some r" for i r
  proof -
    have "everyone (requests s1) sel i = Some r" using that s(1) by simp
    then consider "fmlookup (requests s1) i = Some r" | "r \<in> set sel" "request_id r = i"
      unfolding everyone_lookup [OF ok(1)] by blast
    then show ?thesis
    proof cases
      case 1
      then show ?thesis
        using requeue_selected_lookup [OF ok(2)] everyone_lookup [OF ok(2), of i r] same_schedule_refl by metis
    next
      case 2
      obtain r' where "r' \<in> set batch" "same_schedule r r'"
        using same 2(1) by (induction rule: list_all2_induct) auto
      then show ?thesis
        using requeue_selected_lookup [OF ok(2)] everyone_lookup [OF ok(2), of i r'] same_scheduleD(1) 2(2) by metis
    qed
  qed
  ultimately show ?thesis by blast
qed

lemma failed_batch_requeued:
  assumes X: "decode_execution_ok X" and failed: "batch_failed X s"
    and pop: "pop_decoding (decode_capacity (config s)) (decoding s) (requests s) [] = Some (dec, reqs1, sel1)"
    and scan: "scan_prefilling (decode_capacity (config s)) (prefilling s) [] reqs1 sel1 = Some (pre, reqs2, sel)"
  shows "\<exists>e batch tick'. run_decode_phase G X s tick =
      Some (Err e, requeue_selected batch (s\<lparr>decoding := dec, prefilling := pre, requests := reqs2\<rparr>), tick') \<and>
    list_all2 same_schedule sel batch"
proof (cases "length sel = 1 \<and> spec_eligible s (hd sel)")
  case True
  then obtain r where r: "sel = [r]" by (cases sel) auto
  then obtain e r' where x: "exec_speculative X r = (Err e, r')"
    using failed pop scan True unfolding batch_failed_def by (cases "exec_speculative X r") (auto simp: isl_def)
  then have "same_schedule r r'" using X unfolding decode_execution_ok_def by blast
  then show ?thesis using pop scan True r x by (auto simp: run_decode_phase_def Let_def)
next
  case False
  then obtain e batch where x: "sel \<noteq> []" "exec_decode X sel = (Err e, batch)"
    using failed pop scan unfolding batch_failed_def by (cases "exec_decode X sel") (auto simp: isl_def)
  then have "list_all2 same_schedule sel batch" using X unfolding decode_execution_ok_def by blast
  then show ?thesis using pop scan False x by (auto simp: run_decode_phase_def Let_def)
qed



section \<open>Bounds of the prefill phase\<close>

definition progress_of :: "'g Request \<times> nat \<Rightarrow> PrefillProgress" where
  "progress_of row = \<lparr>prefill_request = request_id (fst row), prefill_tokens = snd row,
     prefill_position = prompt_position (fst row) + snd row\<rparr>"

definition same_row :: "'g Request \<times> nat \<Rightarrow> 'g Request \<times> nat \<Rightarrow> bool" where
  "same_row x y \<longleftrightarrow> same_schedule (fst x) (fst y) \<and> snd y = snd x"

lemma lease_many_restores: "lease_many p qs = (Ok es, pool) \<Longrightarrow> lease_drop pool es = p"
  using lease_entries_restores [of p "[]" qs "Ok es" pool] by (auto simp: lease_many_def lease_drop_def split: if_splits)

lemma finish_chunks_progress:
  "finish_chunks X rows s ps = (s', ps') \<Longrightarrow> ps' = ps @ map progress_of rows"
proof (induction rows arbitrary: s ps)
  case (Cons row rows)
  obtain r c where row: "row = (r, c)" by (cases row)
  obtain p s1 where f: "finish_chunk X r c s = (p, s1)" by (cases "finish_chunk X r c s")
  have "p = progress_of row"
    using f row retain_request_checkpoint_eq [of "exec_retain_disabled X"
        "exec_position X (r\<lparr>prompt_position := prompt_position r + c\<rparr>)" "sequences s"
        "r\<lparr>prompt_position := prompt_position r + c\<rparr>"]
    by (auto simp: finish_chunk_def Let_def progress_of_def)
  then show ?case using Cons.IH [of s1 "ps @ [p]"] Cons.prems row f by simp
qed simp

lemma same_schedule_trans: "same_schedule r t \<Longrightarrow> same_schedule t u \<Longrightarrow> same_schedule r u"
  by (cases r; cases t; cases u) (simp add: same_schedule_def)

lemma progress_same: "list_all2 same_row rows rows' \<Longrightarrow> map progress_of rows' = map progress_of rows"
  by (induction rule: list_all2_induct) (auto simp: same_row_def progress_of_def dest: same_scheduleD(1,6))

lemma same_row_map:
  "list_all2 same_row sel rows \<Longrightarrow> (\<And>r. same_schedule r (f r)) \<Longrightarrow>
     list_all2 same_row rows (map (\<lambda>(r, c). (f r, c)) rows)"
  by (auto simp: list_all2_conv_all_nth same_row_def split: prod.split)

text \<open>A prefill batch that succeeds advances the rows it was given.\<close>

lemma execute_prefill_success:
  assumes "execute_prefill X s sel = (Ok u, s', ps)"
  shows "\<exists>rows. finish_chunks X rows s [] = (s', ps) \<and> list_all2 same_row sel rows"
proof -
  define warm where "warm = (\<exists>r \<in> set (map fst sel). mtp_state r \<noteq> None \<and> spec_frontier r \<noteq> None)"
  define rows where "rows = (if warm \<and> \<not> (warm \<and> is_ok (exec_mtp_allocation X))
    then map (\<lambda>(r, c). (disable_speculation r, c)) sel else sel)"
  have refl: "list_all2 same_row sel sel" by (simp add: list_all2_same same_row_def)
  then have rows: "list_all2 same_row sel rows"
    unfolding rows_def using same_row_map [OF refl disable_speculation_same] by simp
  define final where "final = map (\<lambda>(r, c). (advance_speculation X r, c)) rows"
  have "list_all2 same_row rows final"
    unfolding final_def by (rule same_row_map [OF rows advance_speculation_same])
  moreover have trans: "same_row x z" if "same_row x y" "same_row y z" for x y z :: "'a Request \<times> nat"
    using that by (auto simp: same_row_def intro: same_schedule_trans)
  ultimately have final: "list_all2 same_row sel final" using list_all2_trans rows by blast
  obtain qs entries pool where
    "lease_many (sequences s) qs = (Ok entries, pool)"
    "finish_chunks X final (s\<lparr>sequences := lease_drop pool entries\<rparr>) [] = (s', ps)"
    using assms unfolding execute_prefill_def Let_def warm_def [symmetric] rows_def [symmetric] final_def [symmetric]
    by (auto split: if_splits sum.splits prod.splits)
  then show ?thesis using final lease_many_restores [of "sequences s" qs entries pool] by auto
qed


lemma prefill_selection_ok:
  assumes inv: "sched_inv s []"
    and n: "count_eligible (prefill_sequence_capacity (config s)) (prefilling s) (requests s) = Some n"
  obtains P' reqs' sel where
    "select_prefill n (prefilling s) [] (requests s) (prefill_token_capacity (config s)) n [] = Some (P', reqs', sel)"
    "sched_inv (s\<lparr>prefilling := P', requests := reqs'\<rparr>) (map fst sel)" "\<forall>row \<in> set sel. chunk_ok row"
    "sum_list (map snd sel) \<le> prefill_token_capacity (config s)" "length sel \<le> n"
    "everyone reqs' (map fst sel) = fmlookup (requests s)" "batch_ok reqs' (map fst sel)"
proof -
  have q: "queues_ok (requests s) (waiting s) (prefilling s) (decoding s)"
    and store: "store_ok (fmlookup (requests s)) (sequences s) (next_id s)"
    using inv by (auto simp: sched_inv_def)
  obtain P' reqs' sel where sel:
    "select_prefill n (prefilling s) [] (requests s) (prefill_token_capacity (config s)) n [] = Some (P', reqs', sel)"
    "queues_ok reqs' (waiting s) P' (decoding s)" "batch_ok reqs' (map fst sel)"
    "everyone reqs' (map fst sel) = fmlookup (requests s)" "\<forall>row \<in> set sel. chunk_ok row"
    "length sel \<le> n" "sum_list (map snd sel) \<le> prefill_token_capacity (config s)"
    using select_prefill_ok [of "requests s" "waiting s" "prefilling s" "[]" "decoding s" "[]" n n
        "prefill_token_capacity (config s)"] q sched_inv_keyed [OF inv]
    by (auto simp: batch_ok_def)
  show thesis
    by (rule that [OF sel(1) _ sel(5,7,6,4,3)]) (use sel store in \<open>simp add: sched_inv_def\<close>)
qed

lemma eligible_count:
  assumes inv: "sched_inv s []"
  obtains n where "count_eligible cap (prefilling s) (requests s) = Some n" "n \<le> cap"
proof -
  have "queue_ok (requests s) Prefilling (prefilling s)" using inv by (auto simp: sched_inv_def queues_ok_def)
  then have "fmlookup (requests s) i \<noteq> None" if "i \<in> set (prefilling s)" for i
    using queue_ok_lookup that by fastforce
  then show thesis using that count_eligible_ok [of "prefilling s" "requests s" cap] by blast
qed

lemma prefill_rows:
  assumes inv: "sched_inv s []" and run: "run_prefill_phase X s tick = Some (Ok u, s', tick', ps)"
  shows "\<exists>rows. ps = map progress_of rows \<and> (\<forall>row \<in> set rows. chunk_ok row) \<and>
    sum_list (map snd rows) \<le> prefill_token_capacity (config s) \<and>
    length rows \<le> prefill_sequence_capacity (config s) \<and>
    (\<forall>row \<in> set rows. fmlookup (requests s) (request_id (fst row)) = Some (fst row))"
proof -
  obtain n where n: "count_eligible (prefill_sequence_capacity (config s)) (prefilling s) (requests s) = Some n"
    "n \<le> prefill_sequence_capacity (config s)"
    using eligible_count [OF inv] by blast
  obtain P' reqs' sel where sel:
    "select_prefill n (prefilling s) [] (requests s) (prefill_token_capacity (config s)) n [] = Some (P', reqs', sel)"
    "\<forall>row \<in> set sel. chunk_ok row" "sum_list (map snd sel) \<le> prefill_token_capacity (config s)" "length sel \<le> n"
    "everyone reqs' (map fst sel) = fmlookup (requests s)" "batch_ok reqs' (map fst sel)"
    using prefill_selection_ok [OF inv n(1)] by metis
  show ?thesis
  proof (cases "n = 0 \<or> sel = []")
    case True
    then have "ps = []" using run n(1) sel(1) by (auto simp: run_prefill_phase_def Let_def split: if_splits)
    then show ?thesis by (intro exI [of _ "[]"]) simp
  next
    case False
    then have "execute_prefill X (s\<lparr>prefilling := P', requests := reqs'\<rparr>) sel = (Ok u, s', ps)"
      using run n(1) sel(1) by (auto simp: run_prefill_phase_def Let_def split: prod.splits)
    from execute_prefill_success [OF this] have "ps = map progress_of sel"
      using finish_chunks_progress progress_same by (metis append_Nil)
    moreover have "fmlookup (requests s) (request_id (fst row)) = Some (fst row)" if "row \<in> set sel" for row
      using everyone_lookup [OF sel(6), of "request_id (fst row)" "fst row"] sel(5) that by auto
    ultimately show ?thesis using sel n(2) by (intro exI [of _ sel]) auto
  qed
qed

text \<open>C24: A successful prefill phase stays within its configuration. The chunks sum to at most the token
  budget and are at most as many as the sequence capacity; each belongs to a prefilling request, is not
  empty, starts where the request stood, leaves at least the last prompt token to the decode phase, and
  never crosses the boundary of the prefix that is to be retained.\<close>

theorem prefill_phase_bounds:
  assumes inv: "sched_inv s []" and run: "run_prefill_phase X s tick = Some (Ok u, s', tick', ps)"
  shows "sum_list (map prefill_tokens ps) \<le> prefill_token_capacity (config s) \<and>
    length ps \<le> prefill_sequence_capacity (config s) \<and>
    (\<forall>p \<in> set ps. \<exists>r. fmlookup (requests s) (prefill_request p) = Some r \<and> lifecycle r = Prefilling \<and>
       0 < prefill_tokens p \<and> prefill_position p = prompt_position r + prefill_tokens p \<and>
       prefill_position p < length (prompt_tokens r) \<and>
       (\<not> prefix_retained r \<and> prompt_position r < prefix_target r \<longrightarrow> prefill_position p \<le> prefix_target r))"
proof -
  obtain rows where rows: "ps = map progress_of rows" "\<forall>row \<in> set rows. chunk_ok row"
    "sum_list (map snd rows) \<le> prefill_token_capacity (config s)"
    "length rows \<le> prefill_sequence_capacity (config s)"
    "\<forall>row \<in> set rows. fmlookup (requests s) (request_id (fst row)) = Some (fst row)"
    using prefill_rows [OF inv run] by blast
  have tokens: "map prefill_tokens ps = map snd rows" by (simp add: rows(1) progress_of_def)
  have len: "length ps = length rows" by (simp add: rows(1))
  have each: "\<exists>r. fmlookup (requests s) (prefill_request p) = Some r \<and> lifecycle r = Prefilling \<and>
       0 < prefill_tokens p \<and> prefill_position p = prompt_position r + prefill_tokens p \<and>
       prefill_position p < length (prompt_tokens r) \<and>
       (\<not> prefix_retained r \<and> prompt_position r < prefix_target r \<longrightarrow> prefill_position p \<le> prefix_target r)"
    if "p \<in> set ps" for p
  proof -
    obtain r c where rc: "(r, c) \<in> set rows" "p = progress_of (r, c)" using \<open>p \<in> set ps\<close> rows(1) by auto
    then show ?thesis
      using bspec [OF rows(2) rc(1)] bspec [OF rows(5) rc(1)]
      by (auto simp: progress_of_def chunk_ok_def prefillable_tokens_def remaining_prompt_tokens_def)
  qed
  show ?thesis unfolding tokens len using rows(3,4) each by blast
qed


section \<open>Leases and cancellation\<close>

lemma lease_many_fails_restored: "lease_many p qs = (Err e, pool) \<Longrightarrow> pool = p"
  using lease_entries_restores [of p "[]" qs "Err e" pool] by (auto simp: lease_many_def split: if_splits)

lemma lease_entries_taken:
  assumes "lease_entries p es qs = (Ok es', pool)"
  shows "\<exists>new. es' = es @ new \<and> map fst new = qs \<and>
    (\<forall>q. fmlookup (pool_sequences pool) q = (if q \<in> set qs then None else fmlookup (pool_sequences p) q)) \<and>
    (\<forall>(q, b) \<in> set new. fmlookup (pool_sequences p) q = Some b)"
  using assms
proof (induction qs arbitrary: p es)
  case (Cons q qs)
  then obtain b where b: "fmlookup (pool_sequences p) q = Some b"
    "lease_entries (p\<lparr>pool_sequences := fmdrop q (pool_sequences p)\<rparr>) (es @ [(q, b)]) qs = (Ok es', pool)"
    by (auto split: option.splits)
  from Cons.IH [OF b(2)] obtain new where new: "es' = es @ (q, b) # new" "map fst new = qs"
    "\<forall>q'. fmlookup (pool_sequences pool) q' = (if q' \<in> set qs then None else if q' = q then None else fmlookup (pool_sequences p) q')"
    "\<forall>(q', b') \<in> set new. q' \<noteq> q \<and> fmlookup (pool_sequences p) q' = Some b'"
    by (force split: if_splits)
  show ?case
    by (intro exI [of _ "(q, b) # new"]) (use new b(1) in auto)
qed simp

text \<open>A lease is all or nothing. It succeeds exactly when the identities are distinct and in the
  pool, and then holds exactly their entries, in order, while the pool has none of them; dropping it
  gives the pool back as it was. A refused lease leaves the pool unchanged.\<close>

theorem lease_many_all_or_nothing:
  "(case lease_many p qs of
      (Inl e, pool) \<Rightarrow> pool = p \<and> \<not> (distinct qs \<and> set qs \<subseteq> fset (fmdom (pool_sequences p)))
    | (Inr entries, pool) \<Rightarrow>
        distinct qs \<and> map fst entries = qs \<and>
        (\<forall>(q, b) \<in> set entries. fmlookup (pool_sequences p) q = Some b) \<and>
        (\<forall>q. fmlookup (pool_sequences pool) q = (if q \<in> set qs then None else fmlookup (pool_sequences p) q)) \<and>
        lease_drop pool entries = p)"
proof (cases "lease_many p qs")
  case (Pair res pool)
  show ?thesis
  proof (cases res)
    case (Inl e)
    have "\<not> (distinct qs \<and> set qs \<subseteq> fset (fmdom (pool_sequences p)))"
      using lease_many_ok [of qs p] Pair Inl by (auto simp: pool_ids_def)
    then show ?thesis using Pair Inl lease_many_fails_restored [of p qs e pool] by simp
  next
    case (Inr entries)
    then have l: "lease_entries p [] qs = (Ok entries, pool)" "card (set qs) = length qs"
      using Pair by (auto simp: lease_many_def split: if_splits)
    show ?thesis
      using lease_entries_taken [OF l(1)] card_distinct [OF l(2)] lease_many_restores [of p qs entries pool] Pair Inr
      by auto
  qed
qed

text \<open>Cancelling an unfinished request of a reachable scheduler reports its prompt and what it
  generated, forgets the request, takes it out of every queue and returns exactly its sequence to the
  pool; every other request stays as it is. A finished request is reported as such and an unknown one as
  not found, with no effect.\<close>

theorem cancel_request_releases:
  assumes "reachable m c s"
  shows "(case fmlookup (requests s) i of
      None \<Rightarrow> cancel_request s i = (NotFound, s)
    | Some r \<Rightarrow>
        if lifecycle r = Finished then cancel_request s i = (AlreadyFinished, s)
        else \<exists>s'. cancel_request s i =
               (Cancelled i (prompt_tokens r) (generated_tokens r) (sequence_device_bytes r), s') \<and>
             (\<forall>j. fmlookup (requests s') j = (if j = i then None else fmlookup (requests s) j)) \<and>
             i \<notin> set (waiting s' @ prefilling s' @ decoding s') \<and>
             fset (fmdom (pool_sequences (sequences s'))) =
               fset (fmdom (pool_sequences (sequences s))) - set_option (sequence_id r) \<and>
             active_sequence_count s' = active_sequence_count s - (if lifecycle r = Waiting then 0 else 1))"
proof (cases "fmlookup (requests s) i")
  case None
  then show ?thesis by (simp add: cancel_request_def)
next
  case (Some r)
  show ?thesis
  proof (cases "lifecycle r = Finished")
    case True
    then show ?thesis using Some by (simp add: cancel_request_def)
  next
    case False
    have "sched_inv s []" using reachable_inv [OF assms] by blast
    then have store: "store_ok (fmlookup (requests s)) (sequences s) (next_id s)" by (simp add: sched_inv_def)
    have r: "lifecycle r = Waiting \<longleftrightarrow> sequence_id r = None"
      using store_okD(1) [OF store Some] False by (auto simp: request_ok_def split: RequestState.splits)
    have in_pool: "q \<in> pool_ids (sequences s)" if "sequence_id r = Some q" for q
      by (rule owned_sequence_in_pool [OF store Some that])
    obtain out s' where c: "cancel_request s i = (out, s')" by (cases "cancel_request s i")
    have ids: "pool_ids (sequences s') = pool_ids (sequences s) - set_option (sequence_id r)"
      using c Some False in_pool
      by (auto simp: cancel_request_def Let_def pool_release_eq pool_ids_drop split: option.splits)
    have fields: "out = Cancelled i (prompt_tokens r) (generated_tokens r) (sequence_device_bytes r)"
      "requests s' = fmdrop i (requests s)" "waiting s' = filter (\<lambda>q. q \<noteq> i) (waiting s)"
      "prefilling s' = filter (\<lambda>q. q \<noteq> i) (prefilling s)" "decoding s' = filter (\<lambda>q. q \<noteq> i) (decoding s)"
      using c Some False by (simp_all add: cancel_request_def Let_def split: option.splits)
        (auto split: option.splits)
    have "active_sequence_count s' = active_sequence_count s - (if lifecycle r = Waiting then 0 else 1)"
      using in_pool r unfolding active_count ids by (cases "sequence_id r") auto
    then show ?thesis
      using c Some False ids [unfolded pool_ids_def] fields by simp
  qed
qed


section \<open>An error after the batch\<close>

lemma settle_batch_refused:
  assumes "tool_grammar r = Some g" "\<not> is_ok (fst (grammar_commit G g (sampled_id x)))"
  shows "\<exists>e t. settle_batch G fin ((r, [x]) # rows) s tick = Some (Err e, s, t)"
  using assms by (cases "grammar_commit G g (sampled_id x)")
    (auto simp: settle_batch.simps is_ok_def split: sum.splits)



section \<open>A concrete run\<close>

text \<open>
  A request with a prompt of three tokens and two tokens to generate, on a scheduler that serves one
  request at a time: it is queued, then prefilled, then it decodes, then it is finished.
\<close>

definition demo_config :: SchedulerConfig where
  "demo_config = \<lparr>decode_capacity = 1, decision_branch_capacity = 1, prefill_sequence_capacity = 1,
     prefill_token_capacity = 4, max_active_sequences = 1, max_context_tokens = 16, speculative_drafts = 0\<rparr>"

definition demo_model :: Model where
  "demo_model = \<lparr>vocab = 100, dflash2_enabled = False, mtp_weights = False\<rparr>"

definition demo_start :: "unit Scheduler" where
  "demo_start = \<lparr>config = demo_config, model = demo_model, sequences = pool_new, requests = fmempty,
     waiting = [], prefilling = [], decoding = [], next_id = 0\<rparr>"

definition demo_request :: RequestConfig where
  "demo_request = \<lparr>max_new_tokens = 2, eos_token_ids = [99], uses_fast_argmax = True\<rparr>"

definition demo_sample :: SampledToken where
  "demo_sample = \<lparr>sampled_id = 7, sampled_logit = 0, adjusted_logit = 0\<rparr>"

definition demo_grammar :: "unit grammar_ops" where
  "demo_grammar = \<lparr>grammar_commit = (\<lambda>g t. (Ok (), g)), grammar_is_complete = (\<lambda>g. False)\<rparr>"

definition demo_refusal :: "unit grammar_ops" where
  "demo_refusal = \<lparr>grammar_commit = (\<lambda>g t. (Err (Format ''tool grammar''), g)), grammar_is_complete = (\<lambda>g. False)\<rparr>"

definition demo_admit :: "unit Request \<Rightarrow> AdmissionOutcome" where
  "demo_admit r = Admitted \<lparr>adm_position = 0, adm_sequence_bytes = 64, adm_count_bytes = 16,
     adm_speculation = Ok None, adm_sync = Ok ()\<rparr>"

definition demo_decode :: "unit decode_execution" where
  "demo_decode = \<lparr>exec_speculative = (\<lambda>r. (Ok ([demo_sample], 1), r)),
     exec_decode = (\<lambda>sel. (Ok (map (\<lambda>_. demo_sample) sel), sel)), exec_finish = (\<lambda>r. Ok ())\<rparr>"

definition demo_fault :: "unit decode_execution" where
  "demo_fault = demo_decode\<lparr>exec_decode := (\<lambda>sel. (Err (Format ''kernel launch''), sel))\<rparr>"

definition demo_prefill :: "unit prefill_execution" where
  "demo_prefill = \<lparr>exec_mtp_allocation = Ok (), exec_dflash2_allocation = Ok (),
     exec_prefill = (\<lambda>rows. Ok ()), exec_append = (\<lambda>r. Ok ()), exec_warmup = (\<lambda>r. Ok ()),
     exec_prefill_sync = Ok (), exec_retain_disabled = False, exec_position = prompt_position\<rparr>"

definition demo_queued :: "unit option \<Rightarrow> unit Scheduler" where
  "demo_queued g = demo_start\<lparr>waiting := [0], next_id := 1,
     requests := fmupd 0 (new_request 0 demo_request [1, 2, 3] g) fmempty\<rparr>"

definition demo_active :: "unit option \<Rightarrow> nat \<Rightarrow> unit Request" where
  "demo_active g pos = (new_request 0 demo_request [1, 2, 3] g)\<lparr>lifecycle := Prefilling, prompt_position := pos,
     sequence_id := Some 0, sequence_device_bytes := 80\<rparr>"

definition demo_serving :: "unit Request \<Rightarrow> unit Scheduler" where
  "demo_serving r = demo_start\<lparr>next_id := 1, requests := fmupd 0 r fmempty,
     sequences := \<lparr>pool_sequences = (if sequence_id r = None then fmempty else fmupd 0 80 fmempty), pool_next = 1\<rparr>,
     prefilling := (if lifecycle r = Prefilling then [0] else []),
     decoding := (if lifecycle r = Decoding then [0] else [])\<rparr>"

definition demo_decoding :: "unit option \<Rightarrow> unit Request" where
  "demo_decoding g = snd (apply_sample (demo_active g 2) demo_sample False)"

definition demo_finished :: "unit option \<Rightarrow> unit Request" where
  "demo_finished g = (snd (apply_sample (demo_decoding g) demo_sample False))\<lparr>sequence_id := None\<rparr>"

lemmas demo_requests = demo_active_def demo_decoding_def demo_finished_def new_request_def demo_request_def
  apply_sample_def Let_def remaining_prompt_tokens_def demo_sample_def

lemmas demo_states = demo_start_def demo_config_def demo_model_def demo_serving_def

lemma demo_environment: "environment_ok demo_admit demo_decode"
  unfolding environment_ok_def admission_ok_def decode_execution_ok_def
  by (auto simp: demo_admit_def demo_decode_def list_all2_same)

lemma demo_new: "scheduler_new demo_model demo_config (Ok ()) = Ok demo_start"
  by (simp add: scheduler_new_def demo_states validate_config_def validate_speculative_drafts_def
      MAX_SPECULATIVE_DRAFTS_def)

lemma demo_add: "add_request_with_grammar (Ok ()) demo_start [1, 2, 3] demo_request g = (Ok 0, demo_queued g)"
  by (simp add: add_request_with_grammar_def demo_states demo_queued_def demo_request_def new_request_def
      checked_add_def usize_max_def u64_max_def)

lemma demo_admission:
  "\<exists>ps. admit_waiting demo_admit (demo_queued g) [] = Some (Ok (), demo_serving (demo_active g 0), ps)"
  by (simp add: admit_waiting.simps demo_queued_def demo_states active_sequence_count_def pool_new_def fcard.rep_eq
      demo_admit_def admit_sequence_def admit_position_def pool_insert_def admit_speculation_def checked_add_def
      usize_max_def u64_max_def demo_requests retained_prompt_prefix_tokens_def SM12X_KV_PAGE_TOKENS_def)

lemma demo_no_admission: "waiting s = [] \<Longrightarrow> admit_waiting demo_admit s [] = Some (Ok (), s, [])"
  by (simp add: admit_waiting.simps [of demo_admit s])

lemma demo_decode_idle:
  "run_decode_phase demo_grammar demo_decode (demo_serving (demo_active g 0)) t =
     Some (Ok (), demo_serving (demo_active g 0), t)"
  by (simp add: run_decode_phase_def demo_states demo_requests)

lemma fmupd_fmdrop [simp]: "fmupd i x (fmdrop i m) = fmupd i x m"
  by (rule fmap_ext) simp

lemma fmdrop_single [simp]: "fmdrop i (fmupd i x fmempty) = fmempty"
  by (rule fmap_ext) simp

lemma demo_prefill_one:
  "\<exists>t' ps. run_prefill_phase demo_prefill (demo_serving (demo_active g 0)) t =
     Some (Ok (), demo_serving (demo_active g 2), t', ps)"
  by (simp add: run_prefill_phase_def demo_states demo_requests prefillable_tokens_def div_ceil_def
      prefill_chunk_tokens_def execute_prefill_def ok_or_def lease_many_def lease_drop_def demo_prefill_def
      advance_speculation_def finish_chunk_def retain_request_checkpoint_def retained_prompt_prefix_tokens_def
      SM12X_KV_PAGE_TOKENS_def numeral_2_eq_2)


lemma demo_decode_first:
  "\<exists>t'. run_decode_phase demo_grammar demo_decode (demo_serving (demo_active g 2)) t =
     Some (Ok (), demo_serving (demo_decoding g), t')"
  by (cases g) (simp_all add: run_decode_phase_def demo_states demo_requests demo_decode_def demo_grammar_def
      spec_eligible_def settle_batch.simps)

lemma demo_decode_last:
  "\<exists>t'. run_decode_phase demo_grammar demo_decode (demo_serving (demo_decoding g)) t =
     Some (Ok (), demo_serving (demo_finished g), t')"
  by (cases g) (simp_all add: run_decode_phase_def demo_states demo_requests demo_decode_def demo_grammar_def
      spec_eligible_def settle_batch.simps pool_release_def)

lemma demo_prefill_idle:
  "prefilling (demo_serving r) = [] \<Longrightarrow> run_prefill_phase demo_prefill (demo_serving r) t = Some (Ok (), demo_serving r, t, [])"
  by (simp add: run_prefill_phase_def demo_states)

lemma demo_serving_waiting: "waiting (demo_serving r) = []"
  by (simp add: demo_serving_def demo_start_def)

lemma demo_not_prefilling:
  "prefilling (demo_serving (demo_decoding g)) = []" "prefilling (demo_serving (demo_finished g)) = []"
  by (simp_all add: demo_serving_def demo_start_def demo_requests)

lemma demo_ticks:
  "\<exists>out. run_tick demo_grammar demo_admit demo_decode demo_prefill (demo_queued g) =
     Some (Ok out, demo_serving (demo_active g 2))"
  "\<exists>out. run_tick demo_grammar demo_admit demo_decode demo_prefill (demo_serving (demo_active g 2)) =
     Some (Ok out, demo_serving (demo_decoding g))"
  "\<exists>out. run_tick demo_grammar demo_admit demo_decode demo_prefill (demo_serving (demo_decoding g)) =
     Some (Ok out, demo_serving (demo_finished g))"
  using demo_admission [of g] demo_decode_idle [of g empty_tick] demo_prefill_one [of g empty_tick]
    demo_decode_first [of g empty_tick] demo_decode_last [of g empty_tick]
    demo_no_admission [OF demo_serving_waiting] demo_prefill_idle demo_not_prefilling [of g]
  unfolding run_tick_def by (auto split: option.splits prod.splits)

lemma demo_reachable:
  "reachable demo_model demo_config (demo_queued g)"
  "reachable demo_model demo_config (demo_serving (demo_active g 2))"
  "reachable demo_model demo_config (demo_serving (demo_decoding g))"
  "reachable demo_model demo_config (demo_serving (demo_finished g))"
proof -
  show q: "reachable demo_model demo_config (demo_queued g)"
    by (rule reachable_add [OF reachable_new [OF demo_new] demo_add])
  have step: "reachable demo_model demo_config s'"
    if r: "reachable demo_model demo_config s" and
      t: "\<exists>out. run_tick demo_grammar demo_admit demo_decode demo_prefill s = Some (Ok out, s')" for s s'
  proof -
    obtain out where "run_tick demo_grammar demo_admit demo_decode demo_prefill s = Some (Ok out, s')" using t by blast
    then show ?thesis by (rule reachable_tick [OF r demo_environment]) (simp add: is_ok_def)
  qed
  show a: "reachable demo_model demo_config (demo_serving (demo_active g 2))" by (rule step [OF q demo_ticks(1)])
  show d: "reachable demo_model demo_config (demo_serving (demo_decoding g))" by (rule step [OF a demo_ticks(2)])
  show "reachable demo_model demo_config (demo_serving (demo_finished g))" by (rule step [OF d demo_ticks(3)])
qed


lemmas demo_inv = demo_reachable [THEN reachable_inv, THEN conjunct1]

lemma demo_execution: "decode_execution_ok demo_decode" "decode_execution_ok demo_fault"
  unfolding decode_execution_ok_def by (auto simp: demo_decode_def demo_fault_def list_all2_same)




theorem prefill_phase_bounds_witness:
  "\<exists>s' tick' ps. run_prefill_phase demo_prefill (demo_serving (demo_active None 0)) empty_tick =
      Some (Ok (), s', tick', ps) \<and> sum_list (map prefill_tokens ps) \<le> 4 \<and> length ps \<le> 1"
proof -
  have "active_sequence_count (demo_queued None) \<le> max_active_sequences (config (demo_queued None))"
    using reachable_inv [OF demo_reachable(1) [of None]] by simp
  moreover have "admission_ok demo_admit" using demo_environment by (simp add: environment_ok_def)
  ultimately have inv: "sched_inv (demo_serving (demo_active None 0)) []"
    using admit_waiting_ok [OF demo_inv(1) [of None], of demo_admit "[]"] demo_admission [of None] by auto
  obtain t ps where run: "run_prefill_phase demo_prefill (demo_serving (demo_active None 0)) empty_tick =
      Some (Ok (), demo_serving (demo_active None 2), t, ps)"
    using demo_prefill_one by blast
  have "sum_list (map prefill_tokens ps) \<le> 4 \<and> length ps \<le> 1"
    using prefill_phase_bounds [OF inv run] by (simp add: demo_states)
  then show ?thesis using run by blast
qed

theorem cancel_request_releases_witness:
  "\<exists>s'. cancel_request (demo_serving (demo_decoding None)) 0 =
      (Cancelled 0 [1, 2, 3] (generated_tokens (demo_decoding None)) 80, s') \<and>
    active_sequence_count s' = 0"
  using cancel_request_releases [OF demo_reachable(3) [of None], of 0]
  by (auto simp: demo_states demo_requests active_sequence_count_def fcard.rep_eq)



theorem lease_many_all_or_nothing_witness:
  "\<exists>entries pool. lease_many \<lparr>pool_sequences = fmupd 1 80 (fmupd 0 64 fmempty), pool_next = 2\<rparr> [1, 0] = (Ok entries, pool) \<and>
     map fst entries = [1, 0] \<and> fmlookup (pool_sequences pool) 0 = None \<and>
     lease_drop pool entries = \<lparr>pool_sequences = fmupd 1 80 (fmupd 0 64 fmempty), pool_next = 2\<rparr>"
  using lease_many_all_or_nothing [of "\<lparr>pool_sequences = fmupd 1 80 (fmupd 0 64 fmempty), pool_next = 2\<rparr>" "[1, 0]"]
  by (auto split: prod.splits sum.splits)

end
