(* ===== verification/Scheduler_Progress.thy ===== *)
theory Scheduler_Progress
  imports Scheduler_Safety
begin

text \<open>
  Liveness of the scheduler. The outstanding work of a request counts the steps it is away from being
  finished; every successful tick that finds unfinished requests reduces the sum, so that a bounded
  number of successful ticks finishes all of them.
\<close>

section \<open>Outstanding work\<close>

definition work :: "'g Request \<Rightarrow> nat" where
  "work r =
     (case lifecycle r of
        Waiting \<Rightarrow> length (prompt_tokens r) + max_new_tokens (request_config r) + 1
      | Prefilling \<Rightarrow> length (prompt_tokens r) - prompt_position r + max_new_tokens (request_config r)
      | Decoding \<Rightarrow> max_new_tokens (request_config r) - length (generated_tokens r)
      | Finished \<Rightarrow> 0)"

definition outstanding :: "'g request_map \<Rightarrow> nat" where
  "outstanding reqs = (\<Sum>i \<in> fset (fmdom reqs). work (the (fmlookup reqs i)))"

lemma work_unfinished: "request_ok r \<Longrightarrow> work r = 0 \<longleftrightarrow> lifecycle r = Finished"
  by (auto simp: request_ok_def work_def split: RequestState.splits)

lemma work_same: "same_schedule r r' \<Longrightarrow> work r' = work r"
  by (simp add: work_def same_scheduleD split: RequestState.split)

lemma outstanding_drop:
  "fmlookup reqs i = Some r \<Longrightarrow> outstanding reqs = work r + outstanding (fmdrop i reqs)"
proof -
  assume r: "fmlookup reqs i = Some r"
  have "outstanding reqs = work r + (\<Sum>j \<in> fset (fmdom reqs) - {i}. work (the (fmlookup reqs j)))"
    unfolding outstanding_def
    using r sum.remove [of "fset (fmdom reqs)" i "\<lambda>j. work (the (fmlookup reqs j))"] by (simp add: fmdomI)
  also have "(\<Sum>j \<in> fset (fmdom reqs) - {i}. work (the (fmlookup reqs j))) = outstanding (fmdrop i reqs)"
    unfolding outstanding_def by (intro sum.cong) auto
  finally show ?thesis .
qed

lemma outstanding_put:
  "fmlookup reqs i = None \<Longrightarrow> outstanding (fmupd i r reqs) = work r + outstanding reqs"
  using outstanding_drop [of "fmupd i r reqs" i r] fmdrop_idle [OF fmdom_notI, of reqs i]
  by (simp add: fmdrop_fmupd_same)

lemma outstanding_change:
  assumes "fmlookup reqs i = Some r"
  shows "outstanding (fmupd i r' reqs) + work r = outstanding reqs + work r'"
proof -
  have "outstanding (fmupd i r' (fmdrop i reqs)) = work r' + outstanding (fmdrop i reqs)"
    by (rule outstanding_put) simp
  then show ?thesis using outstanding_drop [OF assms] by simp
qed

text \<open>Requests in hand count as if they were in the map.\<close>

lemma outstanding_batch:
  assumes "batch_ok reqs sel" "everyone reqs sel = fmlookup reqs'"
  shows "outstanding reqs + sum_list (map work sel) = outstanding reqs'"
  using assms
proof (induction sel arbitrary: reqs')
  case Nil
  then show ?case by (simp add: fmlookup_inject)
next
  case (Cons r sel)
  have ok: "batch_ok reqs sel" and lookup: "fmlookup reqs' (request_id r) = Some r"
    using Cons.prems everyone_Cons [of reqs r sel] by (auto simp: batch_ok_def)
  have "everyone reqs sel = fmlookup (fmdrop (request_id r) reqs')"
  proof
    fix i
    show "everyone reqs sel i = fmlookup (fmdrop (request_id r) reqs') i"
    proof (cases "i = request_id r")
      case True
      have "everyone reqs sel i \<noteq> Some t" for t
        using everyone_lookup [OF ok, of i t] Cons.prems(1) True by (auto simp: batch_ok_def rev_image_eqI)
      then show ?thesis using True by (cases "everyone reqs sel i") auto
    next
      case False
      have "everyone reqs sel i = Some t \<longleftrightarrow> everyone reqs (r # sel) i = Some t" for t
        using everyone_lookup [OF ok, of i t] everyone_lookup [OF Cons.prems(1), of i t] False by auto
      then have "everyone reqs sel i = everyone reqs (r # sel) i" by (metis not_Some_eq)
      then show ?thesis using False Cons.prems(2) by simp
    qed
  qed
  from Cons.IH [OF ok this] show ?case using outstanding_drop [OF lookup] by simp
qed


lemma everyone_dom:
  assumes "batch_ok reqs sel" "everyone reqs sel = fmlookup reqs'"
  shows "fset (fmdom reqs') = fset (fmdom reqs) \<union> request_id ` set sel"
proof (rule set_eqI)
  fix i
  have "i \<in> fset (fmdom reqs') \<longleftrightarrow> (\<exists>r. everyone reqs sel i = Some r)"
    using assms(2) by (auto simp: fmlookup_dom_iff)
  then show "i \<in> fset (fmdom reqs') \<longleftrightarrow> i \<in> fset (fmdom reqs) \<union> request_id ` set sel"
    unfolding everyone_lookup [OF assms(1)] by (auto simp: fmlookup_dom_iff)
qed

section \<open>Decoding\<close>

lemma apply_sample_work:
  assumes "request_ok r" "ready r" "apply_sample r x c = (token, r')"
  shows "work r' < work r"
  using assms
  by (auto simp: work_def apply_sample_def request_ok_def ready_def remaining_prompt_tokens_def Let_def
      split: RequestState.splits if_splits)

lemma apply_samples_work:
  assumes "apply_samples G r samples gen = (Ok u, r', gen')" "request_ok r" "ready r" "samples \<noteq> []"
  shows "work r' < work r"
  using assms
proof (induction samples arbitrary: r gen)
  case (Cons x xs)
  define r1 where "r1 = (case tool_grammar r of None \<Rightarrow> r
    | Some g \<Rightarrow> r\<lparr>tool_grammar := Some (snd (grammar_commit G g (sampled_id x)))\<rparr>)"
  have same: "same_schedule r r1" by (auto simp: r1_def same_schedule_def split: option.split)
  have r1: "request_ok r1" "ready r1" "work r1 = work r"
    using same_scheduleD(4,5) [OF same] Cons.prems(2,3) work_same [OF same] by auto
  obtain c token r2 where a: "apply_sample r1 x c = (token, r2)"
    "(if lifecycle r2 = Finished then (Ok (), r2, gen @ [token]) else apply_samples G r2 xs (gen @ [token])) =
      (Ok u, r', gen')"
    using Cons.prems(1) unfolding r1_def
    by (auto simp: Let_def split: option.splits prod.splits sum.splits)
  have w: "work r2 < work r" using apply_sample_work [OF r1(1,2) a(1)] r1(3) by simp
  show ?case
  proof (cases "lifecycle r2 = Finished \<or> xs = []")
    case True
    then show ?thesis using a(2) w by (auto split: if_splits)
  next
    case False
    have "lifecycle r2 = Decoding \<and> request_ok r2"
      using apply_sample_ok(1) [OF r1(1,2) a(1)] False by (auto simp: sampled_ok_def)
    moreover have "ready r2" using apply_sample_ok(2) [OF r1(1,2) a(1)] calculation by simp
    ultimately show ?thesis using Cons.IH [of r2 "gen @ [token]"] a(2) False w by auto
  qed
qed simp

text \<open>Rows of a batch on which every request gets at least one token.\<close>

definition productive_rows :: "('g Request \<times> SampledToken list) list \<Rightarrow> bool" where
  "productive_rows rows \<longleftrightarrow> (\<forall>(r, xs) \<in> set rows. ready r \<and> request_ok r \<and> xs \<noteq> [])"

lemma settle_batch_step:
  assumes "settle_batch G fin ((r, xs) # rows) s tick = Some (Ok u, s', tick')"
  shows "\<exists>r' gen s1 t1 v. apply_samples G r xs (tick_generated tick) = (Ok v, r', gen) \<and>
    settle_batch G fin rows s1 t1 = Some (Ok u, s', tick') \<and>
    (requests s1 = fmupd (request_id r') r' (requests s) \<or>
     requests s1 = fmupd (request_id r') (r'\<lparr>sequence_id := None\<rparr>) (requests s))"
  using assms
  by (auto simp: settle_batch.simps Let_def split: prod.splits sum.splits option.splits if_splits; force)

lemma batch_ok_rest: "batch_ok reqs (r # sel) \<Longrightarrow> batch_ok (fmupd (request_id r) t reqs) sel"
  by (auto simp: batch_ok_def image_iff)

lemma settle_batch_work:
  assumes "settle_batch G fin rows s tick = Some (Ok u, s', tick')"
    "batch_ok (requests s) (map fst rows)" "productive_rows rows"
  shows "outstanding (requests s') + length rows \<le> outstanding (requests s) + sum_list (map (work \<circ> fst) rows) \<and>
    fset (fmdom (requests s')) = fset (fmdom (requests s)) \<union> request_id ` set (map fst rows)"
  using assms
proof (induction rows arbitrary: s tick)
  case Nil
  then show ?case by (simp add: settle_batch.simps)
next
  case (Cons row rows)
  obtain r xs where row: "row = (r, xs)" by (cases row)
  obtain r' gen s1 t1 v where step: "apply_samples G r xs (tick_generated tick) = (Ok v, r', gen)"
    "settle_batch G fin rows s1 t1 = Some (Ok u, s', tick')"
    "requests s1 = fmupd (request_id r') r' (requests s) \<or>
     requests s1 = fmupd (request_id r') (r'\<lparr>sequence_id := None\<rparr>) (requests s)"
    using settle_batch_step Cons.prems(1) row by blast
  have r: "ready r" "request_ok r" "xs \<noteq> []" "productive_rows rows"
    using Cons.prems(3) row by (auto simp: productive_rows_def)
  have w: "work r' < work r" by (rule apply_samples_work [OF step(1) r(2,1,3)])
  have id: "request_id r' = request_id r"
    using apply_samples_ok [OF step(1) r(2,1)] r(3) by (simp add: sampled_ok_def)
  have none: "fmlookup (requests s) (request_id r) = None" using Cons.prems(2) row by (simp add: batch_ok_def)
  have w': "work (r'\<lparr>sequence_id := None\<rparr>) = work r'" by (simp add: work_def split: RequestState.split)
  have s1: "outstanding (requests s1) = work r' + outstanding (requests s)"
    "fset (fmdom (requests s1)) = insert (request_id r) (fset (fmdom (requests s)))"
    using step(3) id outstanding_put [OF none] w' by auto
  have "batch_ok (requests s1) (map fst rows)"
    using batch_ok_rest [of "requests s" r "map fst rows"] Cons.prems(2) row step(3) id by auto
  from Cons.IH [OF step(2) this r(4)] show ?case using s1 w row by auto
qed


lemma sum_work_same: "list_all2 same_schedule sel batch \<Longrightarrow> sum_list (map work batch) = sum_list (map work sel)"
  by (induction rule: list_all2_induct) (simp_all add: work_same)

lemma decode_phase_work:
  assumes inv: "sched_inv s []" and X: "decode_execution_ok X" "productive X"
    and run: "run_decode_phase G X s tick = Some (Ok u, s', tick')"
  shows "fmdom (requests s') = fmdom (requests s)"
    "outstanding (requests s') \<le> outstanding (requests s)"
    "0 < decode_capacity (config s) \<Longrightarrow> decoding s \<noteq> [] \<or> (\<exists>i \<in> set (prefilling s). last_left (requests s) i) \<Longrightarrow>
      outstanding (requests s') < outstanding (requests s)"
    "decoding s = [] \<Longrightarrow> \<not> (\<exists>i \<in> set (prefilling s). last_left (requests s) i) \<Longrightarrow>
      requests s' = requests s \<and> prefilling s' = prefilling s"
proof -
  let ?cap = "decode_capacity (config s)"
  let ?joined = "take (?cap - length (decoding s)) (filter (last_left (requests s)) (prefilling s))"
  obtain dec reqs1 sel1 pre reqs2 sel where sel:
    "pop_decoding ?cap (decoding s) (requests s) [] = Some (dec, reqs1, sel1)"
    "scan_prefilling ?cap (prefilling s) [] reqs1 sel1 = Some (pre, reqs2, sel)"
    "sched_inv (s\<lparr>decoding := dec, prefilling := pre, requests := reqs2\<rparr>) sel" "\<forall>r \<in> set sel. ready r"
    "everyone reqs2 sel = fmlookup (requests s)" "map request_id sel = take ?cap (decoding s) @ ?joined"
    "pre = filter (\<lambda>i. i \<notin> set ?joined) (prefilling s)"
    using decode_selection_order [OF inv] by metis
  have batch: "batch_ok reqs2 sel" using sel(3) by (simp add: sched_inv_def)
  have result: "fmdom (requests s') = fmdom (requests s) \<and>
    outstanding (requests s') + length sel \<le> outstanding (requests s) \<and>
    (sel = [] \<longrightarrow> requests s' = requests s \<and> prefilling s' = pre)"
  proof (cases "sel = []")
    case True
    then have "requests s' = reqs2" "prefilling s' = pre" using run sel(1,2) by (auto simp: run_decode_phase_def Let_def)
    moreover have "reqs2 = requests s" using True sel(5) by (simp add: fmlookup_inject)
    ultimately show ?thesis using True by simp
  next
    case False
    let ?s = "s\<lparr>decoding := dec, prefilling := pre, requests := reqs2\<rparr>"
    obtain rows t where rows: "settle_batch G (exec_finish X) rows ?s t = Some (Ok u, s', tick')"
      "list_all2 same_schedule sel (map fst rows)" "rows_ok rows" "\<forall>r \<in> set (map fst rows). request_ok r"
      "\<forall>(r, xs) \<in> set rows. xs \<noteq> []"
      using decode_rows [OF X(1) sel(1-4) False run] X(2) by blast
    have "productive_rows rows" using rows(3-5) by (fastforce simp: productive_rows_def rows_ok_def)
    have ok: "batch_ok (requests ?s) (map fst rows)"
      using sched_inv_exchange [OF sel(3) rows(2)] by (simp add: sched_inv_def)
    have len: "length rows = length sel" using list_all2_lengthD [OF rows(2)] by simp
    have ids: "request_id ` set (map fst rows) = request_id ` set sel"
      using same_schedule_ids [OF rows(2)] by (metis set_map)
    have "fset (fmdom (requests s')) = fset (fmdom (requests s))"
      "outstanding (requests s') + length sel \<le> outstanding (requests s)"
      using settle_batch_work [OF rows(1) ok \<open>productive_rows rows\<close>] outstanding_batch [OF batch sel(5)] sum_work_same [OF rows(2)]
        len ids everyone_dom [OF batch sel(5)] by simp_all
    then show ?thesis using False by (simp add: fset_inject)
  qed
  then show "fmdom (requests s') = fmdom (requests s)" "outstanding (requests s') \<le> outstanding (requests s)" by auto
  show "outstanding (requests s') < outstanding (requests s)"
    if "0 < ?cap" "decoding s \<noteq> [] \<or> (\<exists>i \<in> set (prefilling s). last_left (requests s) i)"
  proof -
    have "take ?cap (decoding s) @ ?joined \<noteq> []" using that by (auto simp: filter_empty_conv)
    then have "sel \<noteq> []" using sel(6) by auto
    then show ?thesis using result by (cases sel) auto
  qed
  show "requests s' = requests s \<and> prefilling s' = prefilling s"
    if "decoding s = []" "\<not> (\<exists>i \<in> set (prefilling s). last_left (requests s) i)"
  proof -
    have "filter (last_left (requests s)) (prefilling s) = []" using that(2) by (auto simp: filter_empty_conv)
    then show ?thesis using sel(6,7) that(1) result by simp
  qed
qed


section \<open>Prefilling\<close>

lemma finish_chunks_work:
  assumes "finish_chunks X rows s ps = (s', ps')" "batch_ok (requests s) (map fst rows)" "\<forall>row \<in> set rows. chunk_ok row"
  shows "outstanding (requests s') + length rows \<le> outstanding (requests s) + sum_list (map (work \<circ> fst) rows) \<and>
    fset (fmdom (requests s')) = fset (fmdom (requests s)) \<union> request_id ` set (map fst rows)"
  using assms
proof (induction rows arbitrary: s ps)
  case (Cons row rows)
  obtain r c where row: "row = (r, c)" by (cases row)
  obtain p s1 where f: "finish_chunk X r c s = (p, s1)" by (cases "finish_chunk X r c s")
  let ?r = "r\<lparr>prompt_position := prompt_position r + c\<rparr>"
  obtain b where b: "retain_request_checkpoint (exec_retain_disabled X) (exec_position X ?r) (sequences s) ?r =
      ?r\<lparr>prefix_retained := b\<rparr>"
    using retain_request_checkpoint_eq by blast
  have s1: "requests s1 = fmupd (request_id r) (?r\<lparr>prefix_retained := b\<rparr>) (requests s)"
    using f b by (auto simp: finish_chunk_def Let_def)
  have w: "work (?r\<lparr>prefix_retained := b\<rparr>) < work r"
    using Cons.prems(3) row
    by (auto simp: work_def chunk_ok_def prefillable_tokens_def remaining_prompt_tokens_def)
  have none: "fmlookup (requests s) (request_id r) = None" using Cons.prems(2) row by (simp add: batch_ok_def)
  have "batch_ok (requests s1) (map fst rows)"
    using batch_ok_rest [of "requests s" r "map fst rows"] Cons.prems(2) row s1 by simp
  then show ?case
    using Cons.IH [of s1 "ps @ [p]"] Cons.prems(1,3) row f w s1 outstanding_put [OF none] by auto
qed simp

lemma select_prefill_some:
  assumes "select_prefill n P kept reqs budget slots [] = Some (P', reqs', sel)"
    "i \<in> set P" "fmlookup reqs i = Some r" "0 < prefillable_tokens r" "0 < n" "0 < budget"
  shows "sel \<noteq> []"
  using assms
proof (induction P arbitrary: kept)
  case (Cons j P)
  have grow: "length acc \<le> length sel"
    if "select_prefill n P kept reqs budget slots acc = Some (P', reqs', sel)" for P kept reqs budget slots acc
    using that
    by (induction P arbitrary: kept reqs budget slots acc)
      (fastforce simp: Let_def split: if_splits option.splits)+
  show ?case
  proof (cases "\<exists>t. fmlookup reqs j = Some t \<and> 0 < prefillable_tokens t")
    case True
    then obtain t c where "select_prefill n P kept (fmdrop j reqs) (budget - c) (slots - 1) [(t, c)] = Some (P', reqs', sel)"
      using Cons.prems(1,5,6) by (auto simp: Let_def)
    from grow [OF this] show ?thesis by auto
  next
    case False
    then have "i \<in> set P" "select_prefill n P (kept @ [j]) reqs budget slots [] = Some (P', reqs', sel)"
      using Cons.prems by (auto simp: Let_def split: if_splits option.splits)
    then show ?thesis using Cons.IH Cons.prems(3-6) by blast
  qed
qed simp

lemma count_eligible_some:
  assumes "count_eligible cap P reqs = Some n" "i \<in> set P" "fmlookup reqs i = Some r" "0 < prefillable_tokens r" "0 < cap"
  shows "0 < n"
  using assms
proof (induction cap P reqs arbitrary: n rule: count_eligible.induct)
  case (3 cap j P reqs)
  then show ?case by (auto split: option.splits if_splits)
qed auto

lemma same_rows:
  assumes "list_all2 same_row sel rows"
  shows "list_all2 same_schedule (map fst sel) (map fst rows)"
    and "\<forall>row \<in> set sel. chunk_ok row \<Longrightarrow> \<forall>row \<in> set rows. chunk_ok row"
  using assms by (induction rule: list_all2_induct) (auto simp: same_row_def dest: chunk_ok_same)

lemma prefill_phase_work:
  assumes inv: "sched_inv s []" and run: "run_prefill_phase X s tick = Some (Ok u, s', tick', ps)"
  shows "fmdom (requests s') = fmdom (requests s)" "outstanding (requests s') \<le> outstanding (requests s)"
    "0 < prefill_sequence_capacity (config s) \<Longrightarrow> 0 < prefill_token_capacity (config s) \<Longrightarrow>
      i \<in> set (prefilling s) \<Longrightarrow> fmlookup (requests s) i = Some r \<Longrightarrow> 0 < prefillable_tokens r \<Longrightarrow>
      outstanding (requests s') < outstanding (requests s)"
proof -
  obtain n where n: "count_eligible (prefill_sequence_capacity (config s)) (prefilling s) (requests s) = Some n"
    using eligible_count [OF inv] by blast
  obtain P' reqs' sel where sel:
    "select_prefill n (prefilling s) [] (requests s) (prefill_token_capacity (config s)) n [] = Some (P', reqs', sel)"
    "\<forall>row \<in> set sel. chunk_ok row" "everyone reqs' (map fst sel) = fmlookup (requests s)" "batch_ok reqs' (map fst sel)"
    "sched_inv (s\<lparr>prefilling := P', requests := reqs'\<rparr>) (map fst sel)"
    using prefill_selection_ok [OF inv n] by metis
  have result: "fset (fmdom (requests s')) = fset (fmdom (requests s)) \<and>
    outstanding (requests s') + (if n = 0 then 0 else length sel) \<le> outstanding (requests s)"
  proof (cases "n = 0 \<or> sel = []")
    case True
    then have "requests s' = requests s"
      using run n sel(1,3) by (auto simp: run_prefill_phase_def Let_def fmlookup_inject split: if_splits)
    then show ?thesis using True by auto
  next
    case False
    let ?s = "s\<lparr>prefilling := P', requests := reqs'\<rparr>"
    have "execute_prefill X ?s sel = (Ok u, s', ps)"
      using run n sel(1) False by (auto simp: run_prefill_phase_def Let_def split: prod.splits)
    from execute_prefill_success [OF this] obtain rows where
      rows: "finish_chunks X rows ?s [] = (s', ps)" "list_all2 same_row sel rows" by blast
    have same: "list_all2 same_schedule (map fst sel) (map fst rows)" "\<forall>row \<in> set rows. chunk_ok row" "length rows = length sel"
      using same_rows [OF rows(2)] sel(2) list_all2_lengthD [OF rows(2)] by auto
    have ok: "batch_ok (requests ?s) (map fst rows)"
      using sched_inv_exchange [OF sel(5) same(1)] by (simp add: sched_inv_def)
    have ids: "request_id ` set (map fst rows) = request_id ` set (map fst sel)"
      using same_schedule_ids [OF same(1)] by (metis set_map)
    show ?thesis
      using finish_chunks_work [OF rows(1) ok same(2)] outstanding_batch [OF sel(4,3)] sum_work_same [OF same(1)]
        everyone_dom [OF sel(4,3)] ids same(3) False by simp
  qed
  then show "fmdom (requests s') = fmdom (requests s)" "outstanding (requests s') \<le> outstanding (requests s)"
    by (auto simp: fset_inject)
  show "outstanding (requests s') < outstanding (requests s)"
    if "0 < prefill_sequence_capacity (config s)" "0 < prefill_token_capacity (config s)"
      "i \<in> set (prefilling s)" "fmlookup (requests s) i = Some r" "0 < prefillable_tokens r"
  proof -
    have "0 < n" by (rule count_eligible_some [OF n that(3-5,1)])
    moreover have "sel \<noteq> []" by (rule select_prefill_some [OF sel(1) that(3-5) calculation that(2)])
    ultimately show ?thesis using result by (cases sel) auto
  qed
qed


section \<open>Admission\<close>

lemma admit_sequence_work:
  assumes "admit_sequence s i r a = (Ok p, s')" "fmlookup (requests s) i = Some r" "lifecycle r = Waiting"
  shows "fmdom (requests s') = fmdom (requests s)" "outstanding (requests s') < outstanding (requests s)"
proof -
  obtain t where t: "requests s' = fmupd i (t\<lparr>lifecycle := Prefilling\<rparr>) (requests s)"
    "prompt_tokens t = prompt_tokens r" "request_config t = request_config r"
    using assms(1) by (auto simp: admit_sequence_def admit_position_def Let_def split: prod.splits sum.splits)
  have "work (t\<lparr>lifecycle := Prefilling\<rparr>) < work r" using t(2,3) assms(3) by (simp add: work_def)
  then show "outstanding (requests s') < outstanding (requests s)"
    using outstanding_change [OF assms(2), of "t\<lparr>lifecycle := Prefilling\<rparr>"] t(1) by simp
  show "fmdom (requests s') = fmdom (requests s)"
    using t(1) assms(2) by (simp add: fmdomI finsert_absorb)
qed

text \<open>
  When capacity is never the obstacle, admission goes on until the sequence limit is reached or nobody
  waits.
\<close>

definition never_blocks :: "('g Request \<Rightarrow> AdmissionOutcome) \<Rightarrow> bool" where
  "never_blocks admit \<longleftrightarrow> (\<forall>r. admit r \<noteq> WouldBlock)"

lemma admit_waiting_work:
  assumes "admit_waiting admit s ps = Some (Ok u, s', ps')" "sched_inv s []" "admission_ok admit" "never_blocks admit"
  shows "fmdom (requests s') = fmdom (requests s) \<and>
    (s' = s \<or> outstanding (requests s') < outstanding (requests s)) \<and>
    (waiting s' = [] \<or> max_active_sequences (config s') \<le> active_sequence_count s')"
  using assms
proof (induction admit s ps rule: admit_waiting.induct)
  case (1 admit s ps)
  show ?case
  proof (cases "active_sequence_count s < max_active_sequences (config s) \<and> waiting s \<noteq> []")
    case False
    then have "s' = s" using "1.prems"(1) by (auto simp: admit_waiting.simps [of admit s ps] split: list.splits if_splits)
    then show ?thesis using False by auto
  next
    case True
    then obtain i W where W: "waiting s = i # W" by (cases "waiting s") auto
    have q: "queues_ok (requests s) (i # W) (prefilling s) (decoding s)"
      and store: "store_ok (fmlookup (requests s)) (sequences s) (next_id s)"
      using "1.prems"(2) W by (auto simp: sched_inv_def)
    obtain r where r: "fmlookup (requests s) i = Some r" "lifecycle r = Waiting"
      using queue_ok_lookup [of "requests s" Waiting "i # W" i] q by (auto simp: queues_ok_def)
    obtain a where a: "admit r = Admitted a"
      using "1.prems"(1,4) True W r(1)
      by (cases "admit r") (auto simp: admit_waiting.simps [of admit s ps] never_blocks_def)
    obtain p s1 where s1: "admit_sequence (s\<lparr>waiting := W\<rparr>) i r a = (Ok p, s1)"
      "admit_waiting admit s1 (ps @ [p]) = Some (Ok u, s', ps')"
      using "1.prems"(1) True W r(1) a
      by (auto simp: admit_waiting.simps [of admit s ps] split: prod.splits sum.splits)
    have "prompt_tokens r \<noteq> []" using store_okD(1) [OF store r(1)] by (simp add: request_ok_def)
    then have pos: "adm_position a < length (prompt_tokens r)"
      using "1.prems"(3) a unfolding admission_ok_def by blast
    have inv: "sched_inv s1 []" using admit_sequence_ok [OF "1.prems"(2) W r(1) pos s1(1)] by blast
    have cond: "\<not> \<not> active_sequence_count s < max_active_sequences (config s)" using True by simp
    have "fmdom (requests s') = fmdom (requests s1) \<and>
      (s' = s1 \<or> outstanding (requests s') < outstanding (requests s1)) \<and>
      (waiting s' = [] \<or> max_active_sequences (config s') \<le> active_sequence_count s')"
      by (rule "1.IH" [OF cond W r(1) a s1(1) [symmetric] refl s1(2) inv "1.prems"(3,4)])
    then show ?thesis using admit_sequence_work [OF s1(1) _ r(2)] r(1) by auto
  qed
qed


section \<open>Ticks\<close>

definition all_finished :: "'g Scheduler \<Rightarrow> bool" where
  "all_finished s \<longleftrightarrow> (\<forall>i \<in> fset (fmdom (requests s)). request_state s i = Some Finished)"

lemma all_finished_iff:
  assumes "sched_inv s []"
  shows "all_finished s \<longleftrightarrow> outstanding (requests s) = 0"
proof -
  have store: "store_ok (fmlookup (requests s)) (sequences s) (next_id s)" using assms by (simp add: sched_inv_def)
  have "request_state s i = Some Finished \<longleftrightarrow> work (the (fmlookup (requests s) i)) = 0"
    if "i \<in> fset (fmdom (requests s))" for i
    using that store_okD(1) [OF store, of i] work_unfinished
    by (fastforce simp: request_state_def fmlookup_dom_iff)
  then show ?thesis by (simp add: all_finished_def outstanding_def)
qed

lemma unfinished_active:
  assumes inv: "sched_inv s []" and un: "\<not> all_finished s"
    and room: "waiting s = [] \<or> max_active_sequences (config s) \<le> active_sequence_count s"
      "0 < max_active_sequences (config s)"
  shows "decoding s \<noteq> [] \<or> prefilling s \<noteq> []"
proof -
  have store: "store_ok (fmlookup (requests s)) (sequences s) (next_id s)"
    and q: "queue_ok (requests s) Waiting (waiting s)" "queue_ok (requests s) Prefilling (prefilling s)"
      "queue_ok (requests s) Decoding (decoding s)"
    using inv by (auto simp: sched_inv_def queues_ok_def)
  have "\<exists>i r. fmlookup (requests s) i = Some r \<and> lifecycle r \<noteq> Finished \<and> lifecycle r \<noteq> Waiting"
  proof (cases "waiting s = []")
    case True
    obtain i r where r: "fmlookup (requests s) i = Some r" "lifecycle r \<noteq> Finished"
      using un by (auto simp: all_finished_def request_state_def fmlookup_dom_iff)
    moreover have "lifecycle r \<noteq> Waiting" using q(1) r(1) True by (auto simp: queue_ok_def)
    ultimately show ?thesis by blast
  next
    case False
    then have "card (pool_ids (sequences s)) \<noteq> 0" using room by (auto simp: active_count)
    then obtain p where "p \<in> pool_ids (sequences s)" by fastforce
    then obtain i r where r: "fmlookup (requests s) i = Some r" "sequence_id r = Some p"
      using store_okD(2) [OF store] by (auto simp: ran_def sequence_of_Some)
    then show ?thesis
      using store_okD(1) [OF store r(1)] by (intro exI [of _ i] exI [of _ r]) (auto simp: request_ok_def)
  qed
  then obtain i r where "fmlookup (requests s) i = Some r" "lifecycle r = Prefilling \<or> lifecycle r = Decoding"
    by (metis RequestState.exhaust)
  then have "i \<in> set (prefilling s) \<or> i \<in> set (decoding s)" using q(2,3) by (auto simp: queue_ok_def)
  then show ?thesis by auto
qed

lemma prefilling_left:
  assumes inv: "sched_inv s []" and i: "i \<in> set (prefilling s)" and none: "\<not> last_left (requests s) i"
  obtains r where "fmlookup (requests s) i = Some r" "0 < prefillable_tokens r"
proof -
  have store: "store_ok (fmlookup (requests s)) (sequences s) (next_id s)"
    and q: "queue_ok (requests s) Prefilling (prefilling s)" using inv by (auto simp: sched_inv_def queues_ok_def)
  obtain r where r: "fmlookup (requests s) i = Some r" "lifecycle r = Prefilling"
    using queue_ok_lookup [OF q i] by blast
  have "prompt_position r < length (prompt_tokens r)" "remaining_prompt_tokens r \<noteq> 1"
    using store_okD(1) [OF store r(1)] r none by (auto simp: request_ok_def last_left_def)
  then have "0 < prefillable_tokens r" by (simp add: prefillable_tokens_def remaining_prompt_tokens_def)
  then show thesis using that r(1) by blast
qed

lemma run_tick_work:
  assumes inv: "sched_inv s []" and env: "environment_ok admit D" "productive D" "never_blocks admit"
    and conf: "validate_config (config s) = Ok ()" and cap: "active_sequence_count s \<le> max_active_sequences (config s)"
    and run: "run_tick G admit D P s = Some (Ok out, s')"
  shows "fmdom (requests s') = fmdom (requests s) \<and> outstanding (requests s') \<le> outstanding (requests s) - 1"
proof -
  have A: "admission_ok admit" and D: "decode_execution_ok D" using env(1) by (auto simp: environment_ok_def)
  obtain u s1 ps v s2 t w t' ps' where one: "admit_waiting admit s [] = Some (Ok u, s1, ps)"
    and two: "run_decode_phase G D s1 empty_tick = Some (Ok v, s2, t)"
    and three: "run_prefill_phase P s2 t = Some (Ok w, s', t', ps')"
    using run by (auto simp: run_tick_def split: option.splits prod.splits sum.splits)
  note w1 = admit_waiting_work [OF one inv A env(3)]
  have s1: "sched_inv s1 []" "config s1 = config s"
    using admit_waiting_ok [OF inv A cap, of "[]"] one by auto
  note w2 = decode_phase_work [OF s1(1) D env(2) two]
  have s2: "sched_inv s2 []" "config s2 = config s1"
    using run_decode_phase_ok [OF s1(1) D, of G empty_tick] two by (auto simp: frame_def)
  note w3 = prefill_phase_work [OF s2(1) three]
  have pos: "0 < decode_capacity (config s)" "0 < prefill_sequence_capacity (config s)"
    "0 < prefill_token_capacity (config s)" "0 < max_active_sequences (config s)"
    using conf by (auto simp: validate_config_def split: if_splits)
  have dom: "fmdom (requests s') = fmdom (requests s)" using w1 w2(1) w3(1) by simp
  have le: "outstanding (requests s') \<le> outstanding (requests s1)" using w2(2) w3(2) by simp
  show ?thesis
  proof (cases "all_finished s1")
    case True
    then have "outstanding (requests s1) = 0" using all_finished_iff [OF s1(1)] by simp
    then show ?thesis using dom le by simp
  next
    case False
    have "outstanding (requests s') < outstanding (requests s1)"
    proof (cases "decoding s1 \<noteq> [] \<or> (\<exists>i \<in> set (prefilling s1). last_left (requests s1) i)")
      case True
      then show ?thesis using w2(3) pos(1) s1(2) w3(2) by simp
    next
      case idle: False
      have "prefilling s1 \<noteq> []" using unfinished_active [OF s1(1) False] idle w1 s1(2) pos(4) by auto
      then obtain i where i: "i \<in> set (prefilling s1)" by (meson last_in_set)
      have left: "\<not> last_left (requests s1) i" using idle i by blast
      obtain r where r: "fmlookup (requests s1) i = Some r" "0 < prefillable_tokens r"
        using prefilling_left [OF s1(1) i left] by blast
      have "requests s2 = requests s1" "prefilling s2 = prefilling s1" using w2(4) idle by auto
      then show ?thesis using w3(3) [OF _ _ _ _ r(2)] i r(1) pos(2,3) s1(2) s2(2) by simp
    qed
    then show ?thesis using dom w1 by auto
  qed
qed

text \<open>Ticks one after the other, as long as they succeed.\<close>

fun run_ticks ::
  "'g grammar_ops \<Rightarrow> ('g Request \<Rightarrow> AdmissionOutcome) \<Rightarrow> 'g decode_execution \<Rightarrow> 'g prefill_execution
     \<Rightarrow> nat \<Rightarrow> 'g Scheduler \<Rightarrow> 'g Scheduler option" where
  "run_ticks G admit D P 0 s = Some s"
| "run_ticks G admit D P (Suc n) s =
     (case run_tick G admit D P s of
        Some (Inr _, s') \<Rightarrow> run_ticks G admit D P n s'
      | _ \<Rightarrow> None)"

lemma run_ticks_work:
  assumes "run_ticks G admit D P n s = Some s'" "reachable m c s" "validate_config c = Ok ()"
    "environment_ok admit D" "productive D" "never_blocks admit"
  shows "reachable m c s' \<and> fmdom (requests s') = fmdom (requests s) \<and>
    outstanding (requests s') \<le> outstanding (requests s) - n"
  using assms(1,2)
proof (induction n arbitrary: s)
  case (Suc n)
  obtain out s1 where one: "run_tick G admit D P s = Some (Ok out, s1)"
    "run_ticks G admit D P n s1 = Some s'"
    using Suc.prems(1) by (auto split: option.splits prod.splits sum.splits)
  have inv: "sched_inv s []" "config s = c" "active_sequence_count s \<le> max_active_sequences c"
    using reachable_inv [OF Suc.prems(2)] by auto
  have "reachable m c s1"
    by (rule reachable_tick [OF Suc.prems(2) assms(4) one(1)]) (simp add: is_ok_def)
  from Suc.IH [OF one(2) this] show ?case
    using run_tick_work [OF inv(1) assms(4-6) _ _ one(1)] inv(2,3) assms(3) by auto
qed simp

lemma reachable_valid: "reachable m c s \<Longrightarrow> validate_config c = Ok ()"
  by (induction rule: reachable.induct) (auto dest: scheduler_new_ok(4))




end
