(* ===== verification/Gguf.thy ===== *)
theory Gguf
  imports Prelude "HOL-Library.Finite_Map"
begin

text \<open>
  The GGUF v3 index reader of \<open>crates/eider-format/src/gguf.rs\<close>: little-endian numbers, length-prefixed
  strings, typed metadata of which large arrays are skipped in place, the tensor table, and the
  alignment of the data region.

  A file is its bytes together with the largest offset its file system lets a reader seek to. A read
  function takes the file and the position and returns the value with the new position; reading past
  the end is the error of \<open>read_exact\<close>, seeking past the end is not an error. A string is its list of
  bytes. A 64-bit float is kept as what it was made from. A panic is \<open>None\<close>.
\<close>

unbundle bit_operations_syntax

type_synonym u16 = "16 word"
type_synonym bytes = "u8 list"

section \<open>Reading numbers and strings\<close>

record File =
  contents :: bytes
  max_seek :: nat

type_synonym 'a reader = "File \<Rightarrow> nat \<Rightarrow> ('a \<times> nat) result"

definition read_exact :: "nat \<Rightarrow> bytes reader" where
  "read_exact n f pos =
     (if pos + n \<le> length (contents f) then Ok (take n (drop pos (contents f)), pos + n)
      else Err (Format ''GGUF file''))"

definition bind_reader :: "'a reader \<Rightarrow> ('a \<Rightarrow> 'b reader) \<Rightarrow> 'b reader" where
  "bind_reader r k f pos = bind_result (r f pos) (\<lambda>(x, pos'). k x f pos')"

definition return :: "'a \<Rightarrow> 'a reader" where
  "return x f pos = Ok (x, pos)"

definition fail :: "error \<Rightarrow> 'a reader" where
  "fail e f pos = Err e"

definition from_le_bytes :: "bytes \<Rightarrow> 'a::len word" where
  "from_le_bytes bs = foldr (\<lambda>b w. ucast b OR push_bit 8 w) bs 0"

definition read_number :: "nat \<Rightarrow> 'a::len word reader" where
  "read_number n = bind_reader (read_exact n) (\<lambda>bs. return (from_le_bytes bs))"

definition read_u8 :: "u8 reader" where
  "read_u8 = bind_reader (read_exact 1) (\<lambda>bs. return (bs ! 0))"

definition read_u16 :: "u16 reader" where "read_u16 = read_number 2"
definition read_u32 :: "u32 reader" where "read_u32 = read_number 4"
definition read_u64 :: "u64 reader" where "read_u64 = read_number 8"

text \<open>
  UTF-8, as \<open>String::from_utf8\<close> checks it: the lead byte gives the length of the sequence, and for some
  lead bytes the range of the second byte is narrower, which excludes overlong forms, surrogates and
  code points above U+10FFFF.
\<close>

definition continuation :: "u8 \<Rightarrow> bool" where
  "continuation b \<longleftrightarrow> 0x80 \<le> b \<and> b \<le> 0xBF"

fun valid_utf8 :: "bytes \<Rightarrow> bool" where
  "valid_utf8 [] = True"
| "valid_utf8 (a # r) =
     (if a < 0x80 then valid_utf8 r
      else if 0xC2 \<le> a \<and> a \<le> 0xDF then
        (case r of b # r \<Rightarrow> continuation b \<and> valid_utf8 r | _ \<Rightarrow> False)
      else if 0xE0 \<le> a \<and> a \<le> 0xEF then
        (case r of
           b # c # r \<Rightarrow>
             (if a = 0xE0 then 0xA0 \<le> b \<and> b \<le> 0xBF
              else if a = 0xED then 0x80 \<le> b \<and> b \<le> 0x9F else continuation b) \<and>
             continuation c \<and> valid_utf8 r
         | _ \<Rightarrow> False)
      else if 0xF0 \<le> a \<and> a \<le> 0xF4 then
        (case r of
           b # c # d # r \<Rightarrow>
             (if a = 0xF0 then 0x90 \<le> b \<and> b \<le> 0xBF
              else if a = 0xF4 then 0x80 \<le> b \<and> b \<le> 0x8F else continuation b) \<and>
             continuation c \<and> continuation d \<and> valid_utf8 r
         | _ \<Rightarrow> False)
      else False)"

definition MAX_STRING_BYTES :: u64 where "MAX_STRING_BYTES = 16 * 1024 * 1024"

definition read_string :: "bytes reader" where
  "read_string = bind_reader read_u64 (\<lambda>len.
     if len > MAX_STRING_BYTES then fail (Format ''GGUF string'')
     else bind_reader (read_exact (unat len)) (\<lambda>bs.
       if valid_utf8 bs then return bs else fail (Format ''GGUF string'')))"

definition i64_max :: nat where "i64_max = 2 ^ 63 - 1"

definition skip_bytes :: "u64 \<Rightarrow> unit reader" where
  "skip_bytes n f pos =
     (if unat n > i64_max then Err (Format ''GGUF metadata array'')
      else if pos + unat n > max_seek f then Err (Format ''GGUF file'')
      else Ok ((), pos + unat n))"

section \<open>Metadata\<close>

text \<open>An \<open>i64\<close> is a word read with its sign.\<close>

type_synonym i64 = u64

datatype f64 = F64 u64 | FromF32 u32 | FromU64 u64 | FromI64 i64

datatype GgufValue =
    Unsigned u64
  | Signed i64
  | Float f64
  | Bool bool
  | String bytes
  | UnsignedArray "u64 list"
  | SignedArray "i64 list"
  | FloatArray "f64 list"
  | BoolArray "bool list"
  | StringArray "bytes list"

fun as_u64 :: "GgufValue \<Rightarrow> u64 option" where
  "as_u64 (Unsigned v) = Some v"
| "as_u64 (Signed v) = (if 0 \<le> sint v then Some v else None)"
| "as_u64 _ = None"

fun as_f64 :: "GgufValue \<Rightarrow> f64 option" where
  "as_f64 (Unsigned v) = Some (FromU64 v)"
| "as_f64 (Signed v) = Some (FromI64 v)"
| "as_f64 (Float v) = Some v"
| "as_f64 _ = None"

fun as_str :: "GgufValue \<Rightarrow> bytes option" where
  "as_str (String v) = Some v"
| "as_str _ = None"

fun as_u64_slice :: "GgufValue \<Rightarrow> u64 list option" where
  "as_u64_slice (UnsignedArray vs) = Some vs"
| "as_u64_slice _ = None"

fun as_i64_slice :: "GgufValue \<Rightarrow> i64 list option" where
  "as_i64_slice (SignedArray vs) = Some vs"
| "as_i64_slice _ = None"

fun as_bool_slice :: "GgufValue \<Rightarrow> bool list option" where
  "as_bool_slice (BoolArray vs) = Some vs"
| "as_bool_slice _ = None"

definition TYPE_UINT8 :: u32 where "TYPE_UINT8 = 0"
definition TYPE_INT8 :: u32 where "TYPE_INT8 = 1"
definition TYPE_UINT16 :: u32 where "TYPE_UINT16 = 2"
definition TYPE_INT16 :: u32 where "TYPE_INT16 = 3"
definition TYPE_UINT32 :: u32 where "TYPE_UINT32 = 4"
definition TYPE_INT32 :: u32 where "TYPE_INT32 = 5"
definition TYPE_FLOAT32 :: u32 where "TYPE_FLOAT32 = 6"
definition TYPE_BOOL :: u32 where "TYPE_BOOL = 7"
definition TYPE_STRING :: u32 where "TYPE_STRING = 8"
definition TYPE_ARRAY :: u32 where "TYPE_ARRAY = 9"
definition TYPE_UINT64 :: u32 where "TYPE_UINT64 = 10"
definition TYPE_INT64 :: u32 where "TYPE_INT64 = 11"
definition TYPE_FLOAT64 :: u32 where "TYPE_FLOAT64 = 12"

definition map_reader :: "('a \<Rightarrow> 'b) \<Rightarrow> 'a reader \<Rightarrow> 'b reader" where
  "map_reader g r = bind_reader r (\<lambda>x. return (g x))"

text \<open>\<open>(0..count).map(|_| read(..)).collect::<Result<_>>()\<close>\<close>

primrec read_many :: "'a reader \<Rightarrow> nat \<Rightarrow> 'a list reader" where
  "read_many r 0 = return []"
| "read_many r (Suc n) = bind_reader r (\<lambda>x. bind_reader (read_many r n) (\<lambda>xs. return (x # xs)))"

definition read_bool :: "bool reader" where
  "read_bool = bind_reader read_u8 (\<lambda>b.
     if b = 0 then return False else if b = 1 then return True else fail (Format ''GGUF boolean''))"

definition read_small_array :: "u32 \<Rightarrow> u64 \<Rightarrow> GgufValue reader" where
  "read_small_array kind count =
     (if kind = TYPE_UINT8 then map_reader UnsignedArray (read_many (map_reader ucast read_u8) (unat count))
      else if kind = TYPE_UINT16 then map_reader UnsignedArray (read_many (map_reader ucast read_u16) (unat count))
      else if kind = TYPE_UINT32 then map_reader UnsignedArray (read_many (map_reader ucast read_u32) (unat count))
      else if kind = TYPE_UINT64 then map_reader UnsignedArray (read_many read_u64 (unat count))
      else if kind = TYPE_INT8 then map_reader SignedArray (read_many (map_reader scast read_u8) (unat count))
      else if kind = TYPE_INT16 then map_reader SignedArray (read_many (map_reader scast read_u16) (unat count))
      else if kind = TYPE_INT32 then map_reader SignedArray (read_many (map_reader scast read_u32) (unat count))
      else if kind = TYPE_INT64 then map_reader SignedArray (read_many read_u64 (unat count))
      else if kind = TYPE_FLOAT32 then map_reader FloatArray (read_many (map_reader FromF32 read_u32) (unat count))
      else if kind = TYPE_FLOAT64 then map_reader FloatArray (read_many (map_reader F64 read_u64) (unat count))
      else if kind = TYPE_BOOL then map_reader BoolArray (read_many read_bool (unat count))
      else if kind = TYPE_ARRAY then fail (Format ''GGUF metadata array'')
      else if kind = TYPE_STRING then map_reader StringArray (read_many read_string (unat count))
      else fail (Format ''GGUF metadata array''))"

primrec skip_strings :: "nat \<Rightarrow> unit reader" where
  "skip_strings 0 = return ()"
| "skip_strings (Suc n) = bind_reader read_u64 (\<lambda>len. bind_reader (skip_bytes len) (\<lambda>_. skip_strings n))"

definition element_width :: "u32 \<Rightarrow> u64 option" where
  "element_width kind =
     (if kind \<in> {TYPE_UINT8, TYPE_INT8, TYPE_BOOL} then Some 1
      else if kind \<in> {TYPE_UINT16, TYPE_INT16} then Some 2
      else if kind \<in> {TYPE_UINT32, TYPE_INT32, TYPE_FLOAT32} then Some 4
      else if kind \<in> {TYPE_UINT64, TYPE_INT64, TYPE_FLOAT64} then Some 8
      else None)"

definition skip_array :: "u32 \<Rightarrow> u64 \<Rightarrow> unit reader" where
  "skip_array kind count =
     (if kind = TYPE_ARRAY then fail (Format ''GGUF metadata array'')
      else if kind = TYPE_STRING then skip_strings (unat count)
      else
        (case element_width kind of
           None \<Rightarrow> fail (Format ''GGUF metadata array'')
         | Some width \<Rightarrow>
             (case checked_mul_u64 count width of
                None \<Rightarrow> fail (Format ''GGUF metadata array'')
              | Some n \<Rightarrow> skip_bytes n)))"

definition MAX_RETAINED_ARRAY_VALUES :: u64 where "MAX_RETAINED_ARRAY_VALUES = 1024"

definition read_array :: "bool \<Rightarrow> GgufValue option reader" where
  "read_array retain_strings =
     bind_reader read_u32 (\<lambda>kind. bind_reader read_u64 (\<lambda>count.
       if count > MAX_RETAINED_ARRAY_VALUES \<or> kind = TYPE_STRING \<and> \<not> retain_strings
       then bind_reader (skip_array kind count) (\<lambda>_. return None)
       else map_reader Some (read_small_array kind count)))"

definition read_metadata_value :: "u32 \<Rightarrow> bool \<Rightarrow> GgufValue option reader" where
  "read_metadata_value kind retain_strings =
     (if kind = TYPE_UINT8 then map_reader (\<lambda>v. Some (Unsigned (ucast v))) read_u8
      else if kind = TYPE_INT8 then map_reader (\<lambda>v. Some (Signed (scast v))) read_u8
      else if kind = TYPE_UINT16 then map_reader (\<lambda>v. Some (Unsigned (ucast v))) read_u16
      else if kind = TYPE_INT16 then map_reader (\<lambda>v. Some (Signed (scast v))) read_u16
      else if kind = TYPE_UINT32 then map_reader (\<lambda>v. Some (Unsigned (ucast v))) read_u32
      else if kind = TYPE_INT32 then map_reader (\<lambda>v. Some (Signed (scast v))) read_u32
      else if kind = TYPE_FLOAT32 then map_reader (\<lambda>v. Some (Float (FromF32 v))) read_u32
      else if kind = TYPE_BOOL then map_reader (\<lambda>v. Some (Bool v)) read_bool
      else if kind = TYPE_STRING then map_reader (\<lambda>v. Some (String v)) read_string
      else if kind = TYPE_ARRAY then read_array retain_strings
      else if kind = TYPE_UINT64 then map_reader (\<lambda>v. Some (Unsigned v)) read_u64
      else if kind = TYPE_INT64 then map_reader (\<lambda>v. Some (Signed v)) read_u64
      else if kind = TYPE_FLOAT64 then map_reader (\<lambda>v. Some (Float (F64 v))) read_u64
      else fail (Format ''GGUF metadata''))"


section \<open>The index\<close>

record GgufTensor =
  tensor_name :: bytes
  dimensions :: "u64 list"
  tensor_kind :: u32
  offset :: u64

text \<open>On the 64-bit targets every dimension fits \<open>usize\<close>.\<close>

definition elements :: "GgufTensor \<Rightarrow> nat result" where
  "elements t = fold (\<lambda>d acc. bind_result acc (\<lambda>n. ok_or (checked_mul n (unat d)) (Format ''GGUF tensor shape'')))
     (dimensions t) (Ok 1)"

record GgufIndex =
  metadata :: "(bytes, GgufValue) fmap"
  tensors :: "(bytes, GgufTensor) fmap"
  data_offset :: u64

definition GGUF_MAGIC :: bytes where "GGUF_MAGIC = [0x47, 0x47, 0x55, 0x46]"
definition GGUF_VERSION :: u32 where "GGUF_VERSION = 3"
definition DEFAULT_ALIGNMENT :: u64 where "DEFAULT_ALIGNMENT = 32"
definition MAX_DIMENSIONS :: u32 where "MAX_DIMENSIONS = 8"

definition ascii :: "string \<Rightarrow> bytes" where
  "ascii s = map of_char s"

definition read_entry :: "(bytes \<times> GgufValue option) reader" where
  "read_entry =
     bind_reader read_string (\<lambda>key. bind_reader read_u32 (\<lambda>kind.
       map_reader (Pair key) (read_metadata_value kind (key = ascii ''general.tensor_extra.name''))))"

primrec read_metadata :: "nat \<Rightarrow> (bytes, GgufValue) fmap \<Rightarrow> (bytes, GgufValue) fmap reader" where
  "read_metadata 0 m = return m"
| "read_metadata (Suc n) m =
     bind_reader read_entry (\<lambda>(key, value).
       read_metadata n (case value of Some v \<Rightarrow> fmupd key v m | None \<Rightarrow> m))"

definition read_header :: "(u64 \<times> (bytes, GgufValue) fmap) reader" where
  "read_header =
     bind_reader (read_exact 4) (\<lambda>magic.
     if magic \<noteq> GGUF_MAGIC then fail (Format ''GGUF header'')
     else bind_reader read_u32 (\<lambda>version.
     if version \<noteq> GGUF_VERSION then fail (Format ''GGUF header'')
     else bind_reader read_u64 (\<lambda>tensor_count.
       bind_reader read_u64 (\<lambda>metadata_count.
         map_reader (Pair tensor_count) (read_metadata (unat metadata_count) fmempty)))))"

definition read_tensor :: "GgufTensor reader" where
  "read_tensor =
     bind_reader read_string (\<lambda>name. bind_reader read_u32 (\<lambda>dimension_count.
     if dimension_count = 0 \<or> dimension_count > MAX_DIMENSIONS then fail (Format ''GGUF tensor shape'')
     else bind_reader (read_many read_u64 (unat dimension_count)) (\<lambda>dims.
       bind_reader read_u32 (\<lambda>kind. bind_reader read_u64 (\<lambda>off.
         return \<lparr>tensor_name = name, dimensions = dims, tensor_kind = kind, offset = off\<rparr>)))))"

definition is_power_of_two :: "u64 \<Rightarrow> bool" where
  "is_power_of_two a \<longleftrightarrow> (\<exists>k \<in> set [0..<64]. a = push_bit k 1)"

definition checked_add_u64 :: "u64 \<Rightarrow> u64 \<Rightarrow> u64 option" where
  "checked_add_u64 a b = (if unat a + unat b < 2 ^ 64 then Some (a + b) else None)"

definition alignment_of :: "(bytes, GgufValue) fmap \<Rightarrow> u64" where
  "alignment_of m =
     (case Option.bind (fmlookup m (ascii ''general.alignment'')) as_u64 of
        None \<Rightarrow> DEFAULT_ALIGNMENT
      | Some a \<Rightarrow> a)"

definition align_data :: "u64 \<Rightarrow> u64 \<Rightarrow> u64 option" where
  "align_data index_end alignment =
     map_option (\<lambda>x. x AND NOT (alignment - 1)) (checked_add_u64 index_end (alignment - 1))"

fun place_tensors ::
  "u64 \<Rightarrow> nat \<Rightarrow> GgufTensor list \<Rightarrow> (bytes, GgufTensor) fmap \<Rightarrow> (bytes, GgufTensor) fmap result" where
  "place_tensors base file_len [] m = Ok m"
| "place_tensors base file_len (t # ts) m =
     (case checked_add_u64 base (offset t) of
        None \<Rightarrow> Err (Format ''GGUF tensor offset'')
      | Some off \<Rightarrow>
          (if unat off > file_len then Err (Format ''GGUF tensor offset'')
           else if fmlookup m (tensor_name t) \<noteq> None then Err (Format ''GGUF tensor table'')
           else place_tensors base file_len ts (fmupd (tensor_name t) (t\<lparr>offset := off\<rparr>) m)))"

definition finish_index :: "File \<Rightarrow> (bytes, GgufValue) fmap \<Rightarrow> GgufTensor list \<Rightarrow> nat \<Rightarrow> GgufIndex result" where
  "finish_index f m ts pos =
     (let alignment = alignment_of m in
      if alignment = 0 \<or> \<not> is_power_of_two alignment then Err (Format ''GGUF alignment'')
      else
        (case align_data (of_nat pos) alignment of
           None \<Rightarrow> Err (Format ''GGUF data offset'')
         | Some base \<Rightarrow>
             bind_result (place_tensors base (length (contents f)) ts fmempty) (\<lambda>tensors.
               Ok \<lparr>metadata = m, tensors = tensors, data_offset = base\<rparr>)))"

text \<open>
  \<open>GgufIndex::open\<close>. The vector of descriptors is allocated before any of them is read:
  \<open>Vec::with_capacity\<close> panics when the bytes exceed \<open>isize::MAX\<close>; \<open>tensor_size\<close> is the size of a
  descriptor.
\<close>

definition gguf_open :: "nat \<Rightarrow> File \<Rightarrow> GgufIndex result option" where
  "gguf_open tensor_size f =
     (case read_header f 0 of
        Inl e \<Rightarrow> Some (Err e)
      | Inr ((tensor_count, m), pos) \<Rightarrow>
          (if unat tensor_count * tensor_size > i64_max then None
           else Some (bind_result (read_many read_tensor (unat tensor_count) f pos)
                        (\<lambda>(ts, pos'). finish_index f m ts pos'))))"

definition gguf_tensor :: "GgufIndex \<Rightarrow> bytes \<Rightarrow> GgufTensor result" where
  "gguf_tensor ix name = ok_or (fmlookup (tensors ix) name) (Format ''GGUF tensor table'')"

definition read_tensor_bytes :: "GgufIndex \<Rightarrow> File \<Rightarrow> bytes \<Rightarrow> nat \<Rightarrow> bytes result option" where
  "read_tensor_bytes ix f name byte_len =
     (case gguf_tensor ix name of
        Inl e \<Rightarrow> Some (Err e)
      | Inr t \<Rightarrow>
          (if unat (offset t) > max_seek f then Some (Err (Format ''GGUF file''))
           else if byte_len > i64_max then None
           else Some (map_sum id fst (read_exact byte_len f (unat (offset t))))))"

section \<open>Writing\<close>

text \<open>The format as its writers produce it; only the reader is part of the program.\<close>

definition le_bytes :: "nat \<Rightarrow> 'a::len word \<Rightarrow> bytes" where
  "le_bytes n w = map (\<lambda>i. ucast (drop_bit (8 * i) w)) [0..<n]"

definition put_string :: "bytes \<Rightarrow> bytes" where
  "put_string s = le_bytes 8 (of_nat (length s) :: u64) @ s"

lemma bit_from_le_bytes:
  "bit (from_le_bytes bs :: 'a::len word) k \<longleftrightarrow>
     k < LENGTH('a) \<and> k < 8 * length bs \<and> bit (bs ! (k div 8)) (k mod 8)"
proof (induction bs arbitrary: k)
  case Nil
  then show ?case by (simp add: from_le_bytes_def)
next
  case (Cons b bs)
  have step: "from_le_bytes (b # bs) = (ucast b OR push_bit 8 (from_le_bytes bs) :: 'a word)"
    by (simp add: from_le_bytes_def)
  show ?case
  proof (cases "k < 8")
    case True
    then show ?thesis unfolding step by (auto simp: bit_or_iff bit_push_bit_iff bit_ucast_iff dest: bit_imp_le_length)
  next
    case False
    then obtain j where k: "k = 8 + j" using le_Suc_ex by (metis not_less)
    have "\<not> bit b k" using bit_imp_le_length [of b k] False by auto
    then show ?thesis
      unfolding step using Cons.IH [of j] k
      by (auto simp: bit_or_iff bit_push_bit_iff bit_ucast_iff)
  qed
qed

lemma length_le_bytes [simp]: "length (le_bytes n w) = n"
  by (simp add: le_bytes_def)

lemma from_le_bytes_le_bytes:
  fixes w :: "'a::len word"
  assumes "LENGTH('a) = 8 * n"
  shows "from_le_bytes (le_bytes n w) = w"
proof (rule bit_word_eqI)
  fix k assume k: "k < LENGTH('a)"
  then have "k div 8 < n" using assms by auto
  then show "bit (from_le_bytes (le_bytes n w) :: 'a word) k = bit w k"
    unfolding bit_from_le_bytes using k assms
    by (simp add: le_bytes_def bit_ucast_iff bit_drop_bit_eq)
qed


section \<open>Reading what was written\<close>

text \<open>The file can be reached as a whole.\<close>

definition fits :: "File \<Rightarrow> bool" where
  "fits f \<longleftrightarrow> length (contents f) \<le> max_seek f \<and> max_seek f \<le> i64_max"

definition reads :: "'a reader \<Rightarrow> bytes \<Rightarrow> 'a \<Rightarrow> bool" where
  "reads r bs x \<longleftrightarrow> (\<forall>f pre post. contents f = pre @ bs @ post \<longrightarrow> fits f \<longrightarrow>
     r f (length pre) = Ok (x, length pre + length bs))"

lemma readsI:
  assumes "\<And>f pre post. contents f = pre @ bs @ post \<Longrightarrow> fits f \<Longrightarrow>
     r f (length pre) = Ok (x, length pre + length bs)"
  shows "reads r bs x"
  using assms by (simp add: reads_def)

lemma reads_return [intro, simp]: "reads (return x) [] x"
  by (simp add: reads_def return_def)

lemma reads_bind:
  assumes "reads r bs x" "reads (k x) cs y"
  shows "reads (bind_reader r k) (bs @ cs) y"
proof (rule readsI)
  fix f pre post assume f: "contents f = pre @ (bs @ cs) @ post" and fits: "fits f"
  have "r f (length pre) = Ok (x, length pre + length bs)"
    using assms(1) f fits unfolding reads_def by (metis append_assoc)
  moreover have "k x f (length (pre @ bs)) = Ok (y, length (pre @ bs) + length cs)"
    using assms(2) f fits unfolding reads_def by (metis append_assoc)
  ultimately show "bind_reader r k f (length pre) = Ok (y, length pre + length (bs @ cs))"
    by (simp add: bind_reader_def)
qed

lemma reads_bind_end: "reads r bs x \<Longrightarrow> reads (k x) [] y \<Longrightarrow> reads (bind_reader r k) bs y"
  using reads_bind [of r bs x k "[]" y] by simp

lemma reads_map: "reads r bs x \<Longrightarrow> reads (map_reader g r) bs (g x)"
  unfolding map_reader_def by (rule reads_bind_end) auto

lemma reads_exact: "length bs = n \<Longrightarrow> reads (read_exact n) bs bs"
  by (simp add: reads_def read_exact_def)

lemma reads_number:
  fixes w :: "'a::len word"
  assumes "LENGTH('a) = 8 * n"
  shows "reads (read_number n) (le_bytes n w) w"
proof -
  have "reads (read_number n) (le_bytes n w) (from_le_bytes (le_bytes n w) :: 'a word)"
    unfolding read_number_def by (rule reads_bind_end [OF reads_exact]) simp_all
  then show ?thesis by (simp only: from_le_bytes_le_bytes [OF assms])
qed

text \<open>
  The interface of a format: a writer, a reader, the value the reader makes of what was written, and
  the items that may be written. A sequence of items is read back one by one.
\<close>

locale codec =
  fixes put :: "'a \<Rightarrow> bytes" and get :: "'b reader" and val :: "'a \<Rightarrow> 'b" and ok :: "'a \<Rightarrow> bool"
  assumes reads_put: "ok x \<Longrightarrow> reads get (put x) (val x)"
begin

lemma reads_many:
  "\<forall>x \<in> set xs. ok x \<Longrightarrow> reads (read_many get (length xs)) (concat (map put xs)) (map val xs)"
proof (induction xs)
  case Nil
  then show ?case by simp
next
  case (Cons x xs)
  have "reads (read_many get (length (x # xs))) (put x @ concat (map put xs) @ []) (val x # map val xs)"
    unfolding list.size(4) add_0_right add_Suc_right read_many.simps
    by (intro reads_bind [OF reads_put] reads_bind [OF Cons.IH] reads_return) (use Cons.prems in auto)
  then show ?case by simp
qed

lemma reads_array:
  assumes "\<forall>x \<in> set xs. ok x"
  shows "reads (map_reader g (read_many get (length xs))) (concat (map put xs)) (g (map val xs))"
  by (rule reads_map [OF reads_many [OF assms]])

end

definition put_u8 :: "u8 \<Rightarrow> bytes" where "put_u8 b = [b]"
definition put_u16 :: "u16 \<Rightarrow> bytes" where "put_u16 = le_bytes 2"
definition put_u32 :: "u32 \<Rightarrow> bytes" where "put_u32 = le_bytes 4"
definition put_u64 :: "u64 \<Rightarrow> bytes" where "put_u64 = le_bytes 8"

definition put_bool :: "bool \<Rightarrow> bytes" where "put_bool b = put_u8 (if b then 1 else 0)"

definition string_ok :: "bytes \<Rightarrow> bool" where
  "string_ok s \<longleftrightarrow> length s \<le> unat MAX_STRING_BYTES \<and> valid_utf8 s"

lemma reads_u8: "reads read_u8 (put_u8 b) b"
  unfolding read_u8_def put_u8_def
  by (rule reads_bind_end [OF reads_exact]) simp_all

lemma reads_u16: "reads read_u16 (put_u16 w) w"
  unfolding read_u16_def put_u16_def by (rule reads_number) simp

lemma reads_u32: "reads read_u32 (put_u32 w) w"
  unfolding read_u32_def put_u32_def by (rule reads_number) simp

lemma reads_u64: "reads read_u64 (put_u64 w) w"
  unfolding read_u64_def put_u64_def by (rule reads_number) simp

lemma length_put [simp]:
  "length (put_u8 a) = 1" "length (put_u16 b) = 2" "length (put_u32 c) = 4" "length (put_u64 d) = 8"
  by (simp_all add: put_u8_def put_u16_def put_u32_def put_u64_def)

lemma reads_bool: "reads read_bool (put_bool b) b"
  unfolding read_bool_def put_bool_def by (rule reads_bind_end [OF reads_u8]) (cases b; simp)

lemma string_length:
  assumes "string_ok s"
  shows "unat (of_nat (length s) :: u64) = length s" "(of_nat (length s) :: u64) \<le> MAX_STRING_BYTES"
proof -
  have len: "length s \<le> 16777216" using assms by (simp add: string_ok_def MAX_STRING_BYTES_def)
  then show eq: "unat (of_nat (length s) :: u64) = length s" by (intro unat_of_nat_u64) (simp add: usize_max_def)
  show "(of_nat (length s) :: u64) \<le> MAX_STRING_BYTES"
    unfolding word_le_nat_alt eq using assms by (simp add: string_ok_def)
qed

lemma put_string_eq: "put_string s = put_u64 (of_nat (length s)) @ s"
  by (simp add: put_string_def put_u64_def)

lemma reads_string:
  assumes "string_ok s"
  shows "reads read_string (put_string s) s"
  unfolding read_string_def put_string_eq
  using string_length [OF assms] assms
  by (intro reads_bind [OF reads_u64]) (auto simp: string_ok_def not_less intro!: reads_bind_end [OF reads_exact])


subsection \<open>Metadata items\<close>

datatype GgufScalar =
    U8 u8 | I8 u8 | U16 u16 | I16 u16 | U32 u32 | I32 u32 | F32 u32 | Boolean bool | Str bytes
  | U64 u64 | I64 u64 | Double u64

fun scalar_kind :: "GgufScalar \<Rightarrow> u32" where
  "scalar_kind (U8 _) = TYPE_UINT8" | "scalar_kind (I8 _) = TYPE_INT8"
| "scalar_kind (U16 _) = TYPE_UINT16" | "scalar_kind (I16 _) = TYPE_INT16"
| "scalar_kind (U32 _) = TYPE_UINT32" | "scalar_kind (I32 _) = TYPE_INT32"
| "scalar_kind (F32 _) = TYPE_FLOAT32" | "scalar_kind (Boolean _) = TYPE_BOOL"
| "scalar_kind (Str _) = TYPE_STRING" | "scalar_kind (U64 _) = TYPE_UINT64"
| "scalar_kind (I64 _) = TYPE_INT64" | "scalar_kind (Double _) = TYPE_FLOAT64"

fun put_scalar :: "GgufScalar \<Rightarrow> bytes" where
  "put_scalar (U8 v) = put_u8 v" | "put_scalar (I8 v) = put_u8 v"
| "put_scalar (U16 v) = put_u16 v" | "put_scalar (I16 v) = put_u16 v"
| "put_scalar (U32 v) = put_u32 v" | "put_scalar (I32 v) = put_u32 v"
| "put_scalar (F32 v) = put_u32 v" | "put_scalar (Boolean b) = put_bool b"
| "put_scalar (Str s) = put_string s" | "put_scalar (U64 v) = put_u64 v"
| "put_scalar (I64 v) = put_u64 v" | "put_scalar (Double v) = put_u64 v"

fun scalar_ok :: "GgufScalar \<Rightarrow> bool" where
  "scalar_ok (Str s) = string_ok s"
| "scalar_ok _ = True"

fun unsigned_of :: "GgufScalar \<Rightarrow> u64" where
  "unsigned_of (U8 v) = ucast v" | "unsigned_of (U16 v) = ucast v" | "unsigned_of (U32 v) = ucast v"
| "unsigned_of (U64 v) = v" | "unsigned_of _ = 0"

fun signed_of :: "GgufScalar \<Rightarrow> i64" where
  "signed_of (I8 v) = scast v" | "signed_of (I16 v) = scast v" | "signed_of (I32 v) = scast v"
| "signed_of (I64 v) = v" | "signed_of _ = 0"

fun float_of :: "GgufScalar \<Rightarrow> f64" where
  "float_of (F32 v) = FromF32 v" | "float_of (Double v) = F64 v" | "float_of _ = F64 0"

fun bool_of :: "GgufScalar \<Rightarrow> bool" where
  "bool_of (Boolean b) = b" | "bool_of _ = False"

fun str_of :: "GgufScalar \<Rightarrow> bytes" where
  "str_of (Str s) = s" | "str_of _ = []"

definition scalar_value :: "GgufScalar \<Rightarrow> GgufValue" where
  "scalar_value x =
     (case x of
        F32 _ \<Rightarrow> Float (float_of x) | Double _ \<Rightarrow> Float (float_of x)
      | Boolean b \<Rightarrow> Bool b | Str s \<Rightarrow> String s
      | I8 _ \<Rightarrow> Signed (signed_of x) | I16 _ \<Rightarrow> Signed (signed_of x)
      | I32 _ \<Rightarrow> Signed (signed_of x) | I64 _ \<Rightarrow> Signed (signed_of x)
      | _ \<Rightarrow> Unsigned (unsigned_of x))"

definition array_value :: "u32 \<Rightarrow> GgufScalar list \<Rightarrow> GgufValue" where
  "array_value kind xs =
     (if kind \<in> {TYPE_UINT8, TYPE_UINT16, TYPE_UINT32, TYPE_UINT64} then UnsignedArray (map unsigned_of xs)
      else if kind \<in> {TYPE_INT8, TYPE_INT16, TYPE_INT32, TYPE_INT64} then SignedArray (map signed_of xs)
      else if kind \<in> {TYPE_FLOAT32, TYPE_FLOAT64} then FloatArray (map float_of xs)
      else if kind = TYPE_BOOL then BoolArray (map bool_of xs)
      else StringArray (map str_of xs))"

lemmas type_defs = TYPE_UINT8_def TYPE_INT8_def TYPE_UINT16_def TYPE_INT16_def TYPE_UINT32_def
  TYPE_INT32_def TYPE_FLOAT32_def TYPE_BOOL_def TYPE_STRING_def TYPE_ARRAY_def TYPE_UINT64_def
  TYPE_INT64_def TYPE_FLOAT64_def

lemma reads_mapI: "reads r bs x \<Longrightarrow> y = g x \<Longrightarrow> reads (map_reader g r) bs y"
  using reads_map by simp

lemmas reads_scalars = reads_u8 reads_u16 reads_u32 reads_u64 reads_bool reads_string
  reads_mapI [OF reads_u8] reads_mapI [OF reads_u16] reads_mapI [OF reads_u32] reads_mapI [OF reads_u64]
  reads_mapI [OF reads_bool] reads_mapI [OF reads_string]

lemma reads_scalar:
  assumes "scalar_ok x"
  shows "reads (read_metadata_value (scalar_kind x) retain) (put_scalar x) (Some (scalar_value x))"
  using assms
  by (cases x) (auto simp: read_metadata_value_def type_defs scalar_value_def intro!: reads_scalars)


text \<open>The elements of each array type form a format of their own.\<close>

definition of_kind :: "u32 \<Rightarrow> GgufScalar \<Rightarrow> bool" where
  "of_kind kind x \<longleftrightarrow> scalar_kind x = kind \<and> scalar_ok x"

interpretation u8s: codec put_scalar "map_reader ucast read_u8" unsigned_of "of_kind TYPE_UINT8"
  by (unfold_locales, case_tac x) (auto simp: of_kind_def type_defs intro!: reads_scalars)

interpretation u16s: codec put_scalar "map_reader ucast read_u16" unsigned_of "of_kind TYPE_UINT16"
  by (unfold_locales, case_tac x) (auto simp: of_kind_def type_defs intro!: reads_scalars)

interpretation u32s: codec put_scalar "map_reader ucast read_u32" unsigned_of "of_kind TYPE_UINT32"
  by (unfold_locales, case_tac x) (auto simp: of_kind_def type_defs intro!: reads_scalars)

interpretation u64s: codec put_scalar read_u64 unsigned_of "of_kind TYPE_UINT64"
  by (unfold_locales, case_tac x) (auto simp: of_kind_def type_defs intro!: reads_scalars)

interpretation i8s: codec put_scalar "map_reader scast read_u8" signed_of "of_kind TYPE_INT8"
  by (unfold_locales, case_tac x) (auto simp: of_kind_def type_defs intro!: reads_scalars)

interpretation i16s: codec put_scalar "map_reader scast read_u16" signed_of "of_kind TYPE_INT16"
  by (unfold_locales, case_tac x) (auto simp: of_kind_def type_defs intro!: reads_scalars)

interpretation i32s: codec put_scalar "map_reader scast read_u32" signed_of "of_kind TYPE_INT32"
  by (unfold_locales, case_tac x) (auto simp: of_kind_def type_defs intro!: reads_scalars)

interpretation i64s: codec put_scalar read_u64 signed_of "of_kind TYPE_INT64"
  by (unfold_locales, case_tac x) (auto simp: of_kind_def type_defs intro!: reads_scalars)

interpretation f32s: codec put_scalar "map_reader FromF32 read_u32" float_of "of_kind TYPE_FLOAT32"
  by (unfold_locales, case_tac x) (auto simp: of_kind_def type_defs intro!: reads_scalars)

interpretation f64s: codec put_scalar "map_reader F64 read_u64" float_of "of_kind TYPE_FLOAT64"
  by (unfold_locales, case_tac x) (auto simp: of_kind_def type_defs intro!: reads_scalars)

interpretation bools: codec put_scalar read_bool bool_of "of_kind TYPE_BOOL"
  by (unfold_locales, case_tac x) (auto simp: of_kind_def type_defs intro!: reads_scalars)

interpretation strings: codec put_scalar read_string str_of "of_kind TYPE_STRING"
  by (unfold_locales, case_tac x) (auto simp: of_kind_def type_defs intro!: reads_scalars)

lemmas reads_arrays = u8s.reads_array u16s.reads_array u32s.reads_array u64s.reads_array i8s.reads_array
  i16s.reads_array i32s.reads_array i64s.reads_array f32s.reads_array f64s.reads_array bools.reads_array
  strings.reads_array

definition element_kind :: "u32 \<Rightarrow> bool" where
  "element_kind kind \<longleftrightarrow> kind < 13 \<and> kind \<noteq> TYPE_ARRAY"

lemma element_kind_cases:
  assumes "element_kind kind"
  shows "kind \<in> {TYPE_UINT8, TYPE_UINT16, TYPE_UINT32, TYPE_UINT64, TYPE_INT8, TYPE_INT16, TYPE_INT32,
    TYPE_INT64, TYPE_FLOAT32, TYPE_FLOAT64, TYPE_BOOL, TYPE_STRING}"
proof -
  have "unat kind < 13" using assms by (simp add: element_kind_def word_less_nat_alt)
  then have "unat kind \<in> {0, 1, 2, 3, 4, 5, 6, 7, 8, 9, 10, 11, 12}" unfolding insert_iff empty_iff by presburger
  from imageI [OF this, of "of_nat :: nat \<Rightarrow> u32"] have "kind \<in> {0, 1, 2, 3, 4, 5, 6, 7, 8, 9, 10, 11, 12}"
    by simp
  then show ?thesis using assms by (auto simp: element_kind_def type_defs)
qed

lemma reads_small_array:
  assumes "element_kind kind" "\<forall>x \<in> set xs. of_kind kind x" "length xs \<le> usize_max"
  shows "reads (read_small_array kind (of_nat (length xs))) (concat (map put_scalar xs)) (array_value kind xs)"
  using element_kind_cases [OF assms(1)] assms(2,3)
  by (auto simp: read_small_array_def array_value_def unat_of_nat_u64 type_defs
      intro: reads_arrays [unfolded type_defs])


lemma reads_skip_bytes:
  assumes "length bs \<le> i64_max"
  shows "reads (skip_bytes (of_nat (length bs))) bs ()"
proof (rule readsI)
  fix f pre post assume "contents f = pre @ bs @ post" "fits f"
  then have "length pre + length bs \<le> max_seek f" by (simp add: fits_def)
  moreover have "unat (of_nat (length bs) :: u64) = length bs"
    by (rule unat_of_nat_u64) (use assms in \<open>simp add: i64_max_def usize_max_def\<close>)
  ultimately show "skip_bytes (of_nat (length bs)) f (length pre) = Ok ((), length pre + length bs)"
    using assms by (simp add: skip_bytes_def)
qed

lemma reads_skip_strings:
  "\<forall>x \<in> set xs. of_kind TYPE_STRING x \<Longrightarrow> reads (skip_strings (length xs)) (concat (map put_scalar xs)) ()"
proof (induction xs)
  case (Cons x xs)
  then obtain s where s: "x = Str s" "string_ok s"
    by (cases x) (auto simp: of_kind_def type_defs)
  have "length s \<le> i64_max" using s(2) by (simp add: string_ok_def MAX_STRING_BYTES_def i64_max_def)
  then have "reads (skip_strings (length (x # xs))) (put_u64 (of_nat (length s)) @ s @ concat (map put_scalar xs)) ()"
    unfolding list.size(4) add_0_right add_Suc_right skip_strings.simps
    by (intro reads_bind [OF reads_u64] reads_bind [OF reads_skip_bytes] Cons.IH) (use Cons.prems in auto)
  then show ?case using s(1) by (simp add: put_string_eq)
qed simp

lemma put_scalar_width:
  assumes "of_kind kind x" "element_width kind = Some w"
  shows "length (put_scalar x) = unat w"
  using assms by (cases x) (auto simp: of_kind_def element_width_def type_defs put_bool_def split: if_splits)

lemma element_width_some: "element_kind kind \<Longrightarrow> kind \<noteq> TYPE_STRING \<Longrightarrow> \<exists>w. element_width kind = Some w"
  using element_kind_cases [of kind] by (auto simp: element_width_def type_defs)

lemma length_concat_const: "\<forall>x \<in> set xs. length (g x) = n \<Longrightarrow> length (concat (map g xs)) = length xs * n"
  by (induction xs) auto

text \<open>Skipping an array ends where reading it would.\<close>

lemma reads_skip_array:
  assumes "element_kind kind" "\<forall>x \<in> set xs. of_kind kind x" "length (concat (map put_scalar xs)) \<le> i64_max"
    "length xs \<le> usize_max"
  shows "reads (skip_array kind (of_nat (length xs))) (concat (map put_scalar xs)) ()"
proof (cases "kind = TYPE_STRING")
  case True
  then show ?thesis
    using reads_skip_strings [of xs] assms(2) unat_of_nat_u64 [OF assms(4)]
    by (simp add: skip_array_def type_defs)
next
  case False
  then obtain w where w: "element_width kind = Some w" using element_width_some [OF assms(1)] by blast
  have len: "length (concat (map put_scalar xs)) = length xs * unat w"
    by (rule length_concat_const) (use assms(2) put_scalar_width [OF _ w] in blast)
  have n: "unat (of_nat (length xs) :: u64) = length xs" by (rule unat_of_nat_u64 [OF assms(4)])
  have lt: "length xs * unat w < 2 ^ 64" using assms(3) len by (simp add: i64_max_def)
  then have "checked_mul_u64 (of_nat (length xs)) w = Some (of_nat (length xs) * w)"
    using n by (simp add: checked_mul_u64_def)
  moreover have "of_nat (length xs) * w = (of_nat (length (concat (map put_scalar xs))) :: u64)"
    by (simp add: len)
  moreover have "kind \<noteq> TYPE_ARRAY" using assms(1) by (simp add: element_kind_def)
  ultimately show ?thesis
    using False w reads_skip_bytes [OF assms(3)] by (simp add: skip_array_def)
qed

text \<open>A metadata item is a scalar or an array of scalars of one type.\<close>

datatype GgufItem = Scalar GgufScalar | Array u32 "GgufScalar list"

fun item_kind :: "GgufItem \<Rightarrow> u32" where
  "item_kind (Scalar x) = scalar_kind x"
| "item_kind (Array _ _) = TYPE_ARRAY"

fun put_item :: "GgufItem \<Rightarrow> bytes" where
  "put_item (Scalar x) = put_scalar x"
| "put_item (Array kind xs) = put_u32 kind @ put_u64 (of_nat (length xs)) @ concat (map put_scalar xs)"

fun item_ok :: "GgufItem \<Rightarrow> bool" where
  "item_ok (Scalar x) = scalar_ok x"
| "item_ok (Array kind xs) =
     (element_kind kind \<and> (\<forall>x \<in> set xs. of_kind kind x) \<and> length (concat (map put_scalar xs)) \<le> i64_max \<and>
      length xs \<le> usize_max)"

fun item_value :: "bool \<Rightarrow> GgufItem \<Rightarrow> GgufValue option" where
  "item_value retain (Scalar x) = Some (scalar_value x)"
| "item_value retain (Array kind xs) =
     (if length xs > 1024 \<or> kind = TYPE_STRING \<and> \<not> retain then None else Some (array_value kind xs))"

lemma reads_item:
  assumes "item_ok x"
  shows "reads (read_metadata_value (item_kind x) retain) (put_item x) (item_value retain x)"
proof (cases x)
  case (Scalar y)
  then show ?thesis using assms reads_scalar by simp
next
  case (Array kind xs)
  then have ok: "element_kind kind" "\<forall>y \<in> set xs. of_kind kind y" "length (concat (map put_scalar xs)) \<le> i64_max"
    "length xs \<le> usize_max" using assms by auto
  define c where "c \<longleftrightarrow> length xs > 1024 \<or> kind = TYPE_STRING \<and> \<not> retain"
  have big: "(of_nat (length xs) > MAX_RETAINED_ARRAY_VALUES \<or> kind = TYPE_STRING \<and> \<not> retain) = c"
    using unat_of_nat_u64 [OF ok(4)] by (simp add: c_def word_less_nat_alt MAX_RETAINED_ARRAY_VALUES_def)
  have skip: "reads (bind_reader (skip_array kind (of_nat (length xs))) (\<lambda>_. return None)) (concat (map put_scalar xs)) None"
    by (rule reads_bind_end [OF reads_skip_array [OF ok]]) simp
  have keep: "reads (map_reader Some (read_small_array kind (of_nat (length xs)))) (concat (map put_scalar xs))
      (Some (array_value kind xs))"
    by (rule reads_map [OF reads_small_array [OF ok(1,2,4)]])
  have "reads (read_array retain) (put_u32 kind @ put_u64 (of_nat (length xs)) @ concat (map put_scalar xs))
    (item_value retain (Array kind xs))"
    unfolding read_array_def item_value.simps c_def [symmetric]
    by (intro reads_bind [OF reads_u32] reads_bind [OF reads_u64], unfold big) (cases c; simp add: skip keep)
  then show ?thesis using Array by (simp add: read_metadata_value_def type_defs)
qed


subsection \<open>The whole index\<close>

definition extra_names :: "bytes \<Rightarrow> bool" where
  "extra_names key \<longleftrightarrow> key = ascii ''general.tensor_extra.name''"

definition put_entry :: "bytes \<times> GgufItem \<Rightarrow> bytes" where
  "put_entry e = put_string (fst e) @ put_u32 (item_kind (snd e)) @ put_item (snd e)"

definition entry_ok :: "bytes \<times> GgufItem \<Rightarrow> bool" where
  "entry_ok e \<longleftrightarrow> string_ok (fst e) \<and> item_ok (snd e)"

definition entry_value :: "bytes \<times> GgufItem \<Rightarrow> bytes \<times> GgufValue option" where
  "entry_value e = (fst e, item_value (extra_names (fst e)) (snd e))"

lemma reads_entry:
  assumes "entry_ok e"
  shows "reads read_entry (put_entry e) (entry_value e)"
proof -
  have "reads read_entry (put_string (fst e) @ put_u32 (item_kind (snd e)) @ put_item (snd e))
      (fst e, item_value (extra_names (fst e)) (snd e))"
    unfolding read_entry_def extra_names_def [symmetric]
    by (intro reads_bind [OF reads_string] reads_bind [OF reads_u32] reads_map [OF reads_item])
      (use assms in \<open>simp_all add: entry_ok_def\<close>)
  then show ?thesis by (simp add: put_entry_def entry_value_def)
qed

definition add_entry :: "bytes \<times> GgufItem \<Rightarrow> (bytes, GgufValue) fmap \<Rightarrow> (bytes, GgufValue) fmap" where
  "add_entry e m = (case item_value (extra_names (fst e)) (snd e) of Some v \<Rightarrow> fmupd (fst e) v m | None \<Rightarrow> m)"

lemma reads_metadata:
  "\<forall>e \<in> set es. entry_ok e \<Longrightarrow> reads (read_metadata (length es) m) (concat (map put_entry es)) (fold add_entry es m)"
proof (induction es arbitrary: m)
  case (Cons e es)
  have "reads (read_metadata (length es) (add_entry e m)) (concat (map put_entry es)) (fold add_entry es (add_entry e m))"
    by (rule Cons.IH) (use Cons.prems in simp)
  then have "reads (read_metadata (length (e # es)) m) (put_entry e @ concat (map put_entry es)) (fold add_entry es (add_entry e m))"
    unfolding list.size(4) add_0_right add_Suc_right read_metadata.simps
    by (intro reads_bind [OF reads_entry])
      (use Cons.prems in \<open>simp_all add: entry_value_def add_entry_def [symmetric]\<close>)
  then show ?case by simp
qed simp

definition put_tensor :: "GgufTensor \<Rightarrow> bytes" where
  "put_tensor t = put_string (tensor_name t) @ put_u32 (of_nat (length (dimensions t))) @
     concat (map put_u64 (dimensions t)) @ put_u32 (tensor_kind t) @ put_u64 (offset t)"

definition tensor_ok :: "GgufTensor \<Rightarrow> bool" where
  "tensor_ok t \<longleftrightarrow> string_ok (tensor_name t) \<and> dimensions t \<noteq> [] \<and> length (dimensions t) \<le> 8"

interpretation words: codec put_u64 read_u64 "\<lambda>x. x" "\<lambda>_. True"
  by unfold_locales (rule reads_u64)

lemma reads_tensor:
  assumes "tensor_ok t"
  shows "reads read_tensor (put_tensor t) t"
proof -
  let ?n = "of_nat (length (dimensions t)) :: u32"
  have len: "length (dimensions t) \<le> 8" "dimensions t \<noteq> []" using assms by (auto simp: tensor_ok_def)
  have n: "unat ?n = length (dimensions t)" by (rule unat_of_nat_u32) (use len in \<open>simp add: u32_max_def\<close>)
  have "\<not> (?n = 0 \<or> ?n > MAX_DIMENSIONS)"
    using n len by (auto simp: word_less_nat_alt MAX_DIMENSIONS_def simp flip: unat_eq_zero)
  moreover have "reads (return \<lparr>tensor_name = tensor_name t, dimensions = dimensions t, tensor_kind = tensor_kind t,
      offset = offset t\<rparr>) [] t" by (cases t) simp
  ultimately show ?thesis
    unfolding read_tensor_def put_tensor_def
    using words.reads_many [of "dimensions t"] assms
    by (intro reads_bind [OF reads_string] reads_bind [OF reads_u32])
      (auto simp: n tensor_ok_def intro!: reads_bind [OF reads_u32] reads_bind_end [OF reads_u64] reads_bind)
qed

interpretation tensors: codec put_tensor read_tensor "\<lambda>x. x" tensor_ok
  by unfold_locales (rule reads_tensor)

definition put_header :: "nat \<Rightarrow> (bytes \<times> GgufItem) list \<Rightarrow> bytes" where
  "put_header tensor_count es =
     GGUF_MAGIC @ put_u32 GGUF_VERSION @ put_u64 (of_nat tensor_count) @ put_u64 (of_nat (length es)) @
     concat (map put_entry es)"

lemma reads_header:
  assumes "\<forall>e \<in> set es. entry_ok e" "length es \<le> usize_max"
  shows "reads read_header (put_header n es) (of_nat n, fold add_entry es fmempty)"
  unfolding read_header_def put_header_def
  using reads_metadata [OF assms(1), of fmempty] unat_of_nat_u64 [OF assms(2)]
  by (intro reads_bind [OF reads_exact])
    (auto simp: GGUF_MAGIC_def intro!: reads_bind [OF reads_u32] reads_bind [OF reads_u64] reads_map)


section \<open>Placing the data region\<close>

definition align_up :: "nat \<Rightarrow> nat \<Rightarrow> nat" where
  "align_up n a = (n + (a - 1)) div a * a"

lemma align_up_bounds:
  assumes "0 < a"
  shows "a dvd align_up n a" "n \<le> align_up n a" "align_up n a \<le> n + (a - 1)"
proof -
  show "a dvd align_up n a" by (simp add: align_up_def)
  have split: "(n + (a - 1)) div a * a + (n + (a - 1)) mod a = n + (a - 1)" by simp
  have "(n + (a - 1)) mod a < a" using assms by simp
  then show "n \<le> align_up n a" "align_up n a \<le> n + (a - 1)"
    using split unfolding align_up_def by linarith+
qed

lemma is_power_of_two_cases:
  assumes "is_power_of_two a"
  obtains k where "k < 64" "a = push_bit k 1" "unat a = 2 ^ k" "a - 1 = mask k"
proof -
  from assms obtain k where k: "k < 64" "a = push_bit k 1" by (auto simp: is_power_of_two_def)
  have "unat a = 2 ^ k"
    unfolding k(2) unsigned_push_bit_eq using power_strict_increasing [OF k(1), of "2 :: nat"]
    by (simp add: take_bit_eq_mod)
  moreover have "a - 1 = mask k" using k by (simp add: mask_eq_decr_exp push_bit_eq_mult)
  ultimately show thesis using that k by blast
qed

lemma and_not_mask_shift: "(x :: u64) AND NOT (mask k) = push_bit k (drop_bit k x)"
  by (rule bit_word_eqI) (auto simp: bit_and_iff bit_not_iff bit_mask_iff bit_push_bit_iff bit_drop_bit_eq)

lemma unat_and_not_mask: "unat ((x :: u64) AND NOT (mask k)) = unat x div 2 ^ k * 2 ^ k"
proof -
  have "unat x < 2 ^ 64" using unsigned_less [of x] by simp
  moreover from this have "unat x div 2 ^ k * 2 ^ k < 2 ^ 64" by (rule le_less_trans [rotated]) simp
  ultimately show ?thesis
    unfolding and_not_mask_shift unsigned_push_bit_eq unsigned_drop_bit_eq
    by (simp add: push_bit_eq_mult drop_bit_eq_div take_bit_eq_mod mod_less)
qed

lemma of_nat_unat_u64: "of_nat (unat x) = (x :: u64)"
  by simp

lemma align_data_up:
  assumes "is_power_of_two a"
  shows "align_data x a =
    (if unat x + (unat a - 1) < 2 ^ 64 then Some (of_nat (align_up (unat x) (unat a))) else None)"
    "unat x + (unat a - 1) < 2 ^ 64 \<Longrightarrow> align_up (unat x) (unat a) < 2 ^ 64"
proof -
  obtain k where k: "a - 1 = mask k" "unat a = 2 ^ k" using is_power_of_two_cases [OF assms] by metis
  have "unat (a - 1) = unat a - 1" 
    using k by (metis gr_zeroI power_not_zero unat_minus_one unat_0 zero_neq_numeral)
  moreover have "unat (x + (a - 1)) = unat x + (unat a - 1)" if "unat x + (unat a - 1) < 2 ^ 64"
    using that calculation by (subst unat_add_lem [THEN iffD1]) auto
  then have "(x + (a - 1)) AND NOT (a - 1) = of_nat (align_up (unat x) (unat a))" if "unat x + (unat a - 1) < 2 ^ 64"
    using that k unat_and_not_mask [of "x + mask k" k]
    by (metis align_up_def of_nat_unat_u64)
  ultimately show "align_data x a =
    (if unat x + (unat a - 1) < 2 ^ 64 then Some (of_nat (align_up (unat x) (unat a))) else None)"
    by (simp add: align_data_def checked_add_u64_def)
  have "0 < unat a" using k(2) by simp
  then show "unat x + (unat a - 1) < 2 ^ 64 \<Longrightarrow> align_up (unat x) (unat a) < 2 ^ 64"
    using align_up_bounds(3) [of "unat a" "unat x"] by linarith
qed


text \<open>The table of a list of descriptors with distinct names.\<close>

definition placed :: "u64 \<Rightarrow> GgufTensor \<Rightarrow> GgufTensor" where
  "placed base t = t\<lparr>offset := base + offset t\<rparr>"

lemma placed_simps [simp]:
  "tensor_name (placed base t) = tensor_name t" "dimensions (placed base t) = dimensions t"
  "tensor_kind (placed base t) = tensor_kind t" "offset (placed base t) = base + offset t"
  by (simp_all add: placed_def)

definition in_file :: "u64 \<Rightarrow> nat \<Rightarrow> GgufTensor \<Rightarrow> bool" where
  "in_file base file_len t \<longleftrightarrow> unat base + unat (offset t) < 2 ^ 64 \<and> unat base + unat (offset t) \<le> file_len"

lemma place_tensors_step:
  "place_tensors base file_len (t # ts) m =
     (if in_file base file_len t
      then if fmlookup m (tensor_name t) \<noteq> None then Err (Format ''GGUF tensor table'')
           else place_tensors base file_len ts (fmupd (tensor_name t) (placed base t) m)
      else Err (Format ''GGUF tensor offset''))"
  by (auto simp: checked_add_u64_def in_file_def placed_def unat_add_u64)

lemma place_tensors_ok:
  assumes "\<forall>t \<in> set ts. in_file base file_len t" "distinct (map tensor_name ts)"
    "\<forall>t \<in> set ts. fmlookup m (tensor_name t) = None"
  shows "place_tensors base file_len ts m =
    Ok (fold (\<lambda>t. fmupd (tensor_name t) (placed base t)) ts m)"
  using assms
proof (induction ts arbitrary: m)
  case (Cons t ts)
  then have "\<forall>u \<in> set ts. fmlookup (fmupd (tensor_name t) (placed base t) m) (tensor_name u) = None" by force
  then show ?case using Cons by (simp add: place_tensors_step del: place_tensors.simps(2))
qed simp

lemma place_tensors_inv:
  assumes "place_tensors base file_len ts m = Ok m'"
  shows "(\<forall>t \<in> set ts. in_file base file_len t) \<and> distinct (map tensor_name ts) \<and>
    (\<forall>t \<in> set ts. fmlookup m (tensor_name t) = None)"
  using assms
proof (induction ts arbitrary: m)
  case (Cons t ts)
  then have t: "in_file base file_len t" "fmlookup m (tensor_name t) = None"
    and rest: "place_tensors base file_len ts (fmupd (tensor_name t) (placed base t) m) = Ok m'"
    by (auto simp: place_tensors_step simp del: place_tensors.simps(2) split: if_splits)
  show ?case using Cons.IH [OF rest] t by (auto split: if_splits)
qed simp

lemma lookup_fold_upd:
  assumes "distinct (map tensor_name ts)"
  shows "fmlookup (fold (\<lambda>t. fmupd (tensor_name t) (placed base t)) ts m) name =
    (case find (\<lambda>t. tensor_name t = name) ts of Some t \<Rightarrow> Some (placed base t) | None \<Rightarrow> fmlookup m name)"
  using assms
proof (induction ts arbitrary: m)
  case (Cons t ts)
  have "find (\<lambda>u. tensor_name u = name) ts = None" if "tensor_name t = name"
    unfolding find_None_iff using that Cons.prems by (auto simp: image_iff)
  then show ?case using Cons by (auto split: option.splits)
qed simp

lemma find_name:
  "distinct (map tensor_name ts) \<Longrightarrow> t \<in> set ts \<Longrightarrow> find (\<lambda>u. tensor_name u = tensor_name t) ts = Some t"
  by (induction ts) (auto simp: rev_image_eqI)

lemma dom_fold_upd:
  "fmdom' (fold (\<lambda>t. fmupd (tensor_name t) (placed base t)) ts m) = tensor_name ` set ts \<union> fmdom' m"
  by (induction ts arbitrary: m) auto

text \<open>The index that \<open>finish_index\<close> makes of the descriptors.\<close>

definition index_of :: "(bytes, GgufValue) fmap \<Rightarrow> u64 \<Rightarrow> GgufTensor list \<Rightarrow> GgufIndex" where
  "index_of m base ts =
     \<lparr>metadata = m, tensors = fold (\<lambda>t. fmupd (tensor_name t) (placed base t)) ts fmempty, data_offset = base\<rparr>"

definition index_ok :: "nat \<Rightarrow> u64 \<Rightarrow> GgufTensor list \<Rightarrow> bool" where
  "index_ok file_len base ts \<longleftrightarrow> (\<forall>t \<in> set ts. in_file base file_len t) \<and> distinct (map tensor_name ts)"

lemma place_tensors_iff:
  "place_tensors base file_len ts fmempty = Ok m \<longleftrightarrow>
     index_ok file_len base ts \<and> m = tensors (index_of m' base ts)"
  using place_tensors_ok [of ts base file_len fmempty] place_tensors_inv [of base file_len ts fmempty m]
  by (auto simp: index_ok_def index_of_def)

lemma finish_index_iff:
  "finish_index f m ts pos = Ok ix \<longleftrightarrow>
     is_power_of_two (alignment_of m) \<and>
     (\<exists>base. align_data (of_nat pos) (alignment_of m) = Some base \<and>
        index_ok (length (contents f)) base ts \<and> ix = index_of m base ts)"
proof -
  have "is_power_of_two a \<Longrightarrow> a \<noteq> 0" for a by (elim is_power_of_two_cases) auto
  then show ?thesis
    by (auto simp: finish_index_def Let_def result_simps place_tensors_iff [of _ _ _ _ m] split: option.splits)
      (auto simp: index_of_def)
qed


text \<open>What a successful read tells, whatever the bytes are.\<close>

definition yields :: "'a reader \<Rightarrow> ('a \<Rightarrow> bool) \<Rightarrow> bool" where
  "yields r P \<longleftrightarrow> (\<forall>f pos x pos'. r f pos = Ok (x, pos') \<longrightarrow> P x)"

lemma yields_bind: "(\<And>x. yields (k x) P) \<Longrightarrow> yields (bind_reader r k) P"
  by (auto simp: yields_def bind_reader_def result_simps) blast

lemma yields_bind_prem: "yields r Q \<Longrightarrow> (\<And>x. Q x \<Longrightarrow> yields (k x) P) \<Longrightarrow> yields (bind_reader r k) P"
  by (auto simp: yields_def bind_reader_def result_simps) blast

lemma yields_simps [simp]:
  "yields (return x) P \<longleftrightarrow> P x" "yields (fail e) P"
  by (auto simp: yields_def return_def fail_def)

lemma yields_many: "yields r P \<Longrightarrow> yields (read_many r n) (\<lambda>xs. length xs = n \<and> (\<forall>x \<in> set xs. P x))"
proof (induction n)
  case (Suc n)
  show ?case unfolding read_many.simps
    by (rule yields_bind_prem [OF Suc.prems], rule yields_bind_prem [OF Suc.IH [OF Suc.prems]]) auto
qed simp

lemma yields_exact: "yields (read_exact n) (\<lambda>bs. length bs = n)"
  by (auto simp: yields_def read_exact_def)

lemma yields_string: "yields read_string string_ok"
  unfolding read_string_def
  by (intro yields_bind, simp, intro impI, rule yields_bind_prem [OF yields_exact])
    (auto simp: string_ok_def word_le_nat_alt not_less)

lemma yields_tensor: "yields read_tensor tensor_ok"
  unfolding read_tensor_def
proof (rule yields_bind_prem [OF yields_string], rule yields_bind, unfold if_distrib [of "\<lambda>r. yields r tensor_ok"],
    simp, intro impI)
  fix name :: bytes and n :: u32
  assume name: "string_ok name" and n: "n \<noteq> 0 \<and> \<not> n > MAX_DIMENSIONS"
  then have "0 < unat n" "unat n \<le> 8" by (auto simp: word_less_nat_alt MAX_DIMENSIONS_def unat_gt_0)
  moreover have "yields read_u64 (\<lambda>_. True)" by (simp add: yields_def)
  ultimately show "yields (bind_reader (read_many read_u64 (unat n)) (\<lambda>dims.
      bind_reader read_u32 (\<lambda>kind. bind_reader read_u64 (\<lambda>off.
        return \<lparr>tensor_name = name, dimensions = dims, tensor_kind = kind, offset = off\<rparr>)))) tensor_ok"
    using name by (intro yields_bind_prem [OF yields_many [of read_u64 "\<lambda>_. True"]] yields_bind)
      (auto simp: tensor_ok_def)
qed

lemma gguf_open_cases:
  assumes "gguf_open tensor_size f = Some (Ok ix)"
  obtains n m pos ts pos' base where
    "read_header f 0 = Ok ((n, m), pos)" "unat n * tensor_size \<le> i64_max"
    "read_many read_tensor (unat n) f pos = Ok (ts, pos')" "length ts = unat n" "\<forall>t \<in> set ts. tensor_ok t"
    "is_power_of_two (alignment_of m)" "align_data (of_nat pos') (alignment_of m) = Some base"
    "index_ok (length (contents f)) base ts" "ix = index_of m base ts"
proof -
  from assms obtain n m pos ts pos' where
    r: "read_header f 0 = Ok ((n, m), pos)" "unat n * tensor_size \<le> i64_max"
      "read_many read_tensor (unat n) f pos = Ok (ts, pos')" and fin: "finish_index f m ts pos' = Ok ix"
    by (auto simp: gguf_open_def result_simps split: sum.splits if_splits)
  have "length ts = unat n" "\<forall>t \<in> set ts. tensor_ok t"
    using yields_many [OF yields_tensor, of "unat n"] r(3) by (auto simp: yields_def)
  then show thesis using that r fin by (auto simp: finish_index_iff)
qed


section \<open>Properties of the index\<close>

definition put_index :: "(bytes \<times> GgufItem) list \<Rightarrow> GgufTensor list \<Rightarrow> bytes" where
  "put_index es ts = put_header (length ts) es @ concat (map put_tensor ts)"

definition retained :: "(bytes \<times> GgufItem) list \<Rightarrow> (bytes, GgufValue) fmap" where
  "retained es = fold add_entry es fmempty"

text \<open>A whole file: the index, the padding up to the alignment, and the data region.\<close>

definition data_start :: "(bytes \<times> GgufItem) list \<Rightarrow> GgufTensor list \<Rightarrow> nat" where
  "data_start es ts = align_up (length (put_index es ts)) (unat (alignment_of (retained es)))"

definition put_gguf :: "(bytes \<times> GgufItem) list \<Rightarrow> GgufTensor list \<Rightarrow> bytes \<Rightarrow> bytes" where
  "put_gguf es ts payload =
     put_index es ts @ replicate (data_start es ts - length (put_index es ts)) 0 @ payload"

definition gguf_ok :: "(bytes \<times> GgufItem) list \<Rightarrow> GgufTensor list \<Rightarrow> bytes \<Rightarrow> bool" where
  "gguf_ok es ts payload \<longleftrightarrow>
     (\<forall>e \<in> set es. entry_ok e) \<and> (\<forall>t \<in> set ts. tensor_ok t \<and> unat (offset t) \<le> length payload) \<and>
     distinct (map tensor_name ts) \<and> length es \<le> usize_max \<and> is_power_of_two (alignment_of (retained es))"

lemma data_start_bounds:
  assumes "gguf_ok es ts payload"
  shows "length (put_index es ts) \<le> data_start es ts" "unat (alignment_of (retained es)) dvd data_start es ts"
proof -
  have "0 < unat (alignment_of (retained es))"
    using assms by (auto simp: gguf_ok_def elim!: is_power_of_two_cases)
  then show "length (put_index es ts) \<le> data_start es ts" "unat (alignment_of (retained es)) dvd data_start es ts"
    unfolding data_start_def by (rule align_up_bounds)+
qed

lemma length_put_gguf:
  "gguf_ok es ts payload \<Longrightarrow> length (put_gguf es ts payload) = data_start es ts + length payload"
  using data_start_bounds [of es ts payload] by (simp add: put_gguf_def)

lemma drop_put_gguf:
  "gguf_ok es ts payload \<Longrightarrow> drop (data_start es ts + k) (put_gguf es ts payload) = drop k payload"
  using data_start_bounds [of es ts payload] by (simp add: put_gguf_def)

lemma gguf_open_written:
  assumes ok: "gguf_ok es ts payload" and f: "contents f = put_gguf es ts payload" and fits: "fits f"
    and cap: "length ts * tensor_size \<le> i64_max" "length ts \<le> i64_max"
  shows "gguf_open tensor_size f = Some (Ok (index_of (retained es) (of_nat (data_start es ts)) ts))"
    "index_ok (length (contents f)) (of_nat (data_start es ts)) ts"
proof -
  let ?hd = "put_header (length ts) es" and ?tb = "concat (map put_tensor ts)"
  let ?base = "of_nat (data_start es ts) :: u64"
  obtain post where c: "contents f = [] @ ?hd @ ?tb @ post" using f by (auto simp: put_gguf_def put_index_def)
  have len: "length (put_index es ts) \<le> data_start es ts" "data_start es ts + length payload \<le> i64_max"
    using data_start_bounds [OF ok] f fits length_put_gguf [OF ok] by (auto simp: fits_def)
  have small: "unat (of_nat n :: u64) = n" if "n \<le> i64_max" for n
    by (rule unat_of_nat_u64) (use that in \<open>simp add: i64_max_def usize_max_def\<close>)
  have base: "unat ?base = data_start es ts" using len by (intro small) simp
  have "reads read_header ?hd (of_nat (length ts), retained es)"
    unfolding retained_def by (rule reads_header) (use ok in \<open>auto simp: gguf_ok_def\<close>)
  then have h: "read_header f 0 = Ok ((of_nat (length ts), retained es), length ?hd)"
    using c fits unfolding reads_def by (metis add_0 list.size(3))
  have "reads (read_many read_tensor (length ts)) ?tb ts"
    using tensors.reads_many [of ts] ok by (simp add: gguf_ok_def)
  then have t: "read_many read_tensor (length ts) f (length ?hd) = Ok (ts, length (put_index es ts))"
    using c fits unfolding reads_def put_index_def by (metis append_Nil length_append)
  show ix: "index_ok (length (contents f)) ?base ts"
    using ok len f length_put_gguf [OF ok] by (auto simp: index_ok_def in_file_def gguf_ok_def base i64_max_def)
  have a: "is_power_of_two (alignment_of (retained es))" using ok by (simp add: gguf_ok_def)
  have "unat (of_nat (length (put_index es ts)) :: u64) = length (put_index es ts)" using len by (intro small) simp
  moreover have "unat (alignment_of (retained es)) \<le> 2 ^ 63"
    using a by (elim is_power_of_two_cases) (simp add: power_increasing [of _ 63 "2 :: nat", simplified])
  ultimately have "align_data (of_nat (length (put_index es ts))) (alignment_of (retained es)) = Some ?base"
    using align_data_up(1) [OF a, of "of_nat (length (put_index es ts))"] len
    by (simp add: data_start_def i64_max_def)
  then have "finish_index f (retained es) ts (length (put_index es ts)) = Ok (index_of (retained es) ?base ts)"
    using a ix by (auto simp: finish_index_iff)
  then show "gguf_open tensor_size f = Some (Ok (index_of (retained es) ?base ts))"
    using h t cap(1) small [OF cap(2)] by (simp add: gguf_open_def)
qed


lemma tensor_index_of:
  assumes "index_ok file_len base ts" "t \<in> set ts"
  shows "gguf_tensor (index_of m base ts) (tensor_name t) = Ok (placed base t)"
  using assms lookup_fold_upd [of ts base fmempty "tensor_name t"] find_name [of ts t]
  by (simp add: gguf_tensor_def index_of_def index_ok_def)

lemma tensors_index_of:
  assumes "index_ok file_len base ts"
  shows "fmdom' (tensors (index_of m base ts)) = tensor_name ` set ts"
    "fmlookup (tensors (index_of m base ts)) name = Some t \<Longrightarrow>
       \<exists>u \<in> set ts. tensor_name u = name \<and> t = placed base u \<and> in_file base file_len u"
proof -
  show "fmdom' (tensors (index_of m base ts)) = tensor_name ` set ts" by (simp add: index_of_def dom_fold_upd)
  assume "fmlookup (tensors (index_of m base ts)) name = Some t"
  then show "\<exists>u \<in> set ts. tensor_name u = name \<and> t = placed base u \<and> in_file base file_len u"
    using assms lookup_fold_upd [of ts base fmempty name]
    by (auto simp: index_of_def index_ok_def find_Some_iff split: option.splits)
qed

text \<open>C7: a file written with well-formed metadata, distinct tensor names and offsets inside its data
  region is opened, whatever the payload: the index holds the retained metadata, the tensors by name
  with absolute offsets, the start of the data region at the next multiple of the alignment; and the
  bytes read for a tensor are the bytes of the payload at its written offset.\<close>

theorem gguf_roundtrip:
  assumes "gguf_ok es ts payload" "contents f = put_gguf es ts payload" "fits f"
    "length ts * tensor_size \<le> i64_max" "length ts \<le> i64_max"
  shows "\<exists>ix. gguf_open tensor_size f = Some (Ok ix) \<and> metadata ix = retained es \<and>
    unat (data_offset ix) = data_start es ts \<and> fmdom' (tensors ix) = tensor_name ` set ts \<and>
    (\<forall>t \<in> set ts. gguf_tensor ix (tensor_name t) = Ok (t\<lparr>offset := data_offset ix + offset t\<rparr>) \<and>
       (\<forall>n. unat (offset t) + n \<le> length payload \<longrightarrow>
          read_tensor_bytes ix f (tensor_name t) n = Some (Ok (take n (drop (unat (offset t)) payload)))))"
proof -
  let ?base = "of_nat (data_start es ts) :: u64" let ?ix = "index_of (retained es) ?base ts"
  note w = gguf_open_written [OF assms]
  have len: "data_start es ts + length payload \<le> max_seek f" "max_seek f \<le> i64_max"
    using assms(2,3) length_put_gguf [OF assms(1)] by (auto simp: fits_def)
  then have base: "unat ?base = data_start es ts"
    by (intro unat_of_nat_u64) (simp add: i64_max_def usize_max_def)
  have read: "read_tensor_bytes ?ix f (tensor_name t) n = Some (Ok (take n (drop (unat (offset t)) payload)))"
    if t: "t \<in> set ts" and n: "unat (offset t) + n \<le> length payload" for t n
  proof -
    have "in_file ?base (length (contents f)) t" using w(2) t by (simp add: index_ok_def)
    then have "unat (?base + offset t) = data_start es ts + unat (offset t)"
      by (simp add: in_file_def unat_add_u64 base)
    then show ?thesis
      using tensor_index_of [OF w(2) t] n len assms(2) length_put_gguf [OF assms(1)] drop_put_gguf [OF assms(1)]
      by (simp add: read_tensor_bytes_def read_exact_def i64_max_def)
  qed
  show ?thesis
    using w(1) base tensors_index_of(1) [OF w(2)] tensor_index_of [OF w(2)] read
    by (intro exI [of _ ?ix]) (simp add: index_of_def placed_def)
qed

text \<open>C26: whatever the bytes of the file are, an index that opens is well formed: the data region
  starts at a multiple of the alignment, which is a power of two; every tensor is stored under its
  own name, has one to eight dimensions and starts inside the file and not before the data region;
  and there are as many tensors as the header announces.\<close>

theorem gguf_index_safe:
  assumes "gguf_open tensor_size f = Some (Ok ix)"
  shows "is_power_of_two (alignment_of (metadata ix)) \<and>
    unat (alignment_of (metadata ix)) dvd unat (data_offset ix) \<and>
    (\<forall>name t. gguf_tensor ix name = Ok t \<longrightarrow>
       tensor_name t = name \<and> string_ok name \<and> dimensions t \<noteq> [] \<and> length (dimensions t) \<le> 8 \<and>
       data_offset ix \<le> offset t \<and> unat (offset t) \<le> length (contents f)) \<and>
    (\<exists>n pos. read_header f 0 = Ok ((n, metadata ix), pos) \<and> card (fmdom' (tensors ix)) = unat n)"
proof -
  obtain n m pos ts pos' base where r: "read_header f 0 = Ok ((n, m), pos)" "length ts = unat n"
    "\<forall>t \<in> set ts. tensor_ok t" "is_power_of_two (alignment_of m)"
    "align_data (of_nat pos') (alignment_of m) = Some base"
    and ok: "index_ok (length (contents f)) base ts" and ix: "ix = index_of m base ts"
    using gguf_open_cases [OF assms] by metis
  let ?x = "of_nat pos' :: u64"
  have a: "0 < unat (alignment_of m)" using r(4) by (auto elim!: is_power_of_two_cases)
  have "unat (alignment_of m) dvd unat base"
    using align_data_up [OF r(4), of ?x] r(5) align_up_bounds(1) [OF a]
    by (auto simp: unat_of_nat_u64 usize_max_def split: if_splits)
  moreover have "string_ok name \<and> tensor_name t = name \<and> dimensions t \<noteq> [] \<and> length (dimensions t) \<le> 8 \<and>
      base \<le> offset t \<and> unat (offset t) \<le> length (contents f)" if "gguf_tensor ix name = Ok t" for name t
    using that tensors_index_of(2) [OF ok, of m name t] r(3)
    by (auto simp: gguf_tensor_def ix tensor_ok_def in_file_def word_le_nat_alt unat_add_u64)
  moreover have "card (fmdom' (tensors ix)) = unat n"
    using tensors_index_of(1) [OF ok, of m] ok r(2) distinct_card [of "map tensor_name ts"]
    by (simp add: ix index_ok_def)
  ultimately show ?thesis using r ix by (auto simp: index_of_def)
qed

text \<open>a header that announces more descriptors than an allocation can hold makes \<open>GgufIndex::open\<close>
  panic: the vector is allocated from the count in the file before any descriptor is read.\<close>

theorem gguf_open_capacity_panic:
  assumes "contents f = put_header n [] @ rest" "fits f" "n \<le> usize_max" "n * tensor_size > i64_max"
  shows "gguf_open tensor_size f = None"
proof -
  have "reads read_header (put_header n []) (of_nat n, fmempty)"
    using reads_header [of "[]" n] by simp
  moreover have "contents f = [] @ put_header n [] @ rest" using assms(1) by simp
  ultimately have "read_header f 0 = Ok ((of_nat n, fmempty), length (put_header n []))"
    using assms(2) unfolding reads_def by (metis add_0 list.size(3))
  then show ?thesis using assms(4) unat_of_nat_u64 [OF assms(3)] by (simp add: gguf_open_def)
qed


subsection \<open>A small file\<close>

definition demo_entries :: "(bytes \<times> GgufItem) list" where
  "demo_entries =
     [(ascii ''general.alignment'', Scalar (U32 64)),
      (ascii ''tokens'', Array TYPE_STRING [Str (ascii ''a''), Str (ascii ''b'')]),
      (ascii ''layers'', Array TYPE_INT8 [I8 255, I8 3])]"

definition demo_tensors :: "GgufTensor list" where
  "demo_tensors =
     [\<lparr>tensor_name = ascii ''w'', dimensions = [2], tensor_kind = 0, offset = 0\<rparr>,
      \<lparr>tensor_name = ascii ''b'', dimensions = [1, 3], tensor_kind = 1, offset = 2\<rparr>]"

definition demo_payload :: bytes where "demo_payload = [10, 20, 30, 40, 50]"

definition demo_file :: File where
  "demo_file = \<lparr>contents = put_gguf demo_entries demo_tensors demo_payload, max_seek = i64_max\<rparr>"

lemma demo_retained:
  "retained demo_entries =
     fmupd (ascii ''layers'') (SignedArray [- 1, 3]) (fmupd (ascii ''general.alignment'') (Unsigned 64) fmempty)"
  by (simp add: retained_def demo_entries_def add_entry_def scalar_value_def type_defs array_value_def
      extra_names_def ascii_def)

lemma demo_alignment: "alignment_of (retained demo_entries) = 64"
  by (simp add: demo_retained alignment_of_def ascii_def)

lemma demo_ok: "gguf_ok demo_entries demo_tensors demo_payload"
proof -
  have "is_power_of_two 64" unfolding is_power_of_two_def by (rule bexI [of _ 6]) simp_all
  then show ?thesis
    by (simp add: gguf_ok_def demo_alignment)
      (simp add: demo_entries_def demo_tensors_def demo_payload_def entry_ok_def tensor_ok_def string_ok_def
        element_kind_def of_kind_def type_defs MAX_STRING_BYTES_def ascii_def i64_max_def usize_max_def
        put_string_def)
qed

lemma demo_index_length: "length (put_index demo_entries demo_tensors) = 211"
  by (simp add: put_index_def put_header_def put_entry_def put_tensor_def demo_entries_def demo_tensors_def
      put_string_def GGUF_MAGIC_def type_defs ascii_def)

lemma demo_fits: "fits demo_file"
  using length_put_gguf [OF demo_ok]
  by (simp add: fits_def demo_file_def data_start_def demo_index_length demo_alignment align_up_def
      demo_payload_def i64_max_def)

theorem gguf_roundtrip_witness:
  "\<exists>ix. gguf_open 64 demo_file = Some (Ok ix) \<and> unat (data_offset ix) = 256 \<and>
     fmlookup (metadata ix) (ascii ''layers'') = Some (SignedArray [- 1, 3]) \<and>
     fmlookup (metadata ix) (ascii ''tokens'') = None \<and>
     read_tensor_bytes ix demo_file (ascii ''b'') 3 = Some (Ok [30, 40, 50])"
proof -
  have start: "data_start demo_entries demo_tensors = 256"
    by (simp add: data_start_def demo_index_length demo_alignment align_up_def)
  obtain ix where ix: "gguf_open 64 demo_file = Some (Ok ix)" "metadata ix = retained demo_entries"
    "unat (data_offset ix) = 256"
    and tensors: "\<forall>t \<in> set demo_tensors. \<forall>n. unat (offset t) + n \<le> length demo_payload \<longrightarrow>
       read_tensor_bytes ix demo_file (tensor_name t) n = Some (Ok (take n (drop (unat (offset t)) demo_payload)))"
    using gguf_roundtrip [OF demo_ok _ demo_fits, of 64] start
    by (auto simp: demo_file_def demo_tensors_def i64_max_def)
  have "read_tensor_bytes ix demo_file (ascii ''b'') 3 = Some (Ok [30, 40, 50])"
    using tensors by (simp add: demo_tensors_def demo_payload_def)
  then show ?thesis using ix by (auto simp: demo_retained ascii_def)
qed

theorem gguf_index_safe_witness:
  "\<exists>ix. gguf_open 64 demo_file = Some (Ok ix) \<and> 64 dvd unat (data_offset ix) \<and> card (fmdom' (tensors ix)) = 2"
proof -
  let ?ix = "index_of (retained demo_entries) (of_nat (data_start demo_entries demo_tensors)) demo_tensors"
  have op: "gguf_open 64 demo_file = Some (Ok ?ix)"
    by (rule gguf_open_written [OF demo_ok _ demo_fits]) (simp_all add: demo_file_def demo_tensors_def i64_max_def)
  from gguf_index_safe [OF op] have "unat (alignment_of (metadata ?ix)) dvd unat (data_offset ?ix)" by blast
  moreover have "metadata ?ix = retained demo_entries" by (simp add: index_of_def)
  moreover have "card (fmdom' (tensors ?ix)) = 2"
    by (simp add: index_of_def dom_fold_upd demo_tensors_def ascii_def)
  ultimately show ?thesis using op demo_alignment by auto
qed

theorem gguf_open_capacity_panic_witness:
  "gguf_open 64 \<lparr>contents = put_header (2 ^ 60) [], max_seek = i64_max\<rparr> = None"
  by (rule gguf_open_capacity_panic [of _ "2 ^ 60" "[]"])
    (simp_all add: fits_def put_header_def GGUF_MAGIC_def i64_max_def usize_max_def)

end
