(* ===== verification/Nvfp4.thy ===== *)
theory Nvfp4
  imports Gguf
begin

text \<open>
  The import of GGML's NVFP4 weights, \<open>crates/eider-format/src/gguf_nvfp4.rs\<close>: four-bit elements with one
  scale for sixteen of them, in blocks of 36 bytes, repacked to row-major ModelOpt storage. The theory
  starts with the slicing of a byte sequence into blocks, which the other packed formats share.

  A float is the word of its bits. \<open>nibble\<close>, \<open>ggml_nibble\<close> and \<open>ggml_scale\<close> say where the two layouts keep an
  element and its scale; the properties compare them, first for a block sequence in memory, then for a
  tensor of a GGUF file.
\<close>

unbundle bit_operations_syntax

type_synonym f32 = u32

section \<open>Blocks\<close>

text \<open>\<open>chunks_exact\<close> and \<open>as_chunks\<close>: the whole chunks of a slice; the rest is dropped.\<close>

definition chunks_exact :: "nat \<Rightarrow> 'a list \<Rightarrow> 'a list list" where
  "chunks_exact n xs = map (\<lambda>i. take n (drop (i * n) xs)) [0..<length xs div n]"

lemma length_chunks_exact [simp]: "length (chunks_exact n xs) = length xs div n"
  by (simp add: chunks_exact_def)

lemma chunk_bound: "i < length xs div n \<Longrightarrow> i * n + n \<le> length (xs :: 'a list)"
  using mult_le_mono1 [of "Suc i" "length xs div n" n, unfolded mult_Suc] div_times_less_eq_dividend [of "length xs" n] by linarith

lemma nth_chunks_exact:
  assumes "i < length xs div n"
  shows "length (chunks_exact n xs ! i) = n" "j < n \<Longrightarrow> chunks_exact n xs ! i ! j = xs ! (i * n + j)"
  using chunk_bound [OF assms] assms by (simp_all add: chunks_exact_def)

lemma chunks_exact_length: "c \<in> set (chunks_exact n xs) \<Longrightarrow> length c = n"
  by (metis in_set_conv_nth length_chunks_exact nth_chunks_exact(1))

lemma nth_concat_const:
  assumes "\<And>ys. ys \<in> set xss \<Longrightarrow> length ys = n" "i < length xss" "j < n"
  shows "concat xss ! (i * n + j) = xss ! i ! j"
  using assms
proof (induction xss arbitrary: i)
  case (Cons xs xss)
  then show ?case by (cases i) (auto simp: nth_append)
qed simp

lemma nth_concat_div:
  assumes "\<And>ys. ys \<in> set xss \<Longrightarrow> length ys = n" "k < length xss * n"
  shows "concat xss ! k = xss ! (k div n) ! (k mod n)"
proof -
  have "0 < n" using assms(2) by (cases n) auto
  then have "k div n < length xss" "k mod n < n" using assms(2) by (simp_all add: less_mult_imp_div_less)
  then show ?thesis using nth_concat_const [of xss n "k div n" "k mod n"] assms(1) by simp
qed

lemma concat_map_upt:
  assumes "\<And>k. k < m \<Longrightarrow> length (f k) = n"
  shows "length (concat (map f [0..<m])) = m * n"
    "i < m * n \<Longrightarrow> concat (map f [0..<m]) ! i = f (i div n) ! (i mod n)"
proof -
  have len: "length ys = n" if "ys \<in> set (map f [0..<m])" for ys using that assms by auto
  show "length (concat (map f [0..<m])) = m * n" using length_concat_const [of "[0..<m]" f n] assms by simp
  assume i: "i < m * n"
  then have "i div n < m" by (rule less_mult_imp_div_less)
  then show "concat (map f [0..<m]) ! i = f (i div n) ! (i mod n)"
    using nth_concat_div [of "map f [0..<m]" n i, OF len] i by simp
qed

section \<open>NVFP4 blocks\<close>

definition GGML_TYPE_NVFP4 :: u32 where "GGML_TYPE_NVFP4 = 40"

definition nvfp4_invalid :: error where "nvfp4_invalid = Format ''GGUF NVFP4''"

definition f32_is_nan :: "f32 \<Rightarrow> bool" where
  "f32_is_nan w \<longleftrightarrow> w AND 0x7FFFFFFF > 0x7F800000"

definition f32_is_finite :: "f32 \<Rightarrow> bool" where
  "f32_is_finite w \<longleftrightarrow> w AND 0x7F800000 \<noteq> 0x7F800000"

text \<open>\<open>w <= 0.0\<close>: false for a NaN, true for a negative number and for both zeros.\<close>

definition f32_le_zero :: "f32 \<Rightarrow> bool" where
  "f32_le_zero w \<longleftrightarrow> \<not> f32_is_nan w \<and> (bit w 31 \<or> w = 0)"

record ModelOptNvfp4Linear =
  linear_prefix :: bytes
  out_features :: nat
  in_features :: nat
  packed_weight :: bytes
  weight_scale :: bytes
  weight_scale_2 :: f32
  input_scale :: f32

definition unpack_group :: "bytes \<Rightarrow> bytes" where
  "unpack_group source =
     map (\<lambda>j. (source ! (2 * j) AND 15) OR push_bit 4 (source ! (2 * j + 1) AND 15)) [0..<4] @
     map (\<lambda>j. drop_bit 4 (source ! (2 * j)) OR (source ! (2 * j + 1) AND 0xF0)) [0..<4]"

definition unpack_block :: "bytes \<Rightarrow> (bytes \<times> bytes) result" where
  "unpack_block block =
     (if \<exists>scale \<in> set (take 4 block). scale \<ge> 0x7F then Err nvfp4_invalid
      else Ok (take 4 block, concat (map (\<lambda>group. unpack_group (take 8 (drop (4 + group * 8) block))) [0..<4])))"

definition unpack_gguf_nvfp4 :: "bytes \<Rightarrow> nat \<Rightarrow> nat \<Rightarrow> f32 \<Rightarrow> ModelOptNvfp4Linear result" where
  "unpack_gguf_nvfp4 bs rows cols global_scale =
     bind_result (ok_or (checked_mul rows cols) nvfp4_invalid) (\<lambda>elements.
       if rows = 0 \<or> cols = 0 \<or> \<not> 64 dvd cols \<or> length bs \<noteq> elements div 64 * 36 \<or>
          \<not> f32_is_finite global_scale \<or> f32_le_zero global_scale
       then Err nvfp4_invalid
       else bind_result (map_result unpack_block (chunks_exact 36 bs)) (\<lambda>blocks.
         Ok \<lparr>linear_prefix = [], out_features = rows, in_features = cols,
             packed_weight = concat (map snd blocks), weight_scale = concat (map fst blocks),
             weight_scale_2 = global_scale, input_scale = 0x3F800000\<rparr>))"

fun decimal :: "nat \<Rightarrow> bytes" where
  "decimal n = (if n < 10 then [] else decimal (n div 10)) @ [of_nat (48 + n mod 10)]"

declare decimal.simps [simp del]

definition strip_suffix :: "'a list \<Rightarrow> 'a list \<Rightarrow> 'a list option" where
  "strip_suffix suf xs =
     (if suf = drop (length xs - length suf) xs then Some (take (length xs - length suf) xs) else None)"

definition seek_start :: "File \<Rightarrow> u64 \<Rightarrow> error \<Rightarrow> nat result" where
  "seek_start f off e = (if unat off > max_seek f then Err e else Ok (unat off))"

definition read_at :: "nat \<Rightarrow> File \<Rightarrow> nat \<Rightarrow> error \<Rightarrow> bytes result" where
  "read_at n f pos e = (case read_exact n f pos of Inl _ \<Rightarrow> Err e | Inr (bs, _) \<Rightarrow> Ok bs)"

text \<open>The shape of a matrix, or of a table of experts when one is asked for.\<close>

definition nvfp4_shape :: "GgufTensor \<Rightarrow> nat option \<Rightarrow> (u64 \<times> u64 \<times> u64) result" where
  "nvfp4_shape t expert =
     (case dimensions t of
        [cols, rows] \<Rightarrow> if expert = None then Ok (cols, rows, 1) else Err nvfp4_invalid
      | [cols, rows, count] \<Rightarrow> if expert \<noteq> None then Ok (cols, rows, count) else Err nvfp4_invalid
      | _ \<Rightarrow> Err nvfp4_invalid)"

definition read_nvfp4_linear :: "GgufIndex \<Rightarrow> File \<Rightarrow> bytes \<Rightarrow> nat option \<Rightarrow> ModelOptNvfp4Linear result" where
  "read_nvfp4_linear ix f name expert =
     bind_result (gguf_tensor ix name) (\<lambda>tensor.
     bind_result (nvfp4_shape tensor expert) (\<lambda>(cols, rows, count).
     let expert = (case expert of None \<Rightarrow> 0 | Some e \<Rightarrow> e) in
     if tensor_kind tensor \<noteq> GGML_TYPE_NVFP4 \<or> of_nat expert \<ge> count \<or> cols = 0 \<or> rows = 0 \<or> \<not> 64 dvd unat cols
     then Err nvfp4_invalid
     else bind_result (ok_or (Option.bind (checked_mul_u64 rows (cols div 64)) (\<lambda>v. checked_mul_u64 v 36)) nvfp4_invalid)
       (\<lambda>byte_len.
     bind_result (ok_or (strip_suffix (ascii ''.weight'') name) nvfp4_invalid) (\<lambda>pre.
     bind_result (gguf_tensor ix (pre @ ascii ''.scale'')) (\<lambda>scale.
     if tensor_kind scale \<noteq> 0 \<or> dimensions scale \<noteq> [count] then Err nvfp4_invalid
     else bind_result (ok_or (Option.bind (checked_mul_u64 (of_nat expert) 4) (checked_add_u64 (offset scale))) nvfp4_invalid)
       (\<lambda>scale_offset.
     bind_result (seek_start f scale_offset nvfp4_invalid) (\<lambda>pos.
     bind_result (read_at 4 f pos nvfp4_invalid) (\<lambda>global.
     bind_result (ok_or (Option.bind (checked_mul_u64 (of_nat expert) byte_len) (checked_add_u64 (offset tensor))) nvfp4_invalid)
       (\<lambda>off.
     if (case checked_add_u64 off byte_len of None \<Rightarrow> True | Some e \<Rightarrow> unat e > length (contents f))
     then Err nvfp4_invalid
     else bind_result (seek_start f off nvfp4_invalid) (\<lambda>pos.
     bind_result (read_at (unat byte_len) f pos nvfp4_invalid) (\<lambda>bs.
     bind_result (unpack_gguf_nvfp4 bs (unat rows) (unat cols) (from_le_bytes global)) (\<lambda>linear.
       Ok (linear\<lparr>linear_prefix := pre @ ascii ''['' @ decimal expert @ ascii '']''\<rparr>)))))))))))))"


text \<open>
  The two layouts. In GGML's block of 64 elements byte \<open>j\<close> of a group of 16 holds elements \<open>j\<close> (low
  nibble) and \<open>j + 8\<close> (high nibble); in a ModelOpt row two neighbours share a byte.
\<close>

definition nibble :: "bytes \<Rightarrow> nat \<Rightarrow> u8" where
  "nibble bs i = (if even i then bs ! (i div 2) AND 15 else drop_bit 4 (bs ! (i div 2)))"

definition ggml_nibble :: "bytes \<Rightarrow> nat \<Rightarrow> u8" where
  "ggml_nibble bs i =
     (let b = bs ! (i div 64 * 36 + 4 + i mod 64 div 16 * 8 + i mod 8)
      in if i mod 16 < 8 then b AND 15 else drop_bit 4 b)"

definition ggml_scale :: "bytes \<Rightarrow> nat \<Rightarrow> u8" where
  "ggml_scale bs i = bs ! (i div 64 * 36 + i mod 64 div 16)"

lemma nibble_words:
  fixes a b :: u8
  shows "((a AND 15) OR push_bit 4 (b AND 15)) AND 15 = a AND 15"
    "drop_bit 4 ((a AND 15) OR push_bit 4 (b AND 15)) = b AND 15"
    "(drop_bit 4 a OR (b AND 0xF0)) AND 15 = drop_bit 4 a"
    "drop_bit 4 (drop_bit 4 a OR (b AND 0xF0)) = drop_bit 4 b"
proof -
  have m: "(15 :: u8) = mask 4" "(0xF0 :: u8) = push_bit 4 (mask 4)" by (simp_all add: mask_eq_exp_minus_1)
  show "((a AND 15) OR push_bit 4 (b AND 15)) AND 15 = a AND 15"
    "drop_bit 4 ((a AND 15) OR push_bit 4 (b AND 15)) = b AND 15"
    "(drop_bit 4 a OR (b AND 0xF0)) AND 15 = drop_bit 4 a"
    "drop_bit 4 (drop_bit 4 a OR (b AND 0xF0)) = drop_bit 4 b"
    unfolding m by (rule bit_word_eqI; auto simp: bit_simps dest: bit_imp_le_length)+
qed

lemma length_unpack_group [simp]: "length (unpack_group src) = 8"
  by (simp add: unpack_group_def)

lemma unpack_group_nibble:
  assumes "l < 16"
  shows "nibble (unpack_group src) l = (if l < 8 then src ! l AND 15 else drop_bit 4 (src ! (l - 8)))"
proof (cases "l < 8")
  case True
  define j where "j = l div 2"
  have j: "l div 2 = j" "j < 4" using True by (auto simp: j_def)
  then have "unpack_group src ! (l div 2) = (src ! (2 * j) AND 15) OR push_bit 4 (src ! (2 * j + 1) AND 15)"
    by (simp add: unpack_group_def nth_append)
  then have "nibble (unpack_group src) l = (if even l then src ! (2 * j) AND 15 else src ! (2 * j + 1) AND 15)"
    unfolding nibble_def by (simp only: nibble_words)
  moreover have "l = 2 * j + (if even l then 0 else 1)" using j by presburger
  ultimately show ?thesis using True by (cases "even l") simp_all
next
  case False
  define j where "j = l div 2 - 4"
  have j: "l div 2 = j + 4" "j < 4" using False assms by (auto simp: j_def)
  then have "unpack_group src ! (l div 2) = drop_bit 4 (src ! (2 * j)) OR (src ! (2 * j + 1) AND 0xF0)"
    by (simp add: unpack_group_def nth_append)
  moreover have "l - 8 = 2 * j + (if even l then 0 else 1)" using j by presburger
  moreover from calculation have "nibble (unpack_group src) l =
      (if even l then drop_bit 4 (src ! (2 * j)) else drop_bit 4 (src ! (2 * j + 1)))"
    unfolding nibble_def by (simp only: nibble_words)
  ultimately show ?thesis using False by (cases "even l") simp_all
qed


lemma nibble_concat:
  assumes "\<And>ys. ys \<in> set xss \<Longrightarrow> length ys = n" "i < length xss * (2 * n)"
  shows "nibble (concat xss) i = nibble (xss ! (i div (2 * n))) (i mod (2 * n))"
proof -
  have "i div 2 < length xss * n" using assms(2) by (simp add: less_mult_imp_div_less mult.commute mult.left_commute)
  moreover have "i div 2 div n = i div (2 * n)" by (simp add: div_mult2_eq)
  moreover have "i div 2 mod n = i mod (2 * n) div 2"
    using mod_mult2_eq [of i 2 n] by simp
  moreover have "even (i mod (2 * n)) = even i" by (simp add: dvd_mod_iff)
  ultimately show ?thesis using nth_concat_div [of xss n "i div 2"] assms(1) by (simp add: nibble_def)
qed

lemma mod_16_8: "(l :: nat) mod 8 = (if l mod 16 < 8 then l mod 16 else l mod 16 - 8)"
proof -
  have "l mod 16 = 8 * (l div 8 mod 2) + l mod 8" using mod_mult2_eq [of l 8 2] by simp
  moreover have "l div 8 mod 2 = 0 \<or> l div 8 mod 2 = 1" by auto
  moreover have "l mod 8 < 8" by simp
  ultimately show ?thesis by auto
qed

lemma unpack_block_Ok:
  assumes "unpack_block block = Ok (scales, packed)" "length block = 36"
  shows "length scales = 4" "length packed = 32" "\<And>g. g < 4 \<Longrightarrow> scales ! g = block ! g"
    "\<And>l. l < 64 \<Longrightarrow> nibble packed l =
       (let b = block ! (4 + l div 16 * 8 + l mod 8) in if l mod 16 < 8 then b AND 15 else drop_bit 4 b)"
proof -
  let ?gs = "map (\<lambda>group. unpack_group (take 8 (drop (4 + group * 8) block))) [0..<4]"
  have eq: "scales = take 4 block" "packed = concat ?gs"
    using assms(1) by (auto simp: unpack_block_def split: if_splits)
  show "length scales = 4" "\<And>g. g < 4 \<Longrightarrow> scales ! g = block ! g" using eq assms(2) by simp_all
  have eight: "length ys = 8" if "ys \<in> set ?gs" for ys using that by auto
  show "length packed = 32" unfolding eq by (subst length_concat_const) auto
  fix l :: nat assume l: "l < 64"
  have gs: "?gs ! (l div 16) = unpack_group (take 8 (drop (4 + l div 16 * 8) block))"
  proof -
    have "l div 16 < 4" using l by simp
    then have "[0..<4] ! (l div 16) = l div 16" using nth_upt [of 0 "l div 16" 4] by simp
    then show ?thesis using \<open>l div 16 < 4\<close> by simp
  qed
  have "nibble packed l = nibble (?gs ! (l div 16)) (l mod 16)"
    unfolding eq gs using nibble_concat [of ?gs 8 l, OF eight] l by simp
  also have "nibble (?gs ! (l div 16)) (l mod 16) = (let b = take 8 (drop (4 + l div 16 * 8) block) ! (l mod 8)
      in if l mod 16 < 8 then b AND 15 else drop_bit 4 b)"
  proof -
    have "l div 16 < 4" using l by simp
    moreover note mod_16_8 [of l]
    ultimately show ?thesis unfolding gs by (simp add: unpack_group_nibble Let_def)
  qed
  finally show "nibble packed l =
      (let b = block ! (4 + l div 16 * 8 + l mod 8) in if l mod 16 < 8 then b AND 15 else drop_bit 4 b)"
    using l assms(2) by simp
qed


lemma unpack_block_scales: "unpack_block block = Ok (scales, packed) \<Longrightarrow> \<forall>s \<in> set scales. s < 0x7F"
  by (auto simp: unpack_block_def not_le split: if_splits)

definition nvfp4_scale_ok :: "f32 \<Rightarrow> bool" where
  "nvfp4_scale_ok w \<longleftrightarrow> f32_is_finite w \<and> \<not> f32_le_zero w"

lemma nvfp4_positions:
  fixes i :: nat
  shows "i mod 64 div 16 = i div 16 mod 4" "i mod 64 mod 16 = i mod 16" "i mod 64 mod 8 = i mod 8" "i div 16 div 4 = i div 64"
  using mod_mult2_eq [of i 16 4] div_mult2_eq [of i 16 4] mod_mod_cancel [of 8 64 i] mod_mod_cancel [of 16 64 i]
  by simp_all

lemma unpack_nvfp4_values:
  assumes "unpack_gguf_nvfp4 bs rows cols scale = Ok lin"
  shows "length (packed_weight lin) = rows * cols div 2 \<and> length (weight_scale lin) = rows * cols div 16 \<and>
    weight_scale_2 lin = scale \<and> nvfp4_scale_ok scale \<and> length bs = rows * cols div 64 * 36 \<and>
    (\<forall>i < rows * cols. nibble (packed_weight lin) i = ggml_nibble bs i \<and>
       weight_scale lin ! (i div 16) = ggml_scale bs i \<and> ggml_scale bs i < 0x7F)"
proof -
  let ?cs = "chunks_exact 36 bs" let ?n = "rows * cols div 64"
  obtain blocks where blocks: "map_result unpack_block ?cs = Ok blocks" and shape: "64 dvd cols" "length bs = ?n * 36"
    and scale: "nvfp4_scale_ok scale"
    and lin: "packed_weight lin = concat (map snd blocks)" "weight_scale lin = concat (map fst blocks)"
      "weight_scale_2 lin = scale"
    using assms by (auto simp: unpack_gguf_nvfp4_def nvfp4_scale_ok_def result_simps usize_simps split: if_splits)
  have total: "rows * cols = ?n * 64" using shape(1) by simp
  have all: "list_all2 (\<lambda>c b. unpack_block c = Ok b) ?cs blocks" using blocks by (simp add: map_result_eq_Ok)
  have nblocks: "length blocks = ?n" and ncs: "length bs div 36 = ?n"
    using list_all2_lengthD [OF all] shape(2) by simp_all
  have block: "length (?cs ! k) = 36" "unpack_block (?cs ! k) = Ok (fst (blocks ! k), snd (blocks ! k))" if "k < ?n" for k
    using that list_all2_nthD [OF all, of k] nth_chunks_exact(1) [of k bs 36] ncs by simp_all
  have fst4: "length ys = 4" if "ys \<in> set (map fst blocks)" for ys
    using that unpack_block_Ok(1) [OF block(2,1)] nblocks by (force simp: in_set_conv_nth)
  have snd32: "length ys = 32" if "ys \<in> set (map snd blocks)" for ys
    using that unpack_block_Ok(2) [OF block(2,1)] nblocks by (force simp: in_set_conv_nth)
  have "nibble (packed_weight lin) i = ggml_nibble bs i \<and> weight_scale lin ! (i div 16) = ggml_scale bs i \<and>
      ggml_scale bs i < 0x7F" if i: "i < rows * cols" for i
  proof -
    have k: "i div 64 < ?n" using i total by (simp add: less_mult_imp_div_less)
    note ub = unpack_block_Ok [OF block(2) [OF k] block(1) [OF k]]
    have at: "?cs ! (i div 64) ! j = bs ! (i div 64 * 36 + j)" if "j < 36" for j
      using nth_chunks_exact(2) [of "i div 64" bs 36 j] that k ncs by simp
    have "nibble (packed_weight lin) i = nibble (snd (blocks ! (i div 64))) (i mod 64)"
      using nibble_concat [of "map snd blocks" 32 i, OF snd32] i total nblocks k by (simp add: lin)
    also have "\<dots> = ggml_nibble bs i"
    proof -
      have "4 + i mod 64 div 16 * 8 + i mod 8 < 36" by (simp add: nvfp4_positions)
      from at [OF this] show ?thesis using ub(4) [of "i mod 64"] by (simp add: ggml_nibble_def nvfp4_positions add.assoc)
    qed
    finally have nib: "nibble (packed_weight lin) i = ggml_nibble bs i" .
    have g: "i mod 64 div 16 < 4" by (simp add: nvfp4_positions)
    have "i div 16 < ?n * 4" using i total by (simp add: less_mult_imp_div_less)
    then have "weight_scale lin ! (i div 16) = fst (blocks ! (i div 64)) ! (i mod 64 div 16)"
      using nth_concat_div [of "map fst blocks" 4 "i div 16", OF fst4] nblocks k by (simp add: lin nvfp4_positions)
    also have sc: "\<dots> = ggml_scale bs i" using ub(3) [OF g] at [of "i mod 64 div 16"] g by (simp add: ggml_scale_def)
    finally have "weight_scale lin ! (i div 16) = ggml_scale bs i" .
    moreover have "\<forall>s \<in> set (fst (blocks ! (i div 64))). s < 0x7F" by (rule unpack_block_scales [OF block(2) [OF k]])
    then have "ggml_scale bs i < 0x7F" using sc g ub(1) nth_mem [of "i mod 64 div 16" "fst (blocks ! (i div 64))"] by simp
    ultimately show ?thesis using nib by simp
  qed
  moreover have "length (packed_weight lin) = ?n * 32" "length (weight_scale lin) = ?n * 4"
    using length_concat_const [of blocks snd 32] length_concat_const [of blocks fst 4] snd32 fst4 nblocks
    by (auto simp: lin)
  moreover have "m div 2 = n * 32 \<and> m div 16 = n * 4" if "m = n * 64" for m n :: nat using that by simp
  from this [OF total] have "rows * cols div 2 = ?n * 32" "rows * cols div 16 = ?n * 4" by simp_all
  ultimately show ?thesis using scale shape(2) lin(3) by simp
qed

definition nvfp4_valid :: "bytes \<Rightarrow> nat \<Rightarrow> nat \<Rightarrow> f32 \<Rightarrow> bool" where
  "nvfp4_valid bs rows cols scale \<longleftrightarrow>
     rows \<noteq> 0 \<and> cols \<noteq> 0 \<and> 64 dvd cols \<and> rows * cols \<le> usize_max \<and> length bs = rows * cols div 64 * 36 \<and>
     nvfp4_scale_ok scale \<and> (\<forall>i < rows * cols. ggml_scale bs i < 0x7F)"

lemma unpack_nvfp4_valid:
  assumes "nvfp4_valid bs rows cols scale"
  shows "\<exists>lin. unpack_gguf_nvfp4 bs rows cols scale = Ok lin"
proof -
  let ?cs = "chunks_exact 36 bs" let ?n = "rows * cols div 64"
  note v = assms [unfolded nvfp4_valid_def]
  have total: "rows * cols = ?n * 64" and n: "length bs div 36 = ?n" using v by simp_all
  have "\<exists>b. unpack_block (?cs ! k) = Ok b" if k: "k < ?n" for k
  proof -
    have "?cs ! k ! g < 0x7F" if g: "g < 4" for g
    proof -
      have "(k * 64 + g * 16) div 64 = k" "(k * 64 + g * 16) mod 64 div 16 = g" using g by auto
      moreover have "k * 64 + g * 16 < rows * cols" using k g total by linarith
      ultimately show ?thesis
        using v nth_chunks_exact(2) [of k bs 36 g] k g n by (auto simp: ggml_scale_def)
    qed
    then have "\<forall>s \<in> set (take 4 (?cs ! k)). s < 0x7F" by (auto simp: in_set_conv_nth)
    then show ?thesis by (auto simp: unpack_block_def not_le [symmetric])
  qed
  then obtain b where b: "\<And>k. k < ?n \<Longrightarrow> unpack_block (?cs ! k) = Ok (b k)" by metis
  have "map_result unpack_block ?cs = Ok (map b [0..<?n])"
    unfolding map_result_eq_Ok list_all2_conv_all_nth using b n by simp
  then show ?thesis using v by (simp add: unpack_gguf_nvfp4_def nvfp4_scale_ok_def checked_mul_def)
qed

text \<open>C9: an NVFP4 matrix is unpacked exactly when its shape, its length, its global scale and every
  block scale are valid, and then without touching a value: each of the \<open>rows * cols\<close> four-bit elements
  of the row-major result is the element that GGML's split-half layout stores, and so is the scale of
  its group of sixteen.\<close>

theorem unpack_nvfp4_lossless:
  "case unpack_gguf_nvfp4 bs rows cols scale of
     Inl _ \<Rightarrow> \<not> nvfp4_valid bs rows cols scale
   | Inr lin \<Rightarrow>
       nvfp4_valid bs rows cols scale \<and> weight_scale_2 lin = scale \<and>
       length (packed_weight lin) = rows * cols div 2 \<and> length (weight_scale lin) = rows * cols div 16 \<and>
       map (nibble (packed_weight lin)) [0..<rows * cols] = map (ggml_nibble bs) [0..<rows * cols] \<and>
       map (\<lambda>i. weight_scale lin ! (i div 16)) [0..<rows * cols] = map (ggml_scale bs) [0..<rows * cols]"
proof (cases "unpack_gguf_nvfp4 bs rows cols scale")
  case (Inl e)
  then show ?thesis using unpack_nvfp4_valid [of bs rows cols scale] by auto
next
  case (Inr lin)
  then have "rows \<noteq> 0" "cols \<noteq> 0" "64 dvd cols" "rows * cols \<le> usize_max"
    by (auto simp: unpack_gguf_nvfp4_def result_simps usize_simps split: if_splits)
  then show ?thesis using Inr unpack_nvfp4_values [OF Inr] by (simp add: nvfp4_valid_def)
qed


lemma checked_u64_eq:
  "checked_mul_u64 a b = Some c \<longleftrightarrow> unat a * unat b < 2 ^ 64 \<and> c = a * b"
  "checked_add_u64 a b = Some c \<longleftrightarrow> unat a + unat b < 2 ^ 64 \<and> c = a + b"
  by (auto simp: checked_mul_u64_def checked_add_u64_def)

lemma read_at_eq: "read_at n f pos e = Ok bs \<longleftrightarrow> pos + n \<le> length (contents f) \<and> bs = take n (drop pos (contents f))"
  by (auto simp: read_at_def read_exact_def)

lemma seek_start_eq: "seek_start f off e = Ok pos \<longleftrightarrow> unat off \<le> max_seek f \<and> pos = unat off"
  by (auto simp: seek_start_def)

lemma strip_suffix_eq: "strip_suffix suf xs = Some pre \<longleftrightarrow> xs = pre @ suf"
  by (auto simp: strip_suffix_def) (metis append_take_drop_id)

definition expert_index :: "nat option \<Rightarrow> nat" where
  "expert_index expert = (case expert of None \<Rightarrow> 0 | Some e \<Rightarrow> e)"

text \<open>What a successful import has read: the two places of the file and the matrix they gave.\<close>

record Nvfp4Source =
  src_rows :: nat
  src_cols :: nat
  src_weight :: nat
  src_scale :: nat

definition nvfp4_source :: "GgufTensor \<Rightarrow> GgufTensor \<Rightarrow> u64 \<Rightarrow> u64 \<Rightarrow> nat \<Rightarrow> Nvfp4Source" where
  "nvfp4_source t st cols rows e =
     \<lparr>src_rows = unat rows, src_cols = unat cols,
      src_weight = unat (offset t) + e * (unat rows * (unat cols div 64) * 36),
      src_scale = unat (offset st) + 4 * e\<rparr>"

lemma read_nvfp4_linear_cases:
  assumes "read_nvfp4_linear ix f name expert = Ok lin" "expert_index expert \<le> usize_max"
  obtains t cols rows count pre st lin' s where
    "gguf_tensor ix name = Ok t" "nvfp4_shape t expert = Ok (cols, rows, count)" "tensor_kind t = GGML_TYPE_NVFP4"
    "expert_index expert < unat count" "name = pre @ ascii ''.weight''" "gguf_tensor ix (pre @ ascii ''.scale'') = Ok st"
    "tensor_kind st = 0" "dimensions st = [count]" "s = nvfp4_source t st cols rows (expert_index expert)"
    "src_weight s + src_rows s * (src_cols s div 64) * 36 \<le> length (contents f)" "src_scale s + 4 \<le> length (contents f)"
    "unpack_gguf_nvfp4 (take (src_rows s * (src_cols s div 64) * 36) (drop (src_weight s) (contents f)))
       (src_rows s) (src_cols s) (from_le_bytes (take 4 (drop (src_scale s) (contents f)))) = Ok lin'"
    "lin = lin'\<lparr>linear_prefix := pre @ ascii ''['' @ decimal (expert_index expert) @ ascii '']''\<rparr>"
proof -
  let ?e = "expert_index expert"
  from assms(1) obtain t cols rows count pre st lin' soff off byte_len where
    t: "gguf_tensor ix name = Ok t" "nvfp4_shape t expert = Ok (cols, rows, count)" "tensor_kind t = GGML_TYPE_NVFP4"
      "of_nat ?e < count" "name = pre @ ascii ''.weight''" "gguf_tensor ix (pre @ ascii ''.scale'') = Ok st"
      "tensor_kind st = 0" "dimensions st = [count]"
    and len: "unat rows * unat (cols div 64) < 2 ^ 64" "unat (rows * (cols div 64)) * unat (36 :: u64) < 2 ^ 64"
      "byte_len = rows * (cols div 64) * 36"
    and soff: "unat (of_nat ?e :: u64) * unat (4 :: u64) < 2 ^ 64" "unat (offset st) + unat (of_nat ?e * 4 :: u64) < 2 ^ 64"
      "soff = offset st + of_nat ?e * 4" "unat soff + 4 \<le> length (contents f)"
    and off: "unat (of_nat ?e :: u64) * unat byte_len < 2 ^ 64" "unat (offset t) + unat (of_nat ?e * byte_len) < 2 ^ 64"
      "off = offset t + of_nat ?e * byte_len" "unat off + unat byte_len \<le> length (contents f)"
    and lin: "unpack_gguf_nvfp4 (take (unat byte_len) (drop (unat off) (contents f))) (unat rows) (unat cols)
       (from_le_bytes (take 4 (drop (unat soff) (contents f)))) = Ok lin'"
      "lin = lin'\<lparr>linear_prefix := pre @ ascii ''['' @ decimal ?e @ ascii '']''\<rparr>"
    by (auto simp: read_nvfp4_linear_def result_simps Let_def expert_index_def [symmetric] checked_u64_eq read_at_eq
        seek_start_eq strip_suffix_eq bind_eq_Some_conv not_le split: if_splits)
  have e: "unat (of_nat ?e :: u64) = ?e" by (rule unat_of_nat_u64 [OF assms(2)])
  have n: "unat byte_len = unat rows * (unat cols div 64) * 36"
    using len by (simp add: unat_mult_u64 unat_div)
  have places: "unat off = unat (offset t) + ?e * (unat rows * (unat cols div 64) * 36)" "unat soff = unat (offset st) + 4 * ?e"
    using off(1-3) soff(1-3) by (simp_all add: unat_add_u64 unat_mult_u64 e n mult.commute)
  have "?e < unat count" using t(4) e by (simp add: word_less_nat_alt)
  then show thesis
    using that [of t cols rows count pre st _ lin'] t lin off(4) soff(4) unfolding n places
    by (simp add: nvfp4_source_def)
qed


lemma ggml_take:
  assumes "i < rows * cols" "64 dvd cols" "n = rows * (cols div 64) * 36" "off + n \<le> length xs"
  shows "ggml_nibble (take n (drop off xs)) i = ggml_nibble (drop off xs) i"
    "ggml_scale (take n (drop off xs)) i = ggml_scale (drop off xs) i"
proof -
  have "rows * cols = rows * (cols div 64) * 64" using assms(2) by simp
  then have "i < rows * (cols div 64) * 64" using assms(1) by (simp only:)
  then have "i div 64 < rows * (cols div 64)" by (rule less_mult_imp_div_less)
  then have "i div 64 * 36 + 36 \<le> n"
    using mult_le_mono1 [of "Suc (i div 64)" "rows * (cols div 64)" 36] by (simp add: assms(3))
  moreover have "i mod 64 div 16 < 4" "i mod 8 < 8" by (simp_all add: nvfp4_positions)
  ultimately have "i div 64 * 36 + 4 + i mod 64 div 16 * 8 + i mod 8 < n" "i div 64 * 36 + i mod 64 div 16 < n"
    by linarith+
  then show "ggml_nibble (take n (drop off xs)) i = ggml_nibble (drop off xs) i"
    "ggml_scale (take n (drop off xs)) i = ggml_scale (drop off xs) i"
    by (simp_all add: ggml_nibble_def ggml_scale_def Let_def)
qed

text \<open>C27: importing a matrix or one expert of a table reads only ranges that lie inside the file: expert
  \<open>e\<close> is the \<open>e\<close>-th matrix after the tensor's offset and its global scale the \<open>e\<close>-th word of the
  companion tensor, and every element and group scale of the result is the one stored there.\<close>

theorem nvfp4_expert_from_file:
  assumes "read_nvfp4_linear ix f name expert = Ok lin" "expert_index expert \<le> usize_max"
  shows "\<exists>pre t st cols rows count s.
    name = pre @ ascii ''.weight'' \<and> gguf_tensor ix name = Ok t \<and> gguf_tensor ix (pre @ ascii ''.scale'') = Ok st \<and>
    nvfp4_shape t expert = Ok (cols, rows, count) \<and> expert_index expert < unat count \<and>
    s = nvfp4_source t st cols rows (expert_index expert) \<and>
    src_weight s + src_rows s * (src_cols s div 64) * 36 \<le> length (contents f) \<and>
    src_scale s + 4 \<le> length (contents f) \<and>
    weight_scale_2 lin = from_le_bytes (take 4 (drop (src_scale s) (contents f))) \<and>
    out_features lin = unat rows \<and> in_features lin = unat cols \<and>
    (\<forall>i < unat rows * unat cols.
       nibble (packed_weight lin) i = ggml_nibble (drop (src_weight s) (contents f)) i \<and>
       weight_scale lin ! (i div 16) = ggml_scale (drop (src_weight s) (contents f)) i)"
proof -
  obtain t cols rows count pre st lin' s where r:
    "gguf_tensor ix name = Ok t" "nvfp4_shape t expert = Ok (cols, rows, count)" "expert_index expert < unat count"
    "name = pre @ ascii ''.weight''" "gguf_tensor ix (pre @ ascii ''.scale'') = Ok st"
    and s: "s = nvfp4_source t st cols rows (expert_index expert)"
    and fits: "src_weight s + src_rows s * (src_cols s div 64) * 36 \<le> length (contents f)" "src_scale s + 4 \<le> length (contents f)"
    and un: "unpack_gguf_nvfp4 (take (src_rows s * (src_cols s div 64) * 36) (drop (src_weight s) (contents f)))
       (src_rows s) (src_cols s) (from_le_bytes (take 4 (drop (src_scale s) (contents f)))) = Ok lin'"
    and lin: "lin = lin'\<lparr>linear_prefix := pre @ ascii ''['' @ decimal (expert_index expert) @ ascii '']''\<rparr>"
    using read_nvfp4_linear_cases [OF assms] by metis
  have shape: "src_rows s = unat rows" "src_cols s = unat cols" by (simp_all add: s nvfp4_source_def)
  have f: "64 dvd src_cols s" "out_features lin = unat rows" "in_features lin = unat cols"
    using un lin shape by (auto simp: unpack_gguf_nvfp4_def result_simps usize_simps split: if_splits)
  have "nibble (packed_weight lin) i = ggml_nibble (drop (src_weight s) (contents f)) i \<and>
      weight_scale lin ! (i div 16) = ggml_scale (drop (src_weight s) (contents f)) i"
    if "i < unat rows * unat cols" for i
    using unpack_nvfp4_values [OF un] ggml_take [OF _ f(1) refl fits(1), of i] that lin shape by auto
  then show ?thesis using r s fits f(2,3) unpack_nvfp4_values [OF un] lin by (intro exI) auto
qed

section \<open>A small file\<close>

definition demo_experts :: GgufIndex where
  "demo_experts =
     \<lparr>metadata = fmempty,
      tensors = fmap_of_list
        [(ascii ''experts.weight'', \<lparr>tensor_name = ascii ''experts.weight'', dimensions = [64, 1, 2], tensor_kind = 40, offset = 0\<rparr>),
         (ascii ''experts.scale'', \<lparr>tensor_name = ascii ''experts.scale'', dimensions = [2], tensor_kind = 0, offset = 72\<rparr>)],
      data_offset = 0\<rparr>"

definition demo_block :: "u8 \<Rightarrow> bytes" where
  "demo_block b = replicate 4 0x38 @ replicate 32 b"

definition demo_weights :: File where
  "demo_weights = \<lparr>contents = demo_block 0x21 @ demo_block 0x43 @ [0, 0, 0, 0x40] @ [0, 0, 0x40, 0x40], max_seek = 1000\<rparr>"

lemma demo_block_valid: "nvfp4_valid (demo_block 0x43) 1 64 0x40400000"
proof -
  have "ggml_scale (demo_block 0x43) i = 0x38" if "i < 64" for i
    using that by (simp add: ggml_scale_def demo_block_def nth_append less_mult_imp_div_less)
  then show ?thesis
    by (simp add: nvfp4_valid_def demo_block_def usize_max_def nvfp4_scale_ok_def f32_is_finite_def f32_le_zero_def)
qed

theorem nvfp4_expert_from_file_witness:
  "\<exists>lin. read_nvfp4_linear demo_experts demo_weights (ascii ''experts.weight'') (Some 1) = Ok lin \<and>
     weight_scale_2 lin = 0x40400000 \<and> out_features lin = 1 \<and> in_features lin = 64 \<and> nibble (packed_weight lin) 9 = 4"
proof -
  obtain lin where lin: "unpack_gguf_nvfp4 (demo_block 0x43) 1 64 0x40400000 = Ok lin"
    using unpack_nvfp4_valid [OF demo_block_valid] by blast
  have parts: "take 4 (drop 76 (contents demo_weights)) = [0, 0, 0x40, 0x40]"
    "take 36 (drop 36 (contents demo_weights)) = demo_block 0x43" "length (contents demo_weights) = 80"
    by (simp_all add: demo_weights_def demo_block_def)
  have scale: "(from_le_bytes [0, 0, 0x40, 0x40] :: u32) = 0x40400000" by (simp add: from_le_bytes_def)
  have suffix: "strip_suffix (ascii ''.weight'') (ascii ''experts.weight'') = Some (ascii ''experts'')"
    by (simp add: strip_suffix_eq ascii_def)
  have reads: "read_at 4 demo_weights 76 e = Ok [0, 0, 0x40, 0x40]" "read_at 36 demo_weights 36 e = Ok (demo_block 0x43)" for e
    using parts by (simp_all add: read_at_eq)
  have bounds: "max_seek demo_weights = 1000" "\<not> (2 :: u64) \<le> 1" by (simp_all add: demo_weights_def word_le_nat_alt)
  obtain l where l: "read_nvfp4_linear demo_experts demo_weights (ascii ''experts.weight'') (Some 1) = Ok l"
    using lin parts(3) scale suffix reads bounds
    by (simp add: read_nvfp4_linear_def gguf_tensor_def demo_experts_def ascii_def nvfp4_shape_def GGML_TYPE_NVFP4_def
        checked_mul_u64_def checked_add_u64_def seek_start_def)
  have tensors: "gguf_tensor demo_experts (ascii ''experts.weight'') =
      Ok \<lparr>tensor_name = ascii ''experts.weight'', dimensions = [64, 1, 2], tensor_kind = 40, offset = 0\<rparr>"
    "gguf_tensor demo_experts (ascii ''experts.scale'') =
      Ok \<lparr>tensor_name = ascii ''experts.scale'', dimensions = [2], tensor_kind = 0, offset = 72\<rparr>"
    by (simp_all add: gguf_tensor_def demo_experts_def ascii_def)
  obtain pre t st cols rows count s where r: "ascii ''experts.weight'' = pre @ ascii ''.weight''"
      "gguf_tensor demo_experts (ascii ''experts.weight'') = Ok t" "gguf_tensor demo_experts (pre @ ascii ''.scale'') = Ok st"
      "nvfp4_shape t (Some 1) = Ok (cols, rows, count)" "s = nvfp4_source t st cols rows 1"
      "weight_scale_2 l = from_le_bytes (take 4 (drop (src_scale s) (contents demo_weights)))"
      "out_features l = unat rows" "in_features l = unat cols"
      "\<forall>i < unat rows * unat cols. nibble (packed_weight l) i = ggml_nibble (drop (src_weight s) (contents demo_weights)) i"
    using nvfp4_expert_from_file [OF l] by (auto simp: expert_index_def usize_max_def)
  have "pre = ascii ''experts''" using suffix r(1) by (simp add: strip_suffix_eq)
  then have shape: "cols = 64" "rows = 1" "src_weight s = 36" "src_scale s = 76"
    using r(2-5) tensors by (auto simp: nvfp4_shape_def nvfp4_source_def ascii_def)
  have "nibble (packed_weight l) 9 = ggml_nibble (drop 36 (contents demo_weights)) 9" using r(9) shape by simp
  also have "\<dots> = 4" by (simp add: ggml_nibble_def demo_weights_def demo_block_def nth_append)
  finally show ?thesis using l r(6-8) shape parts(1) scale by auto
qed

end
