(* ===== verification/Ggml_Quant.thy ===== *)
theory Ggml_Quant
  imports Nvfp4
begin

text \<open>
  Packed weights of GGML checkpoints: \<open>gguf_quant.rs\<close> and \<open>ggml_blocks.rs\<close> of \<open>crates/eider-format/src\<close>.

  What the code does with the bits of a float (widening half precision, rounding to bfloat16, the
  fields of a block) is modelled on the words and compared with the numbers they stand for: \<open>f32_units\<close>
  and \<open>f16_units\<close> are the values as integers, in units of the smallest subnormal. The products, sums and
  differences of single-precision values that the decoders compute with the language's operators are the
  operations of an argument \<open>Arith\<close>, so what is shown of the layouts holds for every arithmetic.
\<close>

unbundle bit_operations_syntax

type_synonym f16 = u16
type_synonym bf16 = u16

section \<open>Half precision and bfloat16\<close>

definition leading_zeros :: "u32 \<Rightarrow> nat" where
  "leading_zeros w = length (takeWhile (\<lambda>i. \<not> bit w i) (rev [0..<32]))"

definition f16_to_f32 :: "f16 \<Rightarrow> f32" where
  "f16_to_f32 value =
     (let sign = push_bit 16 (ucast (value AND 0x8000) :: u32);
          exponent = drop_bit 10 value AND 0x1F;
          fraction = ucast (value AND 0x03FF) :: u32
      in if exponent = 0 then
           (if fraction = 0 then sign
            else
              (let leading = leading_zeros fraction - 22;
                   normalized = push_bit (leading + 1) fraction AND 0x03FF;
                   exponent = of_nat (112 - leading) :: u32
               in sign OR push_bit 23 exponent OR push_bit 13 normalized))
         else if exponent = 0x1F then sign OR 0x7F800000 OR push_bit 13 fraction
         else sign OR push_bit 23 (ucast exponent + 112) OR push_bit 13 fraction)"

definition f32_to_bf16 :: "f32 \<Rightarrow> bf16" where
  "f32_to_bf16 bits =
     (let rounding_bias = (drop_bit 16 bits AND 1) + 0x7FFF
      in ucast (drop_bit 16 (bits + rounding_bias)))"


text \<open>The fields of a single-precision number, and its value in units of \<open>2 ^ - 149\<close>; a half-precision
  number in units of \<open>2 ^ - 24\<close>.\<close>

definition f32_exponent :: "f32 \<Rightarrow> nat" where "f32_exponent w = unat (drop_bit 23 w AND 0xFF)"
definition f32_fraction :: "f32 \<Rightarrow> nat" where "f32_fraction w = unat (w AND 0x7FFFFF)"

definition f32_units :: "f32 \<Rightarrow> int" where
  "f32_units w =
     (if bit w 31 then - 1 else 1) *
     (if f32_exponent w = 0 then int (f32_fraction w)
      else (2 ^ 23 + int (f32_fraction w)) * 2 ^ (f32_exponent w - 1))"

definition f16_exponent :: "f16 \<Rightarrow> nat" where "f16_exponent h = unat (drop_bit 10 h AND 0x1F)"
definition f16_fraction :: "f16 \<Rightarrow> nat" where "f16_fraction h = unat (h AND 0x3FF)"

definition f16_units :: "f16 \<Rightarrow> int" where
  "f16_units h =
     (if bit h 15 then - 1 else 1) *
     (if f16_exponent h = 0 then int (f16_fraction h)
      else (2 ^ 10 + int (f16_fraction h)) * 2 ^ (f16_exponent h - 1))"

text \<open>The fields that the bits of a sign, an exponent and a fraction of ten bits give.\<close>

definition assemble :: "bool \<Rightarrow> nat \<Rightarrow> nat \<Rightarrow> f32" where
  "assemble s e m = (if s then 0x80000000 else 0) OR push_bit 23 (of_nat e) OR push_bit 13 (of_nat m)"

lemma bit_of_nat_u32: "bit (of_nat n :: u32) k \<longleftrightarrow> k < 32 \<and> bit n k"
  by transfer (simp add: bit_of_nat_iff_bit)

lemma bit_sign: "bit (if s then 0x80000000 else 0 :: u32) k \<longleftrightarrow> s \<and> k = 31"
proof -
  have "(0x80000000 :: u32) = push_bit 31 1" by simp
  then have "bit (0x80000000 :: u32) k \<longleftrightarrow> k = 31" by (simp only: bit_push_bit_iff bit_1_iff) auto
  then show ?thesis by simp
qed

lemma bit_nat_less: "(n :: nat) < 2 ^ j \<Longrightarrow> bit n k \<Longrightarrow> k < j"
  by (metis bit_take_bit_iff take_bit_nat_eq_self_iff)

lemma assemble_bit:
  assumes "e < 2 ^ 8" "m < 2 ^ 10"
  shows "bit (assemble s e m) k \<longleftrightarrow>
    s \<and> k = 31 \<or> 23 \<le> k \<and> k < 31 \<and> bit e (k - 23) \<or> 13 \<le> k \<and> k < 23 \<and> bit m (k - 13)"
proof -
  have "bit (assemble s e m) k \<longleftrightarrow>
    s \<and> k = 31 \<or> 23 \<le> k \<and> k < 32 \<and> bit e (k - 23) \<or> 13 \<le> k \<and> k < 32 \<and> bit m (k - 13)"
    unfolding assemble_def bit_or_iff bit_sign bit_push_bit_iff bit_of_nat_u32 by auto
  moreover have "bit e (k - 23) \<Longrightarrow> k < 31" "bit m (k - 13) \<Longrightarrow> k < 23"
    using bit_nat_less [OF assms(1), of "k - 23"] bit_nat_less [OF assms(2), of "k - 13"] by linarith+
  ultimately show ?thesis by auto
qed

lemma assemble_fields:
  assumes "e < 2 ^ 8" "m < 2 ^ 10"
  shows "f32_exponent (assemble s e m) = e" "f32_fraction (assemble s e m) = m * 2 ^ 13" "bit (assemble s e m) 31 = s"
proof -
  note b = assemble_bit [OF assms, of s]
  have masks: "(0xFF :: u32) = mask 8" "(0x7FFFFF :: u32) = mask 23" by (simp_all add: mask_eq_exp_minus_1)
  have "drop_bit 23 (assemble s e m) AND 0xFF = of_nat e"
    unfolding masks using bit_nat_less [OF assms(1)]
    by (intro bit_word_eqI) (auto simp: bit_and_iff bit_mask_iff bit_drop_bit_eq b bit_of_nat_u32)
  then show "f32_exponent (assemble s e m) = e"
    using assms(1) by (simp add: f32_exponent_def unat_of_nat_u32 u32_max_def)
  have below: "bit m (k - 13) \<Longrightarrow> k < 23 \<and> k - 13 < 32" for k using bit_nat_less [OF assms(2), of "k - 13"] by linarith
  have "assemble s e m AND 0x7FFFFF = push_bit 13 (of_nat m)"
    unfolding masks using below
    by (intro bit_word_eqI) (auto simp: bit_and_iff bit_mask_iff bit_push_bit_iff b bit_of_nat_u32)
  moreover have "unat (push_bit 13 (of_nat m :: u32)) = m * 2 ^ 13"
    using assms(2) unfolding unsigned_push_bit_eq
    by (simp add: unat_of_nat_u32 u32_max_def push_bit_eq_mult take_bit_eq_mod)
  ultimately show "f32_fraction (assemble s e m) = m * 2 ^ 13" by (simp add: f32_fraction_def)
  show "bit (assemble s e m) 31 = s" by (simp add: b)
qed


lemma f16_parts:
  "push_bit 16 (ucast (h AND 0x8000) :: u32) = (if bit h 15 then 0x80000000 else 0)"
  "(ucast (h AND 0x3FF) :: u32) = of_nat (f16_fraction h)" "f16_fraction h < 2 ^ 10"
  "drop_bit 10 h AND 0x1F = of_nat (f16_exponent h)" "(ucast (drop_bit 10 h AND 0x1F) :: u32) = of_nat (f16_exponent h)"
  "f16_exponent h < 2 ^ 5"
proof -
  have masks: "(0x3FF :: u16) = mask 10" "(0x1F :: u16) = mask 5" by (simp_all add: mask_eq_exp_minus_1)
  have "(0x8000 :: u16) = push_bit 15 1" by simp
  then have top: "bit (0x8000 :: u16) k \<longleftrightarrow> k = 15" for k by (simp only: bit_push_bit_iff bit_1_iff) auto
  show "push_bit 16 (ucast (h AND 0x8000) :: u32) = (if bit h 15 then 0x80000000 else 0)"
    by (rule bit_word_eqI, unfold bit_sign bit_push_bit_iff bit_ucast_iff bit_and_iff top) auto
  show "f16_fraction h < 2 ^ 10" "f16_exponent h < 2 ^ 5"
    unfolding f16_fraction_def f16_exponent_def masks take_bit_eq_mask [symmetric] unsigned_take_bit_eq
    by (rule take_bit_nat_less_exp)+
  show "(ucast (h AND 0x3FF) :: u32) = of_nat (f16_fraction h)" "drop_bit 10 h AND 0x1F = of_nat (f16_exponent h)"
    "(ucast (drop_bit 10 h AND 0x1F) :: u32) = of_nat (f16_exponent h)"
    by (simp_all add: f16_fraction_def f16_exponent_def)
qed

lemma leading_zeros_of_nat:
  assumes "2 ^ p \<le> m" "m < 2 ^ Suc p" "p < 32"
  shows "leading_zeros (of_nat m) = 31 - p"
proof -
  have "m div 2 ^ p = 1"
    using assms(1,2) by (intro div_nat_eqI) simp_all
  then have "bit m p" unfolding bit_iff_odd by simp
  then have p: "bit (of_nat m :: u32) p" using assms(3) by (simp add: bit_of_nat_u32)
  have above: "\<not> bit (of_nat m :: u32) k" if "p < k" for k
    using bit_nat_less [OF assms(2), of k] that by (auto simp: bit_of_nat_u32)
  have "[0..<32] = [0..<p] @ p # [Suc p..<32]"
    using assms(3) upt_add_eq_append [of 0 p "32 - p"] upt_conv_Cons [of p 32] by (simp del: upt_Suc)
  then have "rev [0..<32] = rev [Suc p..<32] @ p # rev [0..<p]" by (simp only: rev_append rev.simps append.assoc append_Cons append_Nil)
  then have "takeWhile (\<lambda>i. \<not> bit (of_nat m :: u32) i) (rev [0..<32]) = rev [Suc p..<32]"
    using p above by (simp only:, subst takeWhile_append2) auto
  then show ?thesis by (simp add: leading_zeros_def)
qed


lemma shift_and_mask: "push_bit k (of_nat m :: u32) AND 0x3FF = of_nat (m * 2 ^ k mod 2 ^ 10)"
proof -
  have mask: "(0x3FF :: u32) = mask 10" by (simp add: mask_eq_exp_minus_1)
  have eq: "m * 2 ^ k mod 2 ^ 10 = take_bit 10 (push_bit k m)" by (simp only: take_bit_eq_mod push_bit_eq_mult)
  show ?thesis
    unfolding mask eq
    by (rule bit_word_eqI, unfold bit_and_iff bit_mask_iff bit_push_bit_iff bit_of_nat_u32 bit_take_bit_iff) auto
qed

lemma f16_to_f32_assemble:
  "f16_to_f32 h =
     (let s = bit h 15; e = f16_exponent h; m = f16_fraction h; z = leading_zeros (of_nat m) - 22 in
      if e = 0 then if m = 0 then assemble s 0 0 else assemble s (112 - z) (m * 2 ^ (z + 1) mod 2 ^ 10)
      else if e = 31 then assemble s 255 m
      else assemble s (e + 112) m)"
proof -
  have zero: "drop_bit 10 h AND 0x1F = 0 \<longleftrightarrow> f16_exponent h = 0" "drop_bit 10 h AND 0x1F = 0x1F \<longleftrightarrow> f16_exponent h = 31"
    by (simp_all add: f16_exponent_def unat_eq_zero word_unat_eq_iff [of _ "0x1F"])
  have frac: "(of_nat (f16_fraction h) :: u32) = 0 \<longleftrightarrow> f16_fraction h = 0"
    using f16_parts(3) [of h] unat_of_nat_u32 [of "f16_fraction h"] by (auto simp: u32_max_def simp flip: unat_eq_zero)
  have inf: "(0x7F800000 :: u32) = push_bit 23 (of_nat 255)" by simp
  show ?thesis
    unfolding f16_to_f32_def Let_def f16_parts(1,2,5) zero frac shift_and_mask assemble_def inf
    by simp
qed


lemma assemble_units:
  assumes "e < 2 ^ 8" "m < 2 ^ 10"
  shows "f32_units (assemble s e m) =
    (if s then - 1 else 1) * (if e = 0 then int m * 2 ^ 13 else (2 ^ 10 + int m) * 2 ^ 13 * 2 ^ (e - 1))"
  unfolding f32_units_def assemble_fields [OF assms] by (simp add: algebra_simps)

text \<open>C28: widening a half-precision number is exact: a finite number keeps its value, subnormal numbers
  and zeros included, and infinities and NaNs keep their kind and their fraction bits.\<close>

theorem f16_to_f32_exact:
  "if f16_exponent h = 31
   then f32_exponent (f16_to_f32 h) = 255 \<and> f32_fraction (f16_to_f32 h) = f16_fraction h * 2 ^ 13 \<and>
     bit (f16_to_f32 h) 31 = bit h 15
   else f32_exponent (f16_to_f32 h) < 255 \<and> f32_units (f16_to_f32 h) = f16_units h * 2 ^ 125"
proof -
  let ?e = "f16_exponent h" and ?m = "f16_fraction h"
  note small = f16_parts(3,6) [of h]
  consider "?e = 31" | "?e = 0" "?m = 0" | "?e = 0" "?m \<noteq> 0" | "0 < ?e" "?e < 31" using small(2) by fastforce
  then show ?thesis
  proof cases
    case 1
    then show ?thesis using assemble_fields [of 255 ?m] small by (simp add: f16_to_f32_assemble)
  next
    case 2
    then show ?thesis using assemble_fields(1) [of 0 0] assemble_units [of 0 0]
      by (simp add: f16_to_f32_assemble f16_units_def)
  next
    case 3
    then obtain p where p: "2 ^ p \<le> ?m" "?m < 2 ^ (p + 1)" using ex_power_ivl1 [of 2 ?m] by auto
    have "p < 10" using p(1) small(1) by (meson le_less_trans nat_power_less_imp_less zero_less_numeral)
    define k where "k = ?m * 2 ^ (9 - p + 1)"
    have "9 - p + 1 = 10 - p" using \<open>p < 10\<close> by simp
    then have k': "k = ?m * 2 ^ (10 - p)" by (simp only: k_def)
    have z: "leading_zeros (of_nat ?m) - 22 = 9 - p"
      using leading_zeros_of_nat [of p ?m] p \<open>p < 10\<close> by simp
    have "2 ^ p * 2 ^ (10 - p) \<le> k" "k < 2 ^ (p + 1) * 2 ^ (10 - p)" using p by (simp_all add: k')
    moreover have "(2 :: nat) ^ p * 2 ^ (10 - p) = 2 ^ 10" "(2 :: nat) ^ (p + 1) * 2 ^ (10 - p) = 2 ^ 11"
      using \<open>p < 10\<close> unfolding power_add [symmetric] by simp_all
    ultimately have k: "2 ^ 10 \<le> k" "k < 2 ^ 11" by simp_all
    then have norm: "k mod 2 ^ 10 = k - 2 ^ 10" by (simp add: mod_if)
    have h: "f16_to_f32 h = assemble (bit h 15) (103 + p) (k - 2 ^ 10)"
      using 3 z \<open>p < 10\<close> norm by (simp add: f16_to_f32_assemble Let_def k_def)
    have "(2 ^ 10 + int (k - 2 ^ 10)) * 2 ^ 13 * 2 ^ (102 + p) = int ?m * 2 ^ 125"
    proof -
      have "2 ^ 10 + int (k - 2 ^ 10) = int ?m * 2 ^ (10 - p)" using k by (simp add: k')
      moreover have "(2 :: int) ^ (10 - p) * 2 ^ 13 * 2 ^ (102 + p) = 2 ^ 125"
        using \<open>p < 10\<close> by (simp flip: power_add)
      ultimately show ?thesis by (simp only: mult.assoc)
    qed
    then show ?thesis
      using 3 assemble_fields(1) [of "103 + p" "k - 2 ^ 10"] assemble_units [of "103 + p" "k - 2 ^ 10"] \<open>p < 10\<close> k
      by (simp add: h f16_units_def)
  next
    case 4
    have "(2 :: int) ^ 13 * 2 ^ (111 + ?e) = 2 ^ (?e - 1) * 2 ^ 125"
      unfolding power_add [symmetric] using 4 by simp
    then have "(2 ^ 10 + int ?m) * 2 ^ 13 * 2 ^ (111 + ?e) = (2 ^ 10 + int ?m) * 2 ^ (?e - 1) * 2 ^ 125"
      by (simp only: mult.assoc)
    then show ?thesis
      using 4 small assemble_fields(1) [of "?e + 112" ?m] assemble_units [of "?e + 112" ?m]
      by (simp add: f16_to_f32_assemble f16_units_def Let_def mult.assoc)
  qed
qed


subsection \<open>Rounding to bfloat16\<close>

text \<open>The value of the magnitude bits: neighbouring bit patterns are neighbouring numbers.\<close>

definition magnitude :: "nat \<Rightarrow> nat" where
  "magnitude n = (if n div 2 ^ 23 = 0 then n else (2 ^ 23 + n mod 2 ^ 23) * 2 ^ (n div 2 ^ 23 - 1))"

lemma magnitude_Suc: "magnitude (Suc n) = magnitude n + 2 ^ (n div 2 ^ 23 - 1)"
proof (cases "Suc (n mod 2 ^ 23) = 2 ^ 23")
  case True
  then have "Suc n div 2 ^ 23 = Suc (n div 2 ^ 23)" "Suc n mod 2 ^ 23 = 0" by (simp_all add: div_Suc mod_Suc)
  moreover have "n = 2 ^ 23 - 1" if "n div 2 ^ 23 = 0" using that True by simp
  moreover have "n mod 2 ^ 23 = 2 ^ 23 - 1" using True by simp
  ultimately show ?thesis by (cases "n div 2 ^ 23") (simp_all add: magnitude_def)
next
  case False
  then have "Suc n div 2 ^ 23 = n div 2 ^ 23" "Suc n mod 2 ^ 23 = Suc (n mod 2 ^ 23)" by (simp_all add: div_Suc mod_Suc)
  then show ?thesis by (simp add: magnitude_def algebra_simps)
qed

lemma magnitude_strict: "n < m \<Longrightarrow> magnitude n < magnitude m"
  by (rule lift_Suc_mono_less [where f = magnitude]) (simp_all add: magnitude_Suc)

lemma magnitude_mono: "n \<le> m \<Longrightarrow> magnitude n \<le> magnitude m"
  using magnitude_strict [of n m] by (cases "n = m") auto

lemma magnitude_eq_iff: "magnitude n = magnitude m \<longleftrightarrow> n = m"
  using magnitude_strict [of n m] magnitude_strict [of m n] by (cases n m rule: linorder_cases) auto

lemma magnitude_linear:
  "j \<le> 65536 \<Longrightarrow> magnitude (k * 65536 + j) = magnitude (k * 65536) + j * 2 ^ (k div 128 - 1)"
proof (induction j)
  case (Suc j)
  have "(k * 65536 + j) div 2 ^ 23 = (k * 65536 + j) div 65536 div 128" using div_mult2_eq [of "k * 65536 + j" 65536 128] by simp
  moreover have "(k * 65536 + j) div 65536 = k" using Suc.prems by simp
  ultimately have "(k * 65536 + j) div 2 ^ 23 = k div 128" by simp
  then have "magnitude (Suc (k * 65536 + j)) = magnitude (k * 65536 + j) + 2 ^ (k div 128 - 1)"
    by (simp only: magnitude_Suc)
  then show ?case using Suc by simp
qed simp

definition sign_bit :: "f32 \<Rightarrow> int" where "sign_bit w = (if bit w 31 then - 1 else 1)"
definition mag_bits :: "f32 \<Rightarrow> nat" where "mag_bits w = unat w mod 2 ^ 31"

lemma unat_u32_less: "unat (w :: u32) < 2 ^ 32"
  using unsigned_less [of w] by simp

lemma f32_fields: "f32_exponent w = mag_bits w div 2 ^ 23" "f32_fraction w = mag_bits w mod 2 ^ 23"
proof -
  have masks: "(0xFF :: u32) = mask 8" "(0x7FFFFF :: u32) = mask 23" by (simp_all add: mask_eq_exp_minus_1)
  have "f32_exponent w = unat w div 2 ^ 23 mod 2 ^ 8"
    unfolding f32_exponent_def masks take_bit_eq_mask [symmetric] unsigned_take_bit_eq unsigned_drop_bit_eq
    using unat_u32_less [of w] by (simp add: take_bit_eq_mod drop_bit_eq_div)
  then show "f32_exponent w = mag_bits w div 2 ^ 23"
    using mod_mult2_eq [of "unat w" "2 ^ 23" "2 ^ 8"] by (simp add: mag_bits_def)
  have "f32_fraction w = unat w mod 2 ^ 23"
    unfolding f32_fraction_def masks take_bit_eq_mask [symmetric] unsigned_take_bit_eq by (simp add: take_bit_eq_mod)
  then show "f32_fraction w = mag_bits w mod 2 ^ 23" by (simp add: mag_bits_def mod_mod_cancel)
qed

lemma f32_units_magnitude: "f32_units w = sign_bit w * int (magnitude (mag_bits w))"
  unfolding f32_units_def f32_fields magnitude_def sign_bit_def by simp

lemma unat_sign_mag: "unat w = (if bit w 31 then 2 ^ 31 else 0) + mag_bits w" "mag_bits w < 2 ^ 31"
proof -
  have "bit (unat w) 31 = bit w 31" by (simp add: bit_unsigned_iff)
  then have "odd (unat w div 2 ^ 31) = bit w 31" unfolding bit_iff_odd [of "unat w"] by simp
  moreover have "unat w div 2 ^ 31 < 2" using unat_u32_less [of w] by (simp add: less_mult_imp_div_less)
  then have "unat w div 2 ^ 31 = 0 \<or> unat w div 2 ^ 31 = 1" by linarith
  moreover have "unat w = unat w div 2 ^ 31 * 2 ^ 31 + mag_bits w" by (simp add: mag_bits_def)
  ultimately show "unat w = (if bit w 31 then 2 ^ 31 else 0) + mag_bits w" by auto
  show "mag_bits w < 2 ^ 31" by (simp add: mag_bits_def)
qed


definition bf16_to_f32 :: "bf16 \<Rightarrow> f32" where
  "bf16_to_f32 value = push_bit 16 (ucast value)"

lemma bf16_bits:
  "bit (bf16_to_f32 c) 31 = bit c 15" "mag_bits (bf16_to_f32 c) = unat c mod 2 ^ 15 * 65536"
  "unat c = (if bit c 15 then 2 ^ 15 else 0) + unat c mod 2 ^ 15"
proof -
  show s: "bit (bf16_to_f32 c) 31 = bit c 15"
    unfolding bf16_to_f32_def bit_push_bit_iff bit_ucast_iff by simp
  have "unat c < 65536" using unsigned_less [of c] by simp
  then have u: "unat (bf16_to_f32 c) = unat c * 65536"
    unfolding bf16_to_f32_def unsigned_push_bit_eq by (simp add: unsigned_ucast_eq take_bit_eq_mod push_bit_eq_mult)
  have "(65536 :: nat) * (unat c mod 2 ^ 15) = 65536 * unat c mod (65536 * 2 ^ 15)" by (rule mult_mod_right)
  then show m: "mag_bits (bf16_to_f32 c) = unat c mod 2 ^ 15 * 65536" by (simp add: mag_bits_def u mult.commute)
  have "unat c * 65536 = ((if bit c 15 then 2 ^ 15 else 0) + unat c mod 2 ^ 15) * 65536"
    using unat_sign_mag(1) [of "bf16_to_f32 c"] unfolding u s m by simp
  then show "unat c = (if bit c 15 then 2 ^ 15 else 0) + unat c mod 2 ^ 15" by (simp only: mult_cancel2) simp
qed

definition rounded :: "nat \<Rightarrow> nat" where
  "rounded n = (let k = n div 65536; j = n mod 65536 in if j > 32768 \<or> j = 32768 \<and> odd k then k + 1 else k)"

lemma rounded_carry: "(n + n div 65536 mod 2 + 32767) div 65536 = rounded n"
proof -
  define k j where "k = n div 65536" and "j = n mod 65536"
  have n: "n = k * 65536 + j" "j < 65536" by (simp_all add: k_def j_def)
  have k2: "k mod 2 = (if odd k then 1 else 0)" by (simp add: odd_iff_mod_2_eq_one)
  have "n + k mod 2 + 32767 = k * 65536 + (j + k mod 2 + 32767)" by (simp add: n)
  then have "(n + k mod 2 + 32767) div 65536 = k + (j + k mod 2 + 32767) div 65536" by (simp only: div_mult_self3)
  moreover have "(j + k mod 2 + 32767) div 65536 = (if j > 32768 \<or> j = 32768 \<and> odd k then 1 else 0)"
    unfolding k2 using n(2) by (auto simp: div_nat_eqI)
  ultimately show ?thesis unfolding rounded_def Let_def k_def [symmetric] j_def [symmetric] by simp
qed

lemma f32_to_bf16_rounded:
  assumes "mag_bits w \<le> 0x7F800000"
  shows "unat (f32_to_bf16 w) mod 2 ^ 15 = rounded (mag_bits w)" "bit (f32_to_bf16 w) 15 = bit w 31"
proof -
  let ?n = "mag_bits w" and ?s = "if bit w 31 then 2 ^ 15 else 0 :: nat"
  have w: "unat w = ?s * 65536 + ?n" using unat_sign_mag(1) [of w] by simp
  have one: "(1 :: u32) = mask 1" by (simp add: mask_eq_exp_minus_1)
  have lsb: "unat (drop_bit 16 w AND 1) = ?n div 65536 mod 2"
  proof -
    have "unat (drop_bit 16 w AND 1) = unat w div 65536 mod 2"
      unfolding one take_bit_eq_mask [symmetric] unsigned_take_bit_eq unsigned_drop_bit_eq
      using unat_u32_less [of w] by (simp add: take_bit_eq_mod drop_bit_eq_div)
    moreover have "unat w div 65536 = ?s + ?n div 65536" by (simp add: w)
    moreover have "(32768 + m) mod 2 = m mod 2" for m :: nat by presburger
    ultimately show ?thesis by (simp split: if_splits)
  qed
  let ?b = "(drop_bit 16 w AND 1) + 0x7FFF :: u32"
  have b: "unat ?b = ?n div 65536 mod 2 + 32767" using lsb by (subst unat_add_u32) simp_all
  have sum: "unat (w + ?b) = ?s * 65536 + (?n + ?n div 65536 mod 2 + 32767)"
    using assms b w by (subst unat_add_u32) (auto split: if_splits)
  have "rounded ?n \<le> 0x7F80"
    using assms unfolding rounded_carry [symmetric] by (simp add: div_le_mono less_mult_imp_div_less)
  moreover have "unat (w + ?b) div 65536 = ?s + rounded ?n"
    unfolding sum by (simp add: rounded_carry)
  ultimately have r: "unat (f32_to_bf16 w) = ?s + rounded ?n"
    unfolding f32_to_bf16_def Let_def unsigned_ucast_eq unsigned_drop_bit_eq
    using unat_u32_less [of "w + ?b"] by (simp add: take_bit_eq_mod drop_bit_eq_div)
  then show "unat (f32_to_bf16 w) mod 2 ^ 15 = rounded ?n" using \<open>rounded ?n \<le> 0x7F80\<close> by simp
  then show "bit (f32_to_bf16 w) 15 = bit w 31" using bf16_bits(3) [of "f32_to_bf16 w"] r by (simp split: if_splits)
qed


lemma bf16_units:
  "f32_units (bf16_to_f32 c) = (if bit c 15 then - 1 else 1) * int (magnitude (unat c mod 2 ^ 15 * 65536))"
  unfolding f32_units_magnitude sign_bit_def bf16_bits(1,2) by (rule refl)

lemma nearest_of_two:
  fixes x lo hi v y :: int
  assumes "lo \<le> x" "x \<le> hi" "v = (if up then hi else lo)" "if up then hi - x \<le> x - lo else x - lo \<le> hi - x"
    "y \<le> lo \<or> hi \<le> y"
  shows "\<bar>x - v\<bar> \<le> \<bar>x - y\<bar>" "\<bar>x - v\<bar> = \<bar>x - y\<bar> \<Longrightarrow> y = v \<or> hi - x = x - lo"
  using assms by (auto split: if_splits)

text \<open>A magnitude lies between two neighbouring multiples of \<open>65536\<close>, and \<open>rounded\<close> is the nearer one, the
  even one when it lies half way.\<close>

lemma rounded_between:
  obtains q up where
    "magnitude (q * 65536) \<le> magnitude n" "magnitude n \<le> magnitude ((q + 1) * 65536)" "rounded n = (if up then q + 1 else q)"
    "if up then int (magnitude ((q + 1) * 65536)) - int (magnitude n) \<le> int (magnitude n) - int (magnitude (q * 65536))
     else int (magnitude n) - int (magnitude (q * 65536)) \<le> int (magnitude ((q + 1) * 65536)) - int (magnitude n)"
    "int (magnitude ((q + 1) * 65536)) - int (magnitude n) = int (magnitude n) - int (magnitude (q * 65536)) \<Longrightarrow> even (rounded n)"
proof -
  define q j where "q = n div 65536" and "j = n mod 65536"
  define u where "u = int (2 ^ (q div 128 - 1))"
  have n: "n = q * 65536 + j" "j < 65536" and u: "0 < u" by (simp_all add: q_def j_def u_def)
  have lo: "int (magnitude n) - int (magnitude (q * 65536)) = int j * u"
    using magnitude_linear [of j q] n by (simp add: u_def)
  have "int (magnitude ((q + 1) * 65536)) = int (magnitude (q * 65536)) + 65536 * u"
    using magnitude_linear [of 65536 q] by (simp add: u_def add.commute)
  then have hi: "int (magnitude ((q + 1) * 65536)) - int (magnitude n) = (65536 - int j) * u"
    using lo by (simp add: left_diff_distrib)
  have "magnitude (q * 65536) \<le> magnitude n" "magnitude n \<le> magnitude ((q + 1) * 65536)"
    using n by (auto intro: magnitude_mono)
  moreover have "rounded n = (if j > 32768 \<or> j = 32768 \<and> odd q then q + 1 else q)"
    by (simp add: rounded_def q_def j_def Let_def)
  ultimately show thesis
    using that [of q "j > 32768 \<or> j = 32768 \<and> odd q"] n(2) u unfolding lo hi
    by (auto simp: mult_le_cancel_right split: if_splits)
qed

text \<open>C10: converting a finite single-precision number to bfloat16 rounds to nearest: the sign is kept and no
  bfloat16 number is closer to the given value; when another one is equally close, the result is the one
  with an even last bit. (An overflow rounds to the bits of infinity, which count as the next power of two.)\<close>

theorem f32_to_bf16_nearest_even:
  assumes "f32_exponent w < 255"
  shows "bit (f32_to_bf16 w) 15 = bit w 31 \<and>
    (\<forall>c. \<bar>f32_units w - f32_units (bf16_to_f32 (f32_to_bf16 w))\<bar> \<le> \<bar>f32_units w - f32_units (bf16_to_f32 c)\<bar> \<and>
      (\<bar>f32_units w - f32_units (bf16_to_f32 (f32_to_bf16 w))\<bar> = \<bar>f32_units w - f32_units (bf16_to_f32 c)\<bar> \<longrightarrow>
        c = f32_to_bf16 w \<or> even (unat (f32_to_bf16 w))))"
proof -
  let ?b = "f32_to_bf16 w" and ?r = "rounded (mag_bits w)"
  define s :: int where "s = (if bit w 31 then - 1 else 1)"
  define x where "x = int (magnitude (mag_bits w))"
  have "mag_bits w < 255 * 2 ^ 23" using assms unfolding f32_fields by (simp add: div_less_iff_less_mult)
  then have b: "unat ?b mod 2 ^ 15 = ?r" "bit ?b 15 = bit w 31" using f32_to_bf16_rounded [of w] by simp_all
  have units: "f32_units w = s * x" by (simp add: f32_units_magnitude sign_bit_def s_def x_def)
  have units_b: "f32_units (bf16_to_f32 ?b) = s * int (magnitude (?r * 65536))" unfolding bf16_units b s_def by (rule refl)
  have abs: "\<bar>s * x - s * z\<bar> = \<bar>x - z\<bar>" for z by (simp add: s_def abs_minus_commute)
  obtain q up where q: "magnitude (q * 65536) \<le> magnitude (mag_bits w)"
      "magnitude (mag_bits w) \<le> magnitude ((q + 1) * 65536)" "?r = (if up then q + 1 else q)"
      "if up then int (magnitude ((q + 1) * 65536)) - x \<le> x - int (magnitude (q * 65536))
       else x - int (magnitude (q * 65536)) \<le> int (magnitude ((q + 1) * 65536)) - x"
    and tie: "int (magnitude ((q + 1) * 65536)) - x = x - int (magnitude (q * 65536)) \<Longrightarrow> even ?r"
    using rounded_between [of "mag_bits w"] unfolding x_def by metis
  have even: "even (unat ?b)" if "even ?r" using bf16_bits(3) [of ?b] that unfolding b by (simp split: if_splits)
  have "\<bar>f32_units w - f32_units (bf16_to_f32 ?b)\<bar> \<le> \<bar>f32_units w - f32_units (bf16_to_f32 c)\<bar> \<and>
      (\<bar>f32_units w - f32_units (bf16_to_f32 ?b)\<bar> = \<bar>f32_units w - f32_units (bf16_to_f32 c)\<bar> \<longrightarrow>
        c = ?b \<or> even (unat ?b))" for c
  proof -
    let ?k = "unat c mod 2 ^ 15"
    define y where "y = (if bit c 15 = bit w 31 then 1 else - 1) * int (magnitude (?k * 65536))"
    have c: "f32_units (bf16_to_f32 c) = s * y" unfolding bf16_units s_def y_def by simp
    have "magnitude (?k * 65536) \<le> magnitude (q * 65536) \<or> magnitude ((q + 1) * 65536) \<le> magnitude (?k * 65536)"
      by (cases "?k \<le> q") (auto intro: magnitude_mono)
    then have outside: "y \<le> int (magnitude (q * 65536)) \<or> int (magnitude ((q + 1) * 65536)) \<le> y" by (auto simp: y_def)
    note two = nearest_of_two [of "int (magnitude (q * 65536))" x "int (magnitude ((q + 1) * 65536))"
        "int (magnitude (?r * 65536))" up y, OF _ _ _ q(4) outside]
    have prem: "int (magnitude (q * 65536)) \<le> x" "x \<le> int (magnitude ((q + 1) * 65536))"
      "int (magnitude (?r * 65536)) = (if up then int (magnitude ((q + 1) * 65536)) else int (magnitude (q * 65536)))"
      using q(1-3) by (simp_all add: x_def)
    have "c = ?b \<or> even (unat ?b)" if y: "y = int (magnitude (?r * 65536))"
    proof (cases "bit c 15 = bit w 31")
      case True
      then have "?k = ?r" using y by (simp add: y_def magnitude_eq_iff del: mod_less)
      then have "unat c = unat ?b" using True bf16_bits(3) [of c] bf16_bits(3) [of ?b] unfolding b by simp
      then show ?thesis by (simp add: word_unat_eq_iff)
    next
      case False
      then have "magnitude (?r * 65536) = magnitude 0" using y by (simp add: y_def magnitude_def [of 0])
      then show ?thesis using even by (simp add: magnitude_eq_iff)
    qed
    then show ?thesis unfolding units units_b c abs using two(1) [OF prem] two(2) [OF prem] tie even by auto
  qed
  then show ?thesis using b(2) by blast
qed


text \<open>a NaN is not always kept: the bias carries through the fraction and the exponent of a NaN with
  large fraction bits into the sign, and the result is a zero. Widening the half-precision NaN \<open>0x7FFF\<close>
  gives such a number.\<close>

theorem f32_to_bf16_loses_nan:
  assumes "f32_exponent w = 255" "f32_fraction w \<ge> 0x7F8000"
  shows "f32_units (bf16_to_f32 (f32_to_bf16 w)) = 0"
proof -
  let ?n = "mag_bits w"
  have n: "?n = 255 * 2 ^ 23 + f32_fraction w" using assms(1) div_mult_mod_eq [of ?n "2 ^ 23"] unfolding f32_fields by simp
  have ge: "0x7FFF8000 \<le> ?n" using assms(2) n by simp
  then have k: "?n div 65536 = 32767" using unat_sign_mag(2) [of w] by (intro div_nat_eqI) simp_all
  define hi :: nat where "hi = (if bit w 31 then 2 ^ 15 else 0)"
  have w: "unat w = hi * 65536 + ?n" using unat_sign_mag(1) [of w] by (simp add: hi_def)
  have one: "(1 :: u32) = mask 1" by (simp add: mask_eq_exp_minus_1)
  have "unat w div 65536 = hi + 32767" by (simp add: w k)
  then have "unat (drop_bit 16 w AND 1) = (hi + 32767) mod 2"
    unfolding one take_bit_eq_mask [symmetric] unsigned_take_bit_eq unsigned_drop_bit_eq
    using unat_u32_less [of w] by (simp add: take_bit_eq_mod drop_bit_eq_div)
  then have "unat ((drop_bit 16 w AND 1) + 0x7FFF :: u32) = 32768"
    by (subst unat_add_u32) (simp_all add: hi_def)
  moreover obtain r where r: "?n = 0x7FFF8000 + r" "r < 32768"
    using ge unat_sign_mag(2) [of w] le_Suc_ex [OF ge] by auto
  ultimately have "unat (w + ((drop_bit 16 w AND 1) + 0x7FFF)) = (hi * 65536 + (2 ^ 31 + r)) mod 2 ^ 32"
    by (simp add: unat_word_ariths w add.left_commute)
  moreover have "(2147483648 + r) div 65536 = 32768" using r(2) by (intro div_nat_eqI) simp_all
  ultimately have "unat (w + ((drop_bit 16 w AND 1) + 0x7FFF)) div 65536 = (if bit w 31 then 0 else 2 ^ 15)"
    using r(2) by (simp add: hi_def)
  then have "unat (f32_to_bf16 w) = (if bit w 31 then 0 else 2 ^ 15)"
    unfolding f32_to_bf16_def Let_def unsigned_ucast_eq unsigned_drop_bit_eq
    using unat_u32_less [of "w + ((drop_bit 16 w AND 1) + 0x7FFF)"] by (simp add: take_bit_eq_mod drop_bit_eq_div)
  then show ?thesis unfolding bf16_units by (simp add: magnitude_def)
qed


section \<open>K-quantised blocks\<close>

text \<open>The single-precision operations the decoders use: product, difference, sum and
  conversion of an integer.\<close>

record Arith =
  mul :: "f32 \<Rightarrow> f32 \<Rightarrow> f32"
  sub :: "f32 \<Rightarrow> f32 \<Rightarrow> f32"
  add :: "f32 \<Rightarrow> f32 \<Rightarrow> f32"
  of_integer :: "int \<Rightarrow> f32"

definition GGML_TYPE_Q4_K :: u32 where "GGML_TYPE_Q4_K = 12"
definition GGML_TYPE_Q6_K :: u32 where "GGML_TYPE_Q6_K = 14"
definition QK_K :: nat where "QK_K = 256"
definition Q4_K_BLOCK_BYTES :: nat where "Q4_K_BLOCK_BYTES = 144"
definition Q6_K_BLOCK_BYTES :: nat where "Q6_K_BLOCK_BYTES = 210"

definition quantized_byte_len :: "u32 \<Rightarrow> nat \<Rightarrow> nat result" where
  "quantized_byte_len kind n =
     (if \<not> QK_K dvd n then Err (Shape ''GGML K-quant tensor'')
      else if kind = GGML_TYPE_Q4_K then ok_or (checked_mul (n div QK_K) Q4_K_BLOCK_BYTES) (Shape ''GGML K-quant tensor'')
      else if kind = GGML_TYPE_Q6_K then ok_or (checked_mul (n div QK_K) Q6_K_BLOCK_BYTES) (Shape ''GGML K-quant tensor'')
      else Err (Format ''GGML K-quant tensor''))"

definition q4_k_scale_min :: "nat \<Rightarrow> bytes \<Rightarrow> u8 \<times> u8" where
  "q4_k_scale_min index packed =
     (if index < 4 then (packed ! index AND 63, packed ! (index + 4) AND 63)
      else
        ((packed ! (index + 4) AND 0x0F) OR push_bit 4 (drop_bit 6 (packed ! (index - 4))),
         drop_bit 4 (packed ! (index + 4)) OR push_bit 4 (drop_bit 6 (packed ! index))))"

definition q4_k_group :: "Arith \<Rightarrow> f32 \<Rightarrow> f32 \<Rightarrow> bytes \<Rightarrow> bytes \<Rightarrow> nat \<Rightarrow> f32 list" where
  "q4_k_group ar d dmin scales quants grp =
     (let (scale_low, min_low) = q4_k_scale_min (grp * 2) scales;
          (scale_high, min_high) = q4_k_scale_min (grp * 2 + 1) scales;
          packed = take 32 (drop (grp * 32) quants);
          delta_low = mul ar d (of_integer ar (uint scale_low));
          offset_low = mul ar dmin (of_integer ar (uint min_low));
          delta_high = mul ar d (of_integer ar (uint scale_high));
          offset_high = mul ar dmin (of_integer ar (uint min_high))
      in map (\<lambda>quant. sub ar (mul ar delta_low (of_integer ar (uint (quant AND 0x0F)))) offset_low) packed @
         map (\<lambda>quant. sub ar (mul ar delta_high (of_integer ar (uint (drop_bit 4 quant)))) offset_high) packed)"

definition dequantize_q4_k_block :: "Arith \<Rightarrow> bytes \<Rightarrow> f32 list" where
  "dequantize_q4_k_block ar block =
     (let d = f16_to_f32 (from_le_bytes [block ! 0, block ! 1]);
          dmin = f16_to_f32 (from_le_bytes [block ! 2, block ! 3]);
          scales = take 12 (drop 4 block);
          quants = drop 16 block
      in concat (map (q4_k_group ar d dmin scales quants) [0..<4]))"

definition encode_scaled_q6 :: "Arith \<Rightarrow> f32 \<Rightarrow> u8 \<Rightarrow> int \<Rightarrow> bf16" where
  "encode_scaled_q6 ar delta scale quant =
     f32_to_bf16 (mul ar (mul ar delta (of_integer ar (sint scale))) (of_integer ar quant))"

definition q6_k_lane :: "Arith \<Rightarrow> f32 \<Rightarrow> bytes \<Rightarrow> bytes \<Rightarrow> bytes \<Rightarrow> nat \<Rightarrow> bf16 list \<Rightarrow> bf16 list" where
  "q6_k_lane ar d ql qh scales lane out =
     (let scale_index = lane div 16;
          q1 = uint ((ql ! lane AND 0x0F) OR push_bit 4 (qh ! lane AND 3)) - 32;
          q2 = uint ((ql ! (lane + 32) AND 0x0F) OR push_bit 4 (drop_bit 2 (qh ! lane) AND 3)) - 32;
          q3 = uint (drop_bit 4 (ql ! lane) OR push_bit 4 (drop_bit 4 (qh ! lane) AND 3)) - 32;
          q4 = uint (drop_bit 4 (ql ! (lane + 32)) OR push_bit 4 (drop_bit 6 (qh ! lane) AND 3)) - 32
      in out[lane := encode_scaled_q6 ar d (scales ! scale_index) q1,
             lane + 32 := encode_scaled_q6 ar d (scales ! (scale_index + 2)) q2,
             lane + 64 := encode_scaled_q6 ar d (scales ! (scale_index + 4)) q3,
             lane + 96 := encode_scaled_q6 ar d (scales ! (scale_index + 6)) q4])"

text \<open>The two halves of the output of a block are slices of 128 values.\<close>

definition q6_k_half :: "Arith \<Rightarrow> f32 \<Rightarrow> bytes \<Rightarrow> bytes \<Rightarrow> bytes \<Rightarrow> bf16 list \<Rightarrow> bf16 list" where
  "q6_k_half ar d ql qh scales out = fold (q6_k_lane ar d ql qh scales) [0..<32] out"

definition dequantize_q6_k_block :: "Arith \<Rightarrow> bytes \<Rightarrow> bf16 list \<Rightarrow> bf16 list" where
  "dequantize_q6_k_block ar block out =
     (let ql = take 128 block; qh = take 64 (drop 128 block); scales = take 16 (drop 192 block);
          d = f16_to_f32 (from_le_bytes [block ! 208, block ! 209])
      in concat (map (\<lambda>half.
           q6_k_half ar d (drop (half * 64) ql) (drop (half * 32) qh) (drop (half * 8) scales)
             (take 128 (drop (half * 128) out))) [0..<2]))"

definition dequantize_to_bf16 :: "Arith \<Rightarrow> u32 \<Rightarrow> bytes \<Rightarrow> nat \<Rightarrow> bf16 list result" where
  "dequantize_to_bf16 ar kind bs n =
     bind_result (quantized_byte_len kind n) (\<lambda>expected.
       if length bs \<noteq> expected then Err (Shape ''GGML K-quant tensor bytes'')
       else if kind = GGML_TYPE_Q4_K
       then Ok (concat (map (\<lambda>block. map f32_to_bf16 (dequantize_q4_k_block ar block)) (chunks_exact Q4_K_BLOCK_BYTES bs)))
       else Ok (concat (map (\<lambda>block. dequantize_q6_k_block ar block (replicate QK_K 0)) (chunks_exact Q6_K_BLOCK_BYTES bs))))"


text \<open>The value of element \<open>i\<close> of a block, as the format defines it.\<close>

definition q4_k_value :: "Arith \<Rightarrow> bytes \<Rightarrow> nat \<Rightarrow> f32" where
  "q4_k_value ar block i =
     (let d = f16_to_f32 (from_le_bytes [block ! 0, block ! 1]);
          dmin = f16_to_f32 (from_le_bytes [block ! 2, block ! 3]);
          (scale, minimum) = q4_k_scale_min (i div 32) (take 12 (drop 4 block));
          b = block ! (16 + i div 64 * 32 + i mod 32);
          q = (if i mod 64 < 32 then b AND 0x0F else drop_bit 4 b)
      in sub ar (mul ar (mul ar d (of_integer ar (uint scale))) (of_integer ar (uint q)))
           (mul ar dmin (of_integer ar (uint minimum))))"

definition q6_k_value :: "Arith \<Rightarrow> bytes \<Rightarrow> nat \<Rightarrow> bf16" where
  "q6_k_value ar block i =
     (let d = f16_to_f32 (from_le_bytes [block ! 208, block ! 209]);
          half = i div 128; seg = i mod 128 div 32; lane = i mod 32;
          b = block ! (half * 64 + seg mod 2 * 32 + lane);
          low = (if seg < 2 then b AND 0x0F else drop_bit 4 b);
          high = drop_bit (2 * seg) (block ! (128 + half * 32 + lane)) AND 3;
          scale = block ! (192 + half * 8 + (lane div 16 + 2 * seg))
      in encode_scaled_q6 ar d scale (uint (low OR push_bit 4 high) - 32))"

lemma q4_k_group_nth:
  assumes "l < 64" "length quants = 128" "g < 4"
  shows "length (q4_k_group ar d dmin scales quants g) = 64"
    "q4_k_group ar d dmin scales quants g ! l =
      (let (scale, minimum) = q4_k_scale_min (g * 2 + l div 32) scales; b = quants ! (g * 32 + l mod 32);
           q = (if l < 32 then b AND 0x0F else drop_bit 4 b)
       in sub ar (mul ar (mul ar d (of_integer ar (uint scale))) (of_integer ar (uint q)))
            (mul ar dmin (of_integer ar (uint minimum))))"
proof -
  have len: "length (take 32 (drop (g * 32) quants)) = 32" using assms by simp
  show "length (q4_k_group ar d dmin scales quants g) = 64"
    using len by (simp add: q4_k_group_def Let_def split: prod.splits)
  show "q4_k_group ar d dmin scales quants g ! l =
      (let (scale, minimum) = q4_k_scale_min (g * 2 + l div 32) scales; b = quants ! (g * 32 + l mod 32);
           q = (if l < 32 then b AND 0x0F else drop_bit 4 b)
       in sub ar (mul ar (mul ar d (of_integer ar (uint scale))) (of_integer ar (uint q)))
            (mul ar dmin (of_integer ar (uint minimum))))"
  proof (cases "l < 32")
    case True
    then show ?thesis using assms len by (simp add: q4_k_group_def Let_def nth_append split: prod.splits)
  next
    case False
    define m where "m = l - 32"
    have "l = 32 + m" "m < 32" using False assms(1) by (simp_all add: m_def)
    then show ?thesis using assms len by (simp add: q4_k_group_def Let_def nth_append split: prod.splits)
  qed
qed

lemma dequantize_q4_k_block_nth:
  assumes "length block = 144"
  shows "length (dequantize_q4_k_block ar block) = 256"
    "i < 256 \<Longrightarrow> dequantize_q4_k_block ar block ! i = q4_k_value ar block i"
proof -
  let ?d = "f16_to_f32 (from_le_bytes [block ! 0, block ! 1])"
  let ?m = "f16_to_f32 (from_le_bytes [block ! 2, block ! 3])"
  let ?f = "q4_k_group ar ?d ?m (take 12 (drop 4 block)) (drop 16 block)"
  have len: "length (?f g) = 64" if "g < 4" for g by (rule q4_k_group_nth(1) [of 0]) (use assms that in simp_all)
  have eq: "dequantize_q4_k_block ar block = concat (map ?f [0..<4])" by (simp add: dequantize_q4_k_block_def Let_def)
  show "length (dequantize_q4_k_block ar block) = 256" unfolding eq using concat_map_upt(1) [of 4 ?f 64, OF len] by simp
  assume i: "i < 256"
  then have g: "i div 64 < 4" by simp
  have "dequantize_q4_k_block ar block ! i = ?f (i div 64) ! (i mod 64)"
    unfolding eq using concat_map_upt(2) [of 4 ?f 64 i, OF len] i by simp
  moreover have "i div 64 * 2 + i mod 64 div 32 = i div 32" "i mod 64 mod 32 = i mod 32"
    using mod_mult2_eq [of i 32 2] div_mult2_eq [of i 32 2] mod_mod_cancel [of 32 64 i] by simp_all
  ultimately show "dequantize_q4_k_block ar block ! i = q4_k_value ar block i"
    using q4_k_group_nth(2) [of "i mod 64" "drop 16 block" "i div 64"] assms g
    by (simp add: q4_k_value_def Let_def add.assoc split: prod.splits)
qed


lemma q6_k_lanes:
  assumes "m \<le> 32" "length out = 128" "seg < 4" "l < 32"
    and f: "\<And>lane xs. q6_k_lane ar d ql qh scales lane xs =
      xs[lane := f 0 lane, lane + 32 := f 1 lane, lane + 64 := f 2 lane, lane + 96 := f 3 lane]"
  shows "length (fold (q6_k_lane ar d ql qh scales) [0..<m] out) = 128"
    "fold (q6_k_lane ar d ql qh scales) [0..<m] out ! (seg * 32 + l) =
      (if l < m then f seg l else out ! (seg * 32 + l))"
proof -
  have "length (fold (q6_k_lane ar d ql qh scales) [0..<m] out) = 128 \<and>
    fold (q6_k_lane ar d ql qh scales) [0..<m] out ! (seg * 32 + l) = (if l < m then f seg l else out ! (seg * 32 + l))"
    using assms(1)
  proof (induction m)
    case (Suc m)
    have seg: "seg = 0 \<or> seg = 1 \<or> seg = 2 \<or> seg = 3" using assms(3) by auto
    show ?case using Suc assms(4) seg by (auto simp: f nth_list_update)
  qed (simp add: assms(2))
  then show "length (fold (q6_k_lane ar d ql qh scales) [0..<m] out) = 128"
    "fold (q6_k_lane ar d ql qh scales) [0..<m] out ! (seg * 32 + l) = (if l < m then f seg l else out ! (seg * 32 + l))"
    by simp_all
qed

definition q6_k_cell :: "Arith \<Rightarrow> f32 \<Rightarrow> bytes \<Rightarrow> bytes \<Rightarrow> bytes \<Rightarrow> nat \<Rightarrow> nat \<Rightarrow> bf16" where
  "q6_k_cell ar d ql qh scales seg lane =
     (let b = ql ! (lane + seg mod 2 * 32); low = (if seg < 2 then b AND 0x0F else drop_bit 4 b);
          high = drop_bit (2 * seg) (qh ! lane) AND 3
      in encode_scaled_q6 ar d (scales ! (lane div 16 + 2 * seg)) (uint (low OR push_bit 4 high) - 32))"

lemma q6_k_lane_cells:
  "q6_k_lane ar d ql qh scales lane xs =
     xs[lane := q6_k_cell ar d ql qh scales 0 lane, lane + 32 := q6_k_cell ar d ql qh scales 1 lane,
        lane + 64 := q6_k_cell ar d ql qh scales 2 lane, lane + 96 := q6_k_cell ar d ql qh scales 3 lane]"
  by (simp add: q6_k_lane_def q6_k_cell_def Let_def)

lemma q6_k_half_nth:
  assumes "length out = 128" "seg < 4" "l < 32"
  shows "length (q6_k_half ar d ql qh scales out) = 128"
    "q6_k_half ar d ql qh scales out ! (seg * 32 + l) = q6_k_cell ar d ql qh scales seg l"
  unfolding q6_k_half_def
  using q6_k_lanes [where m = 32 and f = "q6_k_cell ar d ql qh scales", OF order_refl assms q6_k_lane_cells] assms(3)
  by (simp_all only: if_True)

lemma dequantize_q6_k_block_nth:
  assumes "length block = 210" "length out = 256"
  shows "length (dequantize_q6_k_block ar block out) = 256"
    "i < 256 \<Longrightarrow> dequantize_q6_k_block ar block out ! i = q6_k_value ar block i"
proof -
  let ?d = "f16_to_f32 (from_le_bytes [block ! 208, block ! 209])"
  let ?ql = "\<lambda>half. drop (half * 64) (take 128 block)" and ?qh = "\<lambda>half. drop (half * 32) (take 64 (drop 128 block))"
  let ?sc = "\<lambda>half. drop (half * 8) (take 16 (drop 192 block))"
  define h where "h half = q6_k_half ar ?d (?ql half) (?qh half) (?sc half) (take 128 (drop (half * 128) out))" for half
  have out: "length (take 128 (drop (half * 128) out)) = 128" if "half < 2" for half using that assms(2) by simp
  have lanes: "length (h half) = 128" "h half ! (seg * 32 + l) = q6_k_cell ar ?d (?ql half) (?qh half) (?sc half) seg l"
    if "half < 2" "seg < 4" "l < 32" for half seg l
    unfolding h_def by (rule q6_k_half_nth [OF out [OF that(1)] that(2,3)])+
  have len: "length (h half) = 128" if "half < 2" for half using lanes(1) [OF that, of 0 0] by simp
  have eq: "dequantize_q6_k_block ar block out = concat (map h [0..<2])"
    by (simp add: dequantize_q6_k_block_def Let_def h_def [abs_def])
  show "length (dequantize_q6_k_block ar block out) = 256" unfolding eq using concat_map_upt(1) [of 2 h 128] len by simp
  assume i: "i < 256"
  then have g: "i div 128 < 2" by simp
  have "dequantize_q6_k_block ar block out ! i = h (i div 128) ! (i mod 128)"
    unfolding eq using concat_map_upt(2) [of 2 h 128 i] len i by simp
  moreover have "i mod 128 = i mod 128 div 32 * 32 + i mod 32"
    using div_mult_mod_eq [of "i mod 128" 32] mod_mod_cancel [of 32 128 i] by simp
  moreover have seg: "i mod 128 div 32 < 4" "i mod 32 < 32" by (simp_all add: less_mult_imp_div_less)
  ultimately have "dequantize_q6_k_block ar block out ! i =
      q6_k_cell ar ?d (?ql (i div 128)) (?qh (i div 128)) (?sc (i div 128)) (i mod 128 div 32) (i mod 32)"
    using lanes(2) [OF g seg] by (simp only:)
  moreover have small: "i mod 32 div 16 < 2" "i mod 128 div 32 mod 2 < 2" by (simp_all add: less_mult_imp_div_less)
  have "i mod 32 + (64 * (i div 128) + 32 * (i mod 128 div 32 mod 2)) < 128" using g seg small by linarith
  then have "?ql (i div 128) ! (i mod 32 + i mod 128 div 32 mod 2 * 32) =
      block ! (i div 128 * 64 + i mod 128 div 32 mod 2 * 32 + i mod 32)"
    using assms(1) by (simp add: ac_simps)
  moreover have "i div 128 * 32 + i mod 32 < 64" "i div 128 * 8 + (i mod 32 div 16 + 2 * (i mod 128 div 32)) < 16"
    using g seg small by linarith+
  then have "?qh (i div 128) ! (i mod 32) = block ! (128 + i div 128 * 32 + i mod 32)"
    "?sc (i div 128) ! (i mod 32 div 16 + 2 * (i mod 128 div 32)) =
      block ! (192 + i div 128 * 8 + (i mod 32 div 16 + 2 * (i mod 128 div 32)))"
    using assms(1) by (simp_all add: add.assoc)
  ultimately show "dequantize_q6_k_block ar block out ! i = q6_k_value ar block i"
    unfolding q6_k_value_def q6_k_cell_def Let_def by (simp only:)
qed


lemma chunks_concat:
  assumes "\<And>b. length b = n \<Longrightarrow> length (f b) = m" "length bs = k * n" "0 < n"
  shows "length (concat (map f (chunks_exact n bs))) = k * m"
    "i < k * m \<Longrightarrow> concat (map f (chunks_exact n bs)) ! i = f (take n (drop (i div m * n) bs)) ! (i mod m)"
proof -
  have k: "length bs div n = k" using assms(2,3) by simp
  let ?g = "\<lambda>j. f (take n (drop (j * n) bs))"
  have eq: "map f (chunks_exact n bs) = map ?g [0..<k]" by (simp add: chunks_exact_def k)
  have "length (?g j) = m" if "j < k" for j
    using assms(1) [of "take n (drop (j * n) bs)"] chunk_bound [of j bs n] that k by simp
  from concat_map_upt [of k ?g m, OF this]
  show "length (concat (map f (chunks_exact n bs))) = k * m"
    "i < k * m \<Longrightarrow> concat (map f (chunks_exact n bs)) ! i = f (take n (drop (i div m * n) bs)) ! (i mod m)"
    unfolding eq by simp_all
qed

text \<open>Decoding block by block is decoding element by element.\<close>

lemma chunks_concat_values:
  assumes f: "\<And>b. length b = nb \<Longrightarrow> length (f b) = m \<and> (\<forall>j < m. f b ! j = g b j)"
    and "length bs = n div m * nb" "m dvd n" "0 < nb" "0 < m"
  shows "concat (map f (chunks_exact nb bs)) = map (\<lambda>i. g (take nb (drop (i div m * nb) bs)) (i mod m)) [0..<n]"
proof -
  have n: "n div m * m = n" using assms(3) by simp
  note c = chunks_concat [of nb f m bs "n div m", OF _ assms(2,4)]
  show ?thesis
  proof (rule nth_equalityI)
    show len: "length (concat (map f (chunks_exact nb bs))) =
        length (map (\<lambda>i. g (take nb (drop (i div m * nb) bs)) (i mod m)) [0..<n])"
      using c(1) f n by simp
    fix i assume "i < length (concat (map f (chunks_exact nb bs)))"
    then have i: "i < n" using len by simp
    then have "i div m < n div m" using n by (metis less_mult_imp_div_less)
    then have "length (take nb (drop (i div m * nb) bs)) = nb"
      using chunk_bound [of "i div m" bs nb] assms(2,4) by simp
    then show "concat (map f (chunks_exact nb bs)) ! i =
        map (\<lambda>i. g (take nb (drop (i div m * nb) bs)) (i mod m)) [0..<n] ! i"
      using c(2) [of i] f i n assms(5) by simp
  qed
qed

lemmas k_quant_defs = GGML_TYPE_Q4_K_def GGML_TYPE_Q6_K_def QK_K_def Q4_K_BLOCK_BYTES_def Q6_K_BLOCK_BYTES_def

definition k_quant_value :: "Arith \<Rightarrow> u32 \<Rightarrow> bytes \<Rightarrow> nat \<Rightarrow> bf16" where
  "k_quant_value ar kind bs i =
     (if kind = GGML_TYPE_Q4_K
      then f32_to_bf16 (q4_k_value ar (take 144 (drop (i div 256 * 144) bs)) (i mod 256))
      else q6_k_value ar (take 210 (drop (i div 256 * 210) bs)) (i mod 256))"

text \<open>The tensors that decode: a supported type, whole blocks, and the bytes of that many blocks.\<close>

definition k_quant_shape :: "u32 \<Rightarrow> bytes \<Rightarrow> nat \<Rightarrow> bool" where
  "k_quant_shape kind bs n \<longleftrightarrow>
     256 dvd n \<and> kind \<in> {GGML_TYPE_Q4_K, GGML_TYPE_Q6_K} \<and>
     length bs = n div 256 * (if kind = GGML_TYPE_Q4_K then 144 else 210)"



text \<open>The packing of eight six-bit scales and minima into twelve bytes, as the writers of the format do it.\<close>

definition pack_q4_k_scales :: "(nat \<Rightarrow> u8) \<Rightarrow> (nat \<Rightarrow> u8) \<Rightarrow> bytes" where
  "pack_q4_k_scales scale minimum =
     map (\<lambda>j. scale j OR push_bit 6 (drop_bit 4 (scale (j + 4)))) [0..<4] @
     map (\<lambda>j. minimum j OR push_bit 6 (drop_bit 4 (minimum (j + 4)))) [0..<4] @
     map (\<lambda>j. (scale (j + 4) AND 15) OR push_bit 4 (minimum (j + 4) AND 15)) [0..<4]"

lemma pack_nth:
  assumes "j < 4"
  shows "pack_q4_k_scales s m ! j = s j OR push_bit 6 (drop_bit 4 (s (j + 4)))"
    "pack_q4_k_scales s m ! (j + 4) = m j OR push_bit 6 (drop_bit 4 (m (j + 4)))"
    "pack_q4_k_scales s m ! (j + 8) = (s (j + 4) AND 15) OR push_bit 4 (m (j + 4) AND 15)"
  using assms by (simp_all add: pack_q4_k_scales_def nth_append)

lemma bit_u8_less:
  assumes "(w :: u8) < 64" "bit w k"
  shows "k < 6"
proof -
  have "unat w < 2 ^ 6" using assms(1) by (simp add: word_less_nat_alt)
  moreover have "bit (unat w) k" using assms(2) by (simp add: bit_unsigned_iff)
  ultimately show ?thesis by (rule bit_nat_less)
qed

lemma six_bits:
  fixes a b :: u8
  assumes "a < 64" "b < 64"
  shows "(a OR push_bit 6 (drop_bit 4 b)) AND 63 = a" "drop_bit 6 (a OR push_bit 6 (drop_bit 4 b)) = drop_bit 4 b"
proof -
  have m: "(63 :: u8) = mask 6" by (simp add: mask_eq_exp_minus_1)
  note lt = bit_u8_less [OF assms(1)] bit_u8_less [OF assms(2)]
  show "(a OR push_bit 6 (drop_bit 4 b)) AND 63 = a"
    unfolding m using lt by (intro bit_word_eqI) (auto simp: bit_simps)
  show "drop_bit 6 (a OR push_bit 6 (drop_bit 4 b)) = drop_bit 4 b"
    using lt by (intro bit_word_eqI) (auto simp: bit_simps dest: lt bit_imp_le_length)
qed

lemma nibble_and_rest:
  fixes a b :: u8
  shows "(((a AND 15) OR push_bit 4 (b AND 15)) AND 15) OR push_bit 4 (drop_bit 4 a) = a"
    "drop_bit 4 ((a AND 15) OR push_bit 4 (b AND 15)) OR push_bit 4 (drop_bit 4 b) = b"
proof -
  have "(c AND 15) OR push_bit 4 (drop_bit 4 c) = c" for c :: u8
  proof (rule bit_word_eqI)
    have m: "(15 :: u8) = mask 4" by (simp add: mask_eq_exp_minus_1)
    fix n assume "n < LENGTH(8)"
    then show "bit ((c AND 15) OR push_bit 4 (drop_bit 4 c)) n = bit c n"
      unfolding m by (cases "4 \<le> n") (auto simp: bit_simps)
  qed
  then show "(((a AND 15) OR push_bit 4 (b AND 15)) AND 15) OR push_bit 4 (drop_bit 4 a) = a"
    "drop_bit 4 ((a AND 15) OR push_bit 4 (b AND 15)) OR push_bit 4 (drop_bit 4 b) = b"
    by (simp_all only: nibble_words)
qed

text \<open>the six-bit scales and minima of a Q4_K block are read back as they were packed, for all eight
  groups: the first four from the low bits of a byte, the last four from a nibble and the two high bits
  of an earlier byte.\<close>

theorem q4_k_scales_roundtrip:
  assumes "\<forall>j < 8. scale j < 64 \<and> minimum j < 64" "j < 8"
  shows "q4_k_scale_min j (pack_q4_k_scales scale minimum) = (scale j, minimum j)"
proof (cases "j < 4")
  case True
  then have small: "scale j < 64" "minimum j < 64" "scale (j + 4) < 64" "minimum (j + 4) < 64" using assms(1) by simp_all
  show ?thesis
    unfolding q4_k_scale_min_def using True by (simp only: if_True pack_nth [OF True] six_bits(1) small)
next
  case False
  define k where "k = j - 4"
  have k: "j = k + 4" "k < 4" using False assms(2) by (simp_all add: k_def)
  have small: "scale k < 64" "scale (k + 4) < 64" "minimum k < 64" "minimum (k + 4) < 64" using assms(1) k(2) by simp_all
  have "k + 4 + 4 = k + 8" "k + 4 - 4 = k" "\<not> k + 4 < 4" by simp_all
  then show ?thesis
    unfolding q4_k_scale_min_def k(1)
    by (simp only: if_False pack_nth [OF k(2)] six_bits(2) nibble_and_rest small)
qed


section \<open>Block records\<close>

datatype GgmlBlockFormat = Q8 | Iq2Xxs

fun block_elements :: "GgmlBlockFormat \<Rightarrow> nat" where
  "block_elements Q8 = 32"
| "block_elements Iq2Xxs = 256"

fun block_bytes :: "GgmlBlockFormat \<Rightarrow> nat" where
  "block_bytes Q8 = 34"
| "block_bytes Iq2Xxs = 66"

definition from_shape :: "nat list \<Rightarrow> GgmlBlockFormat option" where
  "from_shape shape =
     (case shape of
        [_, _, n] \<Rightarrow> if n = 34 then Some Q8 else if n = 66 then Some Iq2Xxs else None
      | _ \<Rightarrow> None)"

definition block_scale :: "bytes \<Rightarrow> f16" where
  "block_scale block = from_le_bytes [block ! 0, block ! 1]"

definition validate :: "GgmlBlockFormat \<Rightarrow> bytes \<Rightarrow> nat \<Rightarrow> nat \<Rightarrow> unit result" where
  "validate fmt bs rows cols =
     (if rows = 0 \<or> cols = 0 \<or> \<not> block_elements fmt dvd cols \<or>
         Option.bind (checked_mul rows (cols div block_elements fmt)) (\<lambda>n. checked_mul n (block_bytes fmt)) \<noteq> Some (length bs)
      then Err (Format ''GGML packed matrix'')
      else if \<exists>block \<in> set (chunks_exact (block_bytes fmt) bs). block_scale block AND 0x7C00 = 0x7C00
      then Err (Format ''GGML block scale'')
      else Ok ())"

definition count_ones :: "u32 \<Rightarrow> nat" where
  "count_ones w = length (filter (bit w) [0..<32])"

text \<open>The grid is the data file \<open>iq2xxs_grid.bin\<close>: 2048 bytes, eight for each index.\<close>

definition iq2_signs :: "u32 \<Rightarrow> nat \<Rightarrow> u32" where
  "iq2_signs signs_scale part =
     (let signs = drop_bit (7 * part) signs_scale AND 127
      in signs OR push_bit 7 (of_nat (count_ones signs) AND 1))"

definition iq2_part :: "Arith \<Rightarrow> bytes \<Rightarrow> f32 \<Rightarrow> u32 \<Rightarrow> bytes \<Rightarrow> nat \<Rightarrow> f32 list" where
  "iq2_part ar grid scale signs_scale grp part =
     (let index = unat (grp ! part); signs = iq2_signs signs_scale part
      in map (\<lambda>lane. mul ar (mul ar scale (of_integer ar (uint (grid ! (index * 8 + lane)))))
           (if signs AND push_bit lane 1 = 0 then 0x3F800000 else 0xBF800000)) [0..<8])"

definition iq2_group :: "Arith \<Rightarrow> bytes \<Rightarrow> f32 \<Rightarrow> bytes \<Rightarrow> f32 list" where
  "iq2_group ar grid d grp =
     (let signs_scale = from_le_bytes (take 4 (drop 4 grp)) :: u32;
          scale = mul ar (mul ar d (add ar 0x3F000000 (of_integer ar (uint (drop_bit 28 signs_scale))))) 0x3E800000
      in concat (map (iq2_part ar grid scale signs_scale grp) [0..<4]))"

definition dequantize_block :: "Arith \<Rightarrow> bytes \<Rightarrow> GgmlBlockFormat \<Rightarrow> bytes \<Rightarrow> f32 list" where
  "dequantize_block ar grid fmt block =
     (let d = f16_to_f32 (block_scale block)
      in case fmt of
           Q8 \<Rightarrow> map (\<lambda>q. mul ar d (of_integer ar (sint q))) (drop 2 block)
         | Iq2Xxs \<Rightarrow> concat (map (iq2_group ar grid d) (chunks_exact 8 (drop 2 block))))"

definition dequantize :: "Arith \<Rightarrow> bytes \<Rightarrow> GgmlBlockFormat \<Rightarrow> bytes \<Rightarrow> nat \<Rightarrow> nat \<Rightarrow> f32 list result" where
  "dequantize ar grid fmt bs rows cols =
     bind_result (validate fmt bs rows cols) (\<lambda>_.
       Ok (concat (map (dequantize_block ar grid fmt) (chunks_exact (block_bytes fmt) bs))))"

text \<open>The value of element \<open>i\<close> of a block.\<close>

definition block_value :: "Arith \<Rightarrow> bytes \<Rightarrow> GgmlBlockFormat \<Rightarrow> bytes \<Rightarrow> nat \<Rightarrow> f32" where
  "block_value ar grid fmt block i =
     (let d = f16_to_f32 (block_scale block)
      in case fmt of
           Q8 \<Rightarrow> mul ar d (of_integer ar (sint (block ! (2 + i))))
         | Iq2Xxs \<Rightarrow>
             (let at = 2 + i div 32 * 8; w = from_le_bytes (map (\<lambda>k. block ! (at + 4 + k)) [0..<4]) :: u32;
                  scale = mul ar (mul ar d (add ar 0x3F000000 (of_integer ar (uint (drop_bit 28 w))))) 0x3E800000;
                  part = i mod 32 div 8
              in mul ar (mul ar scale (of_integer ar (uint (grid ! (unat (block ! (at + part)) * 8 + i mod 8)))))
                   (if bit (iq2_signs w part) (i mod 8) then 0xBF800000 else 0x3F800000)))"

lemma iq2_group_nth:
  shows "length (iq2_group ar grid d grp) = 32"
    "i < 32 \<Longrightarrow> iq2_group ar grid d grp ! i =
      (let w = from_le_bytes (take 4 (drop 4 grp)) :: u32;
           scale = mul ar (mul ar d (add ar 0x3F000000 (of_integer ar (uint (drop_bit 28 w))))) 0x3E800000
       in iq2_part ar grid scale w grp (i div 8) ! (i mod 8))"
proof -
  have len: "length (iq2_part ar grid scale w grp k) = 8" for scale w k by (simp add: iq2_part_def Let_def)
  show "length (iq2_group ar grid d grp) = 32"
    unfolding iq2_group_def Let_def using concat_map_upt(1) [where m = 4 and n = 8, OF len] by simp
  assume "i < 32"
  then show "iq2_group ar grid d grp ! i =
      (let w = from_le_bytes (take 4 (drop 4 grp)) :: u32;
           scale = mul ar (mul ar d (add ar 0x3F000000 (of_integer ar (uint (drop_bit 28 w))))) 0x3E800000
       in iq2_part ar grid scale w grp (i div 8) ! (i mod 8))"
    unfolding iq2_group_def Let_def using concat_map_upt(2) [where m = 4 and n = 8 and i = i, OF len] by simp
qed


lemma iq2_block_nth:
  assumes "length block = 66" "i < 256"
  shows "(let grp = take 8 (drop (i div 32 * 8) (drop 2 block)) in iq2_group ar grid (f16_to_f32 (block_scale block)) grp ! (i mod 32)) =
    block_value ar grid Iq2Xxs block i"
proof -
  let ?g = "take 8 (drop (i div 32 * 8) (drop 2 block))" and ?at = "2 + i div 32 * 8"
  have i: "i div 32 < 8" "i mod 32 div 8 < 4" using assms(2) by (simp_all add: less_mult_imp_div_less)
  then have "i div 32 * 8 + 8 \<le> 64" by linarith
  then have g: "?g ! j = block ! (?at + j)" if "j < 8" for j using that assms(1) by (simp add: add.assoc)
  have "take 4 (drop 4 ?g) = map (\<lambda>k. block ! (?at + 4 + k)) [0..<4]"
    using \<open>i div 32 * 8 + 8 \<le> 64\<close> assms(1) by (intro nth_equalityI) (simp_all add: add.assoc add.left_commute)
  moreover have "i mod 32 mod 8 = i mod 8" using mod_mod_cancel [of 8 32 i] by simp
  moreover have "[0..<8] ! (i mod 8) = i mod 8" using nth_upt [of 0 "i mod 8" 8] by simp
  moreover have "?g ! (i mod 32 div 8) = block ! (?at + i mod 32 div 8)" using g i(2) by simp
  moreover have "s AND push_bit l 1 = 0 \<longleftrightarrow> \<not> bit s l" for s :: u32 and l
    by (simp add: push_bit_eq_mult and_exp_eq_0_iff_not_bit)
  ultimately show ?thesis
    using iq2_group_nth(2) [of "i mod 32" ar grid "f16_to_f32 (block_scale block)" ?g]
    by (simp add: block_value_def iq2_part_def Let_def)
qed

lemma dequantize_block_nth:
  assumes "length block = block_bytes fmt"
  shows "length (dequantize_block ar grid fmt block) = block_elements fmt \<and>
    (\<forall>i < block_elements fmt. dequantize_block ar grid fmt block ! i = block_value ar grid fmt block i)"
proof (cases fmt)
  case Q8
  then show ?thesis using assms by (simp add: dequantize_block_def block_value_def Let_def)
next
  case Iq2Xxs
  let ?d = "f16_to_f32 (block_scale block)"
  have f: "length b = 8 \<Longrightarrow> length (iq2_group ar grid ?d b) = 32 \<and>
      (\<forall>j < 32. iq2_group ar grid ?d b ! j = iq2_group ar grid ?d b ! j)" for b
    using iq2_group_nth(1) by simp
  have "dequantize_block ar grid fmt block =
      map (\<lambda>i. iq2_group ar grid ?d (take 8 (drop (i div 32 * 8) (drop 2 block))) ! (i mod 32)) [0..<256]"
    using chunks_concat_values [where bs = "drop 2 block" and n = 256, OF f] Iq2Xxs assms
    by (simp add: dequantize_block_def Let_def)
  then show ?thesis using iq2_block_nth [of block _ ar grid] Iq2Xxs assms by (simp add: Let_def)
qed

definition ggml_shape :: "GgmlBlockFormat \<Rightarrow> bytes \<Rightarrow> nat \<Rightarrow> nat \<Rightarrow> bool" where
  "ggml_shape fmt bs rows cols \<longleftrightarrow>
     rows \<noteq> 0 \<and> cols \<noteq> 0 \<and> block_elements fmt dvd cols \<and>
     length bs = rows * (cols div block_elements fmt) * block_bytes fmt \<and>
     (\<forall>k < rows * (cols div block_elements fmt). f16_exponent (block_scale (drop (k * block_bytes fmt) bs)) \<noteq> 31)"

lemma nonfinite_exponent: "h AND 0x7C00 = 0x7C00 \<longleftrightarrow> f16_exponent h = 31"
proof -
  have m: "(0x7C00 :: u16) = push_bit 10 (mask 5)" "(0x1F :: u16) = mask 5" by (simp_all add: mask_eq_exp_minus_1)
  have p: "h AND 0x7C00 = push_bit 10 (drop_bit 10 h AND 0x1F)"
  proof (rule bit_word_eqI)
    fix n show "bit (h AND 0x7C00) n = bit (push_bit 10 (drop_bit 10 h AND 0x1F)) n"
      unfolding m by (cases "10 \<le> n") (auto simp: bit_simps)
  qed
  have d: "drop_bit 10 (h AND 0x7C00) = drop_bit 10 h AND 0x1F" by simp
  have "h AND 0x7C00 = 0x7C00 \<longleftrightarrow> drop_bit 10 h AND 0x1F = 0x1F"
  proof
    assume "h AND 0x7C00 = 0x7C00"
    then have "drop_bit 10 (h AND 0x7C00) = drop_bit 10 0x7C00" by (rule arg_cong)
    then show "drop_bit 10 h AND 0x1F = 0x1F" unfolding d by simp
  next
    assume "drop_bit 10 h AND 0x1F = 0x1F"
    then show "h AND 0x7C00 = 0x7C00" unfolding p by simp
  qed
  then show ?thesis by (simp add: f16_exponent_def word_unat_eq_iff [of _ "0x1F"])
qed


lemma block_sizes: "0 < block_elements fmt" "2 \<le> block_bytes fmt"
  by (cases fmt; simp)+

lemma validate_iff:
  assumes "length bs \<le> usize_max"
  shows "validate fmt bs rows cols = Ok () \<longleftrightarrow> ggml_shape fmt bs rows cols"
proof -
  let ?nb = "block_bytes fmt" and ?n = "rows * (cols div block_elements fmt)"
  have "Option.bind (checked_mul rows (cols div block_elements fmt)) (\<lambda>n. checked_mul n ?nb) = Some (length bs) \<longleftrightarrow>
      length bs = ?n * ?nb"
  proof
    assume eq: "length bs = ?n * ?nb"
    then have "?n \<le> length bs" using block_sizes(2) [of fmt] by simp
    then have "?n \<le> usize_max" using assms by (rule order_trans)
    then show "Option.bind (checked_mul rows (cols div block_elements fmt)) (\<lambda>n. checked_mul n ?nb) = Some (length bs)"
      using eq assms by (simp add: checked_mul_def)
  qed (auto simp: bind_eq_Some_conv usize_simps)
  moreover have "(\<exists>block \<in> set (chunks_exact ?nb bs). block_scale block AND 0x7C00 = 0x7C00) \<longleftrightarrow>
      (\<exists>k < ?n. f16_exponent (block_scale (drop (k * ?nb) bs)) = 31)" if len: "length bs = ?n * ?nb"
  proof -
    have "length bs div ?nb = ?n" using len block_sizes(2) [of fmt] by simp
    moreover have "block_scale (take ?nb xs) = block_scale xs" for xs using block_sizes(2) [of fmt] by (simp add: block_scale_def)
    ultimately show ?thesis by (auto simp: chunks_exact_def nonfinite_exponent)
  qed
  ultimately show ?thesis by (auto simp: validate_def ggml_shape_def)
qed


text \<open>The eighth sign of an IQ2 group is the parity of the other seven, so that an even number of its
  eight elements is negated.\<close>

lemma iq2_sign_parity: "even (length (filter (bit (iq2_signs w part)) [0..<8]))"
proof -
  define s where "s = drop_bit (7 * part) w AND 127"
  have m: "(127 :: u32) = mask 7" by (simp add: mask_eq_exp_minus_1)
  have high: "\<not> bit s k" if "7 \<le> k" for k unfolding s_def m using that by (simp add: bit_and_iff bit_mask_iff)
  let ?c = "length (filter (bit s) [0..<7])"
  have "[0..<32] = [0..<7] @ [7..<32]" using upt_add_eq_append [of 0 7 25] by simp
  then have "filter (bit s) [0..<32] = filter (bit s) [0..<7] @ filter (bit s) [7..<32]" by (simp only: filter_append)
  moreover have "filter (bit s) [7..<32] = []" unfolding filter_empty_conv using high by auto
  ultimately have c: "count_ones s = ?c" by (simp only: count_ones_def append_Nil2)
  have one: "bit (of_nat n AND 1 :: u32) k \<longleftrightarrow> k = 0 \<and> odd n" for n k
    unfolding bit_and_iff bit_1_iff bit_of_nat_u32 by (auto simp: bit_0)
  have bits: "bit (iq2_signs w part) k \<longleftrightarrow> (if k = 7 then odd ?c else bit s k)" for k
    using high [of 7] unfolding iq2_signs_def Let_def s_def [symmetric] bit_or_iff bit_push_bit_iff one c by auto
  have "filter (bit (iq2_signs w part)) [0..<7] = filter (bit s) [0..<7]"
    by (rule filter_cong) (auto simp: bits)
  moreover have "[0..<8] = [0..<7] @ [7]" using upt_Suc_append [of 0 7] by simp
  ultimately have "length (filter (bit (iq2_signs w part)) [0..<8]) = ?c + (if odd ?c then 1 else 0)"
    by (simp only: filter_append filter.simps bits length_append) simp
  then show ?thesis by (simp only:) simp
qed

section \<open>Examples\<close>

definition demo_arith :: Arith where
  "demo_arith = \<lparr>mul = (\<lambda>a b. a), sub = (\<lambda>a b. a), add = (\<lambda>a b. a), of_integer = of_int\<rparr>"

theorem f32_to_bf16_nearest_even_witness:
  "f32_exponent 0x3F818000 < 255 \<and> f32_to_bf16 0x3F818000 = 0x3F82 \<and>
   \<bar>f32_units 0x3F818000 - f32_units (bf16_to_f32 (f32_to_bf16 0x3F818000))\<bar>
     \<le> \<bar>f32_units 0x3F818000 - f32_units (bf16_to_f32 0x3F81)\<bar>"
proof -
  have "f32_exponent 0x3F818000 < 255" by (simp add: f32_exponent_def)
  then show ?thesis using f32_to_bf16_nearest_even [of "0x3F818000"] by (simp add: f32_to_bf16_def)
qed

theorem f32_to_bf16_loses_nan_witness:
  "f16_to_f32 0x7FFF = 0x7FFFE000 \<and> f32_units (bf16_to_f32 (f32_to_bf16 0x7FFFE000)) = 0"
  using f32_to_bf16_loses_nan [of "0x7FFFE000"] by (simp add: f16_to_f32_def f32_exponent_def f32_fraction_def)


theorem q4_k_scales_roundtrip_witness:
  "q4_k_scale_min 6 (pack_q4_k_scales (\<lambda>j. of_nat (50 + j)) (\<lambda>j. of_nat (10 + j))) = (56, 16)"
proof -
  have "of_nat (50 + j) < (64 :: u8) \<and> of_nat (10 + j) < (64 :: u8)" if "j < 8" for j :: nat
    using that by (simp add: word_less_nat_alt unat_of_nat del: of_nat_add)
  then show ?thesis
    using q4_k_scales_roundtrip [of "\<lambda>j. of_nat (50 + j)" "\<lambda>j. of_nat (10 + j)" 6] by simp
qed


end
