(* ===== verification/Nvfp4_Artifact.thy ===== *)
theory Nvfp4_Artifact
  imports Nvfp4
begin

text \<open>
  The disk artifact of a prepared NVFP4 linear, \<open>crates/eider-format/src/nvfp4_artifact.rs\<close>.

  The file system maps paths to bytes. A path is its stem and its extension, as \<open>Path::with_extension\<close> sees
  it. Writing is a sequence of system calls of which any may fail; \<open>io i\<close> is what happens to the \<open>i\<close>-th one:
  \<open>None\<close> when it succeeds, \<open>Some k\<close> when it fails after \<open>k\<close> bytes have reached the file. The rename replaces
  its target in one step, as the operating system promises.
\<close>

record FilePath =
  stem :: bytes
  extension :: "bytes option"

type_synonym FileSystem = "FilePath \<Rightarrow> bytes option"

record Nvfp4Artifact =
  art_prefix :: bytes
  art_out_features :: nat
  art_in_features :: nat
  art_packed_weight :: bytes
  art_weight_scale :: bytes
  art_weight_scale_2 :: f32
  art_input_scale :: f32

definition ARTIFACT_MAGIC :: bytes where "ARTIFACT_MAGIC = ascii ''EIDNVF4'' @ [0]"
definition ARTIFACT_VERSION :: u32 where "ARTIFACT_VERSION = 1"
definition HEADER_BYTES :: u64 where "HEADER_BYTES = 60"

definition artifact_error :: error where "artifact_error = Format ''NVFP4 artifact''"

definition artifact_validate :: "Nvfp4Artifact \<Rightarrow> unit result" where
  "artifact_validate a =
     (if art_out_features a = 0 \<or> art_in_features a = 0 \<or> \<not> 16 dvd art_in_features a
      then Err (Shape ''NVFP4 artifact'')
      else
        bind_result (ok_or (checked_mul (art_out_features a) (art_in_features a)) (Shape ''NVFP4 artifact'')) (\<lambda>n.
          if length (art_packed_weight a) \<noteq> n div 2 \<or> length (art_weight_scale a) \<noteq> n div 16
          then Err (Shape ''NVFP4 artifact'')
          else if art_prefix a = [] \<or> \<not> f32_is_finite (art_weight_scale_2 a) \<or> \<not> f32_is_finite (art_input_scale a)
          then Err artifact_error
          else Ok ()))"

text \<open>The pieces that \<open>write_to\<close> hands to \<open>write_all\<close>, in order.\<close>

definition artifact_pieces :: "Nvfp4Artifact \<Rightarrow> bytes list" where
  "artifact_pieces a =
     [ARTIFACT_MAGIC, put_u32 ARTIFACT_VERSION] @
     map (\<lambda>n. put_u64 (of_nat n))
       [art_out_features a, art_in_features a, length (art_packed_weight a), length (art_weight_scale a), length (art_prefix a)] @
     [put_u32 (art_weight_scale_2 a), put_u32 (art_input_scale a), art_prefix a, art_packed_weight a, art_weight_scale a]"

fun write_pieces :: "(nat \<Rightarrow> nat option) \<Rightarrow> nat \<Rightarrow> bytes list \<Rightarrow> FilePath \<Rightarrow> FileSystem \<Rightarrow> unit result \<times> FileSystem" where
  "write_pieces io i [] p fs = (Ok (), fs)"
| "write_pieces io i (b # bs) p fs =
     (let old = (case fs p of None \<Rightarrow> [] | Some old \<Rightarrow> old)
      in case io i of
           None \<Rightarrow> write_pieces io (Suc i) bs p (fs(p \<mapsto> old @ b))
         | Some k \<Rightarrow> (Err artifact_error, fs(p \<mapsto> old @ take k b)))"

definition temporary_path :: "nat \<Rightarrow> FilePath \<Rightarrow> FilePath" where
  "temporary_path pid p = p\<lparr>extension := Some (ascii ''tmp-'' @ decimal pid)\<rparr>"

definition rename :: "FilePath \<Rightarrow> FilePath \<Rightarrow> FileSystem \<Rightarrow> FileSystem" where
  "rename src dst fs = (if src = dst then fs else (fs(dst := fs src))(src := None))"

definition write_to :: "(nat \<Rightarrow> nat option) \<Rightarrow> nat \<Rightarrow> Nvfp4Artifact \<Rightarrow> FilePath \<Rightarrow> FileSystem \<Rightarrow> unit result \<times> FileSystem" where
  "write_to io pid a p fs =
     try_result (artifact_validate a) fs (\<lambda>_.
       let temporary = temporary_path pid p in
       if io 0 \<noteq> None then (Err artifact_error, fs)
       else
         (case write_pieces io 1 (artifact_pieces a) temporary (fs(temporary \<mapsto> [])) of
            (Inl e, fs') \<Rightarrow> (Err e, fs')
          | (Inr _, fs') \<Rightarrow>
              (if io (length (artifact_pieces a) + 1) \<noteq> None then (Err artifact_error, fs')
               else if io (length (artifact_pieces a) + 2) \<noteq> None then (Err artifact_error, fs')
               else (Ok (), rename temporary p fs'))))"

definition with_error :: "error \<Rightarrow> 'a reader \<Rightarrow> 'a reader" where
  "with_error e r f pos = (case r f pos of Inl _ \<Rightarrow> Err e | Inr x \<Rightarrow> Ok x)"

definition art_exact :: "nat \<Rightarrow> bytes reader" where
  "art_exact n = with_error artifact_error (read_exact n)"

definition art_read_u32 :: "u32 reader" where "art_read_u32 = with_error artifact_error read_u32"
definition art_read_usize :: "nat reader" where "art_read_usize = map_reader unat (with_error artifact_error read_u64)"
definition art_read_f32 :: "f32 reader" where "art_read_f32 = with_error artifact_error read_u32"

definition artifact_len :: "nat \<Rightarrow> nat \<Rightarrow> nat \<Rightarrow> u64 option" where
  "artifact_len prefix_len packed_len scale_len =
     Option.bind (checked_add_u64 HEADER_BYTES (of_nat prefix_len)) (\<lambda>n.
     Option.bind (checked_add_u64 n (of_nat packed_len)) (\<lambda>n. checked_add_u64 n (of_nat scale_len)))"

definition read_payload :: "nat \<Rightarrow> nat \<Rightarrow> nat \<Rightarrow> nat \<Rightarrow> nat \<Rightarrow> f32 \<Rightarrow> f32 \<Rightarrow> Nvfp4Artifact reader" where
  "read_payload out_n in_n packed_len scale_len prefix_len scale_2 input_s =
     bind_reader (art_exact prefix_len) (\<lambda>pre.
     bind_reader (art_exact packed_len) (\<lambda>packed.
     bind_reader (art_exact scale_len) (\<lambda>scales.
     if \<not> valid_utf8 pre then fail artifact_error
     else
       (let a = \<lparr>art_prefix = pre, art_out_features = out_n, art_in_features = in_n, art_packed_weight = packed,
                 art_weight_scale = scales, art_weight_scale_2 = scale_2, art_input_scale = input_s\<rparr>
        in case artifact_validate a of Inl e \<Rightarrow> fail e | Inr _ \<Rightarrow> return a))))"

definition check_len :: "nat \<Rightarrow> nat \<Rightarrow> nat \<Rightarrow> unit reader" where
  "check_len prefix_len packed_len scale_len f pos =
     (if artifact_len prefix_len packed_len scale_len = Some (of_nat (length (contents f))) then Ok ((), pos)
      else Err artifact_error)"

definition read_fields :: "Nvfp4Artifact reader" where
  "read_fields =
     bind_reader art_read_usize (\<lambda>out_n. bind_reader art_read_usize (\<lambda>in_n.
     bind_reader art_read_usize (\<lambda>packed_len. bind_reader art_read_usize (\<lambda>scale_len.
     bind_reader art_read_usize (\<lambda>prefix_len. bind_reader art_read_f32 (\<lambda>scale_2. bind_reader art_read_f32 (\<lambda>input_s.
     bind_reader (check_len prefix_len packed_len scale_len) (\<lambda>_.
       read_payload out_n in_n packed_len scale_len prefix_len scale_2 input_s))))))))"

definition read_artifact :: "Nvfp4Artifact reader" where
  "read_artifact =
     bind_reader (art_exact 8) (\<lambda>magic. bind_reader art_read_u32 (\<lambda>version.
       if magic \<noteq> ARTIFACT_MAGIC \<or> version \<noteq> ARTIFACT_VERSION then fail artifact_error else read_fields))"

definition read_from :: "FilePath \<Rightarrow> FileSystem \<Rightarrow> Nvfp4Artifact result" where
  "read_from p fs =
     (case fs p of
        None \<Rightarrow> Err artifact_error
      | Some bs \<Rightarrow> map_sum id fst (read_artifact \<lparr>contents = bs, max_seek = i64_max\<rparr> 0))"

section \<open>Writing\<close>

lemma write_pieces_frame:
  assumes "write_pieces io i bs p fs = (r, fs')" "q \<noteq> p"
  shows "fs' q = fs q"
  using assms(1)
proof (induction bs arbitrary: i fs)
  case (Cons b bs)
  then show ?case using assms(2) by (auto simp: Let_def split: option.splits)
qed simp

lemma write_pieces_Ok:
  "write_pieces io i bs p fs = (Ok (), fs') \<Longrightarrow> fs p = Some old \<Longrightarrow> fs' p = Some (old @ concat bs)"
proof (induction bs arbitrary: i fs old)
  case (Cons b bs)
  then have "write_pieces io (Suc i) bs p (fs(p \<mapsto> old @ b)) = (Ok (), fs')"
    by (auto simp: Let_def split: option.splits)
  from Cons.IH [OF this, of "old @ b"] show ?case by simp
qed simp

lemma write_pieces_no_failure:
  "\<forall>i. io i = None \<Longrightarrow> fst (write_pieces io i bs p fs) = Ok ()"
  by (induction bs arbitrary: i fs) (simp_all add: Let_def)

definition artifact_bytes :: "Nvfp4Artifact \<Rightarrow> bytes" where
  "artifact_bytes a = concat (artifact_pieces a)"

lemma write_to_cases:
  assumes "write_to io pid a p fs = (r, fs')" "temporary_path pid p \<noteq> p"
  shows "(\<forall>q. q \<noteq> p \<longrightarrow> q \<noteq> temporary_path pid p \<longrightarrow> fs' q = fs q) \<and>
    (if r = Ok () then artifact_validate a = Ok () \<and> fs' p = Some (artifact_bytes a) \<and> fs' (temporary_path pid p) = None
     else fs' p = fs p)"
proof -
  let ?t = "temporary_path pid p" let ?fs0 = "fs(?t \<mapsto> [])"
  obtain r1 fs1 where w: "write_pieces io 1 (artifact_pieces a) ?t ?fs0 = (r1, fs1)" by fastforce
  have frame: "fs1 q = fs q" if "q \<noteq> ?t" for q using write_pieces_frame [OF w that] that by simp
  have bytes: "fs1 ?t = Some (artifact_bytes a)" if "r1 = Ok ()"
    using write_pieces_Ok [of io 1 "artifact_pieces a" ?t ?fs0 fs1 "[]"] w that by (simp add: artifact_bytes_def)
  show ?thesis
    using assms frame bytes w
    by (cases "artifact_validate a"; cases r1)
      (auto simp: write_to_def Let_def rename_def split: if_splits)
qed

section \<open>Reading\<close>

text \<open>Reading in one given file, whose length the reader may ask for.\<close>

definition reads_in :: "File \<Rightarrow> 'a reader \<Rightarrow> bytes \<Rightarrow> 'a \<Rightarrow> bool" where
  "reads_in f r bs x \<longleftrightarrow> (\<forall>pre post. contents f = pre @ bs @ post \<longrightarrow> r f (length pre) = Ok (x, length pre + length bs))"

lemma reads_in: "reads r bs x \<Longrightarrow> fits f \<Longrightarrow> reads_in f r bs x"
  by (simp add: reads_def reads_in_def)

lemma reads_in_bind:
  assumes "reads_in f r bs x" "reads_in f (k x) cs y"
  shows "reads_in f (bind_reader r k) (bs @ cs) y"
  unfolding reads_in_def
proof (intro allI impI)
  fix pre post assume f: "contents f = pre @ (bs @ cs) @ post"
  have "r f (length pre) = Ok (x, length pre + length bs)"
    using assms(1) f unfolding reads_in_def by (metis append_assoc)
  moreover have "k x f (length (pre @ bs)) = Ok (y, length (pre @ bs) + length cs)"
    using assms(2) f unfolding reads_in_def by (metis append_assoc)
  ultimately show "bind_reader r k f (length pre) = Ok (y, length pre + length (bs @ cs))"
    by (simp add: bind_reader_def)
qed

lemma reads_with_error: "reads r bs x \<Longrightarrow> reads (with_error e r) bs x"
  by (simp add: reads_def with_error_def)

lemma reads_art:
  "length bs = n \<Longrightarrow> reads (art_exact n) bs bs" "reads art_read_u32 (put_u32 w) w" "reads art_read_f32 (put_u32 w) w"
  "n \<le> usize_max \<Longrightarrow> reads art_read_usize (put_u64 (of_nat n)) n"
proof -
  show "length bs = n \<Longrightarrow> reads (art_exact n) bs bs" unfolding art_exact_def by (intro reads_with_error reads_exact)
  show "reads art_read_u32 (put_u32 w) w" "reads art_read_f32 (put_u32 w) w"
    unfolding art_read_u32_def art_read_f32_def by (intro reads_with_error reads_u32)+
  assume n: "n \<le> usize_max"
  have "reads art_read_usize (put_u64 (of_nat n)) (unat (of_nat n :: u64))"
    unfolding art_read_usize_def by (intro reads_map reads_with_error reads_u64)
  then show "reads art_read_usize (put_u64 (of_nat n)) n" by (simp only: unat_of_nat_u64 [OF n])
qed

lemma length_artifact_bytes:
  "length (artifact_bytes a) = 60 + length (art_prefix a) + length (art_packed_weight a) + length (art_weight_scale a)"
  by (simp add: artifact_bytes_def artifact_pieces_def ARTIFACT_MAGIC_def ascii_def)

lemma checked_add_u64_of_nat:
  assumes "m \<le> usize_max" "n \<le> usize_max"
  shows "checked_add_u64 (of_nat m) (of_nat n) = (if m + n \<le> usize_max then Some (of_nat (m + n)) else None)"
  using unat_of_nat_u64 [OF assms(1)] unat_of_nat_u64 [OF assms(2)] by (auto simp: checked_add_u64_def usize_max_def)

lemma artifact_len_eq:
  assumes "x \<le> usize_max" "y \<le> usize_max" "z \<le> usize_max"
  shows "artifact_len x y z = (if 60 + x + y + z \<le> usize_max then Some (of_nat (60 + x + y + z)) else None)"
proof -
  have h: "HEADER_BYTES = of_nat 60" "(60 :: nat) \<le> usize_max" by (simp_all add: HEADER_BYTES_def usize_max_def)
  show ?thesis
    unfolding artifact_len_def h(1) using assms h(2)
    by (auto simp: checked_add_u64_of_nat simp del: of_nat_add of_nat_numeral)
qed

lemma validate_bounds:
  assumes "artifact_validate a = Ok ()"
  shows "art_out_features a \<le> usize_max" "art_in_features a \<le> usize_max" "art_prefix a \<noteq> []"
proof -
  have "art_out_features a * art_in_features a \<le> usize_max" "art_out_features a \<noteq> 0" "art_in_features a \<noteq> 0"
    and p: "art_prefix a \<noteq> []"
    using assms by (auto simp: artifact_validate_def result_simps usize_simps split: if_splits)
  moreover have "art_out_features a \<le> art_out_features a * art_in_features a"
    "art_in_features a \<le> art_out_features a * art_in_features a" using calculation by simp_all
  ultimately show "art_out_features a \<le> usize_max" "art_in_features a \<le> usize_max" by linarith+
  show "art_prefix a \<noteq> []" by (rule p)
qed

lemma artifact_eta:
  "\<lparr>art_prefix = art_prefix a, art_out_features = art_out_features a, art_in_features = art_in_features a,
    art_packed_weight = art_packed_weight a, art_weight_scale = art_weight_scale a,
    art_weight_scale_2 = art_weight_scale_2 a, art_input_scale = art_input_scale a\<rparr> = a"
  by (cases a) simp

lemma read_artifact_written:
  assumes "artifact_validate a = Ok ()" "valid_utf8 (art_prefix a)" "length (artifact_bytes a) \<le> i64_max"
  shows "read_artifact \<lparr>contents = artifact_bytes a, max_seek = i64_max\<rparr> 0 = Ok (a, length (artifact_bytes a))"
proof -
  let ?f = "\<lparr>contents = artifact_bytes a, max_seek = i64_max\<rparr>"
  have fits: "fits ?f" using assms(3) by (simp add: fits_def)
  have small: "length (art_prefix a) \<le> usize_max" "length (art_packed_weight a) \<le> usize_max"
      "length (art_weight_scale a) \<le> usize_max" "length (artifact_bytes a) \<le> usize_max"
    using assms(3) unfolding length_artifact_bytes by (simp_all add: i64_max_def usize_max_def)
  note bounds = validate_bounds [OF assms(1)]
  have len: "artifact_len (length (art_prefix a)) (length (art_packed_weight a)) (length (art_weight_scale a)) =
      Some (of_nat (length (artifact_bytes a)))"
    using artifact_len_eq [OF small(1-3)] small(4) unfolding length_artifact_bytes by (simp only: if_True)
  have chk: "reads_in ?f (check_len (length (art_prefix a)) (length (art_packed_weight a)) (length (art_weight_scale a))) [] ()"
    unfolding reads_in_def check_len_def len by simp
  have payload: "reads (read_payload (art_out_features a) (art_in_features a) (length (art_packed_weight a))
      (length (art_weight_scale a)) (length (art_prefix a)) (art_weight_scale_2 a) (art_input_scale a))
      (art_prefix a @ art_packed_weight a @ art_weight_scale a @ []) a"
    unfolding read_payload_def
    by (intro reads_bind [OF reads_art(1)]) (use assms in \<open>simp_all add: Let_def artifact_eta\<close>)
  have "reads_in ?f read_fields
      (put_u64 (of_nat (art_out_features a)) @ put_u64 (of_nat (art_in_features a)) @
       put_u64 (of_nat (length (art_packed_weight a))) @ put_u64 (of_nat (length (art_weight_scale a))) @
       put_u64 (of_nat (length (art_prefix a))) @ put_u32 (art_weight_scale_2 a) @ put_u32 (art_input_scale a) @ [] @
       art_prefix a @ art_packed_weight a @ art_weight_scale a @ []) a"
    unfolding read_fields_def
    by (intro reads_in_bind [OF reads_in [OF reads_art(4)]] reads_in_bind [OF reads_in [OF reads_art(3)]]
        reads_in_bind [OF chk] reads_in [OF payload] fits bounds(1,2) small(1-3))
  then have "reads_in ?f read_artifact
      (ARTIFACT_MAGIC @ put_u32 ARTIFACT_VERSION @
       put_u64 (of_nat (art_out_features a)) @ put_u64 (of_nat (art_in_features a)) @
       put_u64 (of_nat (length (art_packed_weight a))) @ put_u64 (of_nat (length (art_weight_scale a))) @
       put_u64 (of_nat (length (art_prefix a))) @ put_u32 (art_weight_scale_2 a) @ put_u32 (art_input_scale a) @ [] @
       art_prefix a @ art_packed_weight a @ art_weight_scale a @ []) a"
    unfolding read_artifact_def
    by (intro reads_in_bind [OF reads_in [OF reads_art(1) fits]] reads_in_bind [OF reads_in [OF reads_art(2) fits]])
      (simp_all add: ARTIFACT_MAGIC_def ascii_def)
  moreover have "artifact_bytes a = ARTIFACT_MAGIC @ put_u32 ARTIFACT_VERSION @
       put_u64 (of_nat (art_out_features a)) @ put_u64 (of_nat (art_in_features a)) @
       put_u64 (of_nat (length (art_packed_weight a))) @ put_u64 (of_nat (length (art_weight_scale a))) @
       put_u64 (of_nat (length (art_prefix a))) @ put_u32 (art_weight_scale_2 a) @ put_u32 (art_input_scale a) @ [] @
       art_prefix a @ art_packed_weight a @ art_weight_scale a @ []"
    by (simp add: artifact_bytes_def artifact_pieces_def)
  ultimately have "reads_in ?f read_artifact (artifact_bytes a) a" by (simp only:)
  then show ?thesis unfolding reads_in_def
    by (metis File.select_convs(1) add_0 append.right_neutral append_Nil list.size(3))
qed

text \<open>What a successful read has seen: the bytes between two positions.\<close>

definition segment :: "File \<Rightarrow> nat \<Rightarrow> bytes \<Rightarrow> nat \<Rightarrow> bool" where
  "segment f p bs q \<longleftrightarrow> q = p + length bs \<and> take (length bs) (drop p (contents f)) = bs"

lemma segment_append: "segment f p bs q \<Longrightarrow> segment f q cs r \<Longrightarrow> segment f p (bs @ cs) r"
  by (auto simp: segment_def take_add add.commute)

lemma segment_whole: "segment f 0 bs q \<Longrightarrow> length (contents f) = length bs \<Longrightarrow> contents f = bs"
  by (auto simp: segment_def)

lemma le_bytes_from_le_bytes:
  assumes "LENGTH('a::len) = 8 * n" "length bs = n"
  shows "le_bytes n (from_le_bytes bs :: 'a word) = bs"
proof (rule nth_equalityI)
  fix i assume i: "i < length (le_bytes n (from_le_bytes bs :: 'a word))"
  have "ucast (drop_bit (8 * i) (from_le_bytes bs :: 'a word)) = bs ! i"
  proof (rule bit_word_eqI)
    fix k assume "k < LENGTH(8)"
    then show "bit (ucast (drop_bit (8 * i) (from_le_bytes bs :: 'a word)) :: u8) k = bit (bs ! i) k"
      using i assms by (simp add: bit_ucast_iff bit_drop_bit_eq bit_from_le_bytes)
  qed
  then show "le_bytes n (from_le_bytes bs :: 'a word) ! i = bs ! i" using i by (simp add: le_bytes_def)
qed (simp add: assms)

lemma art_segments:
  "art_exact n f p = Ok (bs, q) \<Longrightarrow> segment f p bs q \<and> length bs = n"
  "art_read_u32 f p = Ok (w, q) \<Longrightarrow> segment f p (put_u32 w) q"
  "art_read_f32 f p = Ok (w, q) \<Longrightarrow> segment f p (put_u32 w) q"
  "art_read_usize f p = Ok (n', q) \<Longrightarrow> segment f p (put_u64 (of_nat n')) q \<and> n' \<le> usize_max"
proof -
  show "art_exact n f p = Ok (bs, q) \<Longrightarrow> segment f p bs q \<and> length bs = n"
    by (auto simp: art_exact_def with_error_def read_exact_def segment_def split: sum.splits if_splits)
  have u32: "read_u32 f p = Ok (w, q) \<Longrightarrow> segment f p (put_u32 w) q" for w
    by (auto simp: read_u32_def read_number_def bind_reader_def return_def read_exact_def segment_def put_u32_def
        result_simps le_bytes_from_le_bytes split: if_splits)
  have u64: "read_u64 f p = Ok (w, q) \<Longrightarrow> segment f p (put_u64 w) q" for w
    by (auto simp: read_u64_def read_number_def bind_reader_def return_def read_exact_def segment_def put_u64_def
        result_simps le_bytes_from_le_bytes split: if_splits)
  show "art_read_u32 f p = Ok (w, q) \<Longrightarrow> segment f p (put_u32 w) q" "art_read_f32 f p = Ok (w, q) \<Longrightarrow> segment f p (put_u32 w) q"
    using u32 by (auto simp: art_read_u32_def art_read_f32_def with_error_def split: sum.splits)
  assume "art_read_usize f p = Ok (n', q)"
  then obtain w where "read_u64 f p = Ok (w, q)" "n' = unat w"
    by (auto simp: art_read_usize_def map_reader_def bind_reader_def return_def with_error_def result_simps split: sum.splits)
  then show "segment f p (put_u64 (of_nat n')) q \<and> n' \<le> usize_max"
    using u64 [of w] unat_u64_le [of w] by simp
qed


lemma bind_reader_Ok: "bind_reader r k f p = Ok (y, q) \<longleftrightarrow> (\<exists>x p'. r f p = Ok (x, p') \<and> k x f p' = Ok (y, q))"
  by (auto simp: bind_reader_def result_simps)

lemma read_payload_segment:
  assumes "read_payload out_n in_n packed_len scale_len prefix_len s2 s1 f p = Ok (a, q)"
  shows "segment f p (art_prefix a @ art_packed_weight a @ art_weight_scale a) q \<and> artifact_validate a = Ok () \<and>
    valid_utf8 (art_prefix a) \<and> art_out_features a = out_n \<and> art_in_features a = in_n \<and>
    length (art_packed_weight a) = packed_len \<and> length (art_weight_scale a) = scale_len \<and>
    length (art_prefix a) = prefix_len \<and> art_weight_scale_2 a = s2 \<and> art_input_scale a = s1"
proof -
  obtain pre packed scales p1 p2 p3 where r: "art_exact prefix_len f p = Ok (pre, p1)"
      "art_exact packed_len f p1 = Ok (packed, p2)" "art_exact scale_len f p2 = Ok (scales, p3)" "valid_utf8 pre"
    and a: "a = \<lparr>art_prefix = pre, art_out_features = out_n, art_in_features = in_n, art_packed_weight = packed,
                 art_weight_scale = scales, art_weight_scale_2 = s2, art_input_scale = s1\<rparr>"
      "artifact_validate a = Ok ()" "q = p3"
    using assms by (auto simp: read_payload_def bind_reader_Ok Let_def return_def fail_def split: if_splits sum.splits)
  have "segment f p (pre @ packed @ scales) p3"
    using art_segments(1) [OF r(1)] art_segments(1) [OF r(2)] art_segments(1) [OF r(3)] by (blast intro: segment_append)
  then show ?thesis using a r art_segments(1) [OF r(1)] art_segments(1) [OF r(2)] art_segments(1) [OF r(3)] by simp
qed

lemma read_artifact_exact:
  assumes "read_artifact f 0 = Ok (a, q)" "length (contents f) \<le> usize_max"
  shows "contents f = artifact_bytes a" "artifact_validate a = Ok ()" "valid_utf8 (art_prefix a)"
proof -
  obtain p1 p2 where h: "art_exact 8 f 0 = Ok (ARTIFACT_MAGIC, p1)" "art_read_u32 f p1 = Ok (ARTIFACT_VERSION, p2)"
    and "read_fields f p2 = Ok (a, q)"
    using assms(1) by (auto simp: read_artifact_def bind_reader_Ok fail_def split: if_splits)
  then obtain out_n in_n packed_len scale_len prefix_len s2 s1 p3 p4 p5 p6 p7 p8 p9 where
    n: "art_read_usize f p2 = Ok (out_n, p3)" "art_read_usize f p3 = Ok (in_n, p4)" "art_read_usize f p4 = Ok (packed_len, p5)"
      "art_read_usize f p5 = Ok (scale_len, p6)" "art_read_usize f p6 = Ok (prefix_len, p7)"
      "art_read_f32 f p7 = Ok (s2, p8)" "art_read_f32 f p8 = Ok (s1, p9)"
    and len: "artifact_len prefix_len packed_len scale_len = Some (of_nat (length (contents f)))"
    and pay: "read_payload out_n in_n packed_len scale_len prefix_len s2 s1 f p9 = Ok (a, q)"
    by (auto simp: read_fields_def bind_reader_Ok check_len_def split: if_splits)
  note u = art_segments(4) [OF n(1)] art_segments(4) [OF n(2)] art_segments(4) [OF n(3)] art_segments(4) [OF n(4)] art_segments(4) [OF n(5)]
  note a = read_payload_segment [OF pay]
  have "segment f 0 (ARTIFACT_MAGIC @ put_u32 ARTIFACT_VERSION @ put_u64 (of_nat out_n) @ put_u64 (of_nat in_n) @
      put_u64 (of_nat packed_len) @ put_u64 (of_nat scale_len) @ put_u64 (of_nat prefix_len) @ put_u32 s2 @ put_u32 s1 @
      art_prefix a @ art_packed_weight a @ art_weight_scale a) q"
    by (intro segment_append [OF art_segments(1) [OF h(1), THEN conjunct1]] segment_append [OF art_segments(2) [OF h(2)]]
        segment_append [OF u(1) [THEN conjunct1]] segment_append [OF u(2) [THEN conjunct1]] segment_append [OF u(3) [THEN conjunct1]]
        segment_append [OF u(4) [THEN conjunct1]] segment_append [OF u(5) [THEN conjunct1]]
        segment_append [OF art_segments(3) [OF n(6)]] segment_append [OF art_segments(3) [OF n(7)]] a [THEN conjunct1])
  then have seg: "segment f 0 (artifact_bytes a) q" using a by (simp add: artifact_bytes_def artifact_pieces_def)
  have "of_nat (length (contents f)) = (of_nat (60 + prefix_len + packed_len + scale_len) :: u64)"
    "60 + prefix_len + packed_len + scale_len \<le> usize_max"
    using len u artifact_len_eq [of prefix_len packed_len scale_len] by (auto simp del: of_nat_add split: if_splits)
  then have "length (contents f) = length (artifact_bytes a)"
    using a unat_of_nat_u64 [OF assms(2)] unat_of_nat_u64 [of "60 + prefix_len + packed_len + scale_len"]
    unfolding length_artifact_bytes by metis
  then show "contents f = artifact_bytes a" by (rule segment_whole [OF seg])
  show "artifact_validate a = Ok ()" "valid_utf8 (art_prefix a)" using a by blast+
qed

section \<open>Properties\<close>

text \<open>C31: writing an artifact is atomic: whatever system call fails and however much of it was done, the
  target is either the complete new artifact or what it was before, and no file but the temporary one is
  touched. When no call fails and the artifact is valid, the write succeeds.\<close>

theorem artifact_write_atomic:
  assumes "temporary_path pid p \<noteq> p"
  shows "case write_to io pid a p fs of (r, fs') \<Rightarrow>
    (\<forall>q. q \<noteq> p \<and> q \<noteq> temporary_path pid p \<longrightarrow> fs' q = fs q) \<and>
    (if r = Ok () then artifact_validate a = Ok () \<and> fs' p = Some (artifact_bytes a) \<and> fs' (temporary_path pid p) = None
     else fs' p = fs p) \<and>
    (artifact_validate a = Ok () \<and> (\<forall>i. io i = None) \<longrightarrow> r = Ok ())"
proof -
  obtain r fs' where w: "write_to io pid a p fs = (r, fs')" by fastforce
  have "r = Ok ()" if ok: "artifact_validate a = Ok ()" and none: "\<forall>i. io i = None"
  proof -
    let ?w = "write_pieces io 1 (artifact_pieces a) (temporary_path pid p) (fs(temporary_path pid p \<mapsto> []))"
    obtain fs1 where "?w = (Ok (), fs1)" using write_pieces_no_failure [OF none] by (metis prod.collapse)
    then show ?thesis using w ok none by (auto simp: write_to_def Let_def)
  qed
  then show ?thesis using w write_to_cases [OF w assms] by auto
qed

text \<open>C32: an artifact that was written is read back as it was.\<close>

theorem artifact_roundtrip:
  assumes "write_to io pid a p fs = (Ok (), fs')" "temporary_path pid p \<noteq> p" "valid_utf8 (art_prefix a)"
    "length (artifact_bytes a) \<le> i64_max"
  shows "read_from p fs' = Ok a"
proof -
  have "artifact_validate a = Ok ()" "fs' p = Some (artifact_bytes a)" using write_to_cases [OF assms(1,2)] by auto
  then show ?thesis using read_artifact_written [of a] assms(3,4) by (simp add: read_from_def)
qed

text \<open>C33: whatever the bytes of a file are, an artifact that is read is valid, and the file is, byte for
  byte, what writing that artifact produces: no two files read as the same artifact.\<close>

theorem artifact_read_canonical:
  assumes "read_from p fs = Ok a" "\<forall>bs. fs p = Some bs \<longrightarrow> length bs \<le> usize_max"
  shows "fs p = Some (artifact_bytes a) \<and> artifact_validate a = Ok () \<and> valid_utf8 (art_prefix a)"
proof -
  obtain bs where bs: "fs p = Some bs" using assms(1) by (cases "fs p") (auto simp: read_from_def)
  let ?r = "read_artifact \<lparr>contents = bs, max_seek = i64_max\<rparr> 0"
  obtain q where "?r = Ok (a, q)" using assms(1) bs by (cases ?r) (auto simp: read_from_def)
  then show ?thesis using read_artifact_exact [of _ a] bs assms(2) by (metis File.select_convs(1))
qed


section \<open>Examples\<close>

definition demo_artifact :: Nvfp4Artifact where
  "demo_artifact =
     \<lparr>art_prefix = ascii ''w'', art_out_features = 1, art_in_features = 16, art_packed_weight = [1, 2, 3, 4, 5, 6, 7, 8],
      art_weight_scale = [0x38], art_weight_scale_2 = 0x3F400000, art_input_scale = 0x3FA00000\<rparr>"

definition demo_path :: FilePath where "demo_path = \<lparr>stem = ascii ''a'', extension = None\<rparr>"

lemma demo_artifact_ok:
  "artifact_validate demo_artifact = Ok ()" "valid_utf8 (art_prefix demo_artifact)"
  "length (artifact_bytes demo_artifact) = 70" "temporary_path 7 demo_path \<noteq> demo_path"
proof -
  show "artifact_validate demo_artifact = Ok ()"
    by (simp add: artifact_validate_def demo_artifact_def checked_mul_def usize_max_def ascii_def f32_is_finite_def)
  show "valid_utf8 (art_prefix demo_artifact)" by (simp add: demo_artifact_def ascii_def)
  show "length (artifact_bytes demo_artifact) = 70" by (simp add: length_artifact_bytes demo_artifact_def ascii_def)
  show "temporary_path 7 demo_path \<noteq> demo_path" by (simp add: temporary_path_def demo_path_def)
qed

theorem artifact_write_atomic_witness:
  "fst (write_to (\<lambda>_. None) 7 demo_artifact demo_path Map.empty) = Ok () \<and>
   (case write_to (\<lambda>i. if i = 12 then Some 3 else None) 7 demo_artifact demo_path [demo_path \<mapsto> [9]] of
      (r, fs') \<Rightarrow> r \<noteq> Ok () \<and> fs' demo_path = Some [9])"
proof -
  let ?io = "\<lambda>i :: nat. if i = 12 then Some (3 :: nat) else None"
  have "fst (write_to ?io 7 demo_artifact demo_path [demo_path \<mapsto> [9]]) \<noteq> Ok ()"
    using demo_artifact_ok(1) by (simp add: write_to_def Let_def artifact_pieces_def split: option.splits)
  then show ?thesis
    using artifact_write_atomic [where io = "\<lambda>_. None" and a = demo_artifact and fs = Map.empty, OF demo_artifact_ok(4)]
      artifact_write_atomic [where io = ?io and a = demo_artifact and fs = "[demo_path \<mapsto> [9]]", OF demo_artifact_ok(4)] demo_artifact_ok(1)
    by (auto split: prod.splits)
qed

lemma demo_written:
  obtains fs' where "write_to (\<lambda>_. None) 7 demo_artifact demo_path Map.empty = (Ok (), fs')"
    "fs' demo_path = Some (artifact_bytes demo_artifact)"
proof -
  obtain r fs' where w: "write_to (\<lambda>_. None) 7 demo_artifact demo_path Map.empty = (r, fs')" by fastforce
  let ?t = "temporary_path 7 demo_path"
  obtain fs1 where "write_pieces (\<lambda>_. None) 1 (artifact_pieces demo_artifact) ?t [?t \<mapsto> []] = (Ok (), fs1)"
    using write_pieces_no_failure [of "\<lambda>_. None"] by (metis prod.collapse)
  then have "r = Ok ()" using w demo_artifact_ok(1) by (auto simp: write_to_def Let_def)
  then show thesis using that w write_to_cases [OF w demo_artifact_ok(4)] by simp
qed

theorem artifact_roundtrip_witness:
  "\<exists>fs'. write_to (\<lambda>_. None) 7 demo_artifact demo_path Map.empty = (Ok (), fs') \<and> read_from demo_path fs' = Ok demo_artifact"
proof -
  obtain fs' where "write_to (\<lambda>_. None) 7 demo_artifact demo_path Map.empty = (Ok (), fs')" by (rule demo_written)
  then show ?thesis
    using artifact_roundtrip [OF _ demo_artifact_ok(4,2)] demo_artifact_ok(3) by (fastforce simp: i64_max_def)
qed

theorem artifact_read_canonical_witness:
  "\<exists>fs. read_from demo_path fs = Ok demo_artifact \<and> fs demo_path = Some (artifact_bytes demo_artifact) \<and>
     length (artifact_bytes demo_artifact) = 70"
proof -
  let ?fs = "[demo_path \<mapsto> artifact_bytes demo_artifact]"
  have "read_from demo_path ?fs = Ok demo_artifact"
    using read_artifact_written [OF demo_artifact_ok(1,2)] demo_artifact_ok(3) by (simp add: read_from_def i64_max_def)
  moreover from artifact_read_canonical [OF this] have "?fs demo_path = Some (artifact_bytes demo_artifact)"
    using demo_artifact_ok(3) by (simp add: usize_max_def)
  ultimately show ?thesis using demo_artifact_ok(3) by blast
qed

end
