(* ===== verification/Safetensors.thy ===== *)
theory Safetensors
  imports Nvfp4 "HOL-Library.List_Lexorder"
begin

text \<open>
  Safetensors shards and sharded checkpoints, \<open>safetensors.rs\<close> and \<open>checkpoint.rs\<close> of
  \<open>crates/eider-format/src\<close>.

  \<open>serde_json\<close> is third party: its parser, its printer and the integers among its numbers are the argument
  \<open>JsonLib\<close>; a value is the tree its documentation describes. A function that allocates as many bytes as the
  file says returns an option, with \<open>None\<close> for the panic of an allocation above \<open>isize::MAX\<close>. Sums of \<open>u64\<close>
  that the source does not check wrap around, as they do in the release profile.
\<close>

section \<open>Shards\<close>

datatype 'n Json =
    JNull | JBool bool | JNumber 'n | JString bytes | JArray "'n Json list" | JObject "(bytes \<times> 'n Json) list"

record 'n JsonLib =
  from_slice :: "bytes \<Rightarrow> 'n Json option"
  to_vec :: "'n Json \<Rightarrow> bytes"
  number_u64 :: "'n \<Rightarrow> u64 option"
  number_of :: "u64 \<Rightarrow> 'n"

fun as_object :: "'n Json \<Rightarrow> (bytes \<times> 'n Json) list option" where
  "as_object (JObject m) = Some m" | "as_object _ = None"

fun as_array :: "'n Json \<Rightarrow> 'n Json list option" where
  "as_array (JArray xs) = Some xs" | "as_array _ = None"

fun as_string :: "'n Json \<Rightarrow> bytes option" where
  "as_string (JString s) = Some s" | "as_string _ = None"

fun json_u64 :: "'n JsonLib \<Rightarrow> 'n Json \<Rightarrow> u64 option" where
  "json_u64 J (JNumber n) = number_u64 J n" | "json_u64 J _ = None"

record SafeTensorInfo =
  dtype :: bytes
  shape :: "nat list"
  data_begin :: u64
  data_end :: u64

definition byte_len :: "SafeTensorInfo \<Rightarrow> u64" where
  "byte_len i = data_end i - data_begin i"

definition is_scalar :: "SafeTensorInfo \<Rightarrow> bool" where
  "is_scalar i \<longleftrightarrow> shape i = []"

definition parse_tensor_info :: "'n JsonLib \<Rightarrow> 'n Json \<Rightarrow> SafeTensorInfo result" where
  "parse_tensor_info J v =
     bind_result (ok_or (as_object v) (Format ''safetensors tensor metadata'')) (\<lambda>m.
     bind_result (ok_or (Option.bind (map_of m (ascii ''dtype'')) as_string) (Format ''safetensors tensor dtype'')) (\<lambda>d.
     bind_result (ok_or (Option.bind (map_of m (ascii ''shape'')) as_array) (Format ''safetensors tensor shape'')) (\<lambda>dims.
     bind_result (map_result (\<lambda>x. ok_or (map_option unat (json_u64 J x)) (Format ''safetensors tensor shape'')) dims) (\<lambda>sh.
     bind_result (ok_or (Option.bind (map_of m (ascii ''data_offsets'')) as_array) (Format ''safetensors data offsets'')) (\<lambda>offs.
     if length offs \<noteq> 2 then Err (Format ''safetensors data offsets'')
     else bind_result (ok_or (json_u64 J (offs ! 0)) (Format ''safetensors data offsets'')) (\<lambda>b.
     bind_result (ok_or (json_u64 J (offs ! 1)) (Format ''safetensors data offsets'')) (\<lambda>e.
     if e < b then Err (Format ''safetensors data offsets'')
     else Ok \<lparr>dtype = d, shape = sh, data_begin = b, data_end = e\<rparr>)))))))"

record SafeTensorShard =
  data_start :: u64
  shard_tensors :: "(bytes, SafeTensorInfo) fmap"

fun parse_tensors ::
  "'n JsonLib \<Rightarrow> (bytes \<times> 'n Json) list \<Rightarrow> (bytes, SafeTensorInfo) fmap \<Rightarrow> (bytes, SafeTensorInfo) fmap result" where
  "parse_tensors J [] m = Ok m"
| "parse_tensors J ((name, v) # rest) m =
     (if name = ascii ''__metadata__'' then parse_tensors J rest m
      else bind_result (parse_tensor_info J v) (\<lambda>info. parse_tensors J rest (fmupd name info m)))"

definition bind_panic :: "'a result option \<Rightarrow> ('a \<Rightarrow> 'b result option) \<Rightarrow> 'b result option" where
  "bind_panic m k = (case m of None \<Rightarrow> None | Some (Inl e) \<Rightarrow> Some (Err e) | Some (Inr x) \<Rightarrow> k x)"

text \<open>\<open>vec![0u8; n]\<close> and \<open>read_exact\<close> into it. Reading nothing succeeds wherever the position is.\<close>

definition read_alloc :: "nat \<Rightarrow> File \<Rightarrow> nat \<Rightarrow> error \<Rightarrow> bytes result option" where
  "read_alloc n f pos e =
     (if n > i64_max then None else if n = 0 then Some (Ok []) else Some (read_at n f pos e))"

definition shard_open :: "'n JsonLib \<Rightarrow> File \<Rightarrow> SafeTensorShard result option" where
  "shard_open J f =
     bind_panic (Some (read_at 8 f 0 (Format ''safetensors header length''))) (\<lambda>len_bytes.
     let header_len = from_le_bytes len_bytes :: u64 in
     bind_panic (read_alloc (unat header_len) f 8 (Format ''safetensors header'')) (\<lambda>header_bytes.
     Some (bind_result (ok_or (from_slice J header_bytes) (Format ''safetensors header json'')) (\<lambda>header.
           bind_result (ok_or (as_object header) (Format ''safetensors header'')) (\<lambda>m.
           bind_result (parse_tensors J m fmempty) (\<lambda>ts.
             Ok \<lparr>data_start = 8 + header_len, shard_tensors = ts\<rparr>))))))"

definition require_tensor :: "SafeTensorShard \<Rightarrow> bytes \<Rightarrow> SafeTensorInfo result" where
  "require_tensor s name = ok_or (fmlookup (shard_tensors s) name) (Format ''safetensors tensor lookup'')"

definition tensor_file_range :: "SafeTensorShard \<Rightarrow> bytes \<Rightarrow> (u64 \<times> u64) result" where
  "tensor_file_range s name =
     bind_result (require_tensor s name) (\<lambda>i.
     bind_result (ok_or (checked_add_u64 (data_start s) (data_begin i)) (Shape ''safetensors tensor file range'')) (\<lambda>b.
     bind_result (ok_or (checked_add_u64 (data_start s) (data_end i)) (Shape ''safetensors tensor file range'')) (\<lambda>e.
       Ok (b, e))))"

definition read_tensor_byte_range :: "SafeTensorShard \<Rightarrow> File \<Rightarrow> bytes \<Rightarrow> u64 \<Rightarrow> nat \<Rightarrow> bytes result option" where
  "read_tensor_byte_range s f name off len =
     bind_panic (Some (require_tensor s name)) (\<lambda>i.
     bind_panic (Some (ok_or (checked_add_u64 off (of_nat len)) (Shape ''safetensors tensor byte range''))) (\<lambda>e.
     if e > byte_len i then Some (Err (Shape ''safetensors tensor byte range''))
     else
       bind_panic (Some (seek_start f (data_start s + data_begin i + off) (Format ''safetensors seek''))) (\<lambda>pos.
         read_alloc len f pos (Format ''safetensors tensor read''))))"

definition shard_read_tensor :: "SafeTensorShard \<Rightarrow> File \<Rightarrow> bytes \<Rightarrow> bytes result option" where
  "shard_read_tensor s f name =
     bind_panic (Some (require_tensor s name)) (\<lambda>i. read_tensor_byte_range s f name 0 (unat (byte_len i)))"

definition read_scalar_f32 :: "SafeTensorShard \<Rightarrow> File \<Rightarrow> bytes \<Rightarrow> f32 result option" where
  "read_scalar_f32 s f name =
     bind_panic (Some (require_tensor s name)) (\<lambda>i.
     if dtype i \<noteq> ascii ''F32'' \<or> \<not> (is_scalar i \<or> shape i = [1]) \<or> byte_len i \<noteq> 4
     then Some (Err (Shape ''safetensors scalar F32''))
     else bind_panic (shard_read_tensor s f name) (\<lambda>bs. Some (Ok (from_le_bytes bs))))"

definition read_f32_tensor :: "SafeTensorShard \<Rightarrow> File \<Rightarrow> bytes \<Rightarrow> f32 list result option" where
  "read_f32_tensor s f name =
     bind_panic (Some (require_tensor s name)) (\<lambda>i.
     if dtype i \<noteq> ascii ''F32'' \<or> \<not> 4 dvd unat (byte_len i) then Some (Err (Shape ''safetensors F32 tensor''))
     else bind_panic (shard_read_tensor s f name) (\<lambda>bs. Some (Ok (map from_le_bytes (chunks_exact 4 bs)))))"

definition read_float_tensor_as_f32 :: "SafeTensorShard \<Rightarrow> File \<Rightarrow> bytes \<Rightarrow> f32 list result option" where
  "read_float_tensor_as_f32 s f name =
     bind_panic (Some (require_tensor s name)) (\<lambda>i.
     bind_panic (shard_read_tensor s f name) (\<lambda>bs.
       if dtype i = ascii ''F32'' \<and> 4 dvd length bs then Some (Ok (map from_le_bytes (chunks_exact 4 bs)))
       else if dtype i = ascii ''BF16'' \<and> 2 dvd length bs
       then Some (Ok (map (\<lambda>c. push_bit 16 (ucast (from_le_bytes c :: u16))) (chunks_exact 2 bs)))
       else Some (Err (Shape ''safetensors floating-point tensor''))))"

section \<open>Filtered copies\<close>

text \<open>The output of a copy is a new file, given as its bytes so far, or \<open>None\<close> as long as it is not created.
  The printed objects list their keys in order, as the default map of \<open>serde_json\<close> does.\<close>

definition copy_error :: error where "copy_error = Format ''safetensors filtered copy''"

definition info_json :: "'n JsonLib \<Rightarrow> SafeTensorInfo \<Rightarrow> u64 \<Rightarrow> u64 \<Rightarrow> 'n Json" where
  "info_json J i b e =
     JObject
       [(ascii ''data_offsets'', JArray [JNumber (number_of J b), JNumber (number_of J e)]),
        (ascii ''dtype'', JString (dtype i)),
        (ascii ''shape'', JArray (map (\<lambda>d. JNumber (number_of J (of_nat d))) (shape i)))]"

fun copy_header ::
  "'n JsonLib \<Rightarrow> SafeTensorShard \<Rightarrow> bytes list \<Rightarrow> u64 \<Rightarrow> ((bytes \<times> 'n Json) list \<times> u64) result" where
  "copy_header J s [] off = Ok ([], off)"
| "copy_header J s (name # names) off =
     bind_result (require_tensor s name) (\<lambda>i.
     bind_result (ok_or (checked_add_u64 off (byte_len i)) copy_error) (\<lambda>e.
     bind_result (copy_header J s names e) (\<lambda>(header, total_end).
       Ok ((name, info_json J i off e) # header, total_end))))"

function pad_header :: "bytes \<Rightarrow> bytes" where
  "pad_header bs = (if 8 dvd length bs then bs else pad_header (bs @ [0x20]))"
  by auto
termination
proof (relation "measure (\<lambda>bs :: bytes. (8 - length bs mod 8) mod 8)")
  fix bs :: bytes assume "\<not> 8 dvd length bs"
  then have "length bs mod 8 \<noteq> 0" "length bs mod 8 < 8" by (auto simp: dvd_eq_mod_eq_0)
  then show "(bs @ [0x20], bs) \<in> measure (\<lambda>bs :: bytes. (8 - length bs mod 8) mod 8)"
    by (auto simp: mod_Suc)
qed simp

declare pad_header.simps [simp del]

definition COPY_BUFFER :: nat where "COPY_BUFFER = 8 * 2 ^ 20"

function copy_payload :: "File \<Rightarrow> nat \<Rightarrow> nat \<Rightarrow> bytes \<Rightarrow> unit result \<times> bytes" where
  "copy_payload f pos remaining out =
     (if remaining = 0 then (Ok (), out)
      else
        (let chunk = min remaining COPY_BUFFER
         in case read_at chunk f pos copy_error of
              Inl e \<Rightarrow> (Err e, out)
            | Inr bs \<Rightarrow> copy_payload f (pos + chunk) (remaining - chunk) (out @ bs)))"
  by auto
termination
  by (relation "measure (\<lambda>(f, pos, remaining, out). remaining)") (auto simp: COPY_BUFFER_def)

declare copy_payload.simps [simp del]

fun copy_payloads :: "SafeTensorShard \<Rightarrow> File \<Rightarrow> bytes list \<Rightarrow> bytes \<Rightarrow> unit result \<times> bytes" where
  "copy_payloads s f [] out = (Ok (), out)"
| "copy_payloads s f (name # names) out =
     try_result (require_tensor s name) out (\<lambda>i.
     try_result (seek_start f (data_start s + data_begin i) copy_error) out (\<lambda>pos.
       case copy_payload f pos (unat (byte_len i)) out of
         (Inl e, out') \<Rightarrow> (Err e, out')
       | (Inr _, out') \<Rightarrow> copy_payloads s f names out'))"

definition copy_tensors_to ::
  "'n JsonLib \<Rightarrow> SafeTensorShard \<Rightarrow> File \<Rightarrow> bytes list \<Rightarrow> u64 result \<times> bytes option" where
  "copy_tensors_to J s f names =
     (let ordered = remdups_adj (sort names)
      in if length ordered \<noteq> length names then (Err copy_error, None)
         else try_result (copy_header J s ordered 0) None (\<lambda>(header, offset).
           let header_bytes = pad_header (to_vec J (JObject header));
               out = le_bytes 8 (of_nat (length header_bytes) :: u64) @ header_bytes
           in case copy_payloads s f ordered out of
                (Inl e, out') \<Rightarrow> (Err e, Some out')
              | (Inr _, out') \<Rightarrow> (Ok (8 + of_nat (length header_bytes) + offset), Some out')))"

section \<open>Sharded checkpoints\<close>

text \<open>The directory of a checkpoint gives for the name of a file in it its contents, if it exists.\<close>

type_synonym Directory = "bytes \<Rightarrow> File option"

record SafeTensorCheckpoint =
  weight_map :: "(bytes, bytes) fmap"
  shards :: "(bytes, SafeTensorShard) fmap"

definition open_shard :: "'n JsonLib \<Rightarrow> Directory \<Rightarrow> bytes \<Rightarrow> SafeTensorShard result option" where
  "open_shard J d name =
     (case d name of None \<Rightarrow> Some (Err (Format ''safetensors open'')) | Some f \<Rightarrow> shard_open J f)"

fun parse_weight_map :: "(bytes \<times> 'n Json) list \<Rightarrow> (bytes, bytes) fmap \<Rightarrow> (bytes, bytes) fmap result" where
  "parse_weight_map [] m = Ok m"
| "parse_weight_map ((tensor, v) # rest) m =
     bind_result (ok_or (as_string v) (Format ''safetensors index weight_map'')) (\<lambda>shard.
       parse_weight_map rest (fmupd tensor shard m))"

definition single_map :: "SafeTensorShard \<Rightarrow> bytes \<Rightarrow> (bytes, bytes) fmap" where
  "single_map s name = fmmap (\<lambda>_. name) (shard_tensors s)"

definition checkpoint_open :: "'n JsonLib \<Rightarrow> Directory \<Rightarrow> SafeTensorCheckpoint result option" where
  "checkpoint_open J d =
     (case d (ascii ''model.safetensors.index.json'') of
        None \<Rightarrow>
          (let name = ascii ''model.safetensors''
           in bind_panic (open_shard J d name) (\<lambda>s.
                Some (Ok \<lparr>weight_map = single_map s name, shards = fmupd name s fmempty\<rparr>)))
      | Some f \<Rightarrow>
          Some (
            if \<not> valid_utf8 (contents f) then Err (Format ''safetensors index'')
            else
              bind_result (ok_or (from_slice J (contents f)) (Format ''safetensors index JSON'')) (\<lambda>json.
              bind_result
                (ok_or (Option.bind (Option.bind (as_object json) (\<lambda>m. map_of m (ascii ''weight_map''))) as_object)
                  (Format ''safetensors index weight_map'')) (\<lambda>m.
              bind_result (parse_weight_map m fmempty) (\<lambda>wm. Ok \<lparr>weight_map = wm, shards = fmempty\<rparr>)))))"

definition contains_tensor :: "SafeTensorCheckpoint \<Rightarrow> bytes \<Rightarrow> bool" where
  "contains_tensor c tensor \<longleftrightarrow> fmlookup (weight_map c) tensor \<noteq> None"

definition shard_name_for_tensor :: "SafeTensorCheckpoint \<Rightarrow> bytes \<Rightarrow> bytes result" where
  "shard_name_for_tensor c tensor = ok_or (fmlookup (weight_map c) tensor) (Format ''safetensors index lookup'')"

definition open_shard_for_tensor ::
  "'n JsonLib \<Rightarrow> Directory \<Rightarrow> SafeTensorCheckpoint \<Rightarrow> bytes \<Rightarrow> (SafeTensorShard result \<times> SafeTensorCheckpoint) option" where
  "open_shard_for_tensor J d c tensor =
     (case shard_name_for_tensor c tensor of
        Inl e \<Rightarrow> Some (Err e, c)
      | Inr name \<Rightarrow>
          (case fmlookup (shards c) name of
             Some s \<Rightarrow> Some (Ok s, c)
           | None \<Rightarrow>
               (case open_shard J d name of
                  None \<Rightarrow> None
                | Some (Inl e) \<Rightarrow> Some (Err e, c)
                | Some (Inr s) \<Rightarrow> Some (Ok s, c\<lparr>shards := fmupd name s (shards c)\<rparr>))))"

definition tensor_info ::
  "'n JsonLib \<Rightarrow> Directory \<Rightarrow> SafeTensorCheckpoint \<Rightarrow> bytes \<Rightarrow> (SafeTensorInfo result \<times> SafeTensorCheckpoint) option" where
  "tensor_info J d c tensor =
     map_option (\<lambda>(r, c'). (bind_result r (\<lambda>s. require_tensor s tensor), c')) (open_shard_for_tensor J d c tensor)"

section \<open>Opening and reading\<close>

lemma bind_panic_simps [simp]:
  "bind_panic (Some (Ok x)) k = k x"
  "bind_panic (Some (Err e)) k = Some (Err e)"
  "bind_panic None k = None"
  by (simp_all add: bind_panic_def)

lemma bind_panic_eq_Ok:
  "bind_panic m k = Some (Ok y) \<longleftrightarrow> (\<exists>x. m = Some (Ok x) \<and> k x = Some (Ok y))"
  by (auto simp: bind_panic_def split: option.splits sum.splits)

lemma require_tensor_eq [simp]:
  "require_tensor s name = Ok i \<longleftrightarrow> fmlookup (shard_tensors s) name = Some i"
  by (simp add: require_tensor_def)

lemma read_alloc_eq:
  "read_alloc n f pos e = Some (Ok bs) \<longleftrightarrow>
     n \<le> i64_max \<and> (n = 0 \<or> pos + n \<le> length (contents f)) \<and> bs = take n (drop pos (contents f))"
  by (auto simp: read_alloc_def read_at_eq)

text \<open>What every tensor of an opened shard has.\<close>

definition info_ok :: "SafeTensorInfo \<Rightarrow> bool" where
  "info_ok i \<longleftrightarrow> data_begin i \<le> data_end i \<and> (\<forall>d \<in> set (shape i). d \<le> usize_max)"

lemma parse_tensor_info_ok:
  assumes "parse_tensor_info J v = Ok i"
  shows "info_ok i"
proof -
  have "\<forall>d \<in> set sh. d \<le> usize_max"
    if "map_result (\<lambda>x. ok_or (map_option unat (json_u64 J x)) e) dims = Ok sh" for e dims sh
    using that by (auto simp: map_result_eq_Ok list_all2_conv_all_nth in_set_conv_nth) (metis unat_u64_le)
  then show ?thesis
    using assms by (auto simp: parse_tensor_info_def result_simps info_ok_def split: if_splits)
qed

lemma parse_tensors_ok:
  assumes "parse_tensors J kvs m = Ok m'"
    "\<And>n i. fmlookup m n = Some i \<Longrightarrow> info_ok i \<and> n \<noteq> ascii ''__metadata__''"
    "fmlookup m' n = Some i"
  shows "info_ok i \<and> n \<noteq> ascii ''__metadata__''"
  using assms
proof (induction J kvs m rule: parse_tensors.induct)
  case (2 J name v rest m)
  show ?case
  proof (cases "name = ascii ''__metadata__''")
    case True
    then show ?thesis using 2 by simp
  next
    case False
    then obtain info where info: "parse_tensor_info J v = Ok info" "parse_tensors J rest (fmupd name info m) = Ok m'"
      using "2.prems"(1) by (auto simp: result_simps)
    show ?thesis
      by (rule "2.IH"(2) [OF False info(1) info(2) _ "2.prems"(3)])
        (use parse_tensor_info_ok [OF info(1)] False "2.prems"(2) in \<open>auto split: if_splits\<close>)
  qed
qed auto

lemma shard_open_eq:
  "shard_open J f = Some (Ok s) \<longleftrightarrow>
     8 \<le> length (contents f) \<and>
     (\<exists>len header ts. len = (from_le_bytes (take 8 (contents f)) :: u64) \<and> unat len \<le> i64_max \<and>
        8 + unat len \<le> length (contents f) \<and>
        from_slice J (take (unat len) (drop 8 (contents f))) = Some (JObject header) \<and>
        parse_tensors J header fmempty = Ok ts \<and> s = \<lparr>data_start = 8 + len, shard_tensors = ts\<rparr>)"
proof -
  have obj: "as_object v = Some m \<longleftrightarrow> v = JObject m" for v :: "'a Json" and m by (cases v) auto
  show ?thesis
    by (auto simp: shard_open_def bind_panic_eq_Ok read_at_eq read_alloc_eq result_simps obj Let_def)
qed

lemma shard_open_info:
  assumes "shard_open J f = Some (Ok s)" "fmlookup (shard_tensors s) n = Some i"
  shows "info_ok i" "n \<noteq> ascii ''__metadata__''"
proof -
  obtain header where "parse_tensors J header fmempty = Ok (shard_tensors s)" using assms(1) by (auto simp: shard_open_eq)
  from parse_tensors_ok [OF this _ assms(2)] show "info_ok i" "n \<noteq> ascii ''__metadata__''" by simp_all
qed

lemma shard_read_eq:
  assumes "fmlookup (shard_tensors s) name = Some i"
  shows "read_tensor_byte_range s f name off len = Some (Ok bs) \<longleftrightarrow>
    len \<le> i64_max \<and> unat off + unat (of_nat len :: u64) < 2 ^ 64 \<and> off + of_nat len \<le> byte_len i \<and>
    unat (data_start s + data_begin i + off) \<le> max_seek f \<and>
    (len = 0 \<or> unat (data_start s + data_begin i + off) + len \<le> length (contents f)) \<and>
    bs = take len (drop (unat (data_start s + data_begin i + off)) (contents f))"
  using assms
  by (auto simp: read_tensor_byte_range_def bind_panic_eq_Ok checked_add_u64_def seek_start_eq read_alloc_eq not_less
      split: if_splits)

lemma shard_read_tensor_eq:
  assumes "fmlookup (shard_tensors s) name = Some i"
  shows "shard_read_tensor s f name = Some (Ok bs) \<longleftrightarrow>
    unat (byte_len i) \<le> i64_max \<and> unat (data_start s + data_begin i) \<le> max_seek f \<and>
    (byte_len i = 0 \<or> unat (data_start s + data_begin i) + unat (byte_len i) \<le> length (contents f)) \<and>
    bs = take (unat (byte_len i)) (drop (unat (data_start s + data_begin i)) (contents f))"
proof -
  have "unat (0 :: u64) + unat (of_nat (unat (byte_len i)) :: u64) < 2 ^ 64"
    using unsigned_less [of "byte_len i"] by simp
  then show ?thesis
    unfolding shard_read_tensor_def
    using assms by (subst require_tensor_eq [THEN iffD2, OF assms]) (auto simp: shard_read_eq unat_eq_0)
qed

lemma shard_open_header_panic:
  "8 \<le> length (contents f) \<Longrightarrow> unat (from_le_bytes (take 8 (contents f)) :: u64) > i64_max \<Longrightarrow> shard_open J f = None"
  by (simp add: shard_open_def read_at_def read_exact_def read_alloc_def)

section \<open>Copying\<close>

lemma pad_header_eq: "\<exists>k < 8. pad_header bs = bs @ replicate k 0x20 \<and> 8 dvd length (pad_header bs)"
proof -
  have "k = (8 - length bs mod 8) mod 8 \<Longrightarrow> pad_header bs = bs @ replicate k 0x20 \<and> 8 dvd length (pad_header bs)" for k
  proof (induction k arbitrary: bs)
    case 0
    then have "length bs mod 8 = 0" using mod_less_divisor [of 8 "length bs"] by (cases "length bs mod 8 = 0") auto
    then show ?case by (simp add: pad_header.simps [of bs] dvd_eq_mod_eq_0)
  next
    case (Suc k)
    then have nz: "length bs mod 8 \<noteq> 0" by (cases "length bs mod 8 = 0") auto
    then have "k = (8 - length (bs @ [0x20]) mod 8) mod 8"
      using Suc.prems mod_less_divisor [of 8 "length bs"] by (auto simp: mod_Suc)
    from Suc.IH [OF this] have "pad_header (bs @ [0x20]) = bs @ replicate (Suc k) 0x20 \<and> 8 dvd length (pad_header (bs @ [0x20]))"
      by (metis append_Cons append_Nil append_assoc replicate_Suc)
    moreover have "pad_header bs = pad_header (bs @ [0x20])" using nz by (simp add: pad_header.simps [of bs] dvd_eq_mod_eq_0)
    ultimately show ?case by metis
  qed
  from this [OF refl] show ?thesis by (metis mod_less_divisor zero_less_numeral)
qed

text \<open>The chunks are the payload.\<close>

lemma copy_payload_Ok:
  "copy_payload f pos n out = (Ok (), out') \<longleftrightarrow>
     (n = 0 \<or> pos + n \<le> length (contents f)) \<and> out' = out @ take n (drop pos (contents f))"
proof (induction f pos n out rule: copy_payload.induct)
  case (1 f pos n out)
  show ?case
  proof (cases "n = 0")
    case False
    let ?c = "min n COPY_BUFFER"
    have pos: "?c > 0" using False by (simp add: COPY_BUFFER_def)
    show ?thesis
    proof (cases "pos + ?c \<le> length (contents f)")
      case True
      then have r: "read_at ?c f pos copy_error = Ok (take ?c (drop pos (contents f)))" by (simp add: read_at_eq)
      have join: "take ?c (drop pos (contents f)) @ take (n - ?c) (drop (pos + ?c) (contents f)) = take n (drop pos (contents f))"
        by (metis add.commute drop_drop le_add_diff_inverse min.cobounded1 take_add)
      have bound: "(n - ?c = 0 \<or> pos + ?c + (n - ?c) \<le> length (contents f)) \<longleftrightarrow> (n = 0 \<or> pos + n \<le> length (contents f))"
        using True False by auto
      show ?thesis
        unfolding copy_payload.simps [of f pos n out] using False r 1 [OF False refl r] bound join
        by (simp add: Let_def)
    next
      case short: False
      then obtain e where "read_at ?c f pos copy_error = Err e" by (cases "read_at ?c f pos copy_error") (auto simp: read_at_eq)
      moreover have "\<not> pos + n \<le> length (contents f)" using short by auto
      ultimately show ?thesis using False by (simp add: copy_payload.simps [of f pos n out] Let_def)
    qed
  qed (auto simp: copy_payload.simps)
qed

definition payload :: "SafeTensorShard \<Rightarrow> File \<Rightarrow> bytes \<Rightarrow> bytes" where
  "payload s f name =
     (case fmlookup (shard_tensors s) name of
        None \<Rightarrow> []
      | Some i \<Rightarrow> take (unat (byte_len i)) (drop (unat (data_start s + data_begin i)) (contents f)))"

definition copied :: "SafeTensorShard \<Rightarrow> File \<Rightarrow> bytes \<Rightarrow> bool" where
  "copied s f name \<longleftrightarrow> (\<exists>i. fmlookup (shard_tensors s) name = Some i \<and>
     unat (data_start s + data_begin i) \<le> max_seek f \<and>
     (byte_len i = 0 \<or> unat (data_start s + data_begin i) + unat (byte_len i) \<le> length (contents f)))"

lemma copy_payloads_Ok:
  "copy_payloads s f names out = (Ok (), out') \<longleftrightarrow>
     (\<forall>n \<in> set names. copied s f n) \<and> out' = out @ concat (map (payload s f) names)"
proof (induction names arbitrary: out)
  case (Cons name names)
  show ?case
  proof (cases "fmlookup (shard_tensors s) name")
    case (Some i)
    let ?pos = "unat (data_start s + data_begin i)" let ?p = "copy_payload f ?pos (unat (byte_len i)) out"
    have step: "copy_payloads s f (name # names) out = (Ok (), out') \<longleftrightarrow>
        ?pos \<le> max_seek f \<and> (\<exists>mid. ?p = (Ok (), mid) \<and> copy_payloads s f names mid = (Ok (), out'))"
      using Some by (cases ?p) (auto simp: result_simps seek_start_eq split: sum.splits)
    show ?thesis
      unfolding step copy_payload_Ok Cons.IH using Some by (auto simp: copied_def [of s f name] payload_def [of s f name] unat_eq_0)
  qed (simp add: copied_def result_simps)
qed auto

lemma copied_length: "copied s f name \<Longrightarrow> fmlookup (shard_tensors s) name = Some i \<Longrightarrow> length (payload s f name) = unat (byte_len i)"
  by (auto simp: copied_def payload_def)

lemma copied_read:
  assumes "copied s f name" "length (payload s f name) \<le> i64_max"
  shows "shard_read_tensor s f name = Some (Ok (payload s f name))"
  using assms copied_length [OF assms(1)] by (auto simp: copied_def shard_read_tensor_eq payload_def)

text \<open>The integers of \<open>serde_json\<close>: a number made from a \<open>u64\<close> is that \<open>u64\<close>.\<close>

definition numbers_ok :: "'n JsonLib \<Rightarrow> bool" where
  "numbers_ok J \<longleftrightarrow> (\<forall>x. number_u64 J (number_of J x) = Some x)"

lemma parse_info_json:
  assumes "numbers_ok J" "info_ok i" "b \<le> e"
  shows "parse_tensor_info J (info_json J i b e) = Ok (i\<lparr>data_begin := b, data_end := e\<rparr>)"
proof -
  have "map_result (\<lambda>x. ok_or (map_option unat (json_u64 J x)) err) (map (\<lambda>d. JNumber (number_of J (of_nat d))) (shape i)) = Ok (shape i)" for err
    using assms(1,2) by (auto simp: map_result_eq_Ok list_all2_conv_all_nth numbers_ok_def info_ok_def unat_of_nat_u64)
  moreover have "ascii ''dtype'' \<noteq> ascii ''data_offsets''" "ascii ''shape'' \<noteq> ascii ''data_offsets''" "ascii ''shape'' \<noteq> ascii ''dtype''"
    by (simp_all add: ascii_def)
  ultimately show ?thesis
    using assms(1,3) by (cases i) (simp add: parse_tensor_info_def info_json_def numbers_ok_def not_less [symmetric])
qed

definition relocated :: "SafeTensorInfo \<Rightarrow> SafeTensorInfo \<Rightarrow> bool" where
  "relocated i i' \<longleftrightarrow> dtype i' = dtype i \<and> shape i' = shape i \<and> byte_len i' = byte_len i"

text \<open>The header of a copy describes the data that follows it: \<open>D\<close> holds the payloads from \<open>off\<close> on.\<close>

lemma copy_header_parsed:
  assumes "copy_header J s names off = Ok (header, end_off)" "numbers_ok J" "distinct names"
    "\<And>n i. n \<in> set names \<Longrightarrow> fmlookup (shard_tensors s) n = Some i \<Longrightarrow> info_ok i \<and> n \<noteq> ascii ''__metadata__''"
    "\<And>n. n \<in> set names \<Longrightarrow> copied s f n"
    "drop (unat off) D = concat (map (payload s f) names)" "unat off \<le> length D"
  shows "unat end_off = length D \<and> (\<exists>m'. parse_tensors J header m = Ok m' \<and>
    (\<forall>n. n \<notin> set names \<longrightarrow> fmlookup m' n = fmlookup m n) \<and>
    (\<forall>n \<in> set names. \<exists>i i'. fmlookup (shard_tensors s) n = Some i \<and> fmlookup m' n = Some i' \<and> relocated i i' \<and>
       data_begin i' \<le> data_end i' \<and> unat (data_end i') \<le> length D \<and>
       take (unat (byte_len i')) (drop (unat (data_begin i')) D) = payload s f n))"
  using assms
proof (induction names arbitrary: off header m)
  case Nil
  then show ?case by (auto simp: numbers_ok_def)
next
  case (Cons name names)
  obtain i e rest where i: "fmlookup (shard_tensors s) name = Some i"
    and e: "checked_add_u64 off (byte_len i) = Some e"
    and rest: "copy_header J s names e = Ok (rest, end_off)" "header = (name, info_json J i off e) # rest"
    using Cons.prems(1) by (auto simp: result_simps)
  have unat_e: "unat e = unat off + unat (byte_len i)" and e_eq: "e = off + byte_len i"
    using e by (auto simp: checked_add_u64_def unat_add_u64 split: if_splits)
  have len: "length (payload s f name) = unat (byte_len i)" using Cons.prems(5) i by (simp add: copied_length)
  have D: "drop (unat off) D = payload s f name @ concat (map (payload s f) names)" using Cons.prems(6) by simp
  have fit: "unat e \<le> length D" using arg_cong [OF D, of length] Cons.prems(7) len unat_e by simp
  have De: "drop (unat e) D = concat (map (payload s f) names)"
    using arg_cong [OF D, of "drop (unat (byte_len i))"] len unat_e by (simp add: add.commute)
  have info: "info_ok i" "name \<noteq> ascii ''__metadata__''" using Cons.prems(4) i by auto
  have le: "off \<le> e" using unat_e by (simp add: word_le_nat_alt)
  let ?i = "i\<lparr>data_begin := off, data_end := e\<rparr>"
  have names: "distinct names" "\<And>n i. n \<in> set names \<Longrightarrow> fmlookup (shard_tensors s) n = Some i \<Longrightarrow> info_ok i \<and> n \<noteq> ascii ''__metadata__''"
    "\<And>n. n \<in> set names \<Longrightarrow> copied s f n"
    using Cons.prems(3) Cons.prems(4,5) [OF list.set_intros(2)] by (simp, blast+)
  obtain m' where ih: "unat end_off = length D" "parse_tensors J rest (fmupd name ?i m) = Ok m'"
    "\<forall>n. n \<notin> set names \<longrightarrow> fmlookup m' n = fmlookup (fmupd name ?i m) n"
    "\<forall>n \<in> set names. \<exists>i i'. fmlookup (shard_tensors s) n = Some i \<and> fmlookup m' n = Some i' \<and> relocated i i' \<and>
       data_begin i' \<le> data_end i' \<and> unat (data_end i') \<le> length D \<and>
       take (unat (byte_len i')) (drop (unat (data_begin i')) D) = payload s f n"
    using Cons.IH [OF rest(1) Cons.prems(2) names De fit, of "fmupd name ?i m"] by blast
  have "parse_tensors J header m = Ok m'"
    using rest(2) info ih(2) parse_info_json [OF Cons.prems(2) info(1) le] by simp
  moreover have "fmlookup m' name = Some ?i" using ih(3) Cons.prems(3) by simp
  moreover have "relocated i ?i" "take (unat (byte_len ?i)) (drop (unat (data_begin ?i)) D) = payload s f name"
    using D len e_eq by (simp_all add: relocated_def byte_len_def)
  ultimately show ?case using ih i le fit by auto
qed

lemma distinct_remdups_adj_sorted: "sorted xs \<Longrightarrow> distinct (remdups_adj xs)"
  by (induction xs rule: remdups_adj.induct) (auto simp: antisym)

lemma unique_names:
  "length (remdups_adj (sort names)) = length names \<longleftrightarrow> distinct (names :: bytes list)"
  "distinct (names :: bytes list) \<Longrightarrow> remdups_adj (sort names) = sort names"
proof -
  have "distinct names" if "length (remdups_adj (sort names)) = length names"
    using distinct_remdups_adj_sorted [OF sorted_sort, of names] that
    by (metis card_distinct distinct_card remdups_adj_set set_sort)
  moreover show "distinct names \<Longrightarrow> remdups_adj (sort names) = sort names" by (simp add: remdups_adj_distinct)
  ultimately show "length (remdups_adj (sort names)) = length names \<longleftrightarrow> distinct names" by auto
qed

lemma copy_tensors_to_Ok:
  "copy_tensors_to J s f names = (Ok n, out) \<longleftrightarrow>
     distinct names \<and> (\<forall>name \<in> set names. copied s f name) \<and>
     (\<exists>header t. copy_header J s (sort names) 0 = Ok (header, t) \<and>
        (let bytes = pad_header (to_vec J (JObject header))
         in n = 8 + of_nat (length bytes) + t \<and>
            out = Some (le_bytes 8 (of_nat (length bytes) :: u64) @ bytes @ concat (map (payload s f) (sort names)))))"
proof (cases "distinct names")
  case True
  have "copy_payloads s f (sort names) out0 = (Inr u, out') \<longleftrightarrow>
      (\<forall>n \<in> set names. copied s f n) \<and> out' = out0 @ concat (map (payload s f) (sort names))" for out0 out' u
    using copy_payloads_Ok [of s f "sort names"] by simp
  note copy = this
  show ?thesis
  proof (cases "copy_header J s (sort names) 0")
    case (Inr p)
    obtain header t where p: "p = (header, t)" by fastforce
    let ?bytes = "pad_header (to_vec J (JObject header))"
    let ?r = "copy_payloads s f (sort names) (le_bytes 8 (of_nat (length ?bytes) :: u64) @ ?bytes)"
    show ?thesis
      using True Inr p copy [where ?out0.0 = "le_bytes 8 (of_nat (length ?bytes) :: u64) @ ?bytes"]
      by (cases ?r; cases "fst ?r") (auto simp: copy_tensors_to_def unique_names Let_def)
  qed (use True in \<open>simp add: copy_tensors_to_def unique_names Let_def\<close>)
qed (simp add: copy_tensors_to_def unique_names(1) Let_def)

lemma copied_shard:
  assumes opened: "shard_open J f = Some (Ok s)"
    and copy: "copy_header J s (sort names) 0 = Ok (header, t)" "distinct names" "\<And>name. name \<in> set names \<Longrightarrow> copied s f name"
    and J: "numbers_ok J" "from_slice J bytes = Some (JObject header)"
    and out: "out = le_bytes 8 (of_nat (length bytes) :: u64) @ bytes @ concat (map (payload s f) (sort names))"
    and fits: "length out \<le> max_out" "max_out \<le> i64_max"
  shows "unat t = length out - 8 - length bytes \<and>
    (\<exists>s'. shard_open J \<lparr>contents = out, max_seek = max_out\<rparr> = Some (Ok s') \<and> fmdom' (shard_tensors s') = set names \<and>
    (\<forall>name \<in> set names. \<exists>i i'. fmlookup (shard_tensors s) name = Some i \<and> fmlookup (shard_tensors s') name = Some i' \<and>
       relocated i i' \<and>
       shard_read_tensor s' \<lparr>contents = out, max_seek = max_out\<rparr> name = Some (Ok (payload s f name))))"
proof -
  let ?D = "concat (map (payload s f) (sort names))" let ?len = "of_nat (length bytes) :: u64"
  let ?f = "\<lparr>contents = out, max_seek = max_out\<rparr>"
  have small: "8 + length bytes + length ?D \<le> i64_max" using out fits by simp
  have i64: "i64_max < usize_max" "i64_max < 2 ^ 64" by (simp_all add: i64_max_def usize_max_def)
  have len: "unat ?len = length bytes" using small i64 by (intro unat_of_nat_u64) simp
  have start: "unat (8 + ?len) = 8 + length bytes" using small i64 len by (simp add: unat_add_u64)
  have hdr: "from_le_bytes (take 8 out) = ?len" "take (unat ?len) (drop 8 out) = bytes"
    using out len by (simp_all add: from_le_bytes_le_bytes)
  have "unat t = length ?D \<and> (\<exists>m'. parse_tensors J header fmempty = Ok m' \<and>
    (\<forall>n. n \<notin> set (sort names) \<longrightarrow> fmlookup m' n = fmlookup fmempty n) \<and>
    (\<forall>n \<in> set (sort names). \<exists>i i'. fmlookup (shard_tensors s) n = Some i \<and> fmlookup m' n = Some i' \<and> relocated i i' \<and>
       data_begin i' \<le> data_end i' \<and> unat (data_end i') \<le> length ?D \<and>
       take (unat (byte_len i')) (drop (unat (data_begin i')) ?D) = payload s f n))"
    using copy J(1) shard_open_info [OF opened] by (intro copy_header_parsed [where off = 0]) simp_all
  then obtain m' where t: "unat t = length ?D" and m': "parse_tensors J header fmempty = Ok m'"
    "\<forall>n. n \<notin> set names \<longrightarrow> fmlookup m' n = None"
    "\<forall>n \<in> set names. \<exists>i i'. fmlookup (shard_tensors s) n = Some i \<and> fmlookup m' n = Some i' \<and> relocated i i' \<and>
       data_begin i' \<le> data_end i' \<and> unat (data_end i') \<le> length ?D \<and>
       take (unat (byte_len i')) (drop (unat (data_begin i')) ?D) = payload s f n"
    by auto
  let ?s = "\<lparr>data_start = 8 + ?len, shard_tensors = m'\<rparr>"
  have "shard_open J ?f = Some (Ok ?s)"
    unfolding shard_open_eq using J(2) m'(1) hdr len small i64 out by simp
  moreover have "fmdom' m' = set names" using m'(2,3) by (auto simp: fmdom'_alt_def fmlookup_dom_iff)
  moreover have "shard_read_tensor ?s ?f name = Some (Ok (payload s f name))"
    if "fmlookup m' name = Some i'" "data_begin i' \<le> data_end i'" "unat (data_end i') \<le> length ?D"
      "take (unat (byte_len i')) (drop (unat (data_begin i')) ?D) = payload s f name" for name i'
  proof -
    have bl: "unat (byte_len i') = unat (data_end i') - unat (data_begin i')"
      using that(2) by (simp add: byte_len_def unat_sub word_le_nat_alt)
    have le: "unat (data_begin i') \<le> unat (data_end i')" using that(2) by (simp add: word_le_nat_alt)
    have pos: "unat (8 + ?len + data_begin i') = 8 + length bytes + unat (data_begin i')"
      using start small i64 that(3) le by (subst unat_add_u64) simp_all
    have "drop (8 + length bytes + unat (data_begin i')) out = drop (unat (data_begin i')) ?D"
      using out by simp
    then show ?thesis
      using that bl le pos small fits out by (subst shard_read_tensor_eq [OF _ ]) auto
  qed
  ultimately show ?thesis using m'(3) t out by fastforce
qed

section \<open>The shard cache\<close>

text \<open>Opening a tensor's shard without the cache.\<close>

definition open_uncached :: "'n JsonLib \<Rightarrow> Directory \<Rightarrow> SafeTensorCheckpoint \<Rightarrow> bytes \<Rightarrow> SafeTensorShard result option" where
  "open_uncached J d c tensor =
     (case fmlookup (weight_map c) tensor of
        None \<Rightarrow> Some (Err (Format ''safetensors index lookup''))
      | Some name \<Rightarrow> open_shard J d name)"

definition cache_true :: "'n JsonLib \<Rightarrow> Directory \<Rightarrow> SafeTensorCheckpoint \<Rightarrow> bool" where
  "cache_true J d c \<longleftrightarrow> (\<forall>name s. fmlookup (shards c) name = Some s \<longrightarrow> open_shard J d name = Some (Ok s))"

inductive checkpoint_reachable :: "'n JsonLib \<Rightarrow> Directory \<Rightarrow> SafeTensorCheckpoint \<Rightarrow> bool" for J d where
  opened: "checkpoint_open J d = Some (Ok c) \<Longrightarrow> checkpoint_reachable J d c"
| used: "checkpoint_reachable J d c \<Longrightarrow> open_shard_for_tensor J d c tensor = Some (r, c') \<Longrightarrow> checkpoint_reachable J d c'"

lemma open_shard_for_tensor_step:
  assumes "cache_true J d c"
  shows "map_option fst (open_shard_for_tensor J d c tensor) = open_uncached J d c tensor"
    and "open_shard_for_tensor J d c tensor = Some (r, c') \<Longrightarrow>
      cache_true J d c' \<and> weight_map c' = weight_map c \<and> fmdom' (shards c) \<subseteq> fmdom' (shards c') \<and>
      (\<forall>s. r = Ok s \<longrightarrow> (\<exists>name. fmlookup (weight_map c) tensor = Some name \<and> fmlookup (shards c') name = Some s))"
  using assms
  by (auto simp: open_shard_for_tensor_def shard_name_for_tensor_def open_uncached_def cache_true_def ok_or_def
      split: option.splits sum.splits if_splits)

lemma checkpoint_open_cases:
  assumes "checkpoint_open J d = Some (Ok c)"
  shows "cache_true J d c" "fmdom' (shards c) \<subseteq> fmran' (weight_map c) \<union> {ascii ''model.safetensors''}"
  using assms
  by (auto simp: checkpoint_open_def cache_true_def bind_panic_eq_Ok result_simps Let_def fmdom'_alt_def
      split: option.splits if_splits)

lemma reachable_cache_true: "checkpoint_reachable J d c \<Longrightarrow> cache_true J d c"
  by (induction rule: checkpoint_reachable.induct) (auto simp: checkpoint_open_cases open_shard_for_tensor_step)

section \<open>Properties\<close>

text \<open>C34: a filtered copy is faithful. When a shard was opened and a copy of some of its tensors succeeds, the
  number returned is the length of the new file, that file opens as a shard with exactly the named tensors, and
  each of them has the type, the shape and the bytes it has in the source. The JSON library is relied upon to
  keep a \<open>u64\<close> as a number and to read the header it printed when blanks follow.\<close>

theorem copy_tensors_faithful:
  assumes "shard_open J f = Some (Ok s)" "copy_tensors_to J s f names = (Ok n, Some out)"
    and "\<forall>x. number_u64 J (number_of J x) = Some x"
    and "\<forall>header t k. copy_header J s (sort names) 0 = Ok (header, t) \<longrightarrow>
      from_slice J (to_vec J (JObject header) @ replicate k 0x20) = Some (JObject header)"
    and "length out \<le> max_out" "max_out \<le> i64_max"
  shows "unat n = length out \<and> distinct names \<and>
    (\<exists>s'. shard_open J \<lparr>contents = out, max_seek = max_out\<rparr> = Some (Ok s') \<and> fmdom' (shard_tensors s') = set names \<and>
      (\<forall>name \<in> set names. \<exists>i i' bs.
         require_tensor s name = Ok i \<and> require_tensor s' name = Ok i' \<and> dtype i' = dtype i \<and> shape i' = shape i \<and>
         shard_read_tensor s f name = Some (Ok bs) \<and>
         shard_read_tensor s' \<lparr>contents = out, max_seek = max_out\<rparr> name = Some (Ok bs)))"
proof -
  obtain header t where h: "copy_header J s (sort names) 0 = Ok (header, t)" and "distinct names"
    and copied: "\<And>name. name \<in> set names \<Longrightarrow> copied s f name"
    and n: "n = 8 + of_nat (length (pad_header (to_vec J (JObject header)))) + t"
    and out: "out = le_bytes 8 (of_nat (length (pad_header (to_vec J (JObject header)))) :: u64) @
      pad_header (to_vec J (JObject header)) @ concat (map (payload s f) (sort names))"
    using assms(2) unfolding copy_tensors_to_Ok by (auto simp: Let_def)
  let ?bytes = "pad_header (to_vec J (JObject header))"
  have parse: "from_slice J ?bytes = Some (JObject header)" using pad_header_eq [of "to_vec J (JObject header)"] assms(4) h by metis
  note shard = copied_shard [OF assms(1) h \<open>distinct names\<close> copied _ parse out assms(5,6)]
  have "8 + length ?bytes + unat t < 2 ^ 64"
    using shard assms(3,5,6) out by (simp add: numbers_ok_def i64_max_def)
  then have "unat n = 8 + length ?bytes + unat t"
    using n unat_of_nat_u64 [of "length ?bytes"] by (simp add: unat_add_u64 usize_max_def)
  then have "unat n = length out" using shard assms(3) out by (simp add: numbers_ok_def)
  moreover have "shard_read_tensor s f name = Some (Ok (payload s f name))" if "name \<in> set names" for name
  proof -
    have "length (payload s f name) \<le> length out"
      using out that member_le_sum_list [of "length (payload s f name)" "map (length \<circ> payload s f) (sort names)"]
      by (force simp: length_concat)
    then show ?thesis using copied [OF that] assms(5,6) by (intro copied_read) simp_all
  qed
  ultimately show ?thesis using shard assms(3) \<open>distinct names\<close> by (fastforce simp: numbers_ok_def relocated_def)
qed

text \<open>C35: what \<open>read_tensor_byte_range\<close> returns is the requested slice of the tensor's range in the file, provided
  that range exists; and for every tensor whose absolute end fits a \<open>u64\<close>, the read succeeds exactly when the
  slice lies inside the tensor and inside the file.\<close>

theorem read_range_is_slice:
  assumes "shard_open J f = Some (Ok s)" "tensor_file_range s name = Ok (b, e)"
    and "length (contents f) \<le> max_seek f" "max_seek f \<le> i64_max" "len > 0" "len \<le> i64_max"
  shows "read_tensor_byte_range s f name off len =
    (if unat b + unat off + len \<le> unat e \<and> unat b + unat off + len \<le> length (contents f)
     then Some (Ok (take len (drop (unat b + unat off) (contents f))))
     else if unat b + unat off + len \<le> unat e
     then Some (Err (if unat b + unat off \<le> max_seek f then Format ''safetensors tensor read'' else Format ''safetensors seek''))
     else Some (Err (Shape ''safetensors tensor byte range'')))"
proof -
  obtain i where i: "fmlookup (shard_tensors s) name = Some i"
    and b: "b = data_start s + data_begin i" "unat b = unat (data_start s) + unat (data_begin i)"
    and e: "unat e = unat (data_start s) + unat (data_end i)"
    using assms(2) by (auto simp: tensor_file_range_def result_simps checked_add_u64_def unat_add_u64 split: if_splits)
  have "info_ok i" using shard_open_info(1) [OF assms(1) i] .
  then have bl: "unat (byte_len i) = unat e - unat b" "unat b \<le> unat e"
    using b e by (simp_all add: info_ok_def byte_len_def unat_sub word_le_nat_alt)
  have len: "unat (of_nat len :: u64) = len" using assms(6) by (intro unat_of_nat_u64) (simp add: i64_max_def usize_max_def)
  have i': "require_tensor s name = Ok i" using i by simp
  have e64: "unat e < 2 ^ 64" using unsigned_less [of e] by simp
  show ?thesis
  proof (cases "unat b + unat off + len \<le> unat e")
    case True
    have add: "checked_add_u64 off (of_nat len) = Some (off + of_nat len)" "unat (off + of_nat len) = unat off + len"
      using True e64 len by (simp_all add: checked_add_u64_def unat_add_u64)
    have pos: "unat (data_start s + data_begin i + off) = unat b + unat off"
      using True e64 b by (subst b(1) [symmetric], subst unat_add_u64) simp_all
    show ?thesis
      using True add bl pos assms(3-6) i' unfolding read_tensor_byte_range_def
      by (auto simp: word_less_nat_alt seek_start_def read_alloc_def read_at_def read_exact_def i')
  next
    case False
    have "e' > byte_len i" if "checked_add_u64 off (of_nat len) = Some e'" for e'
    proof -
      have "unat e' = unat off + len" using that len by (auto simp: checked_add_u64_def unat_add_u64 split: if_splits)
      then show ?thesis using False bl by (simp add: word_less_nat_alt)
    qed
    then show ?thesis
      using False i' by (cases "checked_add_u64 off (of_nat len)") (simp_all add: read_tensor_byte_range_def i')
  qed
qed

text \<open>The file range of a tensor is not checked when its bytes are read. A tensor whose absolute offset
  exceeds a \<open>u64\<close> has no file range, yet reading it returns the bytes at the offset modulo \<open>2 ^ 64\<close>, which lie in
  the header of the file.\<close>

theorem wrapped_range_reads_header:
  assumes "require_tensor s name = Ok i" "2 ^ 64 \<le> unat (data_start s) + unat (data_begin i)"
    and "pos = unat (data_start s) + unat (data_begin i) - 2 ^ 64"
    and "pos + unat (byte_len i) \<le> length (contents f)" "length (contents f) \<le> max_seek f" "max_seek f \<le> i64_max"
  shows "tensor_file_range s name = Err (Shape ''safetensors tensor file range'') \<and>
    pos < unat (data_start s) \<and>
    shard_read_tensor s f name = Some (Ok (take (unat (byte_len i)) (drop pos (contents f))))"
proof -
  have lt: "unat (data_start s) < 2 ^ 64" "unat (data_begin i) < 2 ^ 64"
    using unsigned_less [of "data_start s"] unsigned_less [of "data_begin i"] by simp_all
  have "unat (data_start s + data_begin i) = (unat (data_start s) + unat (data_begin i)) mod 2 ^ 64"
    by (simp add: unat_word_ariths)
  also have "\<dots> = pos" using assms(2,3) lt by (simp add: mod_if)
  finally have "unat (data_start s + data_begin i) = pos" .
  moreover have "tensor_file_range s name = Err (Shape ''safetensors tensor file range'')"
    unfolding tensor_file_range_def assms(1) using assms(2) by (simp add: checked_add_u64_def)
  ultimately show ?thesis using assms lt by (auto simp: shard_read_tensor_eq)
qed


section \<open>Examples\<close>

text \<open>A shard with two tensors and a JSON library that knows its header and the one of the copy.\<close>

definition demo_source_text :: bytes where
  \<open>demo_source_text = ascii ''{"keep":{"data_offsets":[6,10],"dtype":"U8","shape":[4]},"large":{"data_offsets":[0,6],"dtype":"U8","shape":[6]}}''\<close>

definition demo_copy_text :: bytes where
  \<open>demo_copy_text = ascii ''{"keep":{"data_offsets":[0,4],"dtype":"U8","shape":[4]}}''\<close>

definition demo_entry :: "u64 \<Rightarrow> u64 \<Rightarrow> u64 Json" where
  "demo_entry b e = JObject
     [(ascii ''data_offsets'', JArray [JNumber b, JNumber e]), (ascii ''dtype'', JString (ascii ''U8'')),
      (ascii ''shape'', JArray [JNumber (e - b)])]"

definition demo_source_json :: "u64 Json" where
  "demo_source_json = JObject [(ascii ''keep'', demo_entry 6 10), (ascii ''large'', demo_entry 0 6)]"

definition demo_copy_json :: "u64 Json" where
  "demo_copy_json = JObject [(ascii ''keep'', demo_entry 0 4)]"

definition trim_blanks :: "bytes \<Rightarrow> bytes" where
  "trim_blanks bs = rev (dropWhile (\<lambda>b. b = 0x20) (rev bs))"

definition demo_json :: "u64 JsonLib" where
  "demo_json =
     \<lparr>from_slice = (\<lambda>bs. if trim_blanks bs = demo_copy_text then Some demo_copy_json
        else if trim_blanks bs = demo_source_text then Some demo_source_json else None),
      to_vec = (\<lambda>v. if v = demo_copy_json then demo_copy_text else []),
      number_u64 = Some, number_of = (\<lambda>x. x)\<rparr>"

definition demo_info :: "u64 \<Rightarrow> u64 \<Rightarrow> SafeTensorInfo" where
  "demo_info b e = \<lparr>dtype = ascii ''U8'', shape = [unat (e - b)], data_begin = b, data_end = e\<rparr>"

definition demo_shard_file :: File where
  "demo_shard_file =
     \<lparr>contents = le_bytes 8 (113 :: u64) @ demo_source_text @ [1, 2, 3, 4, 5, 6, 7, 8, 9, 10], max_seek = i64_max\<rparr>"

definition demo_shard :: SafeTensorShard where
  "demo_shard = \<lparr>data_start = 121, shard_tensors =
     fmupd (ascii ''large'') (demo_info 0 6) (fmupd (ascii ''keep'') (demo_info 6 10) fmempty)\<rparr>"

lemma demo_text_length: "length demo_source_text = 113" "length demo_copy_text = 56"
  by (simp_all add: demo_source_text_def demo_copy_text_def ascii_def)

lemma trim_blanks_append: "bs \<noteq> [] \<Longrightarrow> last bs \<noteq> 0x20 \<Longrightarrow> trim_blanks (bs @ replicate k 0x20) = bs"
  by (cases bs rule: rev_exhaust) (auto simp: trim_blanks_def dropWhile_append)

lemma demo_trim:
  "trim_blanks (demo_copy_text @ replicate k 0x20) = demo_copy_text"
  "trim_blanks demo_source_text = demo_source_text"
  "demo_source_text \<noteq> demo_copy_text"
proof -
  show "trim_blanks (demo_copy_text @ replicate k 0x20) = demo_copy_text"
    by (rule trim_blanks_append) (simp_all add: demo_copy_text_def ascii_def)
  show "trim_blanks demo_source_text = demo_source_text"
    using trim_blanks_append [of demo_source_text 0] by (simp add: demo_source_text_def ascii_def)
  show "demo_source_text \<noteq> demo_copy_text" using demo_text_length by fastforce
qed

lemma demo_opened: "shard_open demo_json demo_shard_file = Some (Ok demo_shard)"
proof -
  have "parse_tensors demo_json [(ascii ''keep'', demo_entry 6 10), (ascii ''large'', demo_entry 0 6)] fmempty
    = Ok (shard_tensors demo_shard)"
    by (simp add: demo_shard_def demo_entry_def parse_tensor_info_def demo_json_def demo_info_def ascii_def)
  then show ?thesis
    by (simp add: shard_open_eq demo_shard_file_def demo_text_length from_le_bytes_le_bytes demo_json_def demo_trim
        demo_source_json_def demo_shard_def i64_max_def)
qed

definition demo_copy :: bytes where
  "demo_copy = le_bytes 8 (56 :: u64) @ demo_copy_text @ [7, 8, 9, 10]"

lemma demo_numbers: "number_u64 demo_json (number_of demo_json x) = Some x"
  by (simp add: demo_json_def)

lemma demo_header: "copy_header demo_json demo_shard [ascii ''keep''] 0 = Ok ([(ascii ''keep'', demo_entry 0 4)], 4)"
proof -
  have "require_tensor demo_shard (ascii ''keep'') = Ok (demo_info 6 10)" by (simp add: demo_shard_def ascii_def)
  moreover have "byte_len (demo_info 6 10) = 4" by (simp add: demo_info_def byte_len_def)
  moreover have "info_json demo_json (demo_info 6 10) 0 4 = demo_entry 0 4"
    by (simp add: demo_info_def info_json_def demo_entry_def demo_json_def)
  ultimately show ?thesis by (simp add: checked_add_u64_def del: require_tensor_eq)
qed

lemma demo_print: "to_vec demo_json (JObject [(ascii ''keep'', demo_entry 0 4)]) = demo_copy_text"
  by (simp add: demo_json_def demo_copy_json_def)

lemma demo_parse: "from_slice demo_json (demo_copy_text @ replicate k 0x20) = Some demo_copy_json"
  by (simp add: demo_json_def demo_trim)

lemma demo_keep: "fmlookup (shard_tensors demo_shard) (ascii ''keep'') = Some (demo_info 6 10)"
  by (simp add: demo_shard_def ascii_def)

lemma demo_tail: "drop 127 (contents demo_shard_file) = [7, 8, 9, 10]" "length (contents demo_shard_file) = 131"
  by (simp_all add: demo_shard_file_def demo_text_length)

lemma demo_keep_payload: "copied demo_shard demo_shard_file (ascii ''keep'')" "payload demo_shard demo_shard_file (ascii ''keep'') = [7, 8, 9, 10]"
proof -
  have "unat (data_start demo_shard + data_begin (demo_info 6 10)) = 127" "unat (byte_len (demo_info 6 10)) = 4"
    by (simp_all add: demo_shard_def demo_info_def byte_len_def)
  moreover have "max_seek demo_shard_file = i64_max" by (simp add: demo_shard_file_def)
  ultimately show "copied demo_shard demo_shard_file (ascii ''keep'')" "payload demo_shard demo_shard_file (ascii ''keep'') = [7, 8, 9, 10]"
    using demo_keep demo_tail by (simp_all add: copied_def payload_def i64_max_def)
qed

lemma demo_copied: "copy_tensors_to demo_json demo_shard demo_shard_file [ascii ''keep''] = (Ok 68, Some demo_copy)"
proof -
  have "pad_header demo_copy_text = demo_copy_text" by (simp add: pad_header.simps demo_text_length)
  then show ?thesis
    unfolding copy_tensors_to_Ok using demo_header demo_print demo_keep_payload demo_text_length
    by (simp add: Let_def demo_copy_def)
qed

theorem copy_tensors_faithful_witness:
  "\<exists>s'. shard_open demo_json \<lparr>contents = demo_copy, max_seek = i64_max\<rparr> = Some (Ok s') \<and>
     fmdom' (shard_tensors s') = {ascii ''keep''} \<and>
     shard_read_tensor s' \<lparr>contents = demo_copy, max_seek = i64_max\<rparr> (ascii ''keep'') = Some (Ok [7, 8, 9, 10])"
proof -
  have json: "\<forall>header t k. copy_header demo_json demo_shard (sort [ascii ''keep'']) 0 = Ok (header, t) \<longrightarrow>
      from_slice demo_json (to_vec demo_json (JObject header) @ replicate k 0x20) = Some (JObject header)"
    using demo_header demo_print demo_parse by (auto simp: demo_copy_json_def)
  have small: "length demo_copy \<le> i64_max" by (simp add: demo_copy_def demo_text_length i64_max_def)
  have "shard_read_tensor demo_shard demo_shard_file (ascii ''keep'') = Some (Ok [7, 8, 9, 10])"
    using copied_read [OF demo_keep_payload(1)] demo_keep_payload(2) by (simp add: i64_max_def)
  then show ?thesis
    using copy_tensors_faithful [OF demo_opened demo_copied _ json small order_refl] demo_numbers by auto
qed

theorem read_range_is_slice_witness:
  "tensor_file_range demo_shard (ascii ''keep'') = Ok (127, 131) \<and>
   read_tensor_byte_range demo_shard demo_shard_file (ascii ''keep'') 1 2 = Some (Ok [8, 9])"
proof -
  have range: "tensor_file_range demo_shard (ascii ''keep'') = Ok (127, 131)"
    unfolding tensor_file_range_def require_tensor_eq [THEN iffD2, OF demo_keep]
    by (simp add: demo_shard_def demo_info_def checked_add_u64_def)
  have "drop 128 (contents demo_shard_file) = [8, 9, 10]"
    using arg_cong [OF demo_tail(1), of "drop 1"] by simp
  moreover have "max_seek demo_shard_file = i64_max" "(131 :: nat) \<le> i64_max" by (simp_all add: demo_shard_file_def i64_max_def)
  ultimately show ?thesis
    using read_range_is_slice [OF demo_opened range, of 2 1] range demo_tail(2) by simp
qed

definition demo_wrapped :: SafeTensorShard where
  "demo_wrapped = \<lparr>data_start = 121, shard_tensors = fmupd (ascii ''w'') (demo_info (- 113) (- 109)) fmempty\<rparr>"

theorem wrapped_range_reads_header_witness:
  "tensor_file_range demo_wrapped (ascii ''w'') = Err (Shape ''safetensors tensor file range'') \<and>
   shard_read_tensor demo_wrapped demo_shard_file (ascii ''w'') = Some (Ok (take 4 demo_source_text))"
proof -
  have i: "require_tensor demo_wrapped (ascii ''w'') = Ok (demo_info (- 113) (- 109))" by (simp add: demo_wrapped_def)
  have "unat (- 113 :: u64) = 2 ^ 64 - 113" by simp
  then have begin_at: "unat (data_start demo_wrapped) + unat (data_begin (demo_info (- 113) (- 109))) = 2 ^ 64 + 8"
    by (simp add: demo_wrapped_def demo_info_def)
  have len: "unat (byte_len (demo_info (- 113) (- 109))) = 4" by (simp add: demo_info_def byte_len_def)
  have "take 4 (drop 8 (contents demo_shard_file)) = take 4 demo_source_text"
    by (simp add: demo_shard_file_def demo_text_length)
  moreover have "max_seek demo_shard_file = i64_max" "(131 :: nat) \<le> i64_max" by (simp_all add: demo_shard_file_def i64_max_def)
  ultimately show ?thesis
    using wrapped_range_reads_header [OF i, unfolded begin_at len, where pos = 8 and f = demo_shard_file]
    by (simp add: demo_tail(2) del: require_tensor_eq)
qed

definition demo_directory :: Directory where
  "demo_directory name = (if name = ascii ''model.safetensors'' then Some demo_shard_file else None)"


end
