(* ===== verification/Modelopt.thy ===== *)
theory Modelopt
  imports Ggml_Quant Safetensors
begin

text \<open>
  Import of ModelOpt checkpoints, the loading half of \<open>crates/eider-format/src/modelopt.rs\<close>: the codes of
  the eight-bit and four-bit float formats, the validation of shapes and byte counts, and the loaders that
  collect the tensors of one linear from the shards of a checkpoint.

  A loader takes the checkpoint, whose shard cache it may extend, and returns its result with the new
  checkpoint; \<open>None\<close> is a panic. The directory does not change while it is read. A product of \<open>usize\<close> that the
  source does not check wraps around, as it does in the release profile. Single-precision operations are the
  argument \<open>FloatOps\<close>; comparisons, signs and magnitudes are read off the bits.
\<close>

section \<open>Small floats\<close>

record FloatOps = Arith +
  quotient :: "f32 \<Rightarrow> f32 \<Rightarrow> f32"
  power_two :: "int \<Rightarrow> f32"

definition f32_key :: "f32 \<Rightarrow> int" where
  "f32_key w = (if bit w 31 then - uint (w AND 0x7FFFFFFF) else uint (w AND 0x7FFFFFFF))"

definition f32_lt :: "f32 \<Rightarrow> f32 \<Rightarrow> bool" where
  "f32_lt a b \<longleftrightarrow> \<not> f32_is_nan a \<and> \<not> f32_is_nan b \<and> f32_key a < f32_key b"

definition f32_eq :: "f32 \<Rightarrow> f32 \<Rightarrow> bool" where
  "f32_eq a b \<longleftrightarrow> \<not> f32_is_nan a \<and> \<not> f32_is_nan b \<and> f32_key a = f32_key b"

definition f32_abs :: "f32 \<Rightarrow> f32" where "f32_abs w = w AND 0x7FFFFFFF"
definition f32_neg :: "f32 \<Rightarrow> f32" where "f32_neg w = w XOR 0x80000000"
definition f32_one :: f32 where "f32_one = 0x3F800000"
definition f32_nan :: f32 where "f32_nan = 0x7FC00000"

definition e4m3_value :: "FloatOps \<Rightarrow> u8 \<Rightarrow> f32" where
  "e4m3_value F code =
     (let sign = (if code AND 0x80 = 0 then f32_one else f32_neg f32_one);
          exponent = drop_bit 3 code AND 0x0F;
          mantissa = code AND 7
      in if exponent = 0 then mul F (mul F sign (of_integer F (uint mantissa))) (power_two F (- 9))
         else if exponent = 0x0F \<and> mantissa = 7 then f32_nan
         else mul F (mul F sign (add F f32_one (quotient F (of_integer F (uint mantissa)) 0x41000000)))
                (power_two F (uint exponent - 7)))"

definition e8m0_value :: "FloatOps \<Rightarrow> u8 \<Rightarrow> f32" where
  "e8m0_value F code = (if code = 0xFF then f32_nan else power_two F (uint code - 127))"

text \<open>The nearest code in a list of candidates, a tie going to an even code.\<close>

fun nearest_code :: "FloatOps \<Rightarrow> f32 \<Rightarrow> (u8 \<times> f32) list \<Rightarrow> u8 \<Rightarrow> f32 \<Rightarrow> u8" where
  "nearest_code F v [] best err = best"
| "nearest_code F v ((code, candidate) # rest) best err =
     (let e = f32_abs (sub F v candidate)
      in if f32_lt e err \<or> f32_eq e err \<and> code AND 1 = 0 \<and> best AND 1 = 1
         then nearest_code F v rest code e else nearest_code F v rest best err)"

definition ue4m3_code :: "FloatOps \<Rightarrow> f32 \<Rightarrow> u8" where
  "ue4m3_code F v =
     (if \<not> f32_is_finite v \<or> f32_le_zero v then 0
      else nearest_code F v (map (\<lambda>n. (of_nat n, e4m3_value F (of_nat n))) [1..<0x7F]) 0 (f32_abs v))"

definition e2m1_magnitudes :: "f32 list" where
  "e2m1_magnitudes =
     [0, 0x3F000000, 0x3F800000, 0x3FC00000, 0x40000000, 0x40400000, 0x40800000, 0x40C00000]"

definition e2m1_code :: "FloatOps \<Rightarrow> f32 \<Rightarrow> u8" where
  "e2m1_code F v =
     (if f32_is_nan v then 7
      else
        (let sign = (if bit v 31 then 8 else 0)
         in if f32_lt 0x40C00000 (f32_abs v) then sign OR 7
            else sign OR nearest_code F (f32_abs v) (zip (map of_nat [0..<8]) e2m1_magnitudes) 0 0x7F800000))"

definition e2m1_value :: "u8 \<Rightarrow> f32" where
  "e2m1_value code =
     (let magnitude = e2m1_magnitudes ! unat (code AND 7)
      in if code AND 8 = 0 then magnitude else f32_neg magnitude)"

section \<open>Validation\<close>

definition wrapping_mul :: "nat \<Rightarrow> nat \<Rightarrow> nat" where
  "wrapping_mul a b = a * b mod 2 ^ 64"

definition checked_elements :: "string \<Rightarrow> nat \<Rightarrow> nat \<Rightarrow> nat result" where
  "checked_elements label out_n in_n = ok_or (checked_mul out_n in_n) (Shape label)"

definition validate_k16_shape :: "string \<Rightarrow> nat \<Rightarrow> nat \<Rightarrow> unit result" where
  "validate_k16_shape label out_n in_n =
     (if out_n = 0 \<or> in_n = 0 \<or> \<not> 16 dvd in_n then Err (Shape label) else Ok ())"

definition validate_nvfp4_weight :: "SafeTensorInfo \<Rightarrow> (nat \<times> nat) result" where
  "validate_nvfp4_weight info =
     (if dtype info \<noteq> ascii ''U8'' \<or> length (shape info) \<noteq> 2 then Err (Shape ''ModelOpt NVFP4 weight'')
      else
        bind_result (ok_or (checked_mul (shape info ! 1) 2) (Shape ''ModelOpt NVFP4 weight'')) (\<lambda>in_n.
        bind_result (validate_k16_shape ''ModelOpt NVFP4 weight'' (shape info ! 0) in_n) (\<lambda>_.
        if byte_len info \<noteq> of_nat (wrapping_mul (shape info ! 0) in_n div 2)
        then Err (Shape ''ModelOpt NVFP4 weight bytes'')
        else Ok (shape info ! 0, in_n))))"

definition validate_nvfp4_scales :: "SafeTensorInfo \<Rightarrow> nat \<Rightarrow> nat \<Rightarrow> unit result" where
  "validate_nvfp4_scales info out_n in_n =
     (if dtype info \<noteq> ascii ''F8_E4M3'' \<or> shape info \<noteq> [out_n, in_n div 16] \<or>
         byte_len info \<noteq> of_nat (wrapping_mul out_n in_n div 16)
      then Err (Shape ''ModelOpt NVFP4 weight_scale'') else Ok ())"

definition validate_fp8_weight :: "SafeTensorInfo \<Rightarrow> (nat \<times> nat) result" where
  "validate_fp8_weight info =
     (if dtype info \<noteq> ascii ''F8_E4M3'' \<or> length (shape info) \<noteq> 2 \<or> 0 \<in> set (shape info) \<or>
         byte_len info \<noteq> of_nat (wrapping_mul (shape info ! 0) (shape info ! 1))
      then Err (Shape ''ModelOpt FP8 weight'') else Ok (shape info ! 0, shape info ! 1))"

definition validate_nvfp4_expert_weight :: "SafeTensorInfo \<Rightarrow> (nat \<times> nat \<times> nat) result" where
  "validate_nvfp4_expert_weight info =
     (if dtype info \<noteq> ascii ''U8'' \<or> length (shape info) \<noteq> 3 then Err (Shape ''ModelOpt NVFP4 expert weight'')
      else
        (let experts = shape info ! 0; out_n = shape info ! 1 in
        bind_result (ok_or (checked_mul (shape info ! 2) 2) (Shape ''ModelOpt NVFP4 expert weight'')) (\<lambda>in_n.
        bind_result (ok_or (Option.bind (checked_mul experts out_n) (\<lambda>n. map_option (\<lambda>n. n div 2) (checked_mul n in_n)))
          (Shape ''ModelOpt NVFP4 expert weight'')) (\<lambda>expected.
        if experts = 0 \<or> out_n = 0 \<or> in_n = 0 \<or> \<not> 16 dvd in_n \<or> byte_len info \<noteq> of_nat expected
        then Err (Shape ''ModelOpt NVFP4 expert weight bytes'')
        else Ok (experts, out_n, in_n)))))"

definition validate_nvfp4_expert_scales :: "SafeTensorInfo \<Rightarrow> nat \<Rightarrow> nat \<Rightarrow> nat \<Rightarrow> unit result" where
  "validate_nvfp4_expert_scales info experts out_n in_n =
     (if dtype info \<noteq> ascii ''F8_E4M3'' \<or> shape info \<noteq> [experts, out_n, in_n div 16] \<or>
         byte_len info \<noteq> of_nat (wrapping_mul (wrapping_mul experts out_n) in_n div 16)
      then Err (Shape ''ModelOpt NVFP4 expert weight_scale'') else Ok ())"

definition validate_block_scaled_fp8_scales :: "SafeTensorInfo \<Rightarrow> nat \<Rightarrow> nat \<Rightarrow> bytes list \<Rightarrow> unit result" where
  "validate_block_scaled_fp8_scales info out_n in_n dtypes =
     (if \<not> 128 dvd out_n \<or> \<not> 128 dvd in_n then Err (Shape ''ModelOpt block-scaled FP8 dimensions'')
      else if dtype info \<notin> set dtypes \<or> shape info \<noteq> [out_n div 128, in_n div 128] \<or>
         byte_len info \<noteq> of_nat (wrapping_mul (out_n div 128) (in_n div 128))
      then Err (Shape ''ModelOpt block-scaled FP8 scale'') else Ok ())"

definition validate_float_block_scaled_fp8_scales :: "SafeTensorInfo \<Rightarrow> nat \<Rightarrow> nat \<Rightarrow> unit result" where
  "validate_float_block_scaled_fp8_scales info out_n in_n =
     (if \<not> 128 dvd out_n \<or> \<not> 128 dvd in_n then Err (Shape ''ModelOpt block-scaled FP8 dimensions'')
      else
        (let element_bytes =
               (if dtype info = ascii ''BF16'' then 2 else if dtype info = ascii ''F32'' then 4 else 0);
             expected = wrapping_mul (wrapping_mul (out_n div 128) (in_n div 128)) element_bytes
         in if element_bytes = 0 \<or> shape info \<noteq> [out_n div 128, in_n div 128] \<or> byte_len info \<noteq> of_nat expected
            then Err (Shape ''ModelOpt block-scaled FP8 floating-point scale'') else Ok ()))"

section \<open>Records and shards\<close>

record ModelOptFp8Linear =
  fp8_prefix :: bytes
  fp8_out_features :: nat
  fp8_in_features :: nat
  fp8_weight :: bytes
  fp8_weight_scale :: f32
  channel_weight_scale :: "f32 list option"
  fp8_input_scale :: "f32 option"

record 's ModelOptBlockScaledFp8Linear =
  block_prefix :: bytes
  block_out_features :: nat
  block_in_features :: nat
  block_weight :: bytes
  block_weight_scale :: 's

record ModelOptGgmlLinear =
  ggml_format :: GgmlBlockFormat
  ggml_out_features :: nat
  ggml_in_features :: nat
  ggml_packed :: bytes

definition suffixed :: "bytes \<Rightarrow> string \<Rightarrow> bytes" where
  "suffixed pre suf = pre @ ascii ''.'' @ ascii suf"

definition read_single_f32 :: "SafeTensorShard \<Rightarrow> File \<Rightarrow> bytes \<Rightarrow> string \<Rightarrow> f32 result option" where
  "read_single_f32 s f name label =
     bind_panic (read_float_tensor_as_f32 s f name) (\<lambda>vs.
       Some (if length vs \<noteq> 1 then Err (Shape label) else Ok (vs ! 0)))"

definition reciprocal_scale :: "FloatOps \<Rightarrow> f32 \<Rightarrow> string \<Rightarrow> f32 result" where
  "reciprocal_scale F v label =
     (if \<not> f32_is_finite v \<or> f32_le_zero v then Err (Format label) else Ok (quotient F f32_one v))"

definition shard_input_scale_or_unity :: "SafeTensorShard \<Rightarrow> File \<Rightarrow> bytes \<Rightarrow> f32 result option" where
  "shard_input_scale_or_unity s f name =
     (if fmlookup (shard_tensors s) name = None then Some (Ok f32_one) else read_scalar_f32 s f name)"

definition nvfp4_from_shard :: "SafeTensorShard \<Rightarrow> File \<Rightarrow> bytes \<Rightarrow> ModelOptNvfp4Linear result option" where
  "nvfp4_from_shard s f pre =
     (let weight_name = suffixed pre ''weight''; scale_name = suffixed pre ''weight_scale'' in
     bind_panic (Some (require_tensor s weight_name)) (\<lambda>weight_info.
     bind_panic (Some (require_tensor s scale_name)) (\<lambda>scale_info.
     bind_panic (Some (validate_nvfp4_weight weight_info)) (\<lambda>(out_n, in_n).
     bind_panic (Some (validate_nvfp4_scales scale_info out_n in_n)) (\<lambda>_.
     bind_panic (shard_read_tensor s f weight_name) (\<lambda>packed.
     bind_panic (shard_read_tensor s f scale_name) (\<lambda>scales.
     bind_panic (read_scalar_f32 s f (suffixed pre ''weight_scale_2'')) (\<lambda>global.
     bind_panic (shard_input_scale_or_unity s f (suffixed pre ''input_scale'')) (\<lambda>input_s.
       Some (Ok \<lparr>linear_prefix = pre, out_features = out_n, in_features = in_n, packed_weight = packed,
                 weight_scale = scales, weight_scale_2 = global, input_scale = input_s\<rparr>))))))))))"

definition fp8_from_shard :: "SafeTensorShard \<Rightarrow> File \<Rightarrow> bytes \<Rightarrow> ModelOptFp8Linear result option" where
  "fp8_from_shard s f pre =
     bind_panic (Some (require_tensor s (suffixed pre ''weight''))) (\<lambda>weight_info.
     bind_panic (Some (validate_fp8_weight weight_info)) (\<lambda>(out_n, in_n).
     bind_panic (shard_read_tensor s f (suffixed pre ''weight'')) (\<lambda>weight.
     bind_panic (read_scalar_f32 s f (suffixed pre ''weight_scale'')) (\<lambda>scale.
     bind_panic (read_scalar_f32 s f (suffixed pre ''input_scale'')) (\<lambda>input_s.
       Some (Ok \<lparr>fp8_prefix = pre, fp8_out_features = out_n, fp8_in_features = in_n, fp8_weight = weight,
                 fp8_weight_scale = scale, channel_weight_scale = None, fp8_input_scale = Some input_s\<rparr>))))))"

section \<open>Loaders\<close>

type_synonym 'a load = "SafeTensorCheckpoint \<Rightarrow> ('a result \<times> SafeTensorCheckpoint) option"

definition bind_load :: "'a load \<Rightarrow> ('a \<Rightarrow> 'b load) \<Rightarrow> 'b load" where
  "bind_load m k c =
     (case m c of None \<Rightarrow> None | Some (Inl e, c') \<Rightarrow> Some (Err e, c') | Some (Inr x, c') \<Rightarrow> k x c')"

definition lift_read :: "'a result option \<Rightarrow> 'a load" where
  "lift_read m c = map_option (\<lambda>r. (r, c)) m"

definition lift_result :: "'a result \<Rightarrow> 'a load" where
  "lift_result r = lift_read (Some r)"

definition has_tensor :: "bytes \<Rightarrow> bool load" where
  "has_tensor name c = Some (Ok (contains_tensor c name), c)"

text \<open>A shard with the file it was opened from, which its reads open again.\<close>

type_synonym source = "SafeTensorShard \<times> File"

definition open_source :: "'n JsonLib \<Rightarrow> Directory \<Rightarrow> bytes \<Rightarrow> source load" where
  "open_source J d name c =
     (case open_shard_for_tensor J d c name of
        None \<Rightarrow> None
      | Some (Inl e, c') \<Rightarrow> Some (Err e, c')
      | Some (Inr s, c') \<Rightarrow>
          (case Option.bind (fmlookup (weight_map c) name) d of
             None \<Rightarrow> Some (Err (Format ''safetensors open''), c')
           | Some f \<Rightarrow> Some (Ok (s, f), c')))"

definition input_scale_or_unity :: "'n JsonLib \<Rightarrow> Directory \<Rightarrow> bytes \<Rightarrow> f32 load" where
  "input_scale_or_unity J d name =
     bind_load (has_tensor name) (\<lambda>present.
       if present then bind_load (open_source J d name) (\<lambda>(s, f). lift_read (read_scalar_f32 s f name))
       else lift_result (Ok f32_one))"

definition read_reciprocal :: "FloatOps \<Rightarrow> source \<Rightarrow> bytes \<Rightarrow> string \<Rightarrow> f32 load" where
  "read_reciprocal F src name label =
     bind_load (lift_read (read_single_f32 (fst src) (snd src) name label)) (\<lambda>v. lift_result (reciprocal_scale F v label))"

definition load_compressed_tensors_nvfp4_linear ::
  "FloatOps \<Rightarrow> 'n JsonLib \<Rightarrow> Directory \<Rightarrow> bytes \<Rightarrow> ModelOptNvfp4Linear load" where
  "load_compressed_tensors_nvfp4_linear F J d pre =
     (let weight_name = suffixed pre ''weight_packed''; scale_name = suffixed pre ''weight_scale'';
          weight_global_name = suffixed pre ''weight_global_scale'';
          input_global_name = suffixed pre ''input_global_scale'' in
     bind_load (open_source J d weight_name) (\<lambda>weight.
     bind_load (open_source J d scale_name) (\<lambda>scales.
     bind_load (open_source J d weight_global_name) (\<lambda>weight_global.
     bind_load (open_source J d input_global_name) (\<lambda>input_global.
     bind_load (lift_result (require_tensor (fst weight) weight_name)) (\<lambda>weight_info.
     bind_load (lift_result (validate_nvfp4_weight weight_info)) (\<lambda>(out_n, in_n).
     bind_load (lift_result (require_tensor (fst scales) scale_name)) (\<lambda>scale_info.
     bind_load (lift_result (validate_nvfp4_scales scale_info out_n in_n)) (\<lambda>_.
     bind_load (lift_read (shard_read_tensor (fst weight) (snd weight) weight_name)) (\<lambda>packed.
     bind_load (lift_read (shard_read_tensor (fst scales) (snd scales) scale_name)) (\<lambda>scale_bytes.
     bind_load (read_reciprocal F weight_global weight_global_name ''compressed-tensors NVFP4 weight_global_scale'') (\<lambda>global.
     bind_load (read_reciprocal F input_global input_global_name ''compressed-tensors NVFP4 input_global_scale'') (\<lambda>input_s.
       lift_result (Ok \<lparr>linear_prefix = pre, out_features = out_n, in_features = in_n, packed_weight = packed,
         weight_scale = scale_bytes, weight_scale_2 = global, input_scale = input_s\<rparr>))))))))))))))"

definition load_nvfp4_linear :: "FloatOps \<Rightarrow> 'n JsonLib \<Rightarrow> Directory \<Rightarrow> bytes \<Rightarrow> ModelOptNvfp4Linear load" where
  "load_nvfp4_linear F J d pre =
     bind_load (has_tensor (suffixed pre ''weight_packed'')) (\<lambda>compressed.
     if compressed then load_compressed_tensors_nvfp4_linear F J d pre
     else
       (let weight_name = suffixed pre ''weight''; scale_name = suffixed pre ''weight_scale'';
            global_name = suffixed pre ''weight_scale_2'' in
       bind_load (open_source J d weight_name) (\<lambda>weight.
       bind_load (open_source J d scale_name) (\<lambda>scales.
       bind_load (open_source J d global_name) (\<lambda>global.
       bind_load (lift_result (require_tensor (fst weight) weight_name)) (\<lambda>weight_info.
       bind_load (lift_result (validate_nvfp4_weight weight_info)) (\<lambda>(out_n, in_n).
       bind_load (lift_result (require_tensor (fst scales) scale_name)) (\<lambda>scale_info.
       bind_load (lift_result (validate_nvfp4_scales scale_info out_n in_n)) (\<lambda>_.
       bind_load (lift_read (shard_read_tensor (fst weight) (snd weight) weight_name)) (\<lambda>packed.
       bind_load (lift_read (shard_read_tensor (fst scales) (snd scales) scale_name)) (\<lambda>scale_bytes.
       bind_load (lift_read (read_scalar_f32 (fst global) (snd global) global_name)) (\<lambda>scale_2.
       bind_load (input_scale_or_unity J d (suffixed pre ''input_scale'')) (\<lambda>input_s.
         lift_result (Ok \<lparr>linear_prefix = pre, out_features = out_n, in_features = in_n, packed_weight = packed,
           weight_scale = scale_bytes, weight_scale_2 = scale_2, input_scale = input_s\<rparr>))))))))))))))"

definition mxfp4_scale :: "FloatOps \<Rightarrow> u8 \<Rightarrow> u8 result" where
  "mxfp4_scale F code =
     (let value = e8m0_value F code
      in if \<not> f32_is_finite value then Err (Format ''MXFP4 scale'')
         else
           (let converted = ue4m3_code F value
            in if \<not> f32_eq (e4m3_value F converted) value then Err (Format ''MXFP4 scale'') else Ok converted))"

definition load_mxfp4_linear :: "FloatOps \<Rightarrow> 'n JsonLib \<Rightarrow> Directory \<Rightarrow> bytes \<Rightarrow> ModelOptNvfp4Linear load" where
  "load_mxfp4_linear F J d pre =
     (let weight_name = suffixed pre ''weight''; scale_name = suffixed pre ''scale'' in
     bind_load (open_source J d weight_name) (\<lambda>weight.
     bind_load (open_source J d scale_name) (\<lambda>scales.
     bind_load (lift_result (require_tensor (fst weight) weight_name)) (\<lambda>weight_info.
     bind_load (lift_result (require_tensor (fst scales) scale_name)) (\<lambda>scale_info.
     if dtype weight_info \<noteq> ascii ''I8'' \<or> length (shape weight_info) \<noteq> 2 then lift_result (Err (Shape ''MXFP4 weight''))
     else
       bind_load (lift_result (ok_or (checked_mul (shape weight_info ! 1) 2) (Shape ''MXFP4 weight''))) (\<lambda>in_n.
       let out_n = shape weight_info ! 0 in
       if \<not> 32 dvd in_n then lift_result (Err (Shape ''MXFP4 weight''))
       else if dtype scale_info \<noteq> ascii ''F8_E8M0'' \<or> shape scale_info \<noteq> [out_n, in_n div 32] \<or>
          byte_len scale_info \<noteq> of_nat (wrapping_mul out_n in_n div 32)
       then lift_result (Err (Shape ''MXFP4 scale''))
       else
         bind_load (lift_read (shard_read_tensor (fst scales) (snd scales) scale_name)) (\<lambda>codes.
         bind_load (lift_result (map_result (mxfp4_scale F) codes)) (\<lambda>converted.
         bind_load (lift_read (shard_read_tensor (fst weight) (snd weight) weight_name)) (\<lambda>packed.
           lift_result (Ok \<lparr>linear_prefix = pre, out_features = out_n, in_features = in_n, packed_weight = packed,
             weight_scale = concat (map (\<lambda>s. [s, s]) converted), weight_scale_2 = f32_one, input_scale = f32_one\<rparr>))))))))))"

definition load_nvfp4_expert_linear :: "'n JsonLib \<Rightarrow> Directory \<Rightarrow> bytes \<Rightarrow> nat \<Rightarrow> ModelOptNvfp4Linear load" where
  "load_nvfp4_expert_linear J d pre expert =
     (let weight_name = suffixed pre ''weight''; scale_name = suffixed pre ''weight_scale'';
          global_name = suffixed pre ''weight_scale_2''; input_name = suffixed pre ''input_scale'' in
     bind_load (open_source J d weight_name) (\<lambda>weight.
     bind_load (open_source J d scale_name) (\<lambda>scales.
     bind_load (open_source J d global_name) (\<lambda>global.
     bind_load (lift_result (require_tensor (fst weight) weight_name)) (\<lambda>weight_info.
     bind_load (lift_result (validate_nvfp4_expert_weight weight_info)) (\<lambda>(experts, out_n, in_n).
     bind_load (lift_result (require_tensor (fst scales) scale_name)) (\<lambda>scale_info.
     bind_load (lift_result (validate_nvfp4_expert_scales scale_info experts out_n in_n)) (\<lambda>_.
     if expert \<ge> experts then lift_result (Err (Shape ''ModelOpt NVFP4 expert index''))
     else
       (let weight_bytes = wrapping_mul out_n in_n div 2; scale_bytes = wrapping_mul out_n in_n div 16 in
       bind_load (lift_read (read_float_tensor_as_f32 (fst global) (snd global) global_name)) (\<lambda>scale_2.
       bind_load (has_tensor input_name) (\<lambda>present.
       bind_load
         (if present then bind_load (open_source J d input_name) (\<lambda>(s, f). lift_read (read_float_tensor_as_f32 s f input_name))
          else lift_result (Ok (replicate experts f32_one))) (\<lambda>input_s.
       if length scale_2 \<noteq> experts \<or> length input_s \<noteq> experts
       then lift_result (Err (Shape ''ModelOpt NVFP4 expert scalar scales''))
       else
         bind_load (lift_read (read_tensor_byte_range (fst weight) (snd weight) weight_name
           (of_nat (wrapping_mul expert weight_bytes)) weight_bytes)) (\<lambda>packed.
         bind_load (lift_read (read_tensor_byte_range (fst scales) (snd scales) scale_name
           (of_nat (wrapping_mul expert scale_bytes)) scale_bytes)) (\<lambda>packed_scales.
           lift_result (Ok \<lparr>linear_prefix = pre @ ascii ''['' @ decimal expert @ ascii '']'', out_features = out_n,
             in_features = in_n, packed_weight = packed, weight_scale = packed_scales,
             weight_scale_2 = scale_2 ! expert, input_scale = input_s ! expert\<rparr>)))))))))))))))"

definition load_nvfp4_scales :: "FloatOps \<Rightarrow> 'n JsonLib \<Rightarrow> Directory \<Rightarrow> bytes \<Rightarrow> (f32 \<times> f32) load" where
  "load_nvfp4_scales F J d pre =
     bind_load (has_tensor (suffixed pre ''weight_packed'')) (\<lambda>compressed.
     if compressed then
       (let weight_name = suffixed pre ''weight_global_scale''; input_name = suffixed pre ''input_global_scale'' in
       bind_load (open_source J d weight_name) (\<lambda>weight.
       bind_load (open_source J d input_name) (\<lambda>input_src.
       bind_load (read_reciprocal F weight weight_name ''compressed-tensors NVFP4 weight_global_scale'') (\<lambda>global.
       bind_load (read_reciprocal F input_src input_name ''compressed-tensors NVFP4 input_global_scale'') (\<lambda>input_s.
         lift_result (Ok (global, input_s)))))))
     else
       bind_load (open_source J d (suffixed pre ''weight_scale_2'')) (\<lambda>(s, f).
       bind_load (lift_read (read_scalar_f32 s f (suffixed pre ''weight_scale_2''))) (\<lambda>global.
       bind_load (input_scale_or_unity J d (suffixed pre ''input_scale'')) (\<lambda>input_s.
         lift_result (Ok (global, input_s))))))"

definition load_fp8_linear :: "'n JsonLib \<Rightarrow> Directory \<Rightarrow> bytes \<Rightarrow> ModelOptFp8Linear load" where
  "load_fp8_linear J d pre =
     (let weight_name = suffixed pre ''weight''; scale_name = suffixed pre ''weight_scale'';
          input_name = suffixed pre ''input_scale'' in
     bind_load (open_source J d weight_name) (\<lambda>weight.
     bind_load (open_source J d scale_name) (\<lambda>scales.
     bind_load (lift_result (require_tensor (fst weight) weight_name)) (\<lambda>weight_info.
     bind_load (lift_result (validate_fp8_weight weight_info)) (\<lambda>(out_n, in_n).
     bind_load (has_tensor input_name) (\<lambda>present.
     bind_load
       (if present then
          bind_load (open_source J d input_name) (\<lambda>input_src.
          bind_load (lift_read (read_scalar_f32 (fst scales) (snd scales) scale_name)) (\<lambda>scale.
          bind_load (lift_read (read_scalar_f32 (fst input_src) (snd input_src) input_name)) (\<lambda>input_s.
            lift_result (Ok (scale, None, Some input_s)))))
        else
          bind_load (lift_read (read_float_tensor_as_f32 (fst scales) (snd scales) scale_name)) (\<lambda>channel.
            lift_result
              (if length channel \<noteq> out_n \<or> (\<exists>v \<in> set channel. \<not> f32_is_finite v)
               then Err (Shape ''compressed-tensors FP8 weight_scale'')
               else Ok (f32_one, Some channel, None)))) (\<lambda>(scale, channel, input_s).
     bind_load (lift_read (shard_read_tensor (fst weight) (snd weight) weight_name)) (\<lambda>bytes.
       lift_result (Ok \<lparr>fp8_prefix = pre, fp8_out_features = out_n, fp8_in_features = in_n, fp8_weight = bytes,
         fp8_weight_scale = scale, channel_weight_scale = channel, fp8_input_scale = input_s\<rparr>)))))))))"

definition load_block_scaled_fp8_linear_with_scale ::
  "'n JsonLib \<Rightarrow> Directory \<Rightarrow> bytes \<Rightarrow> string \<Rightarrow> bytes list \<Rightarrow> bytes ModelOptBlockScaledFp8Linear load" where
  "load_block_scaled_fp8_linear_with_scale J d pre suf dtypes =
     (let weight_name = suffixed pre ''weight''; scale_name = suffixed pre suf in
     bind_load (open_source J d weight_name) (\<lambda>weight.
     bind_load (open_source J d scale_name) (\<lambda>scales.
     bind_load (lift_result (require_tensor (fst weight) weight_name)) (\<lambda>weight_info.
     bind_load (lift_result (validate_fp8_weight weight_info)) (\<lambda>(out_n, in_n).
     bind_load (lift_result (require_tensor (fst scales) scale_name)) (\<lambda>scale_info.
     bind_load (lift_result (validate_block_scaled_fp8_scales scale_info out_n in_n dtypes)) (\<lambda>_.
     bind_load (lift_read (shard_read_tensor (fst weight) (snd weight) weight_name)) (\<lambda>bytes.
     bind_load (lift_read (shard_read_tensor (fst scales) (snd scales) scale_name)) (\<lambda>scale_bytes.
       lift_result (Ok \<lparr>block_prefix = pre, block_out_features = out_n, block_in_features = in_n,
         block_weight = bytes, block_weight_scale = scale_bytes\<rparr>))))))))))"

definition load_block_scaled_fp8_linear ::
  "'n JsonLib \<Rightarrow> Directory \<Rightarrow> bytes \<Rightarrow> bytes ModelOptBlockScaledFp8Linear load" where
  "load_block_scaled_fp8_linear J d pre =
     load_block_scaled_fp8_linear_with_scale J d pre ''scale'' [ascii ''F8_E8M0'']"

definition load_weight_scale_inv_block_fp8_linear ::
  "'n JsonLib \<Rightarrow> Directory \<Rightarrow> bytes \<Rightarrow> bytes ModelOptBlockScaledFp8Linear load" where
  "load_weight_scale_inv_block_fp8_linear J d pre =
     load_block_scaled_fp8_linear_with_scale J d pre ''weight_scale_inv'' [ascii ''F8_E8M0FNU'', ascii ''F8_E8M0'']"

definition load_weight_scale_inv_block_fp8_linear_f32 ::
  "'n JsonLib \<Rightarrow> Directory \<Rightarrow> bytes \<Rightarrow> f32 list ModelOptBlockScaledFp8Linear load" where
  "load_weight_scale_inv_block_fp8_linear_f32 J d pre =
     (let weight_name = suffixed pre ''weight''; scale_name = suffixed pre ''weight_scale_inv'' in
     bind_load (open_source J d weight_name) (\<lambda>weight.
     bind_load (open_source J d scale_name) (\<lambda>scales.
     bind_load (lift_result (require_tensor (fst weight) weight_name)) (\<lambda>weight_info.
     bind_load (lift_result (validate_fp8_weight weight_info)) (\<lambda>(out_n, in_n).
     bind_load (lift_result (require_tensor (fst scales) scale_name)) (\<lambda>scale_info.
     bind_load (lift_result (validate_float_block_scaled_fp8_scales scale_info out_n in_n)) (\<lambda>_.
     bind_load (lift_read (read_float_tensor_as_f32 (fst scales) (snd scales) scale_name)) (\<lambda>vals.
     if \<exists>v \<in> set vals. \<not> f32_is_finite v \<or> f32_lt v 0
     then lift_result (Err (Format ''ModelOpt block-scaled FP8 scale''))
     else
       bind_load (lift_read (shard_read_tensor (fst weight) (snd weight) weight_name)) (\<lambda>bytes.
         lift_result (Ok \<lparr>block_prefix = pre, block_out_features = out_n, block_in_features = in_n,
           block_weight = bytes, block_weight_scale = vals\<rparr>))))))))))"

definition load_ggml_linear :: "'n JsonLib \<Rightarrow> Directory \<Rightarrow> bytes \<Rightarrow> ModelOptGgmlLinear load" where
  "load_ggml_linear J d pre =
     (let name = suffixed pre ''weight'' in
     bind_load (open_source J d name) (\<lambda>(s, f).
     bind_load (lift_result (require_tensor s name)) (\<lambda>info.
     bind_load (lift_result (ok_or (if dtype info = ascii ''U8'' then from_shape (shape info) else None)
       (Format ''ModelOpt GGML weight''))) (\<lambda>fmt.
     bind_load (lift_result (ok_or (checked_mul (shape info ! 1) (block_elements fmt)) (Format ''ModelOpt GGML weight''))) (\<lambda>in_n.
     bind_load (lift_read (shard_read_tensor s f name)) (\<lambda>bytes.
     bind_load (lift_result (validate fmt bytes (shape info ! 0) in_n)) (\<lambda>_.
       lift_result (Ok \<lparr>ggml_format = fmt, ggml_out_features = shape info ! 0, ggml_in_features = in_n,
         ggml_packed = bytes\<rparr>))))))))"

section \<open>What a loader establishes\<close>

text \<open>\<open>loads\<close> is a Hoare triple for loaders over one directory and one tensor map: from a cache that only holds
  what opening would give, a loader that succeeds keeps that and its result satisfies \<open>P\<close>.\<close>

definition loads :: "'n JsonLib \<Rightarrow> Directory \<Rightarrow> (bytes, bytes) fmap \<Rightarrow> 'a load \<Rightarrow> ('a \<Rightarrow> bool) \<Rightarrow> bool" where
  "loads J d W m P \<longleftrightarrow> (\<forall>c x c'. cache_true J d c \<longrightarrow> weight_map c = W \<longrightarrow> m c = Some (Ok x, c') \<longrightarrow>
     cache_true J d c' \<and> weight_map c' = W \<and> P x)"

text \<open>The shard and the file that hold a tensor.\<close>

definition source_of :: "'n JsonLib \<Rightarrow> Directory \<Rightarrow> (bytes, bytes) fmap \<Rightarrow> bytes \<Rightarrow> source option" where
  "source_of J d W name =
     Option.bind (fmlookup W name) (\<lambda>file_name.
     Option.bind (d file_name) (\<lambda>f. case shard_open J f of Some (Inr s) \<Rightarrow> Some (s, f) | _ \<Rightarrow> None))"

lemma source_of_Some:
  "source_of J d W name = Some (s, f) \<longleftrightarrow>
     (\<exists>n. fmlookup W name = Some n \<and> d n = Some f \<and> shard_open J f = Some (Ok s))"
proof -
  have "(case r of Some (Inr s) \<Rightarrow> Some (s, g) | _ \<Rightarrow> None) = Some (s, f) \<longleftrightarrow> r = Some (Ok s) \<and> g = f" for r g
    by (auto split: option.splits sum.splits)
  then show ?thesis by (auto simp: source_of_def bind_eq_Some_conv)
qed

lemma loads_bind:
  "loads J d W m Q \<Longrightarrow> (\<And>x. Q x \<Longrightarrow> loads J d W (k x) P) \<Longrightarrow> loads J d W (bind_load m k) P"
proof -
  assume m: "loads J d W m Q" and k: "\<And>x. Q x \<Longrightarrow> loads J d W (k x) P"
  have *: "\<exists>y c1. m c = Some (Ok y, c1) \<and> k y c1 = Some (Ok x, c')" if "bind_load m k c = Some (Ok x, c')" for c x c'
    using that by (auto simp: bind_load_def split: option.splits sum.splits)
  show ?thesis unfolding loads_def
  proof (intro allI impI)
    fix c x c' assume c: "cache_true J d c" "weight_map c = W" and "bind_load m k c = Some (Ok x, c')"
    then obtain y c1 where y: "m c = Some (Ok y, c1)" "k y c1 = Some (Ok x, c')" using * by blast
    then have "cache_true J d c1" "weight_map c1 = W" "Q y" using m c unfolding loads_def by blast+
    then show "cache_true J d c' \<and> weight_map c' = W \<and> P x" using k [of y] y(2) unfolding loads_def by blast
  qed
qed

lemma loads_read: "(\<And>x. m = Some (Ok x) \<Longrightarrow> P x) \<Longrightarrow> loads J d W (lift_read m) P"
  by (auto simp: loads_def lift_read_def)

lemma loads_result: "(\<And>x. r = Ok x \<Longrightarrow> P x) \<Longrightarrow> loads J d W (lift_result r) P"
  by (auto simp: lift_result_def intro: loads_read)

lemma loads_fail [simp]: "loads J d W (lift_result (Err e)) P"
  by (auto intro: loads_result)

lemma loads_has: "loads J d W (has_tensor name) (\<lambda>b. b \<longleftrightarrow> fmlookup W name \<noteq> None)"
  by (auto simp: loads_def has_tensor_def contains_tensor_def)

lemma loads_open: "loads J d W (open_source J d name) (\<lambda>src. source_of J d W name = Some src)"
  unfolding loads_def
proof (intro allI impI)
  fix c src c' assume inv: "cache_true J d c" "weight_map c = W" and o: "open_source J d name c = Some (Ok src, c')"
  obtain s f where s: "open_shard_for_tensor J d c name = Some (Ok s, c')" "Option.bind (fmlookup W name) d = Some f" "src = (s, f)"
    using o inv(2) by (auto simp: open_source_def split: option.splits sum.splits)
  note step = open_shard_for_tensor_step [OF inv(1)]
  obtain n where n: "fmlookup W name = Some n" "d n = Some f" using s(2) by (auto simp: bind_eq_Some_conv)
  have "open_uncached J d c name = Some (Ok s)" using step(1) [of name] s(1) by simp
  then have "source_of J d W name = Some src"
    using n inv(2) by (simp add: s(3) source_of_Some open_uncached_def open_shard_def)
  then show "cache_true J d c' \<and> weight_map c' = W \<and> source_of J d W name = Some src"
    using step(2) [OF s(1)] inv(2) by simp
qed

text \<open>The rules that follow the text of a loader.\<close>

lemma loads_steps:
  "(\<And>src. source_of J d W name = Some src \<Longrightarrow> loads J d W (k1 src) P) \<Longrightarrow> loads J d W (bind_load (open_source J d name) k1) P"
  "(\<And>x. m = Some (Ok x) \<Longrightarrow> loads J d W (k2 x) P) \<Longrightarrow> loads J d W (bind_load (lift_read m) k2) P"
  "(\<And>x. r = Ok x \<Longrightarrow> loads J d W (k2 x) P) \<Longrightarrow> loads J d W (bind_load (lift_result r) k2) P"
  "(\<And>b. b \<longleftrightarrow> fmlookup W name \<noteq> None \<Longrightarrow> loads J d W (k3 b) P) \<Longrightarrow> loads J d W (bind_load (has_tensor name) k3) P"
  by (rule loads_bind [OF loads_open], blast) (rule loads_bind [OF loads_read [where P = "\<lambda>x. m = Some (Ok x)"]], blast, blast,
    rule loads_bind [OF loads_result [where P = "\<lambda>x. r = Ok x"]], blast, blast, rule loads_bind [OF loads_has], blast)

lemma loads_prod: "(\<And>a b. x = (a, b) \<Longrightarrow> loads J d W (k a b) P) \<Longrightarrow> loads J d W (case x of (a, b) \<Rightarrow> k a b) P"
  by (cases x) simp

lemma loads_if:
  "(b \<Longrightarrow> loads J d W m1 P) \<Longrightarrow> (\<not> b \<Longrightarrow> loads J d W m2 P) \<Longrightarrow> loads J d W (if b then m1 else m2) P"
  by simp

lemmas loads_intros = loads_steps loads_prod loads_if loads_fail

lemma loadsD:
  assumes "loads J d (weight_map c) m P" "checkpoint_reachable J d c" "m c = Some (Ok x, c')"
  shows "P x"
  using assms(1) reachable_cache_true [OF assms(2)] assms(3) unfolding loads_def by blast

lemma source_info:
  assumes "source_of J d W name = Some (s, f)" "require_tensor s n = Ok i"
  shows "info_ok i" "shard_open J f = Some (Ok s)"
proof -
  show o: "shard_open J f = Some (Ok s)" using assms(1) by (auto simp: source_of_Some)
  show "info_ok i" using shard_open_info(1) [OF o, of n i] assms(2) by simp
qed

lemma shard_read_length:
  assumes "require_tensor s name = Ok i" "shard_read_tensor s f name = Some (Ok bs)"
  shows "length bs = unat (byte_len i)"
  using assms shard_read_tensor_eq [of s name i f bs] by (auto simp: unat_eq_0)

section \<open>Loaded NVFP4 linears\<close>

text \<open>The bytes that a checkpoint stores for a tensor.\<close>

definition stores :: "'n JsonLib \<Rightarrow> Directory \<Rightarrow> (bytes, bytes) fmap \<Rightarrow> bytes \<Rightarrow> SafeTensorInfo \<Rightarrow> bytes \<Rightarrow> bool" where
  "stores J d W name info bs \<longleftrightarrow> (\<exists>s f. source_of J d W name = Some (s, f) \<and> require_tensor s name = Ok info \<and>
     shard_read_tensor s f name = Some (Ok bs))"

lemma stores_length: "stores J d W name info bs \<Longrightarrow> length bs = unat (byte_len info)"
  using shard_read_length unfolding stores_def by blast

lemma wrapping_mul_id: "a * b \<le> usize_max \<Longrightarrow> wrapping_mul a b = a * b"
  by (simp add: wrapping_mul_def usize_max_def)

lemma wrapping_mul_le: "wrapping_mul a b \<le> usize_max"
  using mod_less_divisor [of "2 ^ 64" "a * b"] by (simp add: wrapping_mul_def usize_max_def)

lemma unat_of_nat_div: "wrapping_mul a b div k \<le> usize_max"
  using wrapping_mul_le [of a b] div_le_dividend [of "wrapping_mul a b" k] by linarith

lemma validated_nvfp4:
  assumes "validate_nvfp4_weight wi = Ok (out_n, in_n)" "validate_nvfp4_scales si out_n in_n = Ok ()"
  shows "0 < out_n" "0 < in_n" "16 dvd in_n" "shape wi = [out_n, in_n div 2]" "shape si = [out_n, in_n div 16]"
    "dtype wi = ascii ''U8''" "dtype si = ascii ''F8_E4M3''"
    "unat (byte_len wi) = wrapping_mul out_n in_n div 2" "unat (byte_len si) = wrapping_mul out_n in_n div 16"
proof -
  have "xs = [xs ! 0, xs ! 1]" if "length xs = 2" for xs :: "nat list"
    using that by (auto simp: length_Suc_conv numeral_2_eq_2)
  then show "0 < out_n" "0 < in_n" "16 dvd in_n" "shape wi = [out_n, in_n div 2]" "shape si = [out_n, in_n div 16]"
    "dtype wi = ascii ''U8''" "dtype si = ascii ''F8_E4M3''"
    "unat (byte_len wi) = wrapping_mul out_n in_n div 2" "unat (byte_len si) = wrapping_mul out_n in_n div 16"
    using assms unat_of_nat_u64 [OF unat_of_nat_div]
    by (auto simp: validate_nvfp4_weight_def validate_nvfp4_scales_def validate_k16_shape_def result_simps usize_simps
        split: if_splits)
qed

definition nvfp4_loaded ::
  "'n JsonLib \<Rightarrow> Directory \<Rightarrow> (bytes, bytes) fmap \<Rightarrow> bytes \<Rightarrow> string \<Rightarrow> ModelOptNvfp4Linear \<Rightarrow> bool" where
  "nvfp4_loaded J d W pre suf l \<longleftrightarrow> (\<exists>wi si.
     stores J d W (suffixed pre suf) wi (packed_weight l) \<and>
     stores J d W (suffixed pre ''weight_scale'') si (weight_scale l) \<and>
     validate_nvfp4_weight wi = Ok (out_features l, in_features l) \<and>
     validate_nvfp4_scales si (out_features l) (in_features l) = Ok ())"

lemma storesI:
  "source_of J d W name = Some src \<Longrightarrow> require_tensor (fst src) name = Ok i \<Longrightarrow>
   shard_read_tensor (fst src) (snd src) name = Some (Ok bs) \<Longrightarrow> stores J d W name i bs"
  unfolding stores_def by (metis prod.collapse)

lemma loads_reciprocal: "loads J d W (read_reciprocal F src name label) (\<lambda>_. True)"
  unfolding read_reciprocal_def by (intro loads_intros loads_result) simp_all

lemma loads_input_scale: "loads J d W (input_scale_or_unity J d name) (\<lambda>_. True)"
  unfolding input_scale_or_unity_def by (intro loads_intros loads_result loads_read) simp_all

lemma loads_compressed:
  "loads J d W (load_compressed_tensors_nvfp4_linear F J d pre) (nvfp4_loaded J d W pre ''weight_packed'')"
  unfolding load_compressed_tensors_nvfp4_linear_def Let_def
  by (intro loads_intros loads_bind [OF loads_reciprocal] loads_result)
    (auto simp: nvfp4_loaded_def simp del: require_tensor_eq intro!: exI storesI)

lemma loads_nvfp4:
  "loads J d W (load_nvfp4_linear F J d pre)
     (nvfp4_loaded J d W pre (if fmlookup W (suffixed pre ''weight_packed'') = None then ''weight'' else ''weight_packed''))"
  unfolding load_nvfp4_linear_def Let_def
  by (intro loads_intros loads_bind [OF loads_input_scale] loads_result)
    (auto simp: nvfp4_loaded_def simp del: require_tensor_eq intro!: exI storesI loads_compressed)

section \<open>Experts of a stacked tensor\<close>

lemma read_range_of_whole:
  assumes i: "require_tensor s name = Ok i" and whole: "shard_read_tensor s f name = Some (Ok ws)"
    and range: "read_tensor_byte_range s f name off len = Some (Ok bs)" and len: "len \<le> usize_max"
    and small: "length (contents f) \<le> i64_max"
  shows "bs = take len (drop (unat off) ws)"
proof -
  let ?p = "unat (data_start s + data_begin i)" let ?n = "unat (byte_len i)"
  note i' = i [unfolded require_tensor_eq]
  have w: "byte_len i = 0 \<or> ?p + ?n \<le> length (contents f)" "ws = take ?n (drop ?p (contents f))"
    using whole unfolding shard_read_tensor_eq [OF i'] by auto
  have r: "unat off + len < 2 ^ 64" "off + of_nat len \<le> byte_len i"
    "bs = take len (drop (unat (data_start s + data_begin i + off)) (contents f))"
    using range unat_of_nat_u64 [OF len] unfolding shard_read_eq [OF i'] by auto
  have le: "unat off + len \<le> ?n"
    using r(1,2) unat_of_nat_u64 [OF len] by (simp add: word_le_nat_alt unat_add_u64)
  show ?thesis
  proof (cases "?n = 0")
    case True
    then show ?thesis using le r(3) by simp
  next
    case False
    then have fit: "?p + ?n \<le> length (contents f)" using w(1) by auto
    then have "unat (data_start s + data_begin i + off) = ?p + unat off"
      using le small by (intro unat_add_u64) (simp add: i64_max_def)
    moreover have "len \<le> ?n - unat off" using le by simp
    ultimately show ?thesis using r(3) w(2) by (simp add: drop_take min_absorb1 add.commute)
  qed
qed

text \<open>What loading one expert establishes of one of its two tensors: a range of \<open>len\<close> bytes.\<close>

definition expert_range :: "'n JsonLib \<Rightarrow> Directory \<Rightarrow> (bytes, bytes) fmap \<Rightarrow> bytes \<Rightarrow> SafeTensorInfo \<Rightarrow> nat \<Rightarrow> nat \<Rightarrow> bytes \<Rightarrow> bool" where
  "expert_range J d W name info expert len bs \<longleftrightarrow> (\<exists>s f. source_of J d W name = Some (s, f) \<and> require_tensor s name = Ok info \<and>
     read_tensor_byte_range s f name (of_nat (wrapping_mul expert len)) len = Some (Ok bs))"

definition expert_loaded :: "'n JsonLib \<Rightarrow> Directory \<Rightarrow> (bytes, bytes) fmap \<Rightarrow> bytes \<Rightarrow> nat \<Rightarrow> ModelOptNvfp4Linear \<Rightarrow> bool" where
  "expert_loaded J d W pre expert l \<longleftrightarrow> (\<exists>wi si experts.
     validate_nvfp4_expert_weight wi = Ok (experts, out_features l, in_features l) \<and>
     validate_nvfp4_expert_scales si experts (out_features l) (in_features l) = Ok () \<and> expert < experts \<and>
     expert_range J d W (suffixed pre ''weight'') wi expert (wrapping_mul (out_features l) (in_features l) div 2) (packed_weight l) \<and>
     expert_range J d W (suffixed pre ''weight_scale'') si expert (wrapping_mul (out_features l) (in_features l) div 16) (weight_scale l))"

lemma expert_rangeI:
  "source_of J d W name = Some src \<Longrightarrow> require_tensor (fst src) name = Ok i \<Longrightarrow>
   read_tensor_byte_range (fst src) (snd src) name (of_nat (wrapping_mul expert len)) len = Some (Ok bs) \<Longrightarrow>
   expert_range J d W name i expert len bs"
  unfolding expert_range_def by (metis prod.collapse)

lemma loads_input_scales:
  "loads J d W
     (if present then bind_load (open_source J d name) (\<lambda>(s, f). lift_read (read_float_tensor_as_f32 s f name))
      else lift_result (Ok (replicate n f32_one))) (\<lambda>_. True)"
  by (intro loads_intros loads_result loads_read) simp_all

lemma loads_expert: "loads J d W (load_nvfp4_expert_linear J d pre expert) (expert_loaded J d W pre expert)"
  unfolding load_nvfp4_expert_linear_def Let_def
  by (intro loads_steps loads_prod loads_fail loads_bind [OF loads_input_scales] loads_if loads_result)
    (auto simp: expert_loaded_def not_le simp del: require_tensor_eq intro!: exI expert_rangeI)

lemma validated_expert:
  assumes "validate_nvfp4_expert_weight wi = Ok (experts, out_n, in_n)"
    "validate_nvfp4_expert_scales si experts out_n in_n = Ok ()" "expert < experts"
  shows "shape wi = [experts, out_n, in_n div 2]" "wrapping_mul out_n in_n = out_n * in_n" "out_n * in_n \<le> usize_max"
    "unat (byte_len wi) = experts * (out_n * in_n div 2)" "unat (byte_len si) = experts * (out_n * in_n div 16)"
    "wrapping_mul expert (out_n * in_n div 2) = expert * (out_n * in_n div 2)"
    "wrapping_mul expert (out_n * in_n div 16) = expert * (out_n * in_n div 16)" "even in_n"
proof -
  have l3: "xs = [xs ! 0, xs ! 1, xs ! 2]" if "length xs = 3" for xs :: "nat list"
    using that by (auto simp: length_Suc_conv numeral_3_eq_3)
  have v: "shape wi ! 0 = experts" "shape wi ! 1 = out_n" "in_n = shape wi ! 2 * 2" "length (shape wi) = 3"
    "experts * out_n * in_n \<le> usize_max" "experts * out_n \<le> usize_max" "16 dvd in_n"
    "byte_len wi = of_nat (experts * out_n * in_n div 2)"
    using assms(1) by (auto simp: validate_nvfp4_expert_weight_def Let_def result_simps usize_simps bind_eq_Some_conv split: if_splits)
  show "shape wi = [experts, out_n, in_n div 2]" using l3 [OF v(4)] v(1-3) by simp
  have total: "out_n * in_n \<le> experts * out_n * in_n" using assms(3) by (cases experts) auto
  then show le: "out_n * in_n \<le> usize_max" using v(5) by (rule order.trans)
  then show w: "wrapping_mul out_n in_n = out_n * in_n" by (rule wrapping_mul_id)
  show "even in_n" unfolding v(3) by simp
  obtain k where k: "in_n = 16 * k" using v(7) by auto
  define q where "q = out_n * k"
  have q: "out_n * in_n = 16 * q" "experts * out_n * in_n = 16 * (experts * q)" by (simp_all add: k q_def)
  have d: "out_n * in_n div 2 = 8 * q" "out_n * in_n div 16 = q" "experts * out_n * in_n div 2 = 8 * (experts * q)"
    unfolding q by simp_all
  have max: "16 * (experts * q) \<le> usize_max" using v(5) q(2) by simp
  have wrap: "wrapping_mul (wrapping_mul experts out_n) in_n = 16 * (experts * q)"
    unfolding wrapping_mul_id [OF v(6)] wrapping_mul_id [OF v(5)] by (rule q(2))
  have ex: "expert * q \<le> experts * q" using assms(3) by (intro mult_right_mono) simp_all
  have fits: "expert * (8 * q) \<le> usize_max" "expert * q \<le> usize_max"
    unfolding mult.left_commute [of expert 8] using ex max by linarith+
  show "unat (byte_len wi) = experts * (out_n * in_n div 2)"
    unfolding v(8) d using max by (subst unat_of_nat_u64) simp_all
  have "byte_len si = of_nat (experts * q)"
    using assms(2) wrap by (simp add: validate_nvfp4_expert_scales_def split: if_splits)
  moreover have "unat (of_nat (experts * q) :: u64) = experts * q" using max by (intro unat_of_nat_u64) simp
  ultimately show "unat (byte_len si) = experts * (out_n * in_n div 16)" unfolding d by argo
  show "wrapping_mul expert (out_n * in_n div 2) = expert * (out_n * in_n div 2)"
    unfolding d using fits by (intro wrapping_mul_id) simp
  show "wrapping_mul expert (out_n * in_n div 16) = expert * (out_n * in_n div 16)"
    unfolding d using fits by (intro wrapping_mul_id) simp
qed

lemma concat_slices:
  "length xs = m * n \<Longrightarrow> concat (map (\<lambda>i. take n (drop (i * n) xs)) [0..<m]) = xs"
proof (induction m arbitrary: xs)
  case (Suc m)
  have "concat (map (\<lambda>i. take n (drop (i * n) xs)) [0..<Suc m]) =
      take n xs @ concat (map (\<lambda>i. take n (drop (i * n) (drop n xs))) [0..<m])"
    by (simp only: upt_conv_Cons [OF zero_less_Suc] map_Suc_upt [symmetric] list.map concat.simps) (simp add: add.commute comp_def)
  also have "\<dots> = xs" using Suc.IH [of "drop n xs"] Suc.prems by simp
  finally show ?case .
qed simp

lemma expert_slice:
  assumes range: "expert_range J d W name info expert len bs" and stored: "stores J d W name info' ws"
    and len: "wrapping_mul expert len = expert * len" "len \<le> usize_max"
    and small: "\<forall>n f. d n = Some f \<longrightarrow> length (contents f) \<le> i64_max"
  shows "info' = info" "bs = take len (drop (expert * len) ws)"
proof -
  obtain s f where s: "source_of J d W name = Some (s, f)" "require_tensor s name = Ok info"
      "read_tensor_byte_range s f name (of_nat (expert * len)) len = Some (Ok bs)"
    using range len(1) unfolding expert_range_def by metis
  have w: "require_tensor s name = Ok info'" "shard_read_tensor s f name = Some (Ok ws)"
    using stored s(1) unfolding stores_def by simp_all
  show "info' = info" using s(2) w(1) by simp
  have "length (contents f) \<le> i64_max" using s(1) small by (auto simp: source_of_Some)
  moreover have "expert * len \<le> usize_max" using wrapping_mul_le [of expert len] len(1) by simp
  ultimately show "bs = take len (drop (expert * len) ws)"
    using read_range_of_whole [OF s(2) w(2) s(3) len(2)] unat_of_nat_u64 [of "expert * len"] by argo
qed

lemma expert_part:
  assumes "expert_loaded J d W pre expert l"
    and ws: "stores J d W (suffixed pre ''weight'') wi ws" and ss: "stores J d W (suffixed pre ''weight_scale'') si ss"
    and small: "\<forall>n f. d n = Some f \<longrightarrow> length (contents f) \<le> i64_max"
  shows "out_features l = shape wi ! 1" "in_features l = 2 * (shape wi ! 2)"
    "length ws = shape wi ! 0 * (out_features l * in_features l div 2)"
    "length ss = shape wi ! 0 * (out_features l * in_features l div 16)"
    "packed_weight l = take (out_features l * in_features l div 2) (drop (expert * (out_features l * in_features l div 2)) ws)"
    "weight_scale l = take (out_features l * in_features l div 16) (drop (expert * (out_features l * in_features l div 16)) ss)"
proof -
  let ?n = "out_features l * in_features l"
  obtain wi' si' experts where v: "validate_nvfp4_expert_weight wi' = Ok (experts, out_features l, in_features l)"
      "validate_nvfp4_expert_scales si' experts (out_features l) (in_features l) = Ok ()" "expert < experts"
    and r: "expert_range J d W (suffixed pre ''weight'') wi' expert (wrapping_mul (out_features l) (in_features l) div 2) (packed_weight l)"
      "expert_range J d W (suffixed pre ''weight_scale'') si' expert (wrapping_mul (out_features l) (in_features l) div 16) (weight_scale l)"
    using assms(1) unfolding expert_loaded_def by blast
  note e = validated_expert [OF v]
  have le: "?n div 2 \<le> usize_max" "?n div 16 \<le> usize_max" using e(3) by (meson div_le_dividend order.trans)+
  note w = expert_slice [OF r(1) [unfolded e(2)] ws e(6) le(1) small] and s = expert_slice [OF r(2) [unfolded e(2)] ss e(7) le(2) small]
  show "out_features l = shape wi ! 1" "in_features l = 2 * (shape wi ! 2)" using w(1) e(1,8) by simp_all
  show "length ws = shape wi ! 0 * (?n div 2)" "length ss = shape wi ! 0 * (?n div 16)"
    using stores_length [OF ws] stores_length [OF ss] w(1) s(1) e(1,4,5) by simp_all
  show "packed_weight l = take (?n div 2) (drop (expert * (?n div 2)) ws)"
    "weight_scale l = take (?n div 16) (drop (expert * (?n div 16)) ss)"
    using w(2) s(2) by blast+
qed

section \<open>MXFP4\<close>

definition mxfp4_loaded :: "FloatOps \<Rightarrow> 'n JsonLib \<Rightarrow> Directory \<Rightarrow> (bytes, bytes) fmap \<Rightarrow> bytes \<Rightarrow> ModelOptNvfp4Linear \<Rightarrow> bool" where
  "mxfp4_loaded F J d W pre l \<longleftrightarrow> (\<exists>wi si codes converted.
     stores J d W (suffixed pre ''weight'') wi (packed_weight l) \<and> stores J d W (suffixed pre ''scale'') si codes \<and>
     32 dvd in_features l \<and> unat (byte_len si) = wrapping_mul (out_features l) (in_features l) div 32 \<and>
     map_result (mxfp4_scale F) codes = Ok converted \<and> weight_scale l = concat (map (\<lambda>s. [s, s]) converted))"

lemma loads_mxfp4: "loads J d W (load_mxfp4_linear F J d pre) (mxfp4_loaded F J d W pre)"
  unfolding load_mxfp4_linear_def Let_def
  by (intro loads_intros loads_result)
    (auto simp: mxfp4_loaded_def unat_of_nat_u64 [OF unat_of_nat_div] simp del: require_tensor_eq of_nat_div
      intro!: exI storesI)

lemma nth_concat_pairs:
  "k < length xs \<Longrightarrow> concat (map (\<lambda>s. [s, s]) xs) ! (2 * k) = xs ! k"
  "k < length xs \<Longrightarrow> concat (map (\<lambda>s. [s, s]) xs) ! Suc (2 * k) = xs ! k"
  "length (concat (map (\<lambda>s. [s, s]) xs)) = 2 * length xs"
  by (induction xs arbitrary: k) (auto simp: nth_Cons' less_Suc_eq_0_disj)

lemma mxfp4_scale_exact: "mxfp4_scale F code = Ok c \<Longrightarrow> f32_eq (e4m3_value F c) (e8m0_value F code)"
  by (auto simp: mxfp4_scale_def Let_def split: if_splits)

section \<open>Properties\<close>

text \<open>A linear that is loaded holds the bytes the checkpoint stores under its names, with the dimensions of the
  stored shapes: an input width divisible by 16, two elements to a byte and one scale to sixteen elements, unless
  the number of elements exceeds a \<open>usize\<close>.\<close>

theorem load_nvfp4_linear_sound:
  assumes "checkpoint_reachable J d c" "load_nvfp4_linear F J d pre c = Some (Ok l, c')"
  shows "0 < out_features l \<and> 0 < in_features l \<and> 16 dvd in_features l \<and>
    (\<exists>wi si. stores J d (weight_map c)
         (suffixed pre (if fmlookup (weight_map c) (suffixed pre ''weight_packed'') = None then ''weight'' else ''weight_packed''))
         wi (packed_weight l) \<and>
       stores J d (weight_map c) (suffixed pre ''weight_scale'') si (weight_scale l) \<and>
       shape wi = [out_features l, in_features l div 2] \<and> shape si = [out_features l, in_features l div 16]) \<and>
    (out_features l * in_features l \<le> usize_max \<longrightarrow>
       length (packed_weight l) = out_features l * in_features l div 2 \<and>
       length (weight_scale l) = out_features l * in_features l div 16)"
proof -
  obtain wi si where s: "stores J d (weight_map c)
         (suffixed pre (if fmlookup (weight_map c) (suffixed pre ''weight_packed'') = None then ''weight'' else ''weight_packed''))
         wi (packed_weight l)"
      "stores J d (weight_map c) (suffixed pre ''weight_scale'') si (weight_scale l)"
    and v: "validate_nvfp4_weight wi = Ok (out_features l, in_features l)"
      "validate_nvfp4_scales si (out_features l) (in_features l) = Ok ()"
    using loadsD [OF loads_nvfp4 assms] unfolding nvfp4_loaded_def by blast
  note v = validated_nvfp4 [OF v]
  have "out_features l * in_features l \<le> usize_max \<longrightarrow>
       length (packed_weight l) = out_features l * in_features l div 2 \<and>
       length (weight_scale l) = out_features l * in_features l div 16"
    using stores_length [OF s(1)] stores_length [OF s(2)] v(8,9) by (simp add: wrapping_mul_id)
  then show ?thesis using s v by blast
qed

text \<open>C37: the experts of a stacked tensor partition it: loading them one by one reads ranges that, put together, are
  the whole weight tensor and the whole scale tensor.\<close>

theorem experts_partition_tensor:
  assumes "checkpoint_reachable J d c" "\<forall>n f. d n = Some f \<longrightarrow> length (contents f) \<le> i64_max"
    and "stores J d (weight_map c) (suffixed pre ''weight'') wi ws"
    and "stores J d (weight_map c) (suffixed pre ''weight_scale'') si ss"
    and "0 < shape wi ! 0" "\<forall>e < shape wi ! 0. \<exists>c'. load_nvfp4_expert_linear J d pre e c = Some (Ok (l e), c')"
  shows "concat (map (\<lambda>e. packed_weight (l e)) [0..<shape wi ! 0]) = ws \<and>
    concat (map (\<lambda>e. weight_scale (l e)) [0..<shape wi ! 0]) = ss"
proof -
  have part: "expert_loaded J d (weight_map c) pre e (l e)" if "e < shape wi ! 0" for e
    using loadsD [OF loads_expert assms(1)] assms(6) that by blast
  note p = expert_part [OF part assms(3,4,2)]
  let ?n = "shape wi ! 1 * (2 * (shape wi ! 2))"
  have "map (\<lambda>e. packed_weight (l e)) [0..<shape wi ! 0] = map (\<lambda>e. take (?n div 2) (drop (e * (?n div 2)) ws)) [0..<shape wi ! 0]"
    "map (\<lambda>e. weight_scale (l e)) [0..<shape wi ! 0] = map (\<lambda>e. take (?n div 16) (drop (e * (?n div 16)) ss)) [0..<shape wi ! 0]"
    using p(5,6) by (auto simp: p(1,2) intro!: map_cong)
  moreover have "length ws = shape wi ! 0 * (?n div 2)" "length ss = shape wi ! 0 * (?n div 16)"
    using p(3,4) [OF assms(5)] unfolding p(1,2) [OF assms(5)] by blast+
  ultimately show ?thesis using concat_slices by metis
qed


text \<open>The byte counts of the validation wrap around: a weight without a single byte is accepted for a matrix of
  \<open>2 ^ 65\<close> elements.\<close>

theorem nvfp4_validation_wraps:
  assumes "dtype wi = ascii ''U8''" "shape wi = [2 ^ 32, 2 ^ 32]" "data_end wi = data_begin wi"
    and "dtype si = ascii ''F8_E4M3''" "shape si = [2 ^ 32, 2 ^ 29]" "data_end si = data_begin si"
  shows "validate_nvfp4_weight wi = Ok (2 ^ 32, 2 ^ 33) \<and> validate_nvfp4_scales si (2 ^ 32) (2 ^ 33) = Ok ()"
  using assms
  by (simp add: validate_nvfp4_weight_def validate_nvfp4_scales_def validate_k16_shape_def checked_mul_def usize_max_def
      wrapping_mul_def byte_len_def ascii_def)

section \<open>Examples\<close>

text \<open>A checkpoint of one shard with an NVFP4 linear \<open>a\<close>, two stacked experts \<open>b\<close> and an MXFP4 linear \<open>m\<close>, read
  by a library that knows its header, and an arithmetic that is exact on zeros and ones and infinite elsewhere.\<close>

definition demo_float :: FloatOps where
  "demo_float =
     \<lparr>mul = (\<lambda>a b. if a = f32_one then b else if b = f32_one then a else 0x7F800000),
      sub = (\<lambda>a b. if a = b then 0 else f32_one),
      add = (\<lambda>a b. if b = 0 then a else 0x7F800000),
      of_integer = (\<lambda>k. if k = 0 then 0 else 0x7F800000),
      quotient = (\<lambda>a b. if b = f32_one then a else if a = 0 then 0 else 0x7F800000),
      power_two = (\<lambda>k. if k = 0 then f32_one else 0x7F800000)\<rparr>"

definition demo_tensor :: "string \<Rightarrow> nat list \<Rightarrow> u64 \<Rightarrow> u64 \<Rightarrow> SafeTensorInfo" where
  "demo_tensor ty sh b e = \<lparr>dtype = ascii ty, shape = sh, data_begin = b, data_end = e\<rparr>"

definition demo_linears :: "(bytes \<times> SafeTensorInfo) list" where
  "demo_linears =
     [(ascii ''a.weight'', demo_tensor ''U8'' [1, 8] 0 8),
      (ascii ''a.weight_scale'', demo_tensor ''F8_E4M3'' [1, 1] 8 9),
      (ascii ''a.weight_scale_2'', demo_tensor ''F32'' [] 9 13),
      (ascii ''b.weight'', demo_tensor ''U8'' [2, 1, 8] 13 29),
      (ascii ''b.weight_scale'', demo_tensor ''F8_E4M3'' [2, 1, 1] 29 31),
      (ascii ''b.weight_scale_2'', demo_tensor ''F32'' [2] 31 39),
      (ascii ''m.weight'', demo_tensor ''I8'' [1, 16] 39 55),
      (ascii ''m.scale'', demo_tensor ''F8_E8M0'' [1, 1] 55 56)]"

definition demo_lib :: "u64 JsonLib" where
  "demo_lib =
     \<lparr>from_slice = (\<lambda>_. None), to_vec = (\<lambda>_. []), number_u64 = Some, number_of = (\<lambda>x. x)\<rparr>
     \<lparr>from_slice := (\<lambda>_. Some (JObject (map (\<lambda>(name, i). (name, info_json
        \<lparr>from_slice = (\<lambda>_. None), to_vec = (\<lambda>_. []), number_u64 = Some, number_of = (\<lambda>x. x)\<rparr>
        i (data_begin i) (data_end i))) demo_linears)))\<rparr>"

definition demo_data :: bytes where
  "demo_data = map of_nat [1..<9] @ [0x38, 0, 0, 0x80, 0x3F] @ map of_nat [11..<27] @ [0x30, 0x40] @
     [0, 0, 0x80, 0x3F, 0, 0, 0, 0x40] @ map of_nat [31..<47] @ [127]"

definition demo_weights_file :: File where
  "demo_weights_file = \<lparr>contents = le_bytes 8 (0 :: u64) @ demo_data, max_seek = i64_max\<rparr>"

definition demo_weights_shard :: SafeTensorShard where
  "demo_weights_shard = \<lparr>data_start = 8, shard_tensors = fold (\<lambda>(name, i). fmupd name i) demo_linears fmempty\<rparr>"

definition demo_weights_dir :: Directory where
  "demo_weights_dir name = (if name = ascii ''model.safetensors'' then Some demo_weights_file else None)"

definition demo_checkpoint :: SafeTensorCheckpoint where
  "demo_checkpoint = \<lparr>weight_map = single_map demo_weights_shard (ascii ''model.safetensors''),
     shards = fmupd (ascii ''model.safetensors'') demo_weights_shard fmempty\<rparr>"

lemma demo_lib_simps [simp]:
  "number_u64 demo_lib x = Some x" "number_of demo_lib x = x"
  "from_slice demo_lib bs = Some (JObject (map (\<lambda>(name, i). (name, info_json demo_lib i (data_begin i) (data_end i))) demo_linears))"
  by (simp_all add: demo_lib_def info_json_def)

lemma parse_tensors_map:
  assumes "numbers_ok J" "\<forall>(name, i) \<in> set kvs. info_ok i \<and> name \<noteq> ascii ''__metadata__''"
  shows "parse_tensors J (map (\<lambda>(name, i). (name, info_json J i (data_begin i) (data_end i))) kvs) m =
    Ok (fold (\<lambda>(name, i). fmupd name i) kvs m)"
  using assms(2)
proof (induction kvs arbitrary: m)
  case (Cons kv kvs)
  obtain name i where kv: "kv = (name, i)" by fastforce
  have "parse_tensor_info J (info_json J i (data_begin i) (data_end i)) = Ok i"
    using parse_info_json [OF assms(1), of i "data_begin i" "data_end i"] Cons.prems by (simp add: kv info_ok_def)
  then show ?case using Cons by (simp add: kv)
qed simp

lemma demo_weights_open: "shard_open demo_lib demo_weights_file = Some (Ok demo_weights_shard)"
proof -
  have "\<forall>(name, i) \<in> set demo_linears. info_ok i \<and> name \<noteq> ascii ''__metadata__''"
    by (simp add: demo_linears_def demo_tensor_def info_ok_def usize_max_def ascii_def)
  then have "parse_tensors demo_lib (map (\<lambda>(name, i). (name, info_json demo_lib i (data_begin i) (data_end i))) demo_linears) fmempty
      = Ok (shard_tensors demo_weights_shard)"
    by (subst parse_tensors_map) (simp_all add: numbers_ok_def demo_weights_shard_def)
  then show ?thesis
    by (simp add: shard_open_eq demo_weights_file_def from_le_bytes_le_bytes demo_weights_shard_def)
qed

lemma demo_checkpoint_opened: "checkpoint_open demo_lib demo_weights_dir = Some (Ok demo_checkpoint)"
proof -
  have "ascii ''model.safetensors.index.json'' \<noteq> ascii ''model.safetensors''" by (simp add: ascii_def)
  then show ?thesis
    by (simp add: checkpoint_open_def demo_weights_dir_def open_shard_def demo_weights_open demo_checkpoint_def Let_def)
qed

lemmas demo_reachable = checkpoint_reachable.opened [OF demo_checkpoint_opened]

lemma demo_lookup:
  "fmlookup (shard_tensors demo_weights_shard) name = map_of (rev demo_linears) name"
proof -
  have "fmlookup (fold (\<lambda>(name, i). fmupd name i) kvs m) = fmlookup m ++ map_of (rev kvs)"
    for kvs :: "(bytes \<times> SafeTensorInfo) list" and m
    by (induction kvs arbitrary: m) (auto simp: fun_eq_iff map_add_def split: option.splits)
  then show ?thesis by (simp add: demo_weights_shard_def map_add_def split: option.splits)
qed

lemma demo_source:
  assumes "map_of (rev demo_linears) name = Some i"
  shows "open_source demo_lib demo_weights_dir name demo_checkpoint = Some (Ok (demo_weights_shard, demo_weights_file), demo_checkpoint)"
    "require_tensor demo_weights_shard name = Ok i"
    "source_of demo_lib demo_weights_dir (weight_map demo_checkpoint) name = Some (demo_weights_shard, demo_weights_file)"
  using assms
  by (simp_all add: open_source_def open_shard_for_tensor_def shard_name_for_tensor_def demo_checkpoint_def single_map_def
      demo_lookup demo_weights_dir_def source_of_Some demo_weights_open)

lemma demo_data_length: "length demo_data = 56"
  by (simp add: demo_data_def)

lemma demo_begin:
  assumes "data_begin i \<le> data_end i" "unat (data_end i) \<le> 56"
  shows "unat (data_start demo_weights_shard + data_begin i) = 8 + unat (data_begin i)"
    "unat (byte_len i) = unat (data_end i) - unat (data_begin i)" "unat (data_begin i) \<le> unat (data_end i)"
proof -
  show le: "unat (data_begin i) \<le> unat (data_end i)" using assms(1) by (simp add: word_le_nat_alt)
  show "unat (data_start demo_weights_shard + data_begin i) = 8 + unat (data_begin i)"
    using le assms(2) by (simp add: demo_weights_shard_def unat_add_u64)
  show "unat (byte_len i) = unat (data_end i) - unat (data_begin i)"
    using assms(1) by (simp add: byte_len_def unat_sub word_le_nat_alt)
qed

lemma demo_read:
  assumes "map_of (rev demo_linears) name = Some i" "data_begin i \<le> data_end i" "unat (data_end i) \<le> 56"
  shows "shard_read_tensor demo_weights_shard demo_weights_file name =
    Some (Ok (take (unat (byte_len i)) (drop (unat (data_begin i)) demo_data)))"
proof -
  note b = demo_begin [OF assms(2,3)]
  have "fmlookup (shard_tensors demo_weights_shard) name = Some i" using assms(1) by (simp add: demo_lookup)
  then show ?thesis
    unfolding shard_read_tensor_eq [of demo_weights_shard name i] b(1,2) using b(3) assms(3)
    by (auto simp: shard_read_tensor_eq b(1,2) demo_weights_file_def demo_data_length i64_max_def)
qed

lemma demo_range:
  assumes "map_of (rev demo_linears) name = Some i" "data_begin i \<le> data_end i" "unat (data_end i) \<le> 56"
    "unat off + len \<le> unat (byte_len i)"
  shows "read_tensor_byte_range demo_weights_shard demo_weights_file name off len =
    Some (Ok (take len (drop (unat (data_begin i) + unat off) demo_data)))"
proof -
  note b = demo_begin [OF assms(2,3)]
  have l: "fmlookup (shard_tensors demo_weights_shard) name = Some i" using assms(1) by (simp add: demo_lookup)
  have len: "len \<le> 56" "unat off \<le> 56" using assms(3,4) b by simp_all
  then have n: "unat (of_nat len :: u64) = len" by (intro unat_of_nat_u64) (simp add: usize_max_def)
  have "unat (data_start demo_weights_shard + data_begin i + off) = 8 + unat (data_begin i) + unat off"
    using len b assms(3) by (subst unat_add_u64) simp_all
  moreover have "unat (off + of_nat len) = unat off + len" using n len by (simp add: unat_add_u64)
  ultimately show ?thesis
    unfolding shard_read_eq [OF l] using b n len assms(3,4)
    by (auto simp: demo_weights_file_def demo_data_length i64_max_def word_le_nat_alt)
qed

definition demo_a :: ModelOptNvfp4Linear where
  "demo_a = \<lparr>linear_prefix = ascii ''a'', out_features = 1, in_features = 16, packed_weight = map of_nat [1..<9],
     weight_scale = [0x38], weight_scale_2 = f32_one, input_scale = f32_one\<rparr>"

lemma demo_names: "suffixed (ascii p) suf = ascii (p @ ''.'' @ suf)"
  by (simp add: suffixed_def ascii_def)

lemma demo_entries:
  "map_of (rev demo_linears) (ascii ''a.weight'') = Some (demo_tensor ''U8'' [1, 8] 0 8)"
  "map_of (rev demo_linears) (ascii ''a.weight_scale'') = Some (demo_tensor ''F8_E4M3'' [1, 1] 8 9)"
  "map_of (rev demo_linears) (ascii ''a.weight_scale_2'') = Some (demo_tensor ''F32'' [] 9 13)"
  "map_of (rev demo_linears) (ascii ''b.weight'') = Some (demo_tensor ''U8'' [2, 1, 8] 13 29)"
  "map_of (rev demo_linears) (ascii ''b.weight_scale'') = Some (demo_tensor ''F8_E4M3'' [2, 1, 1] 29 31)"
  "map_of (rev demo_linears) (ascii ''b.weight_scale_2'') = Some (demo_tensor ''F32'' [2] 31 39)"
  "map_of (rev demo_linears) (ascii ''m.weight'') = Some (demo_tensor ''I8'' [1, 16] 39 55)"
  "map_of (rev demo_linears) (ascii ''m.scale'') = Some (demo_tensor ''F8_E8M0'' [1, 1] 55 56)"
  by (simp_all add: demo_linears_def ascii_def)

lemma demo_absent:
  "map_of (rev demo_linears) (ascii ''a.weight_packed'') = None"
  "map_of (rev demo_linears) (ascii ''a.input_scale'') = None"
  "map_of (rev demo_linears) (ascii ''b.input_scale'') = None"
  by (simp_all add: demo_linears_def ascii_def)

lemma demo_has: "has_tensor name demo_checkpoint = Some (Ok (map_of (rev demo_linears) name \<noteq> None), demo_checkpoint)"
  by (auto simp: has_tensor_def contains_tensor_def demo_checkpoint_def single_map_def demo_lookup)

lemmas run_load = bind_load_def lift_read_def lift_result_def

lemmas demo_run = demo_source(1) [OF demo_entries(1)] demo_source(1) [OF demo_entries(2)] demo_source(1) [OF demo_entries(3)]
  demo_source(1) [OF demo_entries(4)] demo_source(1) [OF demo_entries(5)] demo_source(1) [OF demo_entries(6)]
  demo_source(1) [OF demo_entries(7)] demo_source(1) [OF demo_entries(8)]
  demo_source(2) [OF demo_entries(1)] demo_source(2) [OF demo_entries(2)] demo_source(2) [OF demo_entries(3)]
  demo_source(2) [OF demo_entries(4)] demo_source(2) [OF demo_entries(5)] demo_source(2) [OF demo_entries(6)]
  demo_source(2) [OF demo_entries(7)] demo_source(2) [OF demo_entries(8)]

lemma demo_reads:
  "shard_read_tensor demo_weights_shard demo_weights_file (ascii ''a.weight'') = Some (Ok (map of_nat [1..<9]))"
  "shard_read_tensor demo_weights_shard demo_weights_file (ascii ''a.weight_scale'') = Some (Ok [0x38])"
  "shard_read_tensor demo_weights_shard demo_weights_file (ascii ''a.weight_scale_2'') = Some (Ok [0, 0, 0x80, 0x3F])"
  "shard_read_tensor demo_weights_shard demo_weights_file (ascii ''b.weight'') = Some (Ok (map of_nat [11..<27]))"
  "shard_read_tensor demo_weights_shard demo_weights_file (ascii ''b.weight_scale'') = Some (Ok [0x30, 0x40])"
  "shard_read_tensor demo_weights_shard demo_weights_file (ascii ''b.weight_scale_2'') = Some (Ok [0, 0, 0x80, 0x3F, 0, 0, 0, 0x40])"
  "shard_read_tensor demo_weights_shard demo_weights_file (ascii ''m.weight'') = Some (Ok (map of_nat [31..<47]))"
  "shard_read_tensor demo_weights_shard demo_weights_file (ascii ''m.scale'') = Some (Ok [127])"
  by (subst demo_read [OF demo_entries(1)] demo_read [OF demo_entries(2)] demo_read [OF demo_entries(3)]
      demo_read [OF demo_entries(4)] demo_read [OF demo_entries(5)] demo_read [OF demo_entries(6)]
      demo_read [OF demo_entries(7)] demo_read [OF demo_entries(8)];
      simp add: demo_tensor_def byte_len_def demo_data_def)+

lemma demo_validated:
  "validate_nvfp4_weight (demo_tensor ''U8'' [1, 8] 0 8) = Ok (1, 16)"
  "validate_nvfp4_scales (demo_tensor ''F8_E4M3'' [1, 1] 8 9) 1 16 = Ok ()"
  "validate_nvfp4_expert_weight (demo_tensor ''U8'' [2, 1, 8] 13 29) = Ok (2, 1, 16)"
  "validate_nvfp4_expert_scales (demo_tensor ''F8_E4M3'' [2, 1, 1] 29 31) 2 1 16 = Ok ()"
  by (simp_all add: validate_nvfp4_weight_def validate_nvfp4_scales_def validate_k16_shape_def validate_nvfp4_expert_weight_def
      validate_nvfp4_expert_scales_def demo_tensor_def byte_len_def checked_mul_def usize_max_def wrapping_mul_def)

lemma demo_scalar: "read_scalar_f32 demo_weights_shard demo_weights_file (ascii ''a.weight_scale_2'') = Some (Ok f32_one)"
  unfolding read_scalar_f32_def demo_run demo_reads
  by (simp add: demo_tensor_def is_scalar_def byte_len_def from_le_bytes_def f32_one_def)

lemma demo_load_a: "load_nvfp4_linear demo_float demo_lib demo_weights_dir (ascii ''a'') demo_checkpoint = Some (Ok demo_a, demo_checkpoint)"
  by (simp add: load_nvfp4_linear_def input_scale_or_unity_def demo_names run_load demo_has demo_absent demo_run demo_reads
      demo_validated demo_scalar Let_def demo_a_def del: require_tensor_eq One_nat_def)

theorem load_nvfp4_linear_sound_witness:
  "load_nvfp4_linear demo_float demo_lib demo_weights_dir (ascii ''a'') demo_checkpoint = Some (Ok demo_a, demo_checkpoint) \<and>
   (\<exists>wi. stores demo_lib demo_weights_dir (weight_map demo_checkpoint) (ascii ''a.weight'') wi (packed_weight demo_a)) \<and>
   length (packed_weight demo_a) = 8 \<and> length (weight_scale demo_a) = 1"
proof -
  have "fmlookup (weight_map demo_checkpoint) (ascii ''a.weight_packed'') = None"
    by (simp add: demo_checkpoint_def single_map_def demo_lookup demo_absent)
  moreover have "out_features demo_a = 1" "in_features demo_a = 16" by (simp_all add: demo_a_def)
  ultimately show ?thesis
    using load_nvfp4_linear_sound [OF demo_reachable demo_load_a] demo_load_a by (auto simp: demo_names usize_max_def)
qed

lemma demo_scales: "read_float_tensor_as_f32 demo_weights_shard demo_weights_file (ascii ''b.weight_scale_2'') = Some (Ok [f32_one, 0x40000000])"
  unfolding read_float_tensor_as_f32_def demo_run demo_reads
  by (simp add: demo_tensor_def chunks_exact_def from_le_bytes_def f32_one_def upt_rec) presburger

definition demo_b :: "nat \<Rightarrow> ModelOptNvfp4Linear" where
  "demo_b e = \<lparr>linear_prefix = ascii ''b'' @ ascii ''['' @ decimal e @ ascii '']'', out_features = 1, in_features = 16,
     packed_weight = take 8 (drop (13 + 8 * e) demo_data), weight_scale = take 1 (drop (29 + e) demo_data),
     weight_scale_2 = [f32_one, 0x40000000] ! e, input_scale = f32_one\<rparr>"

lemma demo_ranges:
  assumes "e < 2"
  shows "read_tensor_byte_range demo_weights_shard demo_weights_file (ascii ''b.weight'') (of_nat (wrapping_mul e 8)) 8 =
      Some (Ok (take 8 (drop (13 + 8 * e) demo_data)))"
    "read_tensor_byte_range demo_weights_shard demo_weights_file (ascii ''b.weight_scale'') (of_nat (wrapping_mul e 1)) 1 =
      Some (Ok (take 1 (drop (29 + e) demo_data)))"
proof -
  have e: "wrapping_mul e 8 = 8 * e" "wrapping_mul e 1 = e" using assms by (simp_all add: wrapping_mul_def)
  have u: "unat (of_nat (8 * e) :: u64) = 8 * e" "unat (of_nat e :: u64) = e"
    using assms by (intro unat_of_nat_u64, simp add: usize_max_def)+
  show "read_tensor_byte_range demo_weights_shard demo_weights_file (ascii ''b.weight'') (of_nat (wrapping_mul e 8)) 8 =
      Some (Ok (take 8 (drop (13 + 8 * e) demo_data)))"
    unfolding e using demo_range [OF demo_entries(4), of "of_nat (8 * e)" 8, unfolded u] assms
    by (simp add: demo_tensor_def byte_len_def)
  show "read_tensor_byte_range demo_weights_shard demo_weights_file (ascii ''b.weight_scale'') (of_nat (wrapping_mul e 1)) 1 =
      Some (Ok (take 1 (drop (29 + e) demo_data)))"
    unfolding e using demo_range [OF demo_entries(5), of "of_nat e" 1, unfolded u] assms
    by (simp add: demo_tensor_def byte_len_def)
qed

lemma demo_load_b:
  assumes "e < 2"
  shows "load_nvfp4_expert_linear demo_lib demo_weights_dir (ascii ''b'') e demo_checkpoint = Some (Ok (demo_b e), demo_checkpoint)"
proof -
  have "wrapping_mul 1 16 div 2 = 8" "wrapping_mul 1 16 div 16 = 1" by (simp_all add: wrapping_mul_def)
  then show ?thesis
    using assms
    by (simp add: load_nvfp4_expert_linear_def demo_names run_load demo_has demo_absent demo_run demo_reads demo_validated
        demo_scales demo_ranges Let_def demo_b_def del: require_tensor_eq One_nat_def)
qed

theorem experts_partition_tensor_witness:
  "load_nvfp4_expert_linear demo_lib demo_weights_dir (ascii ''b'') 0 demo_checkpoint = Some (Ok (demo_b 0), demo_checkpoint) \<and>
   load_nvfp4_expert_linear demo_lib demo_weights_dir (ascii ''b'') 1 demo_checkpoint = Some (Ok (demo_b 1), demo_checkpoint) \<and>
   packed_weight (demo_b 0) @ packed_weight (demo_b 1) = map of_nat [11..<27] \<and>
   weight_scale (demo_b 0) @ weight_scale (demo_b 1) = [0x30, 0x40]"
proof -
  let ?w = "demo_tensor ''U8'' [2, 1, 8] 13 29"
  have st: "stores demo_lib demo_weights_dir (weight_map demo_checkpoint) (suffixed (ascii ''b'') ''weight'') ?w (map of_nat [11..<27])"
    "stores demo_lib demo_weights_dir (weight_map demo_checkpoint) (suffixed (ascii ''b'') ''weight_scale'')
       (demo_tensor ''F8_E4M3'' [2, 1, 1] 29 31) [0x30, 0x40]"
    unfolding stores_def demo_names
    using demo_source(3) [OF demo_entries(4)] demo_source(3) [OF demo_entries(5)] demo_run demo_reads
    by (auto simp del: require_tensor_eq)
  have small: "\<forall>n f. demo_weights_dir n = Some f \<longrightarrow> length (contents f) \<le> i64_max"
    by (auto simp: demo_weights_dir_def demo_weights_file_def demo_data_length i64_max_def split: if_splits)
  have "shape ?w ! 0 = 2" by (simp add: demo_tensor_def)
  then have "concat (map (\<lambda>e. packed_weight (demo_b e)) [0..<2]) = map of_nat [11..<27] \<and>
      concat (map (\<lambda>e. weight_scale (demo_b e)) [0..<2]) = [0x30, 0x40]"
    using experts_partition_tensor [OF demo_reachable small st, of demo_b] demo_load_b by auto
  then show ?thesis using demo_load_b [of 0] demo_load_b [of 1] by (simp add: upt_rec)
qed

lemma demo_mxfp4_scale: "mxfp4_scale demo_float 127 = Ok 0x38"
  by code_simp


end
