(* ===== verification/Modelopt_Quant.thy ===== *)
theory Modelopt_Quant
  imports Modelopt
begin

text \<open>
  Host records of ModelOpt weights, the second half of \<open>crates/eider-format/src/modelopt.rs\<close>: quantisation to NVFP4
  on several threads, decoding, concatenation, and the tiled layout in which cuBLASLt expects the scales.

  The threads of \<open>quantize_values\<close> own disjoint chunks of the two output buffers, so a chunk is a function and the
  result their concatenation; the number of processors is an argument. Sums and products of \<open>usize\<close> that are not
  checked are taken modulo \<open>2 ^ 64\<close>, once at the end where no division or comparison comes between. A panic is \<open>None\<close>.
\<close>

section \<open>Tiled scales\<close>

definition cublaslt_scale_layout_len :: "nat \<Rightarrow> nat \<Rightarrow> nat" where
  "cublaslt_scale_layout_len outer inner =
     (let blocks = div_ceil inner 16; inner = div_ceil blocks 4 * 4
      in div_ceil outer 128 * 128 * inner mod 2 ^ 64)"

definition cublaslt_scale_offset :: "nat \<Rightarrow> nat \<Rightarrow> nat \<Rightarrow> nat" where
  "cublaslt_scale_offset outer block inner =
     (let blocks = div_ceil inner 16;
          padded_blocks = div_ceil blocks 4 * 4;
          tile_base = (block div 4 * 4 + outer div 128 * padded_blocks) * 128
      in (tile_base + outer mod 32 * 16 + outer mod 128 div 32 * 4 + block mod 4) mod 2 ^ 64)"

definition put_scale :: "nat \<Rightarrow> bytes \<Rightarrow> nat \<times> nat \<Rightarrow> bytes option \<Rightarrow> bytes option" where
  "put_scale in_n scales = (\<lambda>(out, block) packed.
     Option.bind packed (\<lambda>packed.
     Option.bind (get scales ((out * (in_n div 16) + block) mod 2 ^ 64)) (\<lambda>s.
       let at = cublaslt_scale_offset out block in_n
       in if at < length packed then Some (packed[at := s]) else None)))"

definition modelopt_scales_to_cublaslt :: "nat \<Rightarrow> nat \<Rightarrow> bytes \<Rightarrow> bytes option" where
  "modelopt_scales_to_cublaslt out_n in_n scales =
     (let len = cublaslt_scale_layout_len out_n in_n
      in if len > i64_max then None
         else fold (put_scale in_n scales) (List.product [0..<out_n] [0..<in_n div 16]) (Some (replicate len 0)))"

definition cublaslt_scales :: "ModelOptNvfp4Linear \<Rightarrow> bytes option" where
  "cublaslt_scales l = modelopt_scales_to_cublaslt (out_features l) (in_features l) (weight_scale l)"

section \<open>Quantisation\<close>

definition f32_max :: "f32 \<Rightarrow> f32 \<Rightarrow> f32" where
  "f32_max a b = (if f32_is_nan a then b else if f32_is_nan b then a else if f32_lt a b then b else a)"

definition block_scale_code :: "FloatOps \<Rightarrow> (nat \<Rightarrow> f32) \<Rightarrow> nat \<Rightarrow> u8" where
  "block_scale_code F value_at start =
     (let max_abs = foldl f32_max 0 (map f32_abs (filter f32_is_finite (map value_at [start..<start + 16])))
      in if \<not> f32_eq max_abs 0 then ue4m3_code F (quotient F max_abs 0x40C00000) else 0)"

definition element_code :: "FloatOps \<Rightarrow> f32 \<Rightarrow> f32 \<Rightarrow> u8" where
  "element_code F scale v = e2m1_code F (if f32_eq scale 0 then 0 else quotient F v scale)"

definition write_code :: "nat \<Rightarrow> u8 \<Rightarrow> bytes \<Rightarrow> bytes" where
  "write_code flat code packed =
     (if even flat then packed[flat div 2 := code]
      else packed[flat div 2 := packed ! (flat div 2) OR push_bit 4 code])"

definition quantize_block ::
  "FloatOps \<Rightarrow> (nat \<Rightarrow> f32) \<Rightarrow> nat \<Rightarrow> nat \<Rightarrow> nat \<Rightarrow> nat \<Rightarrow> nat \<times> nat \<Rightarrow> bytes \<times> bytes \<Rightarrow> bytes \<times> bytes" where
  "quantize_block F value_at in_n blocks_per_row rows_per_chunk chunk = (\<lambda>(row, block) (packed, scales).
     let global_row = chunk * rows_per_chunk + row;
         global_start = global_row * in_n + block * 16;
         local_start = row * in_n + block * 16;
         scale_code = block_scale_code F value_at global_start;
         scale = e4m3_value F scale_code
     in (fold (\<lambda>k. write_code (local_start + k) (element_code F scale (value_at (global_start + k)))) [0..<16] packed,
         scales[row * blocks_per_row + block := scale_code]))"

definition quantize_chunk ::
  "FloatOps \<Rightarrow> (nat \<Rightarrow> f32) \<Rightarrow> nat \<Rightarrow> nat \<Rightarrow> nat \<times> bytes \<times> bytes \<Rightarrow> bytes \<times> bytes" where
  "quantize_chunk F value_at in_n rows_per_chunk = (\<lambda>(chunk, packed, scales).
     let blocks_per_row = in_n div 16; rows = length scales div blocks_per_row
     in fold (quantize_block F value_at in_n blocks_per_row rows_per_chunk chunk)
          (List.product [0..<rows] [0..<blocks_per_row]) (packed, scales))"

text \<open>\<open>chunks_mut\<close>: the last chunk may be shorter.\<close>

definition chunks :: "nat \<Rightarrow> 'a list \<Rightarrow> 'a list list" where
  "chunks n xs = map (\<lambda>i. take n (drop (i * n) xs)) [0..<div_ceil (length xs) n]"

definition quantize_values ::
  "FloatOps \<Rightarrow> nat \<Rightarrow> bytes \<Rightarrow> nat \<Rightarrow> nat \<Rightarrow> (nat \<Rightarrow> f32) \<Rightarrow> ModelOptNvfp4Linear result option" where
  "quantize_values F processors pre out_n in_n value_at =
     bind_panic (Some (validate_k16_shape ''NVFP4 weight quantization'' out_n in_n)) (\<lambda>_.
     let blocks_per_row = in_n div 16;
         packed = replicate (wrapping_mul out_n in_n div 2) 0;
         scales = replicate (wrapping_mul out_n blocks_per_row) 0;
         workers = min processors out_n;
         rows_per_chunk = div_ceil out_n workers;
         packed_per_chunk = wrapping_mul rows_per_chunk in_n div 2;
         scales_per_chunk = wrapping_mul rows_per_chunk blocks_per_row
     in if packed_per_chunk = 0 \<or> scales_per_chunk = 0 then None
        else
          (let zipped = zip (chunks packed_per_chunk packed) (chunks scales_per_chunk scales);
               done_chunks = map (quantize_chunk F value_at in_n rows_per_chunk) (zip [0..<length zipped] zipped)
           in Some (Ok \<lparr>linear_prefix = pre, out_features = out_n, in_features = in_n,
                packed_weight = concat (map fst done_chunks), weight_scale = concat (map snd done_chunks),
                weight_scale_2 = f32_one, input_scale = f32_one\<rparr>)))"

definition quantize_bf16 :: "FloatOps \<Rightarrow> nat \<Rightarrow> bytes \<Rightarrow> nat \<Rightarrow> nat \<Rightarrow> bf16 list \<Rightarrow> ModelOptNvfp4Linear result option" where
  "quantize_bf16 F processors pre out_n in_n vs =
     bind_panic (Some (checked_elements ''BF16-to-NVFP4 weight'' out_n in_n)) (\<lambda>expected.
     bind_panic (Some (validate_k16_shape ''BF16-to-NVFP4 weight'' out_n in_n)) (\<lambda>_.
     if length vs \<noteq> expected then Some (Err (Shape ''BF16-to-NVFP4 weight''))
     else quantize_values F processors pre out_n in_n (\<lambda>index. bf16_to_f32 (vs ! index))))"

definition fp8_value :: "FloatOps \<Rightarrow> ModelOptFp8Linear \<Rightarrow> nat \<Rightarrow> f32" where
  "fp8_value F w index =
     (let row = index div fp8_in_features w;
          scale = (case channel_weight_scale w of None \<Rightarrow> fp8_weight_scale w | Some scales \<Rightarrow> scales ! row)
      in mul F (e4m3_value F (fp8_weight w ! index)) scale)"

definition quantize_fp8 :: "FloatOps \<Rightarrow> nat \<Rightarrow> ModelOptFp8Linear \<Rightarrow> ModelOptNvfp4Linear result option" where
  "quantize_fp8 F processors w =
     bind_panic (Some (checked_elements ''FP8-to-NVFP4 weight'' (fp8_out_features w) (fp8_in_features w))) (\<lambda>expected.
     if length (fp8_weight w) \<noteq> expected then Some (Err (Shape ''FP8-to-NVFP4 weight''))
     else if \<not> f32_is_finite (fp8_weight_scale w) then Some (Err (Format ''FP8-to-NVFP4 weight scale''))
     else if (case channel_weight_scale w of
                None \<Rightarrow> False
              | Some scales \<Rightarrow> length scales \<noteq> fp8_out_features w \<or> (\<exists>v \<in> set scales. \<not> f32_is_finite v))
     then Some (Err (Shape ''FP8-to-NVFP4 channel scales''))
     else quantize_values F processors (fp8_prefix w) (fp8_out_features w) (fp8_in_features w) (fp8_value F w))"

definition block_fp8_value :: "FloatOps \<Rightarrow> bytes ModelOptBlockScaledFp8Linear \<Rightarrow> nat \<Rightarrow> f32" where
  "block_fp8_value F w index =
     (let row = index div block_in_features w; col = index mod block_in_features w;
          scale = block_weight_scale w ! (row div 128 * (block_in_features w div 128) + col div 128)
      in mul F (e4m3_value F (block_weight w ! index)) (e8m0_value F scale))"

definition quantize_block_scaled_fp8 ::
  "FloatOps \<Rightarrow> nat \<Rightarrow> bytes ModelOptBlockScaledFp8Linear \<Rightarrow> ModelOptNvfp4Linear result option" where
  "quantize_block_scaled_fp8 F processors w =
     (let out_n = block_out_features w; in_n = block_in_features w in
     bind_panic (Some (checked_elements ''block-FP8-to-NVFP4 weight'' out_n in_n)) (\<lambda>expected_values.
     bind_panic (Some (ok_or (checked_mul (out_n div 128) (in_n div 128)) (Shape ''block-FP8-to-NVFP4 scales''))) (\<lambda>expected_scales.
     if out_n = 0 \<or> in_n = 0 \<or> \<not> 128 dvd out_n \<or> \<not> 128 dvd in_n \<or>
        length (block_weight w) \<noteq> expected_values \<or> length (block_weight_scale w) \<noteq> expected_scales
     then Some (Err (Shape ''block-FP8-to-NVFP4 weight''))
     else if 0xFF \<in> set (block_weight_scale w) then Some (Err (Format ''block-FP8-to-NVFP4 scale''))
     else quantize_values F processors (block_prefix w) out_n in_n (block_fp8_value F w))))"

section \<open>Decoding and concatenation\<close>

definition dequantize_element :: "FloatOps \<Rightarrow> ModelOptNvfp4Linear \<Rightarrow> nat \<Rightarrow> nat \<Rightarrow> f32" where
  "dequantize_element F l out inp =
     (let flat = out * in_features l + inp;
          code = (if even flat then packed_weight l ! (flat div 2) AND 0x0F else drop_bit 4 (packed_weight l ! (flat div 2)))
      in mul F (e2m1_value code) (e4m3_value F (weight_scale l ! (out * (in_features l div 16) + inp div 16))))"

definition dequantize_to_f32_col_major :: "FloatOps \<Rightarrow> ModelOptNvfp4Linear \<Rightarrow> f32 list" where
  "dequantize_to_f32_col_major F l =
     concat (map (\<lambda>out. map (dequantize_element F l out) [0..<in_features l]) [0..<out_features l])"

definition nvfp4_concat_out_features ::
  "bytes \<Rightarrow> ModelOptNvfp4Linear \<Rightarrow> ModelOptNvfp4Linear \<Rightarrow> ModelOptNvfp4Linear result" where
  "nvfp4_concat_out_features pre a b =
     (if in_features a \<noteq> in_features b then Err (Shape ''ModelOpt concat in_features'')
      else if \<not> f32_eq (input_scale a) (input_scale b) \<or> \<not> f32_eq (weight_scale_2 a) (weight_scale_2 b)
      then Err (Format ''ModelOpt concat scalar scales'')
      else Ok \<lparr>linear_prefix = pre, out_features = (out_features a + out_features b) mod 2 ^ 64, in_features = in_features a,
               packed_weight = packed_weight a @ packed_weight b, weight_scale = weight_scale a @ weight_scale b,
               weight_scale_2 = weight_scale_2 a, input_scale = input_scale a\<rparr>)"

definition fp8_concat_out_features ::
  "bytes \<Rightarrow> ModelOptFp8Linear \<Rightarrow> ModelOptFp8Linear \<Rightarrow> ModelOptFp8Linear result" where
  "fp8_concat_out_features pre a b =
     (if fp8_in_features a \<noteq> fp8_in_features b then Err (Shape ''FP8 concat in_features'')
      else if fp8_weight_scale a \<noteq> fp8_weight_scale b \<or> fp8_input_scale a \<noteq> fp8_input_scale b \<or>
        (channel_weight_scale a = None) \<noteq> (channel_weight_scale b = None)
      then Err (Format ''FP8 concat scales'')
      else Ok \<lparr>fp8_prefix = pre, fp8_out_features = (fp8_out_features a + fp8_out_features b) mod 2 ^ 64,
               fp8_in_features = fp8_in_features a, fp8_weight = fp8_weight a @ fp8_weight b,
               fp8_weight_scale = fp8_weight_scale a,
               channel_weight_scale =
                 (case (channel_weight_scale a, channel_weight_scale b) of
                    (Some x, Some y) \<Rightarrow> Some (x @ y) | _ \<Rightarrow> None),
               fp8_input_scale = fp8_input_scale a\<rparr>)"

section \<open>The tiled layout is injective\<close>

text \<open>A tile of 512 bytes holds four blocks of 128 rows. \<open>tile\<close> and \<open>lane\<close> are the number of the tile and the place
  in it.\<close>

definition tile :: "nat \<Rightarrow> nat \<Rightarrow> nat \<Rightarrow> nat" where
  "tile outer block tiles = block div 4 + outer div 128 * tiles"

definition lane :: "nat \<Rightarrow> nat \<Rightarrow> nat" where
  "lane outer block = outer mod 32 * 16 + outer mod 128 div 32 * 4 + block mod 4"

lemma lane_parts:
  "lane outer block < 512" "lane outer block div 16 = outer mod 32" "lane outer block div 4 mod 4 = outer mod 128 div 32"
  "lane outer block mod 4 = block mod 4"
proof -
  define a b c where "a = outer mod 32" and "b = outer mod 128 div 32" and "c = block mod 4"
  have l: "lane outer block = 16 * a + (4 * b + c)" by (simp add: lane_def a_def b_def c_def)
  have lt: "a < 32" "b < 4" "c < 4"
    by (simp_all add: a_def b_def c_def less_mult_imp_div_less)
  show "lane outer block < 512" using l lt by simp
  show "lane outer block div 16 = outer mod 32" unfolding l a_def [symmetric] using lt by simp
  have l': "lane outer block = 4 * (4 * a + b) + c" unfolding l by simp
  have d: "lane outer block div 4 = 4 * a + b" "lane outer block mod 4 = c"
    unfolding l' using lt by (simp_all only: div_mult_self4 mod_mult_self4) simp_all
  show "lane outer block div 4 mod 4 = outer mod 128 div 32" unfolding d b_def [symmetric] using lt by simp
  show "lane outer block mod 4 = block mod 4" unfolding d c_def ..
qed

lemma outer_parts: "outer mod 128 = outer mod 128 div 32 * 32 + (outer :: nat) mod 32"
  using div_mult_mod_eq [of "outer mod 128" 32] mod_mod_cancel [of 32 128 outer] by simp

lemma lane_tile_inject:
  assumes "lane o1 b1 = lane o2 b2" "tile o1 b1 q = tile o2 b2 q" "b1 div 4 < q" "b2 div 4 < q"
  shows "o1 = o2" "b1 = b2"
proof -
  have "o1 mod 32 = o2 mod 32" "o1 mod 128 div 32 = o2 mod 128 div 32" "b1 mod 4 = b2 mod 4"
    using lane_parts(2-4) [of o1 b1] lane_parts(2-4) [of o2 b2] assms(1) by simp_all
  moreover have "tile x b q mod q = b div 4" "tile x b q div q = x div 128" if "b div 4 < q" for x b
    using that by (simp_all add: tile_def)
  then have "b1 div 4 = b2 div 4" "o1 div 128 = o2 div 128" using assms(2-4) by metis+
  ultimately show "o1 = o2" "b1 = b2"
    using outer_parts [of o1] outer_parts [of o2] div_mult_mod_eq [of o1 128] div_mult_mod_eq [of o2 128]
      div_mult_mod_eq [of b1 4] div_mult_mod_eq [of b2 4] by metis+
qed

lemma div_ceil_dvd: "0 < b \<Longrightarrow> b dvd a \<Longrightarrow> div_ceil a b = a div b"
  by (auto simp: div_ceil_def)

lemma div_lt_div_ceil: "0 < b \<Longrightarrow> x < a \<Longrightarrow> x div b < div_ceil a b"
proof -
  assume b: "0 < b" "x < a"
  have "x < div_ceil a b * b" using div_ceil_bounds(1) [OF b(1), of a] b(2) by simp
  then show ?thesis by (simp add: less_mult_imp_div_less)
qed

lemma layout_exact:
  assumes "16 dvd in_n" "div_ceil out_n 128 * 128 * (div_ceil (in_n div 16) 4 * 4) \<le> i64_max"
  shows "cublaslt_scale_layout_len out_n in_n = 512 * (div_ceil out_n 128 * div_ceil (in_n div 16) 4)"
    and "out < out_n \<Longrightarrow> block < in_n div 16 \<Longrightarrow>
      cublaslt_scale_offset out block in_n = 512 * tile out block (div_ceil (in_n div 16) 4) + lane out block"
    and "out < out_n \<Longrightarrow> block < in_n div 16 \<Longrightarrow>
      cublaslt_scale_offset out block in_n < cublaslt_scale_layout_len out_n in_n"
    and "cublaslt_scale_layout_len out_n in_n \<le> i64_max"
proof -
  let ?q = "div_ceil (in_n div 16) 4" let ?m = "div_ceil out_n 128"
  have len: "?m * 128 * (?q * 4) = 512 * (?m * ?q)" by simp
  have small: "512 * (?m * ?q) \<le> i64_max" using assms(2) unfolding len .
  then have lt: "512 * (?m * ?q) < 2 ^ 64" by (simp add: i64_max_def)
  show layout: "cublaslt_scale_layout_len out_n in_n = 512 * (?m * ?q)"
    unfolding cublaslt_scale_layout_len_def div_ceil_dvd [OF zero_less_numeral assms(1)] Let_def len using lt by (rule mod_less)
  then show "cublaslt_scale_layout_len out_n in_n \<le> i64_max" using small by simp
  assume ob: "out < out_n" "block < in_n div 16"
  have b4: "block div 4 < ?q" and "out div 128 < ?m" using ob by (simp_all add: div_lt_div_ceil)
  then have "Suc (out div 128) * ?q \<le> ?m * ?q" by (intro mult_right_mono) simp_all
  then have "tile out block ?q < ?m * ?q" using b4 by (simp add: tile_def)
  then have "512 * tile out block ?q + 512 \<le> 512 * (?m * ?q)" by simp
  then have bound: "512 * tile out block ?q + lane out block < 512 * (?m * ?q)" using lane_parts(1) [of out block] by simp
  have "(block div 4 * 4 + out div 128 * (?q * 4)) * 128 + out mod 32 * 16 + out mod 128 div 32 * 4 + block mod 4
      = 512 * tile out block ?q + lane out block"
    unfolding tile_def lane_def by (simp add: algebra_simps)
  then show off: "cublaslt_scale_offset out block in_n = 512 * tile out block ?q + lane out block"
    unfolding cublaslt_scale_offset_def div_ceil_dvd [OF zero_less_numeral assms(1)] Let_def using bound lt by simp
  show "cublaslt_scale_offset out block in_n < cublaslt_scale_layout_len out_n in_n" unfolding off layout by (rule bound)
qed

lemma layout_inject:
  assumes "16 dvd in_n" "div_ceil out_n 128 * 128 * (div_ceil (in_n div 16) 4 * 4) \<le> i64_max"
    and "o1 < out_n" "b1 < in_n div 16" "o2 < out_n" "b2 < in_n div 16"
    and "cublaslt_scale_offset o1 b1 in_n = cublaslt_scale_offset o2 b2 in_n"
  shows "o1 = o2 \<and> b1 = b2"
proof -
  let ?q = "div_ceil (in_n div 16) 4"
  have eq: "512 * tile o1 b1 ?q + lane o1 b1 = 512 * tile o2 b2 ?q + lane o2 b2"
    using assms(7) layout_exact(2) [OF assms(1,2)] assms(3-6) by simp
  have "lane o1 b1 = lane o2 b2" using arg_cong [OF eq, of "\<lambda>n. n mod 512"] lane_parts(1) by (simp add: mod_mult_self4)
  moreover have "tile o1 b1 ?q = tile o2 b2 ?q" using eq calculation by simp
  ultimately show ?thesis using lane_tile_inject [of o1 b1 o2 b2 ?q] assms(4,6) by (simp add: div_lt_div_ceil)
qed

lemma put_scales:
  assumes "inj_on (\<lambda>(out, block). cublaslt_scale_offset out block in_n) (set ps)" "distinct ps"
    and "\<And>out block. (out, block) \<in> set ps \<Longrightarrow> out * (in_n div 16) + block < length scales \<and> cublaslt_scale_offset out block in_n < length packed"
    and "length scales < 2 ^ 64"
  shows "\<exists>packed'. fold (put_scale in_n scales) ps (Some packed) = Some packed' \<and> length packed' = length packed \<and>
    (\<forall>(out, block) \<in> set ps. packed' ! cublaslt_scale_offset out block in_n = scales ! (out * (in_n div 16) + block)) \<and>
    (\<forall>p < length packed. p \<notin> (\<lambda>(out, block). cublaslt_scale_offset out block in_n) ` set ps \<longrightarrow> packed' ! p = packed ! p)"
  using assms(1-3)
proof (induction ps arbitrary: packed)
  case (Cons ob ps)
  obtain out block where ob: "ob = (out, block)" by fastforce
  let ?off = "\<lambda>(out, block). cublaslt_scale_offset out block in_n"
  let ?at = "?off ob" let ?s = "scales ! (out * (in_n div 16) + block)"
  have r: "out * (in_n div 16) + block < length scales" "?at < length packed" using Cons.prems(3) by (auto simp: ob)
  then have first: "put_scale in_n scales ob (Some packed) = Some (packed[?at := ?s])"
    using assms(4) unfolding put_scale_def ob Let_def by (simp add: get_def)
  have "\<exists>packed'. fold (put_scale in_n scales) ps (Some (packed[?at := ?s])) = Some packed' \<and> length packed' = length (packed[?at := ?s]) \<and>
    (\<forall>(out, block) \<in> set ps. packed' ! cublaslt_scale_offset out block in_n = scales ! (out * (in_n div 16) + block)) \<and>
    (\<forall>p < length (packed[?at := ?s]). p \<notin> ?off ` set ps \<longrightarrow> packed' ! p = packed[?at := ?s] ! p)"
    using Cons.prems by (intro Cons.IH) auto
  then obtain packed' where ih: "fold (put_scale in_n scales) ps (Some (packed[?at := ?s])) = Some packed'" "length packed' = length packed"
    "\<forall>(out, block) \<in> set ps. packed' ! cublaslt_scale_offset out block in_n = scales ! (out * (in_n div 16) + block)"
    "\<forall>p < length packed. p \<notin> ?off ` set ps \<longrightarrow> packed' ! p = packed[?at := ?s] ! p"
    by auto
  have fresh: "?at \<notin> ?off ` set ps" using Cons.prems(1,2) by auto
  have "packed' ! ?at = ?s" using ih(4) fresh r(2) by simp
  moreover have "packed' ! p = packed ! p" if "p < length packed" "p \<notin> ?off ` set (ob # ps)" for p
    using ih(4) that by simp
  ultimately show ?case using first ih(1,2,3) by (auto simp: ob)
qed simp

lemma product_index: "map (\<lambda>(r, b). r * n + b) (List.product [0..<m] [0..<n]) = [0..<m * n]"
proof (induction m)
  case (Suc m)
  have "map (\<lambda>b. m * n + b) [0..<n] = [m * n..<m * n + n]" using map_add_upt [of "m * n" n] by (simp add: add.commute)
  moreover have "[0..<m * n] @ [m * n..<m * n + n] = [0..<m * n + n]" by (rule upt_add_eq_append [symmetric]) simp
  ultimately show ?case using Suc by (simp add: product_concat_map comp_def add.commute)
qed simp

section \<open>Blocks, chunks and rows\<close>

text \<open>The bytes of a block by the position of its first element: two codes to a byte.\<close>

definition block_element :: "FloatOps \<Rightarrow> (nat \<Rightarrow> f32) \<Rightarrow> nat \<Rightarrow> nat \<Rightarrow> u8" where
  "block_element F value_at start k =
     element_code F (e4m3_value F (block_scale_code F value_at start)) (value_at (start + k))"

definition block_bytes_of :: "FloatOps \<Rightarrow> (nat \<Rightarrow> f32) \<Rightarrow> nat \<Rightarrow> bytes" where
  "block_bytes_of F value_at start =
     map (\<lambda>j. block_element F value_at start (2 * j) OR push_bit 4 (block_element F value_at start (2 * j + 1))) [0..<8]"

lemma write_codes:
  assumes "m \<le> length rest"
  shows "fold (\<lambda>k. write_code (2 * length pre + k) (c k)) [0..<2 * m] (pre @ rest) =
    pre @ map (\<lambda>j. c (2 * j) OR push_bit 4 (c (2 * j + 1))) [0..<m] @ drop m rest"
  using assms
proof (induction m)
  case (Suc m)
  let ?ys = "map (\<lambda>j. c (2 * j) OR push_bit 4 (c (2 * j + 1))) [0..<m]"
  obtain x xs where x: "drop m rest = x # xs" "xs = drop (Suc m) rest"
    using Suc.prems by (metis Cons_nth_drop_Suc Suc_le_lessD)
  have upt: "[0..<2 * Suc m] = [0..<2 * m] @ [2 * m, 2 * m + 1]" by simp
  have at: "(2 * length pre + 2 * m) div 2 = length (pre @ ?ys)" "(2 * length pre + (2 * m + 1)) div 2 = length (pre @ ?ys)"
    by simp_all
  have upd: "(ys @ z # zs)[length ys := v] = ys @ v # zs" "(ys @ z # zs) ! length ys = z" for ys zs :: bytes and z v
    by simp_all
  have "write_code (2 * length pre + 2 * m) (c (2 * m)) ((pre @ ?ys) @ x # xs) = (pre @ ?ys) @ c (2 * m) # xs"
    unfolding write_code_def at upd by simp
  moreover have "write_code (2 * length pre + (2 * m + 1)) (c (2 * m + 1)) ((pre @ ?ys) @ c (2 * m) # xs) =
      (pre @ ?ys) @ (c (2 * m) OR push_bit 4 (c (2 * m + 1))) # xs"
    unfolding write_code_def at upd by simp
  ultimately show ?case using Suc x unfolding upt by simp
qed simp

text \<open>Position \<open>k\<close> of a chunk is block \<open>k\<close> of its rows; \<open>first\<close> is the number of blocks before the chunk.\<close>

lemma quantize_blocks:
  assumes "16 dvd in_n" "blocks = in_n div 16" "first = chunk * rows_per_chunk * blocks"
    and "m \<le> length scales" "8 * m \<le> length packed"
    and "map (\<lambda>(r, b). r * blocks + b) rbs = [0..<m]"
  shows "fold (quantize_block F value_at in_n blocks rows_per_chunk chunk) rbs (packed, scales) =
    (concat (map (\<lambda>k. block_bytes_of F value_at (16 * (first + k))) [0..<m]) @ drop (8 * m) packed,
     map (\<lambda>k. block_scale_code F value_at (16 * (first + k))) [0..<m] @ drop m scales)"
  using assms(4-6)
proof (induction rbs arbitrary: m rule: rev_induct)
  case (snoc rb rbs)
  obtain r b where rb: "rb = (r, b)" by fastforce
  obtain n where m: "m = Suc n" using snoc.prems(3) by (cases m) simp_all
  have idx: "map (\<lambda>(r, b). r * blocks + b) rbs = [0..<n]" "r * blocks + b = n"
    using snoc.prems(3) by (simp_all add: m rb)
  have in16: "in_n = 16 * blocks" using assms(1,2) by simp
  have "r * in_n + b * 16 = 16 * (r * blocks + b)" by (simp add: in16)
  then have local: "r * in_n + b * 16 = 16 * n" unfolding idx(2) .
  have "(chunk * rows_per_chunk + r) * in_n + b * 16 = 16 * (first + (r * blocks + b))" by (simp add: in16 assms(3) algebra_simps)
  then have global: "(chunk * rows_per_chunk + r) * in_n + b * 16 = 16 * (first + n)" unfolding idx(2) .
  let ?bs = "concat (map (\<lambda>k. block_bytes_of F value_at (16 * (first + k))) [0..<n])"
  let ?sc = "map (\<lambda>k. block_scale_code F value_at (16 * (first + k))) [0..<n]"
  have len: "length ?bs = 8 * n" by (simp add: length_concat comp_def block_bytes_of_def sum_list_triv)
  have "fold (\<lambda>k. write_code (2 * length ?bs + k) (block_element F value_at (16 * (first + n)) k)) [0..<2 * 8] (?bs @ drop (8 * n) packed)
      = ?bs @ block_bytes_of F value_at (16 * (first + n)) @ drop 8 (drop (8 * n) packed)"
    unfolding block_bytes_of_def by (rule write_codes) (use snoc.prems(2) in \<open>simp add: m\<close>)
  then have codes: "fold (\<lambda>k. write_code (16 * n + k) (block_element F value_at (16 * (first + n)) k)) [0..<16] (?bs @ drop (8 * n) packed)
      = ?bs @ block_bytes_of F value_at (16 * (first + n)) @ drop (8 * m) packed"
    unfolding len by (simp add: m add.commute)
  obtain x xs where x: "drop n scales = x # xs" "xs = drop m scales"
    using snoc.prems(1) by (metis Cons_nth_drop_Suc Suc_le_lessD m)
  have scale: "(?sc @ drop n scales)[r * blocks + b := v] = ?sc @ v # drop m scales" for v
    unfolding idx(2) x(1) x(2) [symmetric] using list_update_length [of ?sc x xs v] by (simp only: length_map length_upt minus_nat.diff_0)
  have ih: "fold (quantize_block F value_at in_n blocks rows_per_chunk chunk) rbs (packed, scales) = (?bs @ drop (8 * n) packed, ?sc @ drop n scales)"
    using snoc.IH [of n] snoc.prems idx(1) by (simp add: m)
  have "quantize_block F value_at in_n blocks rows_per_chunk chunk (r, b) (?bs @ drop (8 * n) packed, ?sc @ drop n scales) =
      (?bs @ block_bytes_of F value_at (16 * (first + n)) @ drop (8 * m) packed,
       ?sc @ block_scale_code F value_at (16 * (first + n)) # drop m scales)"
    unfolding quantize_block_def Let_def prod.case local global scale block_element_def [symmetric] codes ..
  then show ?case unfolding fold_append comp_apply ih rb by (simp add: m)
next
  case Nil
  then have "m = 0" by (cases m) simp_all
  then show ?case by simp
qed

lemma concat_takes: "concat (map (\<lambda>i. take n (drop (i * n) xs)) [0..<m]) = take (m * n) xs"
  by (induction m) (simp_all add: take_add [symmetric] add.commute)

lemma map_enumerate: "(\<And>i. i < length zs \<Longrightarrow> f (i, zs ! i) = g i) \<Longrightarrow> map f (zip [0..<length zs] zs) = map g [0..<length zs]"
  by (rule nth_equalityI) simp_all

lemma concat_of_concats: "concat (map (\<lambda>i. concat (f i)) xs) = concat (concat (map f xs))"
  by (induction xs) simp_all

lemma concat_chunks: "0 < n \<Longrightarrow> concat (chunks n xs) = xs"
  using div_ceil_bounds(1) [of n "length xs"] by (simp add: chunks_def concat_takes)

lemma take_drop_map: "take n (drop (i * n) (map g [0..<N])) = map (\<lambda>k. g (i * n + k)) [0..<min n (N - i * n)]"
  by (rule nth_equalityI) (simp_all add: drop_map less_diff_conv add.commute)

lemma div_ceil_mult: "0 < k \<Longrightarrow> div_ceil (a * k) (b * k) = div_ceil a b"
  by (auto simp: div_ceil_def mult_mod_left [symmetric])

lemma quantize_chunk_eq:
  assumes "16 dvd in_n" "0 < in_n" "length scales = rows * (in_n div 16)" "length packed = 8 * (rows * (in_n div 16))"
  shows "quantize_chunk F value_at in_n rows_per_chunk (chunk, packed, scales) =
    (concat (map (\<lambda>k. block_bytes_of F value_at (16 * (chunk * (rows_per_chunk * (in_n div 16)) + k))) [0..<rows * (in_n div 16)]),
     map (\<lambda>k. block_scale_code F value_at (16 * (chunk * (rows_per_chunk * (in_n div 16)) + k))) [0..<rows * (in_n div 16)])"
proof -
  have "0 < in_n div 16" using assms(1,2) by (auto elim: dvdE)
  then have rows: "length scales div (in_n div 16) = rows" using assms(3) by simp
  have "fold (quantize_block F value_at in_n (in_n div 16) rows_per_chunk chunk) (List.product [0..<rows] [0..<in_n div 16]) (packed, scales)
    = (concat (map (\<lambda>k. block_bytes_of F value_at (16 * (chunk * rows_per_chunk * (in_n div 16) + k))) [0..<rows * (in_n div 16)])
         @ drop (8 * (rows * (in_n div 16))) packed,
       map (\<lambda>k. block_scale_code F value_at (16 * (chunk * rows_per_chunk * (in_n div 16) + k))) [0..<rows * (in_n div 16)]
         @ drop (rows * (in_n div 16)) scales)"
    by (rule quantize_blocks [OF assms(1) refl refl]) (simp_all add: assms(3,4) product_index)
  then show ?thesis unfolding quantize_chunk_def Let_def prod.case rows by (simp add: assms(3,4) mult.assoc)
qed

text \<open>The record that a single pass over the blocks would produce.\<close>

definition quantized :: "FloatOps \<Rightarrow> bytes \<Rightarrow> nat \<Rightarrow> nat \<Rightarrow> (nat \<Rightarrow> f32) \<Rightarrow> ModelOptNvfp4Linear" where
  "quantized F pre out_n in_n value_at =
     \<lparr>linear_prefix = pre, out_features = out_n, in_features = in_n,
      packed_weight = concat (map (\<lambda>k. block_bytes_of F value_at (16 * k)) [0..<out_n * (in_n div 16)]),
      weight_scale = map (\<lambda>k. block_scale_code F value_at (16 * k)) [0..<out_n * (in_n div 16)],
      weight_scale_2 = f32_one, input_scale = f32_one\<rparr>"

lemma quantize_values_eq:
  assumes "0 < out_n" "0 < in_n" "16 dvd in_n" "out_n * in_n \<le> usize_max" "0 < processors"
  shows "quantize_values F processors pre out_n in_n value_at = Some (Ok (quantized F pre out_n in_n value_at))"
proof -
  define blocks where "blocks = in_n div 16"
  define rpc where "rpc = div_ceil out_n (min processors out_n)"
  have in16: "in_n = 16 * blocks" and pos: "0 < blocks" using assms(2,3) by (auto simp: blocks_def)
  have w: "0 < min processors out_n" using assms(1,5) by simp
  have b: "out_n \<le> rpc * min processors out_n" "rpc * min processors out_n < out_n + min processors out_n"
    using div_ceil_bounds [OF w, of out_n] unfolding rpc_def .
  have rpc: "0 < rpc" "rpc \<le> out_n"
  proof -
    show "0 < rpc" using b(1) assms(1) by (cases rpc) simp_all
    show "rpc \<le> out_n"
    proof (rule ccontr)
      assume "\<not> rpc \<le> out_n"
      then have "Suc out_n * min processors out_n \<le> rpc * min processors out_n" by (intro mult_right_mono) simp_all
      moreover have "out_n * 1 \<le> out_n * min processors out_n" using w by (intro mult_left_mono) simp_all
      ultimately show False using b(2) by simp
    qed
  qed
  let ?n = "rpc * blocks" let ?N = "out_n * blocks"
  have "rpc * in_n \<le> usize_max" "rpc * blocks \<le> usize_max" "out_n * blocks \<le> usize_max"
  proof -
    have m: "rpc * in_n \<le> out_n * in_n" "rpc * blocks \<le> out_n * blocks" using rpc(2) by (intro mult_right_mono; simp)+
    have "out_n * blocks \<le> out_n * in_n" by (intro mult_left_mono) (simp_all add: in16)
    then show "rpc * in_n \<le> usize_max" "rpc * blocks \<le> usize_max" "out_n * blocks \<le> usize_max"
      using m assms(4) by linarith+
  qed
  then have wrap: "wrapping_mul out_n in_n div 2 = 8 * ?N" "wrapping_mul out_n blocks = ?N"
      "wrapping_mul rpc in_n div 2 = 8 * ?n" "wrapping_mul rpc blocks = ?n"
    using assms(4) by (simp_all add: wrapping_mul_id in16 mult.left_commute [of _ 16])
  have n0: "0 < ?n" using rpc pos by simp
  let ?c = "div_ceil ?N ?n"
  let ?z = "zip (chunks (8 * ?n) (replicate (8 * ?N) 0)) (chunks ?n (replicate ?N 0)) :: (bytes \<times> bytes) list"
  have c8: "div_ceil (8 * ?N) (8 * ?n) = ?c" using div_ceil_mult [of 8 ?N ?n] by (simp add: mult.commute)
  let ?rows = "\<lambda>i. min rpc (out_n - i * rpc)"
  have rows: "?rows i * blocks = min ?n (?N - i * ?n)" for i
    by (simp add: nat_mult_min_left diff_mult_distrib mult.assoc)
  have chunk: "quantize_chunk F value_at in_n rpc (i, ?z ! i) =
      (concat (take ?n (drop (i * ?n) (map (\<lambda>k. block_bytes_of F value_at (16 * k)) [0..<?N]))),
       take ?n (drop (i * ?n) (map (\<lambda>k. block_scale_code F value_at (16 * k)) [0..<?N])))" if "i < ?c" for i
  proof -
    have z: "?z ! i = (take (8 * ?n) (drop (i * (8 * ?n)) (replicate (8 * ?N) 0)), take ?n (drop (i * ?n) (replicate ?N 0)))"
      using that by (simp add: chunks_def c8)
    have "length (snd (?z ! i)) = ?rows i * blocks" unfolding rows z by (simp add: min.commute)
    moreover have "length (fst (?z ! i)) = 8 * (?rows i * blocks)" unfolding rows z
      by (simp add: nat_mult_min_right diff_mult_distrib2 mult.left_commute min.commute)
    ultimately show ?thesis
      using quantize_chunk_eq [OF assms(3,2), of "snd (?z ! i)" "?rows i" "fst (?z ! i)" F value_at rpc i]
      unfolding take_drop_map rows [symmetric] blocks_def [symmetric] by simp
  qed
  have len: "length ?z = ?c" by (simp add: chunks_def c8)
  have all: "map (quantize_chunk F value_at in_n rpc) (zip [0..<length ?z] ?z) =
      map (\<lambda>i. (concat (take ?n (drop (i * ?n) (map (\<lambda>k. block_bytes_of F value_at (16 * k)) [0..<?N]))),
       take ?n (drop (i * ?n) (map (\<lambda>k. block_scale_code F value_at (16 * k)) [0..<?N])))) [0..<?c]"
    unfolding len [symmetric] by (rule map_enumerate, rule chunk) (simp only: len)
  let ?B = "map (\<lambda>k. block_bytes_of F value_at (16 * k)) [0..<?N]" and ?S = "map (\<lambda>k. block_scale_code F value_at (16 * k)) [0..<?N]"
  have cover: "?N \<le> ?c * ?n" using div_ceil_bounds(1) [OF n0] .
  have scales: "concat (map (\<lambda>i. take ?n (drop (i * ?n) ?S)) [0..<?c]) = ?S" unfolding concat_takes using cover by simp
  have "concat (map (\<lambda>i. concat (take ?n (drop (i * ?n) ?B))) [0..<?c]) = concat (concat (map (\<lambda>i. take ?n (drop (i * ?n) ?B)) [0..<?c]))"
    by (rule concat_of_concats)
  also have "\<dots> = concat ?B" unfolding concat_takes using cover by simp
  finally have packed: "concat (map (\<lambda>i. concat (take ?n (drop (i * ?n) ?B))) [0..<?c]) = concat ?B" .
  show ?thesis
    unfolding quantize_values_def validate_k16_shape_def blocks_def [symmetric] rpc_def [symmetric] Let_def wrap
    using assms(1-3) n0 all scales packed by (simp add: quantized_def blocks_def [symmetric] comp_def)
qed

section \<open>Reading back\<close>

lemma nearest_code_in: "nearest_code F v cs best err \<in> insert best (fst ` set cs)"
proof (induction cs arbitrary: best err)
  case (Cons c cs)
  obtain code candidate where c: "c = (code, candidate)" by fastforce
  show ?case using Cons.IH [of code] Cons.IH [of best] unfolding c by (auto simp: Let_def)
qed simp

lemma e2m1_code_nibble: "e2m1_code F v AND 15 = e2m1_code F v"
proof -
  let ?cs = "zip (map of_nat [0..<8]) e2m1_magnitudes :: (u8 \<times> f32) list"
  have cs: "fst ` set ?cs \<subseteq> {0, 1, 2, 3, 4, 5, 6, 7}"
    by (simp add: e2m1_magnitudes_def upt_rec numeral_eq_Suc)
  have "nearest_code F (f32_abs v) ?cs 0 0x7F800000 \<in> insert 0 (fst ` set ?cs)" by (rule nearest_code_in)
  then have near: "nearest_code F (f32_abs v) ?cs 0 0x7F800000 \<in> {0, 1, 2, 3, 4, 5, 6, 7}" using cs by auto
  have "(8 OR c) AND 15 = 8 OR c \<and> c AND 15 = c" if "c \<in> {0, 1, 2, 3, 4, 5, 6, 7}" for c :: u8
    using that by auto
  from this [OF near] show ?thesis by (simp add: e2m1_code_def Let_def)
qed

lemma nibble_block:
  assumes "k < 16"
  shows "nibble (block_bytes_of F value_at start) k = block_element F value_at start k"
proof -
  have nib: "block_element F value_at start k AND 15 = block_element F value_at start k" for k
    by (simp add: block_element_def element_code_def e2m1_code_nibble)
  have "block_bytes_of F value_at start ! (k div 2) =
      (block_element F value_at start (2 * (k div 2)) AND 15) OR push_bit 4 (block_element F value_at start (2 * (k div 2) + 1) AND 15)"
  proof -
    have "[0..<8] ! (k div 2) = k div 2" using assms nth_upt [of 0 "k div 2" 8] by simp
    then show ?thesis unfolding nib using assms by (simp add: block_bytes_of_def)
  qed
  then have "nibble (block_bytes_of F value_at start) k =
      (if even k then block_element F value_at start (2 * (k div 2)) else block_element F value_at start (2 * (k div 2) + 1))"
    unfolding nibble_def using nibble_words(1,2) [of "block_element F value_at start (2 * (k div 2))"
        "block_element F value_at start (2 * (k div 2) + 1)", unfolded nib]
    by (simp only: nib)
  then show ?thesis by (cases "even k") simp_all
qed

lemma nibble_quantized:
  assumes "flat < out_n * in_n" "16 dvd in_n"
  shows "nibble (packed_weight (quantized F pre out_n in_n value_at)) flat = block_element F value_at (16 * (flat div 16)) (flat mod 16)"
    "flat div 16 < length (weight_scale (quantized F pre out_n in_n value_at))"
    "weight_scale (quantized F pre out_n in_n value_at) ! (flat div 16) = block_scale_code F value_at (16 * (flat div 16))"
    "flat div 2 < length (packed_weight (quantized F pre out_n in_n value_at))"
proof -
  let ?bs = "map (\<lambda>k. block_bytes_of F value_at (16 * k)) [0..<out_n * (in_n div 16)]"
  have n: "out_n * in_n = 16 * (out_n * (in_n div 16))" using assms(2) by (auto elim: dvdE)
  have k: "flat div 16 < out_n * (in_n div 16)" using assms(1) unfolding n by (simp add: less_mult_imp_div_less mult.commute)
  have "nibble (concat ?bs) flat = nibble (?bs ! (flat div (2 * 8))) (flat mod (2 * 8))"
    by (rule nibble_concat) (use assms(1) [unfolded n] in \<open>auto simp: block_bytes_of_def\<close>)
  then show "nibble (packed_weight (quantized F pre out_n in_n value_at)) flat = block_element F value_at (16 * (flat div 16)) (flat mod 16)"
    using k by (simp add: quantized_def nibble_block)
  show "flat div 16 < length (weight_scale (quantized F pre out_n in_n value_at))"
    "weight_scale (quantized F pre out_n in_n value_at) ! (flat div 16) = block_scale_code F value_at (16 * (flat div 16))"
    using k by (simp_all add: quantized_def)
  have "length (concat ?bs) = 8 * (out_n * (in_n div 16))" by (simp add: length_concat comp_def block_bytes_of_def sum_list_triv)
  then show "flat div 2 < length (packed_weight (quantized F pre out_n in_n value_at))"
    using assms(1) n by (simp add: quantized_def)
qed

lemma length_dequantize: "length (dequantize_to_f32_col_major F l) = out_features l * in_features l"
  unfolding dequantize_to_f32_col_major_def by (rule concat_map_upt(1)) simp

lemma nth_dequantize:
  assumes "out < out_features l" "inp < in_features l"
  shows "dequantize_to_f32_col_major F l ! (inp + out * in_features l) = dequantize_element F l out inp"
proof -
  have "out * in_features l + inp < out_features l * in_features l"
    using assms mult_le_mono1 [of "Suc out" "out_features l" "in_features l"] by simp
  then show ?thesis
    using assms concat_map_upt(2) [of "out_features l" "\<lambda>out. map (dequantize_element F l out) [0..<in_features l]" "in_features l" "inp + out * in_features l"]
    by (simp add: dequantize_to_f32_col_major_def add.commute)
qed

section \<open>Properties\<close>

text \<open>C39: repacking the scales for cuBLASLt loses nothing: every scale is found at the offset of its row and block, no
  two share an offset, all offsets lie inside the layout, and the padding is zero.\<close>

theorem cublaslt_scales_lossless:
  assumes "16 dvd in_n" "length scales = out_n * (in_n div 16)"
    and "div_ceil out_n 128 * 128 * (div_ceil (in_n div 16) 4 * 4) \<le> i64_max"
  shows "\<exists>packed. modelopt_scales_to_cublaslt out_n in_n scales = Some packed \<and>
    length packed = cublaslt_scale_layout_len out_n in_n \<and>
    inj_on (\<lambda>(out, block). cublaslt_scale_offset out block in_n) ({..<out_n} \<times> {..<in_n div 16}) \<and>
    (\<forall>out < out_n. \<forall>block < in_n div 16.
       cublaslt_scale_offset out block in_n < length packed \<and>
       packed ! cublaslt_scale_offset out block in_n = scales ! (out * (in_n div 16) + block)) \<and>
    (\<forall>p < length packed. (\<forall>out < out_n. \<forall>block < in_n div 16. cublaslt_scale_offset out block in_n \<noteq> p) \<longrightarrow> packed ! p = 0)"
proof -
  let ?ps = "List.product [0..<out_n] [0..<in_n div 16]" let ?len = "cublaslt_scale_layout_len out_n in_n"
  let ?off = "\<lambda>(out, block). cublaslt_scale_offset out block in_n"
  note layout = layout_exact [OF assms(1,3)]
  have inj: "inj_on ?off ({..<out_n} \<times> {..<in_n div 16})"
    using layout_inject [OF assms(1,3)] by (auto simp: inj_on_def)
  have set: "set ?ps = {..<out_n} \<times> {..<in_n div 16}" by auto
  have small: "length scales \<le> ?len"
  proof -
    have "out_n * (in_n div 16) \<le> (div_ceil out_n 128 * 128) * (div_ceil (in_n div 16) 4 * 4)"
      by (intro mult_mono div_ceil_bounds) simp_all
    then show ?thesis unfolding assms(2) layout(1) by simp
  qed
  have "out * (in_n div 16) + block < length scales" if "out < out_n" "block < in_n div 16" for out block
    using that mult_le_mono1 [of "Suc out" out_n "in_n div 16"] by (simp add: assms(2))
  then have "\<exists>packed'. fold (put_scale in_n scales) ?ps (Some (replicate ?len 0)) = Some packed' \<and> length packed' = length (replicate ?len (0 :: u8)) \<and>
    (\<forall>(out, block) \<in> set ?ps. packed' ! cublaslt_scale_offset out block in_n = scales ! (out * (in_n div 16) + block)) \<and>
    (\<forall>p < length (replicate ?len (0 :: u8)). p \<notin> ?off ` set ?ps \<longrightarrow> packed' ! p = replicate ?len 0 ! p)"
    using inj layout(3,4) small unfolding set [symmetric]
    by (intro put_scales) (auto simp: distinct_product i64_max_def)
  then obtain packed where p: "fold (put_scale in_n scales) ?ps (Some (replicate ?len 0)) = Some packed" "length packed = ?len"
    "\<forall>(out, block) \<in> set ?ps. packed ! cublaslt_scale_offset out block in_n = scales ! (out * (in_n div 16) + block)"
    "\<forall>p < ?len. p \<notin> ?off ` set ?ps \<longrightarrow> packed ! p = 0"
    by auto
  have "modelopt_scales_to_cublaslt out_n in_n scales = Some packed"
    using p(1) layout(4) by (simp add: modelopt_scales_to_cublaslt_def Let_def)
  moreover have "packed ! p = 0" if "p < ?len" "\<forall>out < out_n. \<forall>block < in_n div 16. cublaslt_scale_offset out block in_n \<noteq> p" for p
    using p(4) that unfolding set by (auto simp: image_iff)
  ultimately show ?thesis using p(2,3) inj layout(3) by auto
qed

text \<open>C40: quantising does not depend on the number of threads, and what is decoded is what was chosen: each element
  becomes the code of its quotient by the scale of its group of sixteen, times that scale.\<close>

theorem quantize_then_dequantize:
  assumes "0 < out_n" "0 < in_n" "16 dvd in_n" "out_n * in_n \<le> usize_max" "0 < processors"
    and "out < out_n" "inp < in_n"
  shows "\<exists>l. quantize_values F processors pre out_n in_n value_at = Some (Ok l) \<and>
    l = quantized F pre out_n in_n value_at \<and> length (dequantize_to_f32_col_major F l) = out_n * in_n \<and>
    (let flat = out * in_n + inp;
         scale = e4m3_value F (block_scale_code F value_at (flat div 16 * 16))
     in dequantize_to_f32_col_major F l ! (inp + out * in_n) = mul F (e2m1_value (element_code F scale (value_at flat))) scale)"
proof -
  let ?l = "quantized F pre out_n in_n value_at" let ?flat = "out * in_n + inp"
  have dims: "out_features ?l = out_n" "in_features ?l = in_n" by (simp_all add: quantized_def)
  have flat: "?flat < out_n * in_n" using assms(6,7) mult_le_mono1 [of "Suc out" out_n in_n] by simp
  note q = nibble_quantized [OF flat assms(3), of F pre value_at]
  obtain b where b: "in_n = 16 * b" using assms(3) by auto
  have blk: "out * (in_n div 16) + inp div 16 = ?flat div 16" by (simp add: b)
  have "dequantize_element F ?l out inp = mul F (e2m1_value (nibble (packed_weight ?l) ?flat)) (e4m3_value F (weight_scale ?l ! (?flat div 16)))"
    unfolding dequantize_element_def Let_def nibble_def dims blk ..
  also have "\<dots> = mul F (e2m1_value (block_element F value_at (16 * (?flat div 16)) (?flat mod 16)))
      (e4m3_value F (block_scale_code F value_at (16 * (?flat div 16))))"
    unfolding q(1,3) ..
  also have "block_element F value_at (16 * (?flat div 16)) (?flat mod 16) =
      element_code F (e4m3_value F (block_scale_code F value_at (16 * (?flat div 16)))) (value_at ?flat)"
    by (simp add: block_element_def)
  finally show ?thesis
    using quantize_values_eq [OF assms(1-5), of F pre value_at] length_dequantize [of F ?l] dims
      nth_dequantize [of out ?l inp F] assms(6,7)
    by (auto simp: Let_def mult.commute [of 16])
qed

text \<open>Joining two records along their output features joins the decoded matrices: first all rows of the one, then
  those of the other.\<close>

theorem concat_dequantizes_both:
  assumes "nvfp4_concat_out_features pre a b = Ok l" "out_features a + out_features b \<le> usize_max" "16 dvd in_features a"
    and "length (packed_weight a) = out_features a * in_features a div 2"
    and "length (weight_scale a) = out_features a * in_features a div 16"
  shows "dequantize_to_f32_col_major F l = dequantize_to_f32_col_major F a @ dequantize_to_f32_col_major F b"
proof -
  let ?n = "in_features a"
  have eq: "in_features b = ?n" "in_features l = ?n" "packed_weight l = packed_weight a @ packed_weight b"
      "weight_scale l = weight_scale a @ weight_scale b" "out_features l = out_features a + out_features b"
    using assms(1,2) by (auto simp: nvfp4_concat_out_features_def usize_max_def split: if_splits)
  obtain k where k: "?n = 16 * k" using assms(3) by auto
  have len: "length (packed_weight a) = 8 * (out_features a * k)" "length (weight_scale a) = out_features a * k"
    using assms(4,5) unfolding k by (simp_all add: mult.left_commute [of _ 16])
  have first: "dequantize_element F l out inp = dequantize_element F a out inp" if "out < out_features a" "inp < ?n" for out inp
  proof -
    have le: "Suc out * k \<le> out_features a * k" using that(1) by (intro mult_right_mono) simp_all
    have "inp div 16 < k" using that(2) by (simp add: k less_mult_imp_div_less mult.commute)
    then have s: "out * (?n div 16) + inp div 16 < length (weight_scale a)" using le len(2) by (simp add: k)
    have "out * ?n + inp < 16 * (Suc out * k)" using that(2) by (simp add: k)
    then have "out * ?n + inp < 2 * length (packed_weight a)" using le len(1) by linarith
    then have "(out * ?n + inp) div 2 < length (packed_weight a)" by simp
    with s show ?thesis unfolding dequantize_element_def Let_def eq by (simp only: nth_append if_True)
  qed
  have second: "dequantize_element F l (out_features a + out) inp = dequantize_element F b out inp" for out inp
  proof -
    have e1: "(out_features a + out) * ?n + inp = 2 * length (packed_weight a) + (out * ?n + inp)"
      by (simp add: len k algebra_simps)
    have e2: "(out_features a + out) * (?n div 16) + inp div 16 = length (weight_scale a) + (out * (?n div 16) + inp div 16)"
      by (simp add: len k algebra_simps)
    have d: "(2 * m + f) div 2 = m + f div 2" "even (2 * m + f) = even f" for m f :: nat by simp_all
    show ?thesis unfolding dequantize_element_def Let_def eq e1 e2 d nth_append_length_plus ..
  qed
  have "[0..<out_features l] = [0..<out_features a] @ map (\<lambda>out. out_features a + out) [0..<out_features b]"
    using upt_add_eq_append [of 0 "out_features a" "out_features b"] map_add_upt [of "out_features a" "out_features b"]
    by (simp add: eq add.commute)
  then have split: "map g [0..<out_features l] = map g [0..<out_features a] @ map (\<lambda>out. g (out_features a + out)) [0..<out_features b]"
    for g :: "nat \<Rightarrow> f32 list"
    by (simp add: comp_def)
  have sec: "dequantize_element F l (out_features a + out) = dequantize_element F b out" for out by (rule ext) (rule second)
  have "map (\<lambda>out. map (dequantize_element F l out) [0..<?n]) [0..<out_features a] =
      map (\<lambda>out. map (dequantize_element F a out) [0..<?n]) [0..<out_features a]"
    by (simp add: first)
  then show ?thesis unfolding dequantize_to_f32_col_major_def split sec eq(1,2) concat_append by (rule arg_cong)
qed

section \<open>Examples\<close>

theorem cublaslt_scales_lossless_witness:
  "\<exists>packed. modelopt_scales_to_cublaslt 130 80 (map of_nat [0..<650]) = Some packed \<and> length packed = 2048 \<and>
     packed ! 0 = 0 \<and> packed ! 16 = 5 \<and> packed ! 4 = 160 \<and> packed ! 3 = 3"
proof -
  have len: "div_ceil 130 128 = 2" "div_ceil 5 4 = 2" "div_ceil 80 16 = 5" by (simp_all add: div_ceil_def)
  have offs: "cublaslt_scale_offset 0 0 80 = 0" "cublaslt_scale_offset 1 0 80 = 16" "cublaslt_scale_offset 32 0 80 = 4"
      "cublaslt_scale_offset 0 3 80 = 3" "cublaslt_scale_layout_len 130 80 = 2048"
    by (simp_all add: cublaslt_scale_offset_def cublaslt_scale_layout_len_def len)
  obtain packed where p: "modelopt_scales_to_cublaslt 130 80 (map of_nat [0..<650]) = Some packed"
      "length packed = cublaslt_scale_layout_len 130 80"
      "\<forall>out < 130. \<forall>block < 80 div 16. cublaslt_scale_offset out block 80 < length packed \<and>
         packed ! cublaslt_scale_offset out block 80 = map of_nat [0..<650] ! (out * (80 div 16) + block)"
    using cublaslt_scales_lossless [of 80 "map of_nat [0..<650]" 130] len by (auto simp: i64_max_def)
  have at: "packed ! cublaslt_scale_offset out block 80 = of_nat (out * 5 + block)" if "out < 130" "block < 5" for out block
    using p(3) that by simp
  show ?thesis
    using p(1,2) at [of 0 0] at [of 1 0] at [of 32 0] at [of 0 3] by (simp add: offs del: One_nat_def)
qed

theorem quantize_then_dequantize_witness:
  "\<exists>l. quantize_values demo_float 4 (ascii ''q'') 2 32 (\<lambda>_. 0) = Some (Ok l) \<and>
     length (dequantize_to_f32_col_major demo_float l) = 64 \<and>
     (let scale = e4m3_value demo_float (block_scale_code demo_float (\<lambda>_. 0) 48)
      in dequantize_to_f32_col_major demo_float l ! 49 =
           mul demo_float (e2m1_value (element_code demo_float scale 0)) scale)"
proof -
  have "\<exists>l. quantize_values demo_float 4 (ascii ''q'') 2 32 (\<lambda>_. 0) = Some (Ok l) \<and>
    l = quantized demo_float (ascii ''q'') 2 32 (\<lambda>_. 0) \<and> length (dequantize_to_f32_col_major demo_float l) = 2 * 32 \<and>
    (let flat = 1 * 32 + 17;
         scale = e4m3_value demo_float (block_scale_code demo_float (\<lambda>_. 0) (flat div 16 * 16))
     in dequantize_to_f32_col_major demo_float l ! (17 + 1 * 32) = mul demo_float (e2m1_value (element_code demo_float scale 0)) scale)"
    by (rule quantize_then_dequantize) (simp_all add: usize_max_def)
  then show ?thesis by (auto simp: Let_def)
qed

theorem concat_dequantizes_both_witness:
  "\<exists>l. nvfp4_concat_out_features (ascii ''c'') demo_a demo_a = Ok l \<and>
     dequantize_to_f32_col_major demo_float l = dequantize_to_f32_col_major demo_float demo_a @ dequantize_to_f32_col_major demo_float demo_a"
proof -
  have "f32_eq f32_one f32_one" by (simp add: f32_eq_def f32_is_nan_def f32_one_def)
  then have ok: "nvfp4_concat_out_features (ascii ''c'') demo_a demo_a = Ok \<lparr>linear_prefix = ascii ''c'', out_features = 2, in_features = 16,
      packed_weight = packed_weight demo_a @ packed_weight demo_a, weight_scale = weight_scale demo_a @ weight_scale demo_a,
      weight_scale_2 = f32_one, input_scale = f32_one\<rparr>"
    by (simp add: nvfp4_concat_out_features_def demo_a_def)
  show ?thesis
    using ok concat_dequantizes_both [OF ok, of demo_float] by (simp add: demo_a_def usize_max_def)
qed

end
